(* ===== verification/Prelude.thy ===== *)
theory Prelude
  imports Main "HOL-Library.Word"
begin

unbundle bit_operations_syntax

text \<open>
  Shared vocabulary of the development: the machine types of the C++ code, the outcome of
  a fallible operation, checked access to memory buffers, and the loop combinator that the
  \<open>for\<close> loops of the components are translated to, with its invariant rule.

  A \<open>std::string\<close> that holds text (configuration strings, command line arguments, log
  messages) is a \<open>string\<close>; one that holds a binary buffer (datagrams, keys, client
  identifiers) is a list of 8-bit words. The code never uses one string for both, except
  that a password is text that the standard hash turns into a machine word.
\<close>

text \<open>The laws by which outcomes and loops compose, collected for the component proofs.\<close>

named_theorems result_laws

section \<open>Machine types\<close>

type_synonym byte = "8 word"
type_synonym bytes = "8 word list"
type_synonym u16 = "16 word"
type_synonym u32 = "32 word"
type_synonym u64 = "64 word"

section \<open>Outcomes\<close>

text \<open>
  An exception of the code is an \<open>Inl\<close> value that carries the exception class and its
  message. \<open>Undefined_behaviour\<close> marks an access that the language gives no meaning
  (reading or writing outside a buffer, a null dereference, erasing the end iterator):
  a theorem that an operation returns \<open>Inr\<close> therefore also says that it is free of it.
  \<open>Terminated\<close> is \<open>std::terminate\<close>, called when an exception leaves a \<open>noexcept\<close> function.
\<close>

datatype error =
    Invalid_argument string
  | Runtime_error string
  | Out_of_range string
  | Logic_error string
  | Overflow_error string
  | Undefined_behaviour string
  | Terminated

type_synonym 'a result = "error + 'a"

definition bindR :: "'a result \<Rightarrow> ('a \<Rightarrow> 'b result) \<Rightarrow> 'b result" where
  "bindR r f = (case r of Inl e \<Rightarrow> Inl e | Inr x \<Rightarrow> f x)"

lemma bindR_simps [simp]:
  "bindR (Inl e) f = Inl e"
  "bindR (Inr x) f = f x"
  by (simp_all add: bindR_def)

lemma bindR_eq_Inr_iff: "bindR r f = Inr y \<longleftrightarrow> (\<exists>x. r = Inr x \<and> f x = Inr y)"
  by (cases r) simp_all

lemma bindR_eq_InrE:
  assumes "bindR r f = Inr y"
  obtains x where "r = Inr x" and "f x = Inr y"
  using assms by (auto simp: bindR_eq_Inr_iff)

lemma bindR_eq_Inl_iff: "bindR r f = Inl e \<longleftrightarrow> r = Inl e \<or> (\<exists>x. r = Inr x \<and> f x = Inl e)"
  by (cases r) auto

lemma bindR_Inr_id [simp]: "bindR r Inr = r"
  by (cases r) simp_all

lemma bindR_assoc [result_laws]: "bindR (bindR r f) g = bindR r (\<lambda>x. bindR (f x) g)"
  by (cases r) simp_all

lemma bindR_cong [fundef_cong]:
  "r = r' \<Longrightarrow> (\<And>x. r' = Inr x \<Longrightarrow> f x = g x) \<Longrightarrow> bindR r f = bindR r' g"
  by (cases r') auto

section \<open>Loops over an index range\<close>

text \<open>
  \<open>loopR body is s\<close> is \<open>for (i : is) s = body(i, s)\<close>: the state is threaded through the
  indices in order and the first failure ends the loop.
\<close>

fun loopR :: "('i \<Rightarrow> 's \<Rightarrow> 's result) \<Rightarrow> 'i list \<Rightarrow> 's \<Rightarrow> 's result" where
  "loopR f [] s = Inr s"
| "loopR f (i # is) s = bindR (f i s) (loopR f is)"

lemma loopR_cong [fundef_cong]:
  "is = js \<Longrightarrow> s = t \<Longrightarrow> (\<And>i u. i \<in> set js \<Longrightarrow> f i u = g i u) \<Longrightarrow> loopR f is s = loopR g js t"
proof (induction "is" arbitrary: js s t)
  case (Cons a "is")
  have "bindR (g a t) (loopR f is) = bindR (g a t) (loopR g is)"
    using Cons.prems Cons.IH [OF refl refl] by (intro bindR_cong) auto
  then show ?case using Cons.prems by auto
qed auto

lemma loopR_append [result_laws]: "loopR f (is @ js) s = bindR (loopR f is s) (loopR f js)"
  by (induction "is" arbitrary: s) (auto simp: bindR_assoc intro: bindR_cong)

lemma loopR_upt_invariant:
  assumes step: "\<And>i s. m \<le> i \<Longrightarrow> i < n \<Longrightarrow> P i s \<Longrightarrow> \<exists>s'. f i s = Inr s' \<and> P (Suc i) s'"
    and start: "P m s" and le: "m \<le> n"
  shows "\<exists>s'. loopR f [m..<n] s = Inr s' \<and> P n s'"
  using le step
proof (induction n rule: dec_induct)
  case base
  then show ?case using start by simp
next
  case (step k)
  have "\<exists>s'. loopR f [m..<k] s = Inr s' \<and> P k s'"
    by (rule step.IH) (use step.prems in auto)
  then obtain s1 where s1: "loopR f [m..<k] s = Inr s1" "P k s1" by blast
  from step.prems [of k s1] step.hyps s1(2) obtain s2 where "f k s1 = Inr s2" "P (Suc k) s2"
    by auto
  with s1 step.hyps show ?case
    by (simp add: loopR_append)
qed

lemma loopR_upt_exact:
  assumes step: "\<And>i. m \<le> i \<Longrightarrow> i < n \<Longrightarrow> f i (g i) = Inr (g (Suc i))"
    and le: "m \<le> n"
  shows "loopR f [m..<n] (g m) = Inr (g n)"
  using loopR_upt_invariant [of m n "\<lambda>i s. s = g i" f "g m"] step le by auto

text \<open>Applying a fallible conversion to every element, in order, up to the first failure.\<close>

fun mapR :: "('a \<Rightarrow> 'b result) \<Rightarrow> 'a list \<Rightarrow> 'b list result" where
  "mapR f [] = Inr []"
| "mapR f (x # xs) = bindR (f x) (\<lambda>y. bindR (mapR f xs) (\<lambda>ys. Inr (y # ys)))"

lemma mapR_append [result_laws]:
  "mapR f (xs @ ys) = bindR (mapR f xs) (\<lambda>us. bindR (mapR f ys) (\<lambda>vs. Inr (us @ vs)))"
  by (induction xs) (auto simp: bindR_assoc intro: bindR_cong)

lemma loopR_map [result_laws]: "loopR f (map g xs) s = loopR (\<lambda>x. f (g x)) xs s"
  by (induction xs arbitrary: s) (auto intro: bindR_cong)

section \<open>Checked access to a buffer\<close>

text \<open>
  \<open>memcpy\<close> from and to a buffer of known length: within the bounds it copies, outside
  them it has no defined meaning.
\<close>

definition read_at :: "bytes \<Rightarrow> nat \<Rightarrow> nat \<Rightarrow> bytes result" where
  "read_at buf off n =
     (if off + n \<le> length buf then Inr (take n (drop off buf))
      else Inl (Undefined_behaviour ''read outside the buffer''))"

definition write_at :: "bytes \<Rightarrow> nat \<Rightarrow> bytes \<Rightarrow> bytes result" where
  "write_at buf off bs =
     (if off + length bs \<le> length buf
      then Inr (take off buf @ bs @ drop (off + length bs) buf)
      else Inl (Undefined_behaviour ''write outside the buffer''))"

lemma read_at_inside [simp]:
  "off + n \<le> length buf \<Longrightarrow> read_at buf off n = Inr (take n (drop off buf))"
  by (simp add: read_at_def)

lemma write_at_inside [simp]:
  "off + length bs \<le> length buf \<Longrightarrow>
     write_at buf off bs = Inr (take off buf @ bs @ drop (off + length bs) buf)"
  by (simp add: write_at_def)

lemma write_at_length:
  "write_at buf off bs = Inr buf' \<Longrightarrow> length buf' = length buf"
  by (auto simp: write_at_def split: if_splits)

lemma read_at_length: "read_at buf off n = Inr bs \<Longrightarrow> length bs = n"
  by (auto simp: read_at_def split: if_splits)

section \<open>Bytes of a machine word\<close>

text \<open>
  \<open>byte_at k w\<close> is byte \<open>k\<close> of the little-endian image of a 32-bit word, and
  \<open>word_of_bytes\<close> the word whose image is the given four bytes: the two directions of
  the \<open>memcpy\<close> calls between words and byte buffers on a little-endian host.
\<close>

definition byte_at :: "nat \<Rightarrow> u32 \<Rightarrow> byte" where
  "byte_at k w = ucast (drop_bit (8 * k) w)"

definition word_of_bytes :: "byte \<Rightarrow> byte \<Rightarrow> byte \<Rightarrow> byte \<Rightarrow> u32" where
  "word_of_bytes b0 b1 b2 b3 =
     ucast b0 OR push_bit 8 (ucast b1) OR push_bit 16 (ucast b2) OR push_bit 24 (ucast b3)"

lemma byte_at_word_of_bytes [simp]:
  "byte_at 0 (word_of_bytes b0 b1 b2 b3) = b0"
  "byte_at (Suc 0) (word_of_bytes b0 b1 b2 b3) = b1"
  "byte_at 2 (word_of_bytes b0 b1 b2 b3) = b2"
  "byte_at 3 (word_of_bytes b0 b1 b2 b3) = b3"
  by (rule bit_word_eqI; auto simp: byte_at_def word_of_bytes_def bit_simps dest: bit_imp_le_length)+

lemma word_of_bytes_byte_at:
  "word_of_bytes (byte_at 0 w) (byte_at 1 w) (byte_at 2 w) (byte_at 3 w) = w"
proof (rule bit_word_eqI)
  fix n
  assume "n < LENGTH(32)"
  then consider "n < 8" | "8 \<le> n \<and> n < 16" | "16 \<le> n \<and> n < 24" | "24 \<le> n \<and> n < 32"
    by fastforce
  then show "bit (word_of_bytes (byte_at 0 w) (byte_at 1 w) (byte_at 2 w) (byte_at 3 w)) n
      \<longleftrightarrow> bit w n"
    by cases (auto simp: byte_at_def word_of_bytes_def bit_simps)
qed

lemma word_eq_by_bytes:
  assumes "byte_at 0 v = byte_at 0 w" "byte_at 1 v = byte_at 1 w"
    "byte_at 2 v = byte_at 2 w" "byte_at 3 v = byte_at 3 w"
  shows "v = w"
  using assms word_of_bytes_byte_at [of v] word_of_bytes_byte_at [of w] by metis

lemma word_of_bytes_exhaust:
  obtains b0 b1 b2 b3 where "w = word_of_bytes b0 b1 b2 b3"
  using word_of_bytes_byte_at [of w] by metis

lemma word_of_bytes_inject [simp]:
  "word_of_bytes a b c d = word_of_bytes a' b' c' d' \<longleftrightarrow> a = a' \<and> b = b' \<and> c = c' \<and> d = d'"
proof
  assume eq: "word_of_bytes a b c d = word_of_bytes a' b' c' d'"
  show "a = a' \<and> b = b' \<and> c = c' \<and> d = d'"
    using arg_cong [OF eq, of "byte_at 0"] arg_cong [OF eq, of "byte_at (Suc 0)"]
      arg_cong [OF eq, of "byte_at 2"] arg_cong [OF eq, of "byte_at 3"]
    by simp
qed simp

lemma byte_at_xor: "byte_at k (v XOR w) = byte_at k v XOR byte_at k w"
  by (rule bit_word_eqI) (simp add: byte_at_def bit_simps)

lemma byte_at_or: "byte_at k (v OR w) = byte_at k v OR byte_at k w"
  by (rule bit_word_eqI) (simp add: byte_at_def bit_simps)

lemma byte_at_and: "byte_at k (v AND w) = byte_at k v AND byte_at k w"
  by (rule bit_word_eqI) (simp add: byte_at_def bit_simps)

lemma word_of_bytes_xor:
  "word_of_bytes a b c d XOR word_of_bytes a' b' c' d' =
     word_of_bytes (a XOR a') (b XOR b') (c XOR c') (d XOR d')"
  by (rule word_eq_by_bytes) (simp_all add: byte_at_xor)

lemma xor_cancel [simp]:
  "(a :: 'a::len word) XOR a = 0"
  "(a :: 'a::len word) XOR (a XOR b) = b"
  "(b XOR a) XOR a = (b :: 'a::len word)"
  by (simp_all add: xor.assoc)

lemma unat_byte_less [simp]: "unat (b :: byte) < 256"
proof -
  have "unat b < 2 ^ LENGTH(8)" by (rule unsigned_less)
  then show ?thesis by simp
qed

lemma unat_ucast_byte_64 [simp]: "unat (ucast (b :: byte) :: u64) = unat b"
proof -
  have "unat b < 2 ^ 64" using unat_byte_less [of b] by (simp del: unat_byte_less)
  then show ?thesis by (simp add: unsigned_ucast_eq take_bit_nat_eq_self)
qed

section \<open>Little-endian images of 64-bit words\<close>

definition le_bytes :: "nat \<Rightarrow> u64 \<Rightarrow> bytes" where
  "le_bytes n w = map (\<lambda>k. ucast (drop_bit (8 * k) w)) [0..<n]"

fun le_value :: "bytes \<Rightarrow> u64" where
  "le_value [] = 0"
| "le_value (b # bs) = ucast b OR push_bit 8 (le_value bs)"

lemma length_le_bytes [simp]: "length (le_bytes n w) = n"
  by (simp add: le_bytes_def)

lemma le_bytes_Suc: "le_bytes (Suc n) w = ucast w # le_bytes n (drop_bit 8 w)"
  by (simp add: le_bytes_def upt_conv_Cons map_Suc_upt [symmetric] add.commute del: upt_Suc)

lemma le_value_le_bytes: "le_value (le_bytes n w) = take_bit (8 * n) w"
proof (induction n arbitrary: w)
  case 0
  then show ?case by (simp add: le_bytes_def)
next
  case (Suc n)
  show ?case
    by (rule bit_word_eqI) (auto simp: le_bytes_Suc Suc.IH bit_simps)
qed

lemma take_bit_64 [simp]: "take_bit 64 (w :: u64) = w"
  by (rule bit_word_eqI) (simp add: bit_simps)

lemma le_value_le_bytes_8 [simp]: "le_value (le_bytes 8 w) = w"
  by (simp add: le_value_le_bytes)

lemma le_bytes_inject [simp]: "le_bytes 8 v = le_bytes 8 w \<longleftrightarrow> v = w"
  by (metis le_value_le_bytes_8)

lemma le_value_byte_low: "ucast (ucast b OR push_bit 8 w :: u64) = (b :: byte)"
  by (rule bit_word_eqI) (auto simp: bit_simps)

lemma le_bytes_le_value: "length bs \<le> 8 \<Longrightarrow> le_bytes (length bs) (le_value bs) = bs"
proof (induction bs)
  case (Cons b bs)
  have small: "le_value bs = take_bit (8 * length bs) (le_value bs)"
    using Cons le_value_le_bytes [of "length bs" "le_value bs"] by simp
  have "drop_bit 8 (ucast b OR push_bit 8 (le_value bs)) = le_value bs"
  proof (rule bit_word_eqI)
    fix n assume "n < LENGTH(64)"
    have "bit (le_value bs) n \<Longrightarrow> n < 56"
      using Cons.prems by (subst (asm) small) (auto simp: bit_simps)
    then show "bit (drop_bit 8 (ucast b OR push_bit 8 (le_value bs))) n = bit (le_value bs) n"
      by (auto simp: bit_simps dest: bit_imp_le_length)
  qed
  with Cons show ?case by (simp add: le_bytes_Suc le_value_byte_low)
qed (simp add: le_bytes_def)

section \<open>Lists\<close>

lemma list_of_length_4:
  assumes "length xs = 4"
  obtains a b c d where "xs = [a, b, c, d]"
  using assms by (auto simp: numeral_eq_Suc length_Suc_conv)

lemma take_drop_append_exact:
  "length xs = n \<Longrightarrow> take m (drop n (xs @ ys)) = take m ys"
  by simp

end
