(* ===== verification/Rstring.thy ===== *)
theory Rstring
  imports Prelude "HOL-Library.Char_ord" "HOL-Library.Sublist"
begin

text \<open>
  The string class of \<open>src/src/lib/rlib/string.hpp\<close>: searching, splitting, joining,
  stripping, replacing, prefix tests, conversions and the \<open>{}\<close> formatter.

  The search and slicing members of \<open>std::string\<close> come first (\<open>find\<close>, \<open>substr\<close>, \<open>erase\<close>),
  then the members the class adds. A loop that advances by the length of a caller-supplied
  string need not end; it is a \<open>partial_function\<close> whose value \<open>None\<close> means that the call
  does not return.
\<close>

section \<open>Members of the standard string\<close>

definition find_char :: "char \<Rightarrow> string \<Rightarrow> nat \<Rightarrow> nat option" where
  "find_char c s pos = List.find (\<lambda>i. s ! i = c) [pos..<length s]"

definition find_str :: "string \<Rightarrow> string \<Rightarrow> nat \<Rightarrow> nat option" where
  "find_str what s pos =
     List.find (\<lambda>i. take (length what) (drop i s) = what) [pos..<Suc (length s) - length what]"

definition substr :: "'a list \<Rightarrow> nat \<Rightarrow> nat \<Rightarrow> 'a list result" where
  "substr s pos n =
     (if pos > length s then Inl (Out_of_range ''basic_string::substr'')
      else Inr (take n (drop pos s)))"

definition substr_from :: "'a list \<Rightarrow> nat \<Rightarrow> 'a list result" where
  "substr_from s pos = substr s pos (length s)"

definition erase :: "string \<Rightarrow> nat \<Rightarrow> nat \<Rightarrow> string result" where
  "erase s pos n =
     (if pos > length s then Inl (Out_of_range ''basic_string::erase'')
      else Inr (take pos s @ drop (pos + n) s))"

lemma substr_inside [simp]: "pos \<le> length s \<Longrightarrow> substr s pos n = Inr (take n (drop pos s))"
  by (simp add: substr_def)

lemma substr_from_inside [simp]: "pos \<le> length s \<Longrightarrow> substr_from s pos = Inr (drop pos s)"
  by (simp add: substr_from_def)

lemma erase_inside [simp]: "pos \<le> length s \<Longrightarrow> erase s pos n = Inr (take pos s @ drop (pos + n) s)"
  by (simp add: erase_def)

lemma find_upt_SomeD:
  assumes "List.find P [m..<n] = Some k"
  shows "m \<le> k" "k < n" "P k" "\<And>j. m \<le> j \<Longrightarrow> j < k \<Longrightarrow> \<not> P j"
proof -
  from assms obtain i where i: "i < n - m" "k = [m..<n] ! i" "P k" "\<And>j. j < i \<Longrightarrow> \<not> P ([m..<n] ! j)"
    by (auto simp: find_Some_iff)
  then show "m \<le> k" "k < n" "P k" by auto
  fix j assume "m \<le> j" "j < k"
  with i(1,2) i(4) [of "j - m"] show "\<not> P j" by simp
qed

lemma find_upt_NoneD: "List.find P [m..<n] = None \<Longrightarrow> m \<le> j \<Longrightarrow> j < n \<Longrightarrow> \<not> P j"
  by (auto simp: find_None_iff)

lemma find_char_SomeD:
  assumes "find_char c s pos = Some k"
  shows "pos \<le> k" "k < length s" "s ! k = c" "c \<notin> set (take (k - pos) (drop pos s))"
proof -
  note f = find_upt_SomeD [OF assms [unfolded find_char_def]]
  show "pos \<le> k" "k < length s" "s ! k = c" by (fact f)+
  show "c \<notin> set (take (k - pos) (drop pos s))"
  proof
    assume "c \<in> set (take (k - pos) (drop pos s))"
    then obtain i where "i < k - pos" "s ! (pos + i) = c"
      using f(2) by (auto simp: in_set_conv_nth)
    moreover have "pos + i < k" using \<open>i < k - pos\<close> by simp
    ultimately show False using f(4) [of "pos + i"] by simp
  qed
qed

lemma find_char_bounds: "find_char c s pos = Some k \<Longrightarrow> pos \<le> k \<and> k < length s"
  using find_char_SomeD by blast

lemma find_char_NoneD:
  assumes "find_char c s pos = None"
  shows "c \<notin> set (drop pos s)"
proof
  assume "c \<in> set (drop pos s)"
  then obtain i where "pos + i < length s" "s ! (pos + i) = c"
    unfolding in_set_conv_nth by (metis add.commute length_drop less_diff_conv nth_drop order_less_imp_le
      add_lessD1 linorder_not_less drop_eq_Nil list.size(3) not_less_zero)
  with find_upt_NoneD [OF assms [unfolded find_char_def], of "pos + i"] show False by simp
qed

lemma find_str_SomeD:
  assumes "find_str what s pos = Some k"
  shows "pos \<le> k" "k + length what \<le> length s" "take (length what) (drop k s) = what"
  using find_upt_SomeD [OF assms [unfolded find_str_def]] by auto

lemma find_str_bounds:
  "find_str what s pos = Some k \<Longrightarrow> pos \<le> k \<and> k + length what \<le> length s"
  using find_str_SomeD by blast

lemma find_str_firstD:
  "find_str what s pos = Some k \<Longrightarrow> pos \<le> j \<Longrightarrow> j < k \<Longrightarrow> take (length what) (drop j s) \<noteq> what"
  using find_upt_SomeD(4) [of _ pos "Suc (length s) - length what" k j] by (simp add: find_str_def)

lemma find_str_NoneD:
  "find_str what s pos = None \<Longrightarrow> pos \<le> j \<Longrightarrow> j + length what \<le> length s \<Longrightarrow>
     take (length what) (drop j s) \<noteq> what"
  unfolding find_str_def by (drule find_upt_NoneD [where j = j]) simp_all

section \<open>Splitting\<close>

function split_loop :: "char \<Rightarrow> string \<Rightarrow> nat \<Rightarrow> nat \<Rightarrow> string list \<Rightarrow> string list result" where
  "split_loop divider s cur prev buf =
     (case find_char divider s cur of
        Some k \<Rightarrow> bindR (substr s prev (k - prev)) (\<lambda>piece.
                    split_loop divider s (k + 1) (k + 1) (buf @ [piece]))
      | None \<Rightarrow> bindR (substr_from s prev) (\<lambda>piece. Inr (buf @ [piece])))"
  by pat_completeness auto
termination
  by (relation "measure (\<lambda>(divider, s, cur, prev, buf). length s - cur)")
    (auto dest!: find_char_bounds)

declare split_loop.simps [simp del]

definition split :: "char \<Rightarrow> string \<Rightarrow> string list result" where
  "split divider s = split_loop divider s 0 0 []"

partial_function (option) split_str_loop ::
  "string \<Rightarrow> string \<Rightarrow> nat \<Rightarrow> nat \<Rightarrow> string list \<Rightarrow> string list result option" where
  "split_str_loop divider s cur prev buf =
     (case find_str divider s cur of
        Some k \<Rightarrow> (case substr s prev (k - prev) of
            Inl e \<Rightarrow> Some (Inl e)
          | Inr piece \<Rightarrow>
              split_str_loop divider s (k + length divider) (k + length divider) (buf @ [piece]))
      | None \<Rightarrow> Some (bindR (substr_from s prev) (\<lambda>piece. Inr (buf @ [piece]))))"

definition split_str :: "string \<Rightarrow> string \<Rightarrow> string list result option" where
  "split_str divider s = split_str_loop divider s 0 0 []"

function split_as_loop ::
  "(string \<Rightarrow> 'a result) \<Rightarrow> char \<Rightarrow> string \<Rightarrow> nat \<Rightarrow> nat \<Rightarrow> 'a list \<Rightarrow> 'a list result" where
  "split_as_loop as divider s cur prev buf =
     (case find_char divider s cur of
        Some k \<Rightarrow> bindR (substr s prev (k - prev)) (\<lambda>piece. bindR (as piece) (\<lambda>x.
                    split_as_loop as divider s (k + 1) (k + 1) (buf @ [x])))
      | None \<Rightarrow> bindR (substr_from s prev) (\<lambda>piece. bindR (as piece) (\<lambda>x. Inr (buf @ [x]))))"
  by pat_completeness auto
termination
  by (relation "measure (\<lambda>(as, divider, s, cur, prev, buf). length s - cur)")
    (auto dest!: find_char_bounds)

declare split_as_loop.simps [simp del]

definition split_as :: "(string \<Rightarrow> 'a result) \<Rightarrow> char \<Rightarrow> string \<Rightarrow> 'a list result" where
  "split_as as divider s = split_as_loop as divider s 0 0 []"

text \<open>The loop does not end for an empty divider.\<close>

partial_function (option) split_as_str_loop ::
  "(string \<Rightarrow> 'a result) \<Rightarrow> string \<Rightarrow> string \<Rightarrow> nat \<Rightarrow> nat \<Rightarrow> 'a list \<Rightarrow> 'a list result option" where
  "split_as_str_loop as divider s cur prev buf =
     (case find_str divider s cur of
        Some k \<Rightarrow> (case bindR (substr s prev (k - prev)) as of
            Inl e \<Rightarrow> Some (Inl e)
          | Inr x \<Rightarrow>
              split_as_str_loop as divider s (k + length divider) (k + length divider) (buf @ [x]))
      | None \<Rightarrow> Some (bindR (bindR (substr_from s prev) as) (\<lambda>x. Inr (buf @ [x]))))"

definition split_as_str :: "(string \<Rightarrow> 'a result) \<Rightarrow> string \<Rightarrow> string \<Rightarrow> 'a list result option" where
  "split_as_str as divider s = split_as_str_loop as divider s 0 0 []"

section \<open>Joining\<close>

definition join :: "string \<Rightarrow> string list \<Rightarrow> string" where
  "join sep buffer = fst (fold (\<lambda>item (acc, first).
       ((if first then acc else acc @ sep) @ item, False)) buffer ([], True))"

section \<open>Stripping\<close>

definition find_first_not_of :: "string \<Rightarrow> string \<Rightarrow> nat option" where
  "find_first_not_of stripped s = List.find (\<lambda>i. s ! i \<notin> set stripped) [0..<length s]"

definition find_last_not_of :: "string \<Rightarrow> string \<Rightarrow> nat option" where
  "find_last_not_of stripped s = List.find (\<lambda>i. s ! i \<notin> set stripped) (rev [0..<length s])"

definition strip_of :: "string \<Rightarrow> string \<Rightarrow> string result" where
  "strip_of stripped s =
     (case find_first_not_of stripped s of
        None \<Rightarrow> Inr []
      | Some begin \<Rightarrow>
          (case find_last_not_of stripped s of
             None \<Rightarrow> Inl (Out_of_range ''basic_string::erase'')
           | Some last_pos \<Rightarrow>
               bindR (erase s (last_pos + 1) (length s - last_pos - 1)) (\<lambda>s'. erase s' 0 begin)))"

definition strip :: "string \<Rightarrow> string result" where
  "strip s = strip_of [CHR '' '', CHR 0x09, CHR 0x0D, CHR 0x0A] s"

section \<open>Replacing\<close>

definition std_replace :: "string \<Rightarrow> nat \<Rightarrow> nat \<Rightarrow> string \<Rightarrow> string" where
  "std_replace s pos n to = take pos s @ to @ drop (pos + n) s"

partial_function (option) replace_loop ::
  "string \<Rightarrow> string \<Rightarrow> string \<Rightarrow> nat \<Rightarrow> nat \<Rightarrow> (string \<times> nat) option" where
  "replace_loop from_str to s start_pos n_times =
     (case find_str from_str s start_pos of
        None \<Rightarrow> Some (s, n_times)
      | Some k \<Rightarrow> replace_loop from_str to (std_replace s k (length from_str) to)
                    (k + length to) (n_times + 1))"

text \<open>
  The out-parameter \<open>out_times\<close> keeps its old value when \<open>from\<close> is empty: the caller's
  value is the last argument.
\<close>

definition replace_times :: "string \<Rightarrow> string \<Rightarrow> string \<Rightarrow> nat \<Rightarrow> (string \<times> nat) option" where
  "replace_times from_str to s out_times =
     (if from_str = [] then Some (s, out_times) else replace_loop from_str to s 0 0)"

definition replace :: "string \<Rightarrow> string \<Rightarrow> string \<Rightarrow> string option" where
  "replace from_str to s = map_option fst (replace_times from_str to s 0)"

definition replace_once_flag :: "string \<Rightarrow> string \<Rightarrow> string \<Rightarrow> string \<times> bool" where
  "replace_once_flag from_str to s =
     (case find_str from_str s 0 of
        None \<Rightarrow> (s, False)
      | Some k \<Rightarrow> (std_replace s k (length from_str) to, True))"

definition replace_once :: "string \<Rightarrow> string \<Rightarrow> string \<Rightarrow> string" where
  "replace_once from_str to s = fst (replace_once_flag from_str to s)"

section \<open>Prefix and suffix tests\<close>

definition char_bits :: "char \<Rightarrow> byte" where
  "char_bits c = of_char c"

definition starts_with :: "string \<Rightarrow> string \<Rightarrow> bool" where
  "starts_with s what =
     (if length s < length what then False
      else fold (\<lambda>i diffBits. diffBits OR (char_bits (what ! i) XOR char_bits (s ! i)))
             [0..<length what] 0 = 0)"

definition ends_with :: "string \<Rightarrow> string \<Rightarrow> bool" where
  "ends_with s what =
     (if length s < length what then False
      else (let offset = length s - length what in
        fold (\<lambda>i diffBits. diffBits OR (char_bits (what ! i) XOR char_bits (s ! (offset + i))))
             [0..<length what] 0 = 0))"

section \<open>Conversions\<close>

text \<open>
  The standard conversions parse white space, an optional sign and decimal digits and
  ignore what follows. \<open>unsigned long\<close> has 64 bits; a negative number is converted by
  negating its magnitude as an unsigned number, and the narrower unsigned types take the
  low bits of the result.
\<close>

definition isspace :: "char \<Rightarrow> bool" where
  "isspace c = (c = CHR '' '' \<or> 9 \<le> (of_char c :: nat) \<and> (of_char c :: nat) \<le> 13)"

definition isdigit :: "char \<Rightarrow> bool" where
  "isdigit c = (48 \<le> (of_char c :: nat) \<and> (of_char c :: nat) \<le> 57)"

definition digits_value :: "string \<Rightarrow> nat" where
  "digits_value ds = foldl (\<lambda>n c. 10 * n + (of_char c - 48)) 0 ds"

definition parse_sign :: "string \<Rightarrow> bool \<times> string" where
  "parse_sign s = (case s of
       CHR ''-'' # r \<Rightarrow> (True, r)
     | CHR ''+'' # r \<Rightarrow> (False, r)
     | _ \<Rightarrow> (False, s))"

definition parse_integer :: "string \<Rightarrow> (bool \<times> nat) option" where
  "parse_integer s =
     (let (neg, r) = parse_sign (dropWhile isspace s); ds = takeWhile isdigit r
      in if ds = [] then None else Some (neg, digits_value ds))"

definition stoul :: "string \<Rightarrow> u64 result" where
  "stoul s =
     (case parse_integer s of
        None \<Rightarrow> Inl (Invalid_argument ''stoul'')
      | Some (neg, n) \<Rightarrow>
          if n \<ge> 2 ^ 64 then Inl (Out_of_range ''stoul'')
          else Inr (if neg then - of_nat n else of_nat n))"

definition stoi :: "string \<Rightarrow> int result" where
  "stoi s =
     (case parse_integer s of
        None \<Rightarrow> Inl (Invalid_argument ''stoi'')
      | Some (neg, n) \<Rightarrow>
          let v = (if neg then - int n else int n)
          in if v < - (2 ^ 31) \<or> v \<ge> 2 ^ 31 then Inl (Out_of_range ''stoi'') else Inr v)"

definition stoll :: "string \<Rightarrow> string \<Rightarrow> int result" where
  "stoll name s =
     (case parse_integer s of
        None \<Rightarrow> Inl (Invalid_argument name)
      | Some (neg, n) \<Rightarrow>
          let v = (if neg then - int n else int n)
          in if v < - (2 ^ 63) \<or> v \<ge> 2 ^ 63 then Inl (Out_of_range name) else Inr v)"

definition as_char :: "string \<Rightarrow> char result" where
  "as_char s =
     (if length s > 1
      then Inl (Invalid_argument ''Can not convert rlib::string to char: size() > 1.'')
      else Inr (if length s = 0 then CHR 0x00 else hd s))"

definition as_bool :: "string \<Rightarrow> bool result" where
  "as_bool s =
     (if s = ''true'' then Inr True
      else if s = ''false'' then Inr False
      else if s = ''1'' \<or> s = ''True'' \<or> s = ''TRUE'' then Inr True
      else if s = ''0'' \<or> s = ''False'' \<or> s = ''FALSE'' then Inr False
      else Inl (Invalid_argument
             ''Can not convert rlib::string to bool. Not matching any template.''))"

definition as_ulong :: "string \<Rightarrow> u64 result" where
  "as_ulong s = (if s = [] then Inr 0 else stoul s)"

definition as_int :: "string \<Rightarrow> int result" where
  "as_int s = (if s = [] then Inr 0 else stoi s)"

text \<open>\<open>long\<close> and \<open>long long\<close> both have 64 bits.\<close>

definition as_long :: "string \<Rightarrow> int result" where
  "as_long s = (if s = [] then Inr 0 else stoll ''stol'' s)"

definition as_longlong :: "string \<Rightarrow> int result" where
  "as_longlong s = (if s = [] then Inr 0 else stoll ''stoll'' s)"

definition as_ulonglong :: "string \<Rightarrow> u64 result" where
  "as_ulonglong s = (if s = [] then Inr 0 else
     (case parse_integer s of
        None \<Rightarrow> Inl (Invalid_argument ''stoull'')
      | Some (neg, n) \<Rightarrow>
          if n \<ge> 2 ^ 64 then Inl (Out_of_range ''stoull'')
          else Inr (if neg then - of_nat n else of_nat n)))"

definition as_uint :: "string \<Rightarrow> u32 result" where
  "as_uint s = bindR (as_ulong s) (\<lambda>v. Inr (ucast v))"

definition as_ushort :: "string \<Rightarrow> u16 result" where
  "as_ushort s = bindR (as_ulong s) (\<lambda>v. Inr (ucast v))"

definition as_uint8 :: "string \<Rightarrow> byte result" where
  "as_uint8 s = bindR (as_ulong s) (\<lambda>v. Inr (ucast v))"

definition as_short :: "string \<Rightarrow> int result" where
  "as_short s = bindR (as_int s) (\<lambda>v. Inr (signed_take_bit 15 v))"

definition as_int8 :: "string \<Rightarrow> int result" where
  "as_int8 s = bindR (as_int s) (\<lambda>v. Inr (signed_take_bit 7 v))"

fun to_string :: "nat \<Rightarrow> string" where
  "to_string n =
     (if n < 10 then [char_of (48 + n)] else to_string (n div 10) @ [char_of (48 + n mod 10)])"

declare to_string.simps [simp del]

section \<open>Formatting\<close>

text \<open>
  The arguments are already rendered to text by the stream operator. \<open>unescape_loop\<close> is
  the hand-written replacement of an escaped placeholder inside a literal piece.
\<close>

definition escaped_braces :: string where
  "escaped_braces = CHR 0x5C # ''{}''"

function unescape_loop :: "string \<Rightarrow> nat \<Rightarrow> string" where
  "unescape_loop s pos =
     (case find_str escaped_braces s pos of
        None \<Rightarrow> s
      | Some k \<Rightarrow> unescape_loop (take k s @ drop (k + 1) s) (k + 2))"
  by pat_completeness auto
termination
  by (relation "measure (\<lambda>(s, pos). length s - pos)")
    (auto simp: escaped_braces_def dest!: find_str_bounds)

declare unescape_loop.simps [simp del]

definition not_enough_message :: "string \<Rightarrow> nat \<Rightarrow> nat \<Rightarrow> string" where
  "not_enough_message fmt used n =
     ''format_string: not enough arguments for format string `'' @ fmt @
     ''`. Expecting at least '' @ to_string (used + 1) @ '', got '' @ to_string n"

definition too_many_message :: "string \<Rightarrow> nat \<Rightarrow> nat \<Rightarrow> string" where
  "too_many_message fmt used n =
     ''format_string: too many arguments for format string `'' @ fmt @
     ''`. Expecting '' @ to_string used @ '', got '' @ to_string n"

function format_loop ::
  "string \<Rightarrow> string list \<Rightarrow> nat \<Rightarrow> nat \<Rightarrow> nat \<Rightarrow> bool \<Rightarrow> string \<Rightarrow> string result" where
  "format_loop fmt args pos prev_pos used escaped ss =
     (case find_str ''{}'' fmt pos of
        Some k \<Rightarrow>
          if k \<noteq> 0 \<and> fmt ! (k - 1) = CHR 0x5C
          then format_loop fmt args (k + 2) prev_pos used True ss
          else bindR (substr fmt prev_pos (k - prev_pos)) (\<lambda>cutted.
            let cutted = (if escaped then unescape_loop cutted 0 else cutted) in
            if used \<ge> length args
            then Inl (Out_of_range (not_enough_message fmt used (length args)))
            else format_loop fmt args (k + 2) (k + 2) (used + 1) escaped (ss @ cutted @ args ! used))
      | None \<Rightarrow>
          if used \<noteq> length args
          then Inl (Out_of_range (too_many_message fmt used (length args)))
          else bindR (substr_from fmt prev_pos) (\<lambda>rest. Inr (ss @ rest)))"
  by pat_completeness auto
termination
  by (relation "measure (\<lambda>(fmt, args, pos, rest). length fmt - pos)")
    (auto dest!: find_str_bounds)

declare format_loop.simps [simp del]

definition format_string :: "string \<Rightarrow> string list \<Rightarrow> string result" where
  "format_string fmt args = format_loop fmt args 0 0 0 False []"

text \<open>
  The C variant formats into a buffer that starts with the length of the format string and
  is enlarged once to what \<open>vsnprintf\<close> asks for. The full output of \<open>vsnprintf\<close> for the
  arguments at hand is the parameter \<open>full\<close>, \<open>None\<close> when it reports an error.
\<close>

function format_c_loop :: "string option \<Rightarrow> nat \<Rightarrow> string result" where
  "format_c_loop full bufsize =
     (case full of
        None \<Rightarrow> Inl (Runtime_error ''vsnprintf returns -1'')
      | Some out \<Rightarrow>
          if length out < bufsize then Inr (take (bufsize - 1) out)
          else format_c_loop full (length out + 1))"
  by pat_completeness auto
termination
  by (relation "measure (\<lambda>(full, bufsize). case full of None \<Rightarrow> 0 | Some out \<Rightarrow> Suc (length out) - bufsize)")
    auto

declare format_c_loop.simps [simp del]

definition format_string_c :: "string \<Rightarrow> string option \<Rightarrow> string result" where
  "format_string_c fmt full = format_c_loop full (length fmt)"

section \<open>Prefix and suffix tests\<close>

lemma char_bits_inject: "char_bits c = char_bits d \<longleftrightarrow> c = d"
proof
  assume "char_bits c = char_bits d"
  then have "unat (char_bits c) = unat (char_bits d)" by simp
  moreover have "unat (char_bits x) = of_char x" for x
  proof -
    have "(of_char x :: nat) < 256" by simp
    moreover have "char_bits x = of_nat (of_char x)" by (simp only: char_bits_def of_nat_of_char)
    ultimately show ?thesis by (simp add: unat_of_nat)
  qed
  ultimately show "c = d" by simp
qed simp

lemma fold_or_eq_0:
  "fold (\<lambda>i d. d OR f i) xs a = 0 \<longleftrightarrow> a = 0 \<and> (\<forall>i \<in> set xs. f i = (0 :: 'a::len word))"
  by (induction xs arbitrary: a) (auto simp: or_eq_0_iff)

lemma xor_eq_0_iff: "(a :: 'a::len word) XOR b = 0 \<longleftrightarrow> a = b"
  by (metis xor_cancel(2) xor.right_neutral bit.xor_self)

lemma starts_with_prefix: "starts_with s what \<longleftrightarrow> prefix what s"
proof (cases "length s < length what")
  case False
  then have "starts_with s what \<longleftrightarrow> (\<forall>i < length what. what ! i = s ! i)"
    by (auto simp: starts_with_def fold_or_eq_0 xor_eq_0_iff char_bits_inject)
  also have "\<dots> \<longleftrightarrow> take (length what) s = what"
    using False by (auto simp: list_eq_iff_nth_eq)
  also have "\<dots> \<longleftrightarrow> prefix what s" by (metis append_eq_conv_conj prefix_def)
  finally show ?thesis .
qed (auto simp: starts_with_def dest: prefix_length_le)

lemma ends_with_suffix: "ends_with s what \<longleftrightarrow> suffix what s"
proof (cases "length s < length what")
  case False
  then have "ends_with s what \<longleftrightarrow> (\<forall>i < length what. what ! i = drop (length s - length what) s ! i)"
    by (auto simp: ends_with_def fold_or_eq_0 xor_eq_0_iff char_bits_inject)
  also have "\<dots> \<longleftrightarrow> drop (length s - length what) s = what"
    using False by (auto simp: list_eq_iff_nth_eq)
  also have "\<dots> \<longleftrightarrow> suffix what s" by (metis suffix_def suffix_take append_take_drop_id
    append_eq_conv_conj diff_diff_cancel length_append diff_add_inverse2)
  finally show ?thesis .
qed (auto simp: ends_with_def dest: suffix_length_le)

section \<open>Joining\<close>

lemma join_Nil [simp]: "join sep [] = []"
  by (simp add: join_def)

lemma fold_join:
  "fold (\<lambda>item (acc, first). ((if first then acc else acc @ sep) @ item, False)) ps (a, False) =
     (a @ concat (map (\<lambda>p. sep @ p) ps), False)"
  by (induction ps arbitrary: a) auto

lemma join_Cons: "join sep (p # ps) = p @ concat (map (\<lambda>q. sep @ q) ps)"
  by (simp add: join_def fold_join)

lemma join_Cons2: "ps \<noteq> [] \<Longrightarrow> join sep (p # ps) = p @ sep @ join sep ps"
  by (cases ps) (simp_all add: join_Cons)

section \<open>Splitting at a character\<close>

fun pieces :: "char \<Rightarrow> string \<Rightarrow> string list" where
  "pieces c [] = [[]]"
| "pieces c (x # xs) = (if x = c then [] # pieces c xs
     else (x # hd (pieces c xs)) # tl (pieces c xs))"

lemma pieces_not_Nil [simp]: "pieces c s \<noteq> []"
  by (cases s) auto

lemma pieces_none: "c \<notin> set s \<Longrightarrow> pieces c s = [s]"
  by (induction s) auto

lemma pieces_append: "c \<notin> set p \<Longrightarrow> pieces c (p @ c # r) = p # pieces c r"
  by (induction p) auto

lemma pieces_no_divider: "p \<in> set (pieces c s) \<Longrightarrow> c \<notin> set p"
proof (induction s arbitrary: p)
  case (Cons x s)
  then show ?case by (cases "pieces c s") (auto split: if_splits)
qed simp

lemma join_pieces: "join [c] (pieces c s) = s"
proof (induction s)
  case (Cons x s)
  then show ?case by (cases "pieces c s") (auto simp: join_Cons)
qed (simp add: join_Cons)

lemma length_pieces: "length (pieces c s) = Suc (count_list s c)"
  by (induction s) auto

lemma pieces_join:
  "ps \<noteq> [] \<Longrightarrow> \<forall>p \<in> set ps. c \<notin> set p \<Longrightarrow> pieces c (join [c] ps) = ps"
proof (induction ps)
  case (Cons p ps)
  then show ?case
    by (cases "ps = []") (simp_all add: join_Cons2 pieces_append pieces_none, simp add: join_Cons pieces_none)
qed simp

lemma split_at_find_char:
  assumes "find_char c s pos = Some k"
  shows "drop pos s = take (k - pos) (drop pos s) @ c # drop (k + 1) s"
proof -
  note f = find_char_SomeD [OF assms]
  have "drop pos s = take (k - pos) (drop pos s) @ drop k s"
    using f(1) by (metis append_take_drop_id drop_drop le_add_diff_inverse2)
  also have "drop k s = c # drop (k + 1) s"
    using f(2,3) by (metis Cons_nth_drop_Suc Suc_eq_plus1)
  finally show ?thesis .
qed

lemma split_loop_eq:
  "k \<le> length s \<Longrightarrow> split_loop c s k k buf = Inr (buf @ pieces c (drop k s))"
proof (induction "length s - k" arbitrary: k buf rule: less_induct)
  case less
  show ?case
  proof (cases "find_char c s k")
    case None
    then show ?thesis using less.prems
      by (simp add: split_loop.simps [of c s k] pieces_none [OF find_char_NoneD])
  next
    case (Some j)
    note f = find_char_SomeD [OF Some]
    have "pieces c (drop k s) = take (j - k) (drop k s) # pieces c (drop (j + 1) s)"
      using split_at_find_char [OF Some] f(4) pieces_append by metis
    with Some f less.hyps [of "j + 1" "buf @ [take (j - k) (drop k s)]"] less.prems show ?thesis
      by (simp add: split_loop.simps [of c s k])
  qed
qed

lemma split_eq: "split c s = Inr (pieces c s)"
  by (simp add: split_def split_loop_eq)

section \<open>Converting the pieces\<close>

lemma split_as_loop_eq:
  "k \<le> length s \<Longrightarrow> split_as_loop as c s k k buf =
     bindR (mapR as (pieces c (drop k s))) (\<lambda>xs. Inr (buf @ xs))"
proof (induction "length s - k" arbitrary: k buf rule: less_induct)
  case less
  show ?case
  proof (cases "find_char c s k")
    case None
    then show ?thesis using less.prems
      by (simp add: split_as_loop.simps [of as c s k] pieces_none [OF find_char_NoneD] bindR_assoc)
  next
    case (Some j)
    note f = find_char_SomeD [OF Some]
    have "pieces c (drop k s) = take (j - k) (drop k s) # pieces c (drop (j + 1) s)"
      using split_at_find_char [OF Some] f(4) pieces_append by metis
    with Some f less.hyps [of "j + 1"] less.prems show ?thesis
      by (auto simp: split_as_loop.simps [of as c s k] bindR_assoc intro!: bindR_cong)
  qed
qed

lemma split_as_eq: "split_as as c s = bindR (split c s) (mapR as)"
proof -
  have "bindR r (\<lambda>xs. Inr xs) = r" for r :: "'a list result" by (cases r) simp_all
  then show ?thesis by (simp add: split_as_def split_as_loop_eq split_eq)
qed

section \<open>Splitting at a string\<close>

lemma map_shift_upt: "map (\<lambda>i. i + m) [a..<b] = [a + m..<b + m]"
  by (induction b) auto

lemma find_map: "List.find P (map f xs) = map_option f (List.find (\<lambda>x. P (f x)) xs)"
  by (induction xs) auto

lemma find_cong_set: "(\<And>x. x \<in> set xs \<Longrightarrow> P x = Q x) \<Longrightarrow> List.find P xs = List.find Q xs"
  by (induction xs) auto

lemma find_str_append:
  "find_str d (u @ s) (length u) = map_option (\<lambda>k. k + length u) (find_str d s 0)"
proof -
  have "[length u..<Suc (length (u @ s)) - length d] =
      map (\<lambda>i. i + length u) [0..<Suc (length s) - length d]"
  proof (cases "length d \<le> Suc (length s)")
    case True
    then show ?thesis by (simp add: map_shift_upt add.commute)
  qed simp
  then show ?thesis
    unfolding find_str_def by (simp add: find_map)
qed

lemma find_str_drop:
  assumes "pos \<le> length s"
  shows "find_str d s pos = map_option (\<lambda>k. k + pos) (find_str d (drop pos s) 0)"
  using find_str_append [of d "take pos s" "drop pos s"] assms by (simp add: min_absorb2 del: append_take_drop_id) simp

lemma less_after_drop: "d \<noteq> [] \<Longrightarrow> k + length d \<le> n \<Longrightarrow> n - (k + length d) < n"
  by (cases d) auto

function str_pieces :: "string \<Rightarrow> string \<Rightarrow> string list" where
  "str_pieces d s =
     (if d = [] then [s]
      else case find_str d s 0 of
        None \<Rightarrow> [s]
      | Some k \<Rightarrow> take k s # str_pieces d (drop (k + length d) s))"
  by pat_completeness auto
termination
  by (relation "measure (\<lambda>(d, s). length s)") (auto dest!: find_str_bounds intro: less_after_drop)

declare str_pieces.simps [simp del]

lemma str_pieces_not_Nil [simp]: "str_pieces d s \<noteq> []"
  by (subst str_pieces.simps) (simp split: option.split)

lemma find_str_decompose:
  assumes "find_str d s 0 = Some k"
  shows "s = take k s @ d @ drop (k + length d) s"
  using find_str_SomeD [OF assms] by (metis append_take_drop_id drop_drop add.commute)

lemma join_str_pieces: "join d (str_pieces d s) = s"
proof (induction d s rule: str_pieces.induct)
  case (1 d s)
  show ?case
  proof (cases "find_str d s 0")
    case (Some k)
    show ?thesis
    proof (cases "d = []")
      case False
      have "join d (str_pieces d s) = take k s @ d @ join d (str_pieces d (drop (k + length d) s))"
        using Some False by (subst str_pieces.simps) (simp add: join_Cons2)
      then show ?thesis using 1 [OF False Some] find_str_decompose [OF Some] by simp
    qed (simp add: str_pieces.simps join_Cons)
  qed (simp add: str_pieces.simps join_Cons)
qed

lemma split_str_loop_eq:
  assumes d: "d \<noteq> []"
  shows "k \<le> length s \<Longrightarrow> split_str_loop d s k k buf = Some (Inr (buf @ str_pieces d (drop k s)))"
proof (induction "length s - k" arbitrary: k buf rule: less_induct)
  case less
  show ?case
  proof (cases "find_str d (drop k s) 0")
    case None
    then show ?thesis using less.prems d
      by (simp add: split_str_loop.simps [of d s k] find_str_drop [OF less.prems] str_pieces.simps [of d])
  next
    case (Some j)
    have j: "j + length d \<le> length s - k" using find_str_bounds [OF Some] by simp
    have "length d > 0" using d by simp
    with j have "length s - (j + k + length d) < length s - k" by linarith
    moreover have "j + k + length d \<le> length s" using j less.prems by linarith
    ultimately have IH: "split_str_loop d s (j + k + length d) (j + k + length d) (buf @ [take j (drop k s)]) =
        Some (Inr ((buf @ [take j (drop k s)]) @ str_pieces d (drop (j + k + length d) s)))"
      using less.hyps by blast
    show ?thesis using less.prems d Some
      by (simp add: split_str_loop.simps [of d s k] find_str_drop [OF less.prems] str_pieces.simps [of d "drop k s"]
          IH [unfolded add.assoc] add.commute add.left_commute)
  qed
qed

lemma split_str_eq: "d \<noteq> [] \<Longrightarrow> split_str d s = Some (Inr (str_pieces d s))"
  by (simp add: split_str_def split_str_loop_eq)

lemma split_as_str_loop_eq:
  assumes d: "d \<noteq> []"
  shows "k \<le> length s \<Longrightarrow> split_as_str_loop as d s k k buf =
    Some (bindR (mapR as (str_pieces d (drop k s))) (\<lambda>xs. Inr (buf @ xs)))"
proof (induction "length s - k" arbitrary: k buf rule: less_induct)
  case less
  show ?case
  proof (cases "find_str d (drop k s) 0")
    case None
    then show ?thesis using less.prems d
      by (simp add: split_as_str_loop.simps [of as d s k] find_str_drop [OF less.prems]
          str_pieces.simps [of d] bindR_assoc)
  next
    case (Some j)
    have j: "j + length d \<le> length s - k" using find_str_bounds [OF Some] by simp
    have "length d > 0" using d by simp
    with j have "length s - (j + k + length d) < length s - k" by linarith
    moreover have "j + k + length d \<le> length s" using j less.prems by linarith
    ultimately have IH: "split_as_str_loop as d s (j + k + length d) (j + k + length d) (buf @ [x]) =
        Some (bindR (mapR as (str_pieces d (drop (j + k + length d) s))) (\<lambda>xs. Inr ((buf @ [x]) @ xs)))" for x
      using less.hyps by blast
    show ?thesis
      using less.prems d Some IH [unfolded add.assoc]
      by (cases "as (take j (drop k s))")
        (simp_all add: split_as_str_loop.simps [of as d s k] find_str_drop [OF less.prems]
          str_pieces.simps [of d "drop k s"] bindR_assoc add.commute add.left_commute)
  qed
qed

lemma split_as_str_eq: "d \<noteq> [] \<Longrightarrow> split_as_str as d s = Some (mapR as (str_pieces d s))"
proof -
  have "bindR r (\<lambda>xs. Inr xs) = r" for r :: "'a list result" by (cases r) simp_all
  then show "d \<noteq> [] \<Longrightarrow> ?thesis" by (simp add: split_as_str_def split_as_str_loop_eq)
qed

lemma find_str_empty: "pos \<le> length s \<Longrightarrow> find_str [] s pos = Some pos"
  by (simp add: find_str_def upt_rec [of pos])

lemma split_str_loop_empty:
  assumes "split_str_loop d s k prev buf = Some r"
  shows "d = [] \<longrightarrow> k \<le> length s \<longrightarrow> prev \<le> length s \<longrightarrow> False"
  by (rule split_str_loop.raw_induct [where P = "\<lambda>d s k prev buf r.
        d = [] \<longrightarrow> k \<le> length s \<longrightarrow> prev \<le> length s \<longrightarrow> False", OF _ assms])
    (auto simp: find_str_empty split: if_splits, blast)

lemma split_str_empty_divider: "split_str [] s = None"
  using split_str_loop_empty [of "[]" s 0 0 "[]"] by (cases "split_str [] s") (auto simp: split_str_def)

section \<open>Replacing\<close>

lemma replace_loop_eq:
  assumes f: "f \<noteq> []"
  shows "replace_loop f t (u @ s) (length u) n =
     Some (u @ join t (str_pieces f s), n + (length (str_pieces f s) - 1))"
proof (induction "length s" arbitrary: u s n rule: less_induct)
  case less
  show ?case
  proof (cases "find_str f s 0")
    case None
    then show ?thesis using f
      by (simp add: replace_loop.simps [of f] find_str_append str_pieces.simps [of f] join_Cons)
  next
    case (Some k)
    let ?r = "drop (k + length f) s"
    have k: "k + length f \<le> length s" using find_str_bounds [OF Some] by simp
    have "length f > 0" using f by simp
    then have "length ?r < length s" using less_after_drop [OF f k] by simp
    from less [OF this, of "u @ take k s @ t" "Suc n"]
    have IH: "replace_loop f t ((u @ take k s @ t) @ ?r) (length (u @ take k s @ t)) (Suc n) =
        Some ((u @ take k s @ t) @ join t (str_pieces f ?r), Suc n + (length (str_pieces f ?r) - 1))" .
    have step: "replace_loop f t (u @ s) (length u) n =
        replace_loop f t ((u @ take k s @ t) @ ?r) (length (u @ take k s @ t)) (Suc n)"
      using Some less_le_trans [OF _ k, of k] \<open>length f > 0\<close> by (subst replace_loop.simps)
        (simp add: find_str_append std_replace_def add.commute add.left_commute min_def)
    have "str_pieces f s = take k s # str_pieces f ?r"
      using Some f by (subst str_pieces.simps) simp
    moreover have "Suc (length (str_pieces f ?r) - 1) = length (str_pieces f ?r)" by (cases "str_pieces f ?r") simp_all
    ultimately show ?thesis
      unfolding step IH by (simp add: join_Cons2)
  qed
qed

lemma replace_times_eq:
  "f \<noteq> [] \<Longrightarrow> replace_times f t s n = Some (join t (str_pieces f s), length (str_pieces f s) - 1)"
  using replace_loop_eq [of f t "[]" s 0] by (simp add: replace_times_def)

section \<open>Stripping\<close>

lemma rev_upt_find_last:
  "List.find (\<lambda>i. P (xs ! i)) (rev [0..<length xs]) =
     (if \<exists>x \<in> set xs. P x then Some (length xs - 1 - length (takeWhile (\<lambda>x. \<not> P x) (rev xs))) else None)"
proof (induction xs rule: rev_induct)
  case (snoc x xs)
  have "List.find (\<lambda>i. P ((xs @ [x]) ! i)) (rev [0..<length xs]) =
      List.find (\<lambda>i. P (xs ! i)) (rev [0..<length xs])"
    by (rule find_cong_set) (simp add: nth_append)
  with snoc show ?case by (auto simp: nth_append)
qed simp

lemma upt_find_first:
  "List.find (\<lambda>i. P (xs ! i)) [0..<length xs] =
     (if \<exists>x \<in> set xs. P x then Some (length (takeWhile (\<lambda>x. \<not> P x) xs)) else None)"
proof (induction xs)
  case (Cons x xs)
  have "[0..<length (x # xs)] = 0 # map Suc [0..<length xs]"
    by (simp add: upt_conv_Cons map_Suc_upt del: upt_Suc)
  then have "List.find (\<lambda>i. P ((x # xs) ! i)) [0..<length (x # xs)] =
      (if P x then Some 0 else map_option Suc (List.find (\<lambda>i. P (xs ! i)) [0..<length xs]))"
    by (simp only: List.find.simps find_map) simp
  with Cons show ?case by auto
qed simp

lemma strip_of_eq:
  "strip_of w s = Inr (rev (dropWhile (\<lambda>c. c \<in> set w) (rev (dropWhile (\<lambda>c. c \<in> set w) s))))"
proof (cases "\<exists>c \<in> set s. c \<notin> set w")
  case False
  then have "dropWhile (\<lambda>c. c \<in> set w) s = []" by auto
  with False show ?thesis by (auto dest: set_dropWhileD simp: strip_of_def find_first_not_of_def upt_find_first [of "\<lambda>c. c \<notin> set w"])
next
  case True
  let ?P = "\<lambda>c. c \<in> set w"
  define a where "a = takeWhile ?P s"
  define r where "r = dropWhile ?P s"
  define z where "z = takeWhile ?P (rev r)"
  define m where "m = rev (dropWhile ?P (rev r))"
  have s: "s = a @ r" by (simp add: a_def r_def)
  have r: "r = m @ rev z" by (metis m_def z_def rev_append rev_rev_ident takeWhile_dropWhile_id)
  have rne: "r \<noteq> []" "\<not> ?P (hd r)" using True hd_dropWhile [of ?P s] by (auto simp: r_def)
  then have "\<exists>x \<in> set (rev r). \<not> ?P x" by (metis hd_in_set set_rev)
  then have mne: "m \<noteq> []" by (auto simp: m_def)
  have z2: "takeWhile ?P (rev s) = z"
    using \<open>\<exists>x \<in> set (rev r). \<not> ?P x\<close> unfolding s z_def by (auto simp: takeWhile_append)
  have 1: "find_first_not_of w s = Some (length a)"
    using True by (simp add: find_first_not_of_def upt_find_first [of "\<lambda>c. c \<notin> set w"] a_def)
  have 2: "find_last_not_of w s = Some (length a + length m - 1)"
    using True z2 mne by (simp add: find_last_not_of_def rev_upt_find_last [of "\<lambda>c. c \<notin> set w"]) (simp add: s r)
  have "strip_of w s = Inr m"
    using mne by (simp add: strip_of_def 1 2) (simp add: s r)
  then show ?thesis by (simp add: m_def r_def)
qed

section \<open>Decimal numbers\<close>

lemma isdigit_char_of: "n < 10 \<Longrightarrow> isdigit (char_of (48 + n :: nat))"
  by (simp add: isdigit_def)

lemma to_string_digits: "c \<in> set (to_string n) \<Longrightarrow> isdigit c"
proof (induction n rule: to_string.induct)
  case (1 n)
  show ?case
  proof (cases "n < 10")
    case True
    then show ?thesis using 1(2) isdigit_char_of by (simp add: to_string.simps [of n])
  next
    case False
    then show ?thesis using 1 isdigit_char_of [of "n mod 10"] by (auto simp: to_string.simps [of n])
  qed
qed

lemma to_string_not_Nil [simp]: "to_string n \<noteq> []"
  by (simp add: to_string.simps [of n])

lemma digits_value_to_string: "digits_value (to_string n) = n"
proof (induction n rule: to_string.induct)
  case (1 n)
  then show ?case by (auto simp: to_string.simps [of n] digits_value_def)
qed

lemma isdigit_not_special:
  assumes "isdigit c" shows "\<not> isspace c" "c \<noteq> CHR ''-''" "c \<noteq> CHR ''+''"
  using assms by (auto simp: isdigit_def isspace_def)

lemma parse_sign_plain: "s \<noteq> [] \<Longrightarrow> hd s \<noteq> CHR ''-'' \<Longrightarrow> hd s \<noteq> CHR ''+'' \<Longrightarrow> parse_sign s = (False, s)"
  unfolding parse_sign_def by (cases s) (auto split: list.splits char.splits bool.splits)

lemma parse_integer_to_string:
  assumes "\<And>c r'. r = c # r' \<Longrightarrow> \<not> isdigit c"
  shows "parse_integer (to_string n @ r) = Some (False, n)"
proof -
  obtain d ds where ds: "to_string n = d # ds" by (cases "to_string n") simp_all
  then have d: "isdigit d" using to_string_digits [of d n] by simp
  have "takeWhile isdigit (to_string n @ r) = to_string n @ takeWhile isdigit r"
    using to_string_digits by (simp add: takeWhile_append2)
  also have "takeWhile isdigit r = []" using assms by (cases r) simp_all
  finally have tw: "takeWhile isdigit (to_string n @ r) = to_string n" by simp
  have "dropWhile isspace (to_string n @ r) = to_string n @ r"
    using isdigit_not_special [OF d] by (simp add: ds)
  moreover have "parse_sign (to_string n @ r) = (False, to_string n @ r)"
    using isdigit_not_special [OF d] by (simp add: ds parse_sign_plain)
  ultimately show ?thesis
    by (simp add: parse_integer_def tw digits_value_to_string)
qed

lemma as_longlong_range: "as_longlong s = Inr v \<Longrightarrow> - (2 ^ 63) \<le> v \<and> v < 2 ^ 63"
  by (auto simp: as_longlong_def stoll_def Let_def split: if_splits option.splits)

lemma as_ulong_to_string:
  "as_ulong (to_string n) = (if n < 2 ^ 64 then Inr (of_nat n) else Inl (Out_of_range ''stoul''))"
  using parse_integer_to_string [of "[]" n] by (simp add: as_ulong_def stoul_def)

lemma as_ushort_to_string:
  "as_ushort (to_string n) = (if n < 2 ^ 64 then Inr (of_nat n) else Inl (Out_of_range ''stoul''))"
proof (cases "n < 2 ^ 64")
  case True
  have "(ucast (of_nat n :: u64) :: u16) = of_nat n"
    using True by (simp add: unsigned_ucast_eq word_unat_eq_iff unat_of_nat take_bit_eq_mod mod_mod_cancel)
  with True show ?thesis by (simp add: as_ushort_def as_ulong_to_string)
qed (simp add: as_ushort_def as_ulong_to_string)

section \<open>Formatting\<close>

lemma find_str_SomeI:
  assumes "pos \<le> k" "take (length d) (drop k s) = d" "k + length d \<le> length s"
    "\<And>j. pos \<le> j \<Longrightarrow> j < k \<Longrightarrow> take (length d) (drop j s) \<noteq> d"
  shows "find_str d s pos = Some k"
proof (cases "find_str d s pos")
  case None
  then show ?thesis using find_str_NoneD [OF None assms(1,3)] assms(2) by simp
next
  case (Some k')
  note f = find_str_SomeD [OF Some] find_str_firstD [OF Some]
  have "\<not> k' < k" using assms(4) [of k'] f(1,3) by blast
  moreover have "\<not> k < k'" using f(4) [of k] assms(1,2) by blast
  ultimately show ?thesis using Some by simp
qed

lemma find_braces:
  assumes "find_str ''{}'' p 0 = None"
  shows "find_str ''{}'' (p @ ''{}'' @ r) 0 = Some (length p)"
proof (rule find_str_SomeI)
  fix j assume j: "j < length p"
  show "take (length ''{}'') (drop j (p @ ''{}'' @ r)) \<noteq> ''{}''"
  proof (cases "j + 2 \<le> length p")
    case True
    then show ?thesis using find_str_NoneD [OF assms, of j] by simp
  next
    case False
    with j have "drop j p = [p ! j]"
      by (metis Cons_nth_drop_Suc Suc_leI add_2_eq_Suc' drop_all not_less_eq_eq)
    with j show ?thesis by simp
  qed
qed simp_all

definition literal_piece :: "string \<Rightarrow> bool" where
  "literal_piece p = (find_str ''{}'' p 0 = None \<and> (p \<noteq> [] \<longrightarrow> last p \<noteq> CHR 0x5C))"

definition interleave :: "string list \<Rightarrow> string list \<Rightarrow> string" where
  "interleave args ps = concat (map (\<lambda>(a, p). a @ p) (zip args ps))"

lemma interleave_Cons [simp]: "interleave (a # as) (p # ps) = a @ p @ interleave as ps"
  by (simp add: interleave_def)

definition format_result :: "string \<Rightarrow> string list \<Rightarrow> nat \<Rightarrow> string list \<Rightarrow> string \<Rightarrow> string result" where
  "format_result fmt args used ps text_so_far =
     (if length args < used + length ps
      then Inl (Out_of_range (not_enough_message fmt (length args) (length args)))
      else if used + length ps < length args
      then Inl (Out_of_range (too_many_message fmt (used + length ps) (length args)))
      else Inr (text_so_far @ interleave (drop used args) ps))"

lemma format_loop_eq:
  assumes "literal_piece p" "\<forall>q \<in> set ps. literal_piece q" "used \<le> length args"
    "u \<noteq> [] \<longrightarrow> last u = CHR ''}''" "fmt = u @ join ''{}'' (p # ps)"
  shows "format_loop fmt args (length u) (length u) used False ss =
    format_result fmt args used ps (ss @ p)"
  using assms
proof (induction ps arbitrary: u p used ss)
  case Nil
  then have "fmt = u @ p" by (simp add: join_Cons)
  moreover from this have "find_str ''{}'' fmt (length u) = None"
    using Nil.prems(1) by (simp add: find_str_append literal_piece_def)
  ultimately show ?case using Nil.prems(3)
    by (subst format_loop.simps) (simp add: format_result_def interleave_def)
next
  case (Cons q ps)
  have fmt: "fmt = u @ p @ ''{}'' @ join ''{}'' (q # ps)"
    using Cons.prems(5) by (simp add: join_Cons2)
  have found: "find_str ''{}'' fmt (length u) = Some (length u + length p)"
    using Cons.prems(1) unfolding fmt by (simp only: find_str_append) (simp add: find_braces [simplified] literal_piece_def)
  have esc: "\<not> (length u + length p \<noteq> 0 \<and> fmt ! (length u + length p - 1) = CHR 0x5C)"
  proof (cases "p = []")
    case True
    then show ?thesis using Cons.prems(4) by (cases u rule: rev_cases) (auto simp: fmt nth_append)
  next
    case False
    then show ?thesis using Cons.prems(1)
      by (cases p rule: rev_cases) (auto simp: fmt nth_append literal_piece_def)
  qed
  show ?case
  proof (cases "used < length args")
    case False
    then have "used = length args" using Cons.prems(3) by simp
    moreover have "length u \<le> length fmt" by (simp add: fmt)
    ultimately show ?thesis using esc found
      by (subst format_loop.simps) (auto simp: format_result_def)
  next
    case True
    have IH: "format_loop fmt args (length (u @ p @ ''{}'')) (length (u @ p @ ''{}'')) (Suc used) False
        (ss @ p @ args ! used) = format_result fmt args (Suc used) ps ((ss @ p @ args ! used) @ q)"
      using Cons.prems True fmt by (intro Cons.IH) auto
    have "format_loop fmt args (length u) (length u) used False ss =
        format_loop fmt args (length (u @ p @ ''{}'')) (length (u @ p @ ''{}'')) (Suc used) False
          (ss @ p @ args ! used)"
    proof -
      have "length u \<le> length fmt" "take (length p) (drop (length u) fmt) = p"
        "length (u @ p @ ''{}'') = length u + length p + 2"
        by (simp_all add: fmt)
      with esc found True show ?thesis by (subst format_loop.simps) auto
    qed
    also note IH
    also have "format_result fmt args (Suc used) ps ((ss @ p @ args ! used) @ q) =
        format_result fmt args used (q # ps) (ss @ p)"
      using True by (simp add: format_result_def Cons_nth_drop_Suc [symmetric, of used])
    finally show ?thesis .
  qed
qed

lemma format_string_eq:
  assumes "literal_piece p" "\<forall>q \<in> set ps. literal_piece q"
  shows "format_string (join ''{}'' (p # ps)) args =
    format_result (join ''{}'' (p # ps)) args 0 ps p"
  using format_loop_eq [of p ps 0 args "[]"] assms by (simp add: format_string_def)

lemma format_string_c_eq: "format_string_c fmt (Some out) = Inr out"
  by (simp add: format_string_c_def format_c_loop.simps [of "Some out"])

section \<open>Properties\<close>

text \<open>Splitting a string at a character never raises an exception and always returns; the
  pieces joined with the character give the string back, no piece contains the character, and
  there is one piece more than there are occurrences of it.\<close>

theorem split_pieces_join:
  "\<exists>ps. split c s = Inr ps \<and> join [c] ps = s \<and> list_all (\<lambda>p. c \<notin> set p) ps \<and>
     length ps = Suc (count_list s c)"
  by (intro exI [of _ "pieces c s"])
    (simp add: split_eq join_pieces length_pieces list_all_iff pieces_no_divider)

text \<open>Splitting is the inverse of joining: a non-empty list of pieces that do not contain
  the divider is recovered from the joined string.\<close>

theorem split_join_inverse:
  assumes "ps \<noteq> []" "list_all (\<lambda>p. c \<notin> set p) ps"
  shows "split c (join [c] ps) = Inr ps"
  using assms by (simp add: split_eq pieces_join list_all_iff)

lemma split_join_inverse_witness:
  "split CHR ''@'' (join [CHR ''@''] [''aes'', [], ''secret'']) = Inr [''aes'', [], ''secret'']"
  by (rule split_join_inverse) simp_all

text \<open>Splitting at and replacing a non-empty string both return. The pieces of the split
  join to the original, and replacing puts the replacement exactly where the split cut, so it
  reports one replacement less than there are pieces; text that the replacement itself
  introduces is not searched again.\<close>

theorem replace_is_split_join:
  assumes "from_str \<noteq> []"
  shows "\<exists>ps. split_str from_str s = Some (Inr ps) \<and> join from_str ps = s \<and>
    replace_times from_str to s n = Some (join to ps, length ps - 1)"
  using assms by (intro exI [of _ "str_pieces from_str s"])
    (simp add: split_str_eq join_str_pieces replace_times_eq)

lemma replace_is_split_join_witness:
  "\<exists>ps. split_str ''x'' ''axbx'' = Some (Inr ps) \<and> join ''x'' ps = ''axbx'' \<and>
    replace_times ''x'' ''yx'' ''axbx'' 7 = Some (join ''yx'' ps, length ps - 1)"
  by (rule replace_is_split_join) simp

text \<open>The prefix test by accumulated bit differences is true exactly for prefixes, and the
  suffix test exactly for suffixes.\<close>

theorem starts_with_ends_with:
  "(starts_with s what \<longleftrightarrow> prefix what s) \<and> (ends_with s what \<longleftrightarrow> suffix what s)"
  by (simp add: starts_with_prefix ends_with_suffix)

text \<open>A port given in decimal is read back as that number; a number that does not fit the
  16-bit type is not rejected but reduced modulo \<open>2 ^ 16\<close>, and only one that does not fit
  \<open>unsigned long\<close> raises \<open>out_of_range\<close>.\<close>

theorem as_ushort_decimal:
  "as_ushort (to_string n) =
     (if n < 2 ^ 64 then Inr (of_nat (n mod 2 ^ 16)) else Inl (Out_of_range ''stoul''))"
  by (simp add: as_ushort_to_string word_unat_eq_iff unat_of_nat)

text \<open>Formatting a template replaces the placeholders by the arguments in order; with too
  few or too many arguments it raises \<open>out_of_range\<close>. The template is given by its literal
  pieces, none of which contains a placeholder or ends with the escape character.\<close>

theorem format_substitutes:
  assumes "literal_piece p" "list_all literal_piece ps"
  shows "format_string (join ''{}'' (p # ps)) args =
     (if length args < length ps
      then Inl (Out_of_range (not_enough_message (join ''{}'' (p # ps)) (length args) (length args)))
      else if length ps < length args
      then Inl (Out_of_range (too_many_message (join ''{}'' (p # ps)) (length ps) (length args)))
      else Inr (p @ interleave args ps))"
  using format_string_eq [of p ps args] assms by (simp add: format_result_def list_all_iff)

lemma format_substitutes_witness:
  "format_string ''v={} of {}!'' [''3'', ''n''] = Inr ''v=3 of n!''"
proof -
  have "literal_piece ''v=''" "list_all literal_piece ['' of '', ''!'']"
    by (simp_all add: literal_piece_def find_str_def upt_rec)
  from format_substitutes [OF this, of "[''3'', ''n'']"] show ?thesis
    by (simp add: join_Cons interleave_def)
qed

section \<open>Escapes in the last piece\<close>

text \<open>
  An escaped placeholder before the last real one is turned into \<open>{}\<close>; one after it keeps
  its backslash, because the rest of the format string is appended as it stands.
\<close>

lemma escape_before_placeholder:
  "format_string (escaped_braces @ ''={}'') [''a''] = Inr ''{}=a''"
  by (simp add: format_string_def format_loop.simps unescape_loop.simps find_str_def
      escaped_braces_def upt_rec)

lemma escape_after_placeholder:
  "format_string (''{}='' @ escaped_braces) [''a''] = Inr (''a='' @ escaped_braces)"
  by (simp add: format_string_def format_loop.simps unescape_loop.simps find_str_def
      escaped_braces_def upt_rec)

end
