(* ===== verification/Scope_Guard.thy ===== *)
theory Scope_Guard
  imports Prelude
begin

text \<open>
  The scope guards of \<open>src/src/lib/rlib/scope_guard.hpp\<close>. A callback is a state transformer
  that may fail. A guard holds one callback or none; \<open>scope_guards\<close> holds a deque of them,
  and registering puts the new one at the front. The destructors and \<open>force_call\<close> are
  \<open>noexcept\<close>: a callback that throws inside them terminates the program.
\<close>

type_synonym 's callback = "'s \<Rightarrow> 's result"

record 's scope_guard =
  guard_f :: "'s callback option"

definition noexcept :: "'a result \<Rightarrow> 'a result" where
  "noexcept r = (case r of
       Inl (Undefined_behaviour m) \<Rightarrow> Inl (Undefined_behaviour m)
     | Inl _ \<Rightarrow> Inl Terminated
     | Inr x \<Rightarrow> Inr x)"

section \<open>One callback\<close>

definition scope_guard :: "'s callback \<Rightarrow> 's scope_guard" where
  "scope_guard f = \<lparr>guard_f = Some f\<rparr>"

text \<open>The move constructor: the new guard and what is left of the old one.\<close>

definition move_guard :: "'s scope_guard \<Rightarrow> 's scope_guard \<times> 's scope_guard" where
  "move_guard other = (\<lparr>guard_f = guard_f other\<rparr>, other\<lparr>guard_f := None\<rparr>)"

definition destroy_guard :: "'s scope_guard \<Rightarrow> 's \<Rightarrow> 's result" where
  "destroy_guard g s = noexcept (case guard_f g of Some f \<Rightarrow> f s | None \<Rightarrow> Inr s)"

definition dismiss :: "'s scope_guard \<Rightarrow> 's scope_guard" where
  "dismiss g = g\<lparr>guard_f := None\<rparr>"

definition force_call :: "'s scope_guard \<Rightarrow> 's \<Rightarrow> ('s scope_guard \<times> 's) result" where
  "force_call g s =
     bindR (noexcept (case guard_f g of Some f \<Rightarrow> f s | None \<Rightarrow> Inr s)) (\<lambda>s'. Inr (dismiss g, s'))"

text \<open>
  \<open>rlib_defer(f)\<close> at the start of a block: the body runs to its value or its exception, then
  the guard is destroyed, on the state the body left. An exception of the body goes on after
  the guard ran; a failure of the guard itself replaces it.
\<close>

definition defer_in :: "'s callback \<Rightarrow> ('s \<Rightarrow> 'a result \<times> 's) \<Rightarrow> 's \<Rightarrow> ('a \<times> 's) result" where
  "defer_in f body s =
     (let (r, s') = body s
      in bindR (destroy_guard (scope_guard f) s') (\<lambda>s''. bindR r (\<lambda>x. Inr (x, s''))))"

section \<open>Several callbacks\<close>

record 's scope_guards =
  fbuf :: "'s callback list"

definition no_guards :: "'s scope_guards" where
  "no_guards = \<lparr>fbuf = []\<rparr>"

definition add_guard :: "'s scope_guards \<Rightarrow> 's callback \<Rightarrow> 's scope_guards" where
  "add_guard gs f = gs\<lparr>fbuf := f # fbuf gs\<rparr>"

definition dismiss_all :: "'s scope_guards \<Rightarrow> 's scope_guards" where
  "dismiss_all gs = gs\<lparr>fbuf := []\<rparr>"

definition force_call_all :: "'s scope_guards \<Rightarrow> 's \<Rightarrow> ('s scope_guards \<times> 's) result" where
  "force_call_all gs s =
     bindR (noexcept (loopR (\<lambda>f s. f s) (fbuf gs) s)) (\<lambda>s'. Inr (dismiss_all gs, s'))"

definition destroy_guards :: "'s scope_guards \<Rightarrow> 's \<Rightarrow> 's result" where
  "destroy_guards gs s = bindR (force_call_all gs s) (\<lambda>(gs', s'). Inr s')"

section \<open>Lemmas\<close>

lemma noexcept_Inr [simp]: "noexcept (Inr x) = Inr x"
  by (simp add: noexcept_def)

lemma noexcept_UB [simp]: "noexcept (Inl (Undefined_behaviour m)) = Inl (Undefined_behaviour m)"
  by (simp add: noexcept_def)

lemma noexcept_eq_Inr_iff [simp]: "noexcept r = Inr x \<longleftrightarrow> r = Inr x"
  by (auto simp: noexcept_def split: sum.splits error.splits)

lemma destroy_scope_guard [simp]: "destroy_guard (scope_guard f) s = noexcept (f s)"
  by (simp add: destroy_guard_def scope_guard_def)

lemma fbuf_fold_add: "fbuf (foldl add_guard gs fs) = rev fs @ fbuf gs"
  by (induction fs arbitrary: gs) (simp_all add: add_guard_def)

lemma loopR_pure: "loopR (\<lambda>f s. f s) (map (\<lambda>f s. Inr (f s)) fs) s = Inr (fold (\<lambda>f. f) fs s)"
  by (induction fs arbitrary: s) simp_all

section \<open>Properties\<close>

text \<open>Cleanups registered one after the other run in reverse order of registration when
  the collection goes out of scope, each exactly once; after \<open>force_call\<close> nothing is left to
  run, and after \<open>dismiss\<close> nothing runs at all.\<close>

theorem scope_guards_reverse_order:
  "force_call_all (foldl add_guard no_guards (map (\<lambda>f s. Inr (f s)) fs)) s =
     Inr (no_guards, fold (\<lambda>f. f) (rev fs) s) \<and>
   destroy_guards (foldl add_guard no_guards (map (\<lambda>f s. Inr (f s)) fs)) s =
     Inr (fold (\<lambda>f. f) (rev fs) s) \<and>
   destroy_guards (dismiss_all gs) s = Inr s"
  by (simp add: destroy_guards_def force_call_all_def fbuf_fold_add no_guards_def rev_map
      loopR_pure dismiss_all_def)

end
