(* ===== verification/Opt_Parser.thy ===== *)
theory Opt_Parser
  imports Rstring Scope_Guard
begin

text \<open>
  The command line parser of \<open>src/src/lib/rlib/opt.hpp\<close>. Its state is the list of arguments
  not yet fetched; a fetch returns the value and removes what it read. \<open>getValueArg\<close> removes
  the option in a scope guard that runs also when the option is last and its value is
  missing.
\<close>

record opt_parser =
  opt_args :: "string list"
  opt_arg0 :: string

definition opt_parser_new :: "string option \<Rightarrow> string list \<Rightarrow> opt_parser result" where
  "opt_parser_new argv0 rest =
     (case argv0 of
        None \<Rightarrow> Inl (Runtime_error
          ''Invalid argv passed to rlib::opt_parser. argv[0] is nullptr.'')
      | Some self \<Rightarrow> Inr \<lparr>opt_args = rest, opt_arg0 = self\<rparr>)"

text \<open>\<open>vector::erase\<close> at a position: undefined at or past the end.\<close>

definition erase_at :: "nat \<Rightarrow> 'a list \<Rightarrow> 'a list result" where
  "erase_at i xs =
     (if i < length xs then Inr (take i xs @ drop (i + 1) xs)
      else Inl (Undefined_behaviour ''vector::erase at the end iterator''))"

definition getSubCommand :: "opt_parser \<Rightarrow> (string \<times> opt_parser) result" where
  "getSubCommand p =
     (if opt_args p = [] then Inl (Runtime_error ''No sub-command available.'')
      else bindR (erase_at 0 (opt_args p)) (\<lambda>as. Inr (hd (opt_args p), p\<lparr>opt_args := as\<rparr>)))"

definition getSubCommand_def_value :: "string \<Rightarrow> opt_parser \<Rightarrow> (string \<times> opt_parser) result" where
  "getSubCommand_def_value dflt p =
     (if opt_args p = [] then Inr (dflt, p)
      else bindR (erase_at 0 (opt_args p)) (\<lambda>as. Inr (hd (opt_args p), p\<lparr>opt_args := as\<rparr>)))"

definition getSelf :: "opt_parser \<Rightarrow> string" where
  "getSelf p = opt_arg0 p"

section \<open>Options with a value\<close>

text \<open>
  The search predicate: \<open>Some True\<close> when the value is attached with an equal sign,
  \<open>Some False\<close> when it is the next argument.
\<close>

definition match_arg :: "string \<Rightarrow> string \<Rightarrow> bool option" where
  "match_arg argName ele =
     (if ele = argName then Some False
      else if length ele > length argName \<and> take (length argName + 1) ele = argName @ ''=''
      then Some True
      else None)"

fun find_arg :: "string \<Rightarrow> string list \<Rightarrow> nat \<Rightarrow> (nat \<times> bool) option" where
  "find_arg argName [] i = None"
| "find_arg argName (ele # rest) i =
     (case match_arg argName ele of
        Some useEqualSym \<Rightarrow> Some (i, useEqualSym)
      | None \<Rightarrow> find_arg argName rest (i + 1))"

definition fail_with :: "string \<Rightarrow> string list \<Rightarrow> 'a result" where
  "fail_with fmt names = bindR (format_string fmt names) (\<lambda>m. Inl (Invalid_argument m))"

definition getValueArg :: "string \<Rightarrow> bool \<Rightarrow> string \<Rightarrow> opt_parser \<Rightarrow> (string \<times> opt_parser) result" where
  "getValueArg argName required dflt p =
     (case find_arg argName (opt_args p) 0 of
        None \<Rightarrow>
          if required then fail_with ''Required argument '{}' not provided.'' [argName]
          else Inr (dflt, p)
      | Some (pos, useEqualSym) \<Rightarrow>
          defer_in
            (\<lambda>p. bindR (if useEqualSym then Inr (opt_args p) else erase_at (pos + 1) (opt_args p))
              (\<lambda>as. bindR (erase_at pos as) (\<lambda>as. Inr (p\<lparr>opt_args := as\<rparr>))))
            (\<lambda>p. (if useEqualSym then substr_from (opt_args p ! pos) (length argName + 1)
                  else if pos + 1 = length (opt_args p)
                  then fail_with ''Argument '{}' must provide value.'' [argName]
                  else Inr (opt_args p ! (pos + 1)), p))
            p)"

definition getValueArg2 ::
  "string \<Rightarrow> string \<Rightarrow> bool \<Rightarrow> string \<Rightarrow> opt_parser \<Rightarrow> (string \<times> opt_parser) result" where
  "getValueArg2 longName shortName required dflt p =
     bindR (getValueArg longName False [] p) (\<lambda>(valueL, p).
     bindR (getValueArg shortName False [] p) (\<lambda>(valueS, p).
       let val = (if valueL = [] then valueS else valueL) in
       if val = [] then
         (if required then fail_with ''Required argument '{}/{}' not provided.'' [longName, shortName]
          else Inr (dflt, p))
       else Inr (val, p)))"

section \<open>Flags\<close>

definition getBoolArg :: "string \<Rightarrow> opt_parser \<Rightarrow> (bool \<times> opt_parser) result" where
  "getBoolArg argName p =
     (case List.find (\<lambda>i. opt_args p ! i = argName) [0..<length (opt_args p)] of
        None \<Rightarrow> Inr (False, p)
      | Some pos \<Rightarrow> bindR (erase_at pos (opt_args p)) (\<lambda>as. Inr (True, p\<lparr>opt_args := as\<rparr>)))"

definition getBoolArg2 :: "string \<Rightarrow> string \<Rightarrow> opt_parser \<Rightarrow> (bool \<times> opt_parser) result" where
  "getBoolArg2 longName shortName p =
     bindR (getBoolArg longName p) (\<lambda>(b, p). if b then Inr (True, p) else getBoolArg shortName p)"

definition allArgDone :: "opt_parser \<Rightarrow> bool" where
  "allArgDone p = (opt_args p = [])"

section \<open>Lemmas\<close>

lemma erase_at_append [simp]: "erase_at (length xs) (xs @ y # ys) = Inr (xs @ ys)"
  by (simp add: erase_at_def)

lemma erase_at_Suc_append [simp]: "erase_at (Suc (length xs)) (xs @ y # z # ys) = Inr (xs @ y # ys)"
  by (simp add: erase_at_def)

lemma erase_at_end [simp]: "length xs \<le> i \<Longrightarrow> erase_at i xs = Inl (Undefined_behaviour ''vector::erase at the end iterator'')"
  by (simp add: erase_at_def)

lemma erase_at_shorter: "erase_at i xs = Inr ys \<Longrightarrow> length ys < length xs"
  by (auto simp: erase_at_def split: if_splits)

lemma match_arg_self [simp]: "match_arg n n = Some False"
  by (simp add: match_arg_def)

lemma match_arg_equal_sign [simp]: "match_arg n (n @ CHR ''='' # v) = Some True"
  by (simp add: match_arg_def)

lemma find_arg_skip:
  "list_all (\<lambda>e. match_arg n e = None) pre \<Longrightarrow> find_arg n (pre @ rest) i = find_arg n rest (length pre + i)"
  by (induction pre arbitrary: i) simp_all

lemma find_arg_bounds: "find_arg n as i = Some (k, b) \<Longrightarrow> i \<le> k \<and> k < i + length as"
  by (induction as arbitrary: i) (fastforce split: option.splits)+

lemma fail_with_eq:
  assumes "literal_piece p" "list_all literal_piece ps" "length ns = length ps"
  shows "fail_with (join ''{}'' (p # ps)) ns = Inl (Invalid_argument (p @ interleave ns ps))"
  using assms format_string_eq [of p ps ns] by (simp add: fail_with_def format_result_def list_all_iff)

lemma fail_required:
  "fail_with ''Required argument '{}' not provided.'' [n] =
     Inl (Invalid_argument ((''Required argument '' @ [CHR 0x27]) @ n @ CHR 0x27 # '' not provided.''))"
proof -
  have "literal_piece (''Required argument '' @ [CHR 0x27])"
    "list_all literal_piece [CHR 0x27 # '' not provided.'']"
    by (simp_all add: literal_piece_def find_str_def upt_rec)
  from fail_with_eq [OF this, of "[n]"] show ?thesis by (simp add: join_Cons interleave_def)
qed

lemma fail_must_provide:
  "fail_with ''Argument '{}' must provide value.'' [n] =
     Inl (Invalid_argument ((''Argument '' @ [CHR 0x27]) @ n @ CHR 0x27 # '' must provide value.''))"
proof -
  have "literal_piece (''Argument '' @ [CHR 0x27])"
    "list_all literal_piece [CHR 0x27 # '' must provide value.'']"
    by (simp_all add: literal_piece_def find_str_def upt_rec)
  from fail_with_eq [OF this, of "[n]"] show ?thesis by (simp add: join_Cons interleave_def)
qed

lemma getValueArg_found_next:
  "list_all (\<lambda>e. match_arg n e = None) pre \<Longrightarrow>
     getValueArg n req d \<lparr>opt_args = pre @ n # v # post, opt_arg0 = z\<rparr> =
       Inr (v, \<lparr>opt_args = pre @ post, opt_arg0 = z\<rparr>)"
  by (simp add: getValueArg_def find_arg_skip defer_in_def nth_append)

lemma getValueArg_found_equal_sign:
  "list_all (\<lambda>e. match_arg n e = None) pre \<Longrightarrow>
     getValueArg n req d \<lparr>opt_args = pre @ (n @ CHR ''='' # v) # post, opt_arg0 = z\<rparr> =
       Inr (v, \<lparr>opt_args = pre @ post, opt_arg0 = z\<rparr>)"
  by (simp add: getValueArg_def find_arg_skip defer_in_def nth_append)

lemma getValueArg_value_missing:
  "list_all (\<lambda>e. match_arg n e = None) pre \<Longrightarrow>
     getValueArg n req d \<lparr>opt_args = pre @ [n], opt_arg0 = z\<rparr> =
       Inl (Undefined_behaviour ''vector::erase at the end iterator'')"
  by (simp add: getValueArg_def find_arg_skip defer_in_def)

lemma getValueArg_absent:
  "list_all (\<lambda>e. match_arg n e = None) as \<Longrightarrow>
     getValueArg n req d \<lparr>opt_args = as, opt_arg0 = z\<rparr> =
       (if req then fail_with ''Required argument '{}' not provided.'' [n]
        else Inr (d, \<lparr>opt_args = as, opt_arg0 = z\<rparr>))"
  using find_arg_skip [of n as "[]" 0] by (simp add: getValueArg_def)

lemma bindR_erase_eq_Inr:
  "bindR (erase_at i xs) f = Inr y \<longleftrightarrow> (\<exists>ys. erase_at i xs = Inr ys \<and> f ys = Inr y)"
  by (rule bindR_eq_Inr_iff)

lemma getValueArg_shorter:
  assumes "getValueArg n req d p = Inr (v, p')"
  shows "v = d \<and> p' = p \<or> length (opt_args p') < length (opt_args p)"
  using assms
  by (auto simp: getValueArg_def defer_in_def bindR_eq_Inr_iff fail_with_def Let_def
      split: option.splits if_splits dest!: erase_at_shorter)

section \<open>Properties\<close>

text \<open>C21: Fetching an option, on each of its four outcomes. The first match wins; attached with
  an equal sign or given as the next argument, the value is returned and exactly the arguments
  read are removed. An absent option gives the default, or \<open>invalid_argument\<close> when it is
  required. An option that is the last argument, with no value, does not raise the exception
  the code prepares: the scope guard erases past the end of the vector on the way out, which
  is undefined.\<close>

theorem getValueArg_outcomes:
  assumes "list_all (\<lambda>e. match_arg n e = None) pre"
  shows "getValueArg n req d \<lparr>opt_args = pre @ n # v # post, opt_arg0 = z\<rparr> =
      Inr (v, \<lparr>opt_args = pre @ post, opt_arg0 = z\<rparr>) \<and>
    getValueArg n req d \<lparr>opt_args = pre @ (n @ ''='' @ v) # post, opt_arg0 = z\<rparr> =
      Inr (v, \<lparr>opt_args = pre @ post, opt_arg0 = z\<rparr>) \<and>
    getValueArg n req d \<lparr>opt_args = pre @ [n], opt_arg0 = z\<rparr> =
      Inl (Undefined_behaviour ''vector::erase at the end iterator'') \<and>
    getValueArg n True d \<lparr>opt_args = pre, opt_arg0 = z\<rparr> =
      Inl (Invalid_argument ((''Required argument '' @ [CHR 0x27]) @ n @ CHR 0x27 # '' not provided.'')) \<and>
    getValueArg n False d \<lparr>opt_args = pre, opt_arg0 = z\<rparr> =
      Inr (d, \<lparr>opt_args = pre, opt_arg0 = z\<rparr>)"
  using assms by (simp add: getValueArg_found_next getValueArg_found_equal_sign
      getValueArg_value_missing getValueArg_absent fail_required)

lemma getValueArg_outcomes_witness:
  "getValueArg ''--log'' False ''info'' \<lparr>opt_args = [''-i'', ''x''] @ ''--log'' # ''debug'' # [''-o''], opt_arg0 = []\<rparr> =
     Inr (''debug'', \<lparr>opt_args = [''-i'', ''x''] @ [''-o''], opt_arg0 = []\<rparr>)"
proof -
  have "list_all (\<lambda>e. match_arg ''--log'' e = None) [''-i'', ''x'']" by (simp add: match_arg_def)
  from getValueArg_outcomes [OF this] show ?thesis by blast
qed

end
