(* ===== verification/Logger.thy ===== *)
theory Logger
  imports Rstring
begin

text \<open>
  The logger of \<open>src/src/lib/rlib/log.hpp\<close>. A logger writes to a stream it may own; the stream
  is modelled by the text written to it. The counter of log levels is shared by all loggers of
  the program, the names of added levels belong to one logger.
\<close>

section \<open>Levels\<close>

text \<open>
  The enumeration has six members and is open: \<open>Custom_level n\<close> is the value \<open>n\<close> steps behind
  the last predefined one. It is ordered by its underlying integer.
\<close>

datatype log_level_t = FATAL | ERROR | WARNING | INFO | VERBOSE | DEBUG | Custom_level nat

fun level_int :: "log_level_t \<Rightarrow> nat" where
  "level_int FATAL = 1"
| "level_int ERROR = 2"
| "level_int WARNING = 3"
| "level_int INFO = 4"
| "level_int VERBOSE = 5"
| "level_int DEBUG = 6"
| "level_int (Custom_level n) = 7 + n"

lemma level_int_inject: "level_int a = level_int b \<longleftrightarrow> a = b"
  by (cases a; cases b) simp_all

instantiation log_level_t :: linorder
begin

definition less_eq_log_level_t :: "log_level_t \<Rightarrow> log_level_t \<Rightarrow> bool" where
  "less_eq_log_level_t a b \<longleftrightarrow> level_int a \<le> level_int b"

definition less_log_level_t :: "log_level_t \<Rightarrow> log_level_t \<Rightarrow> bool" where
  "less_log_level_t a b \<longleftrightarrow> level_int a < level_int b"

instance
  by standard (auto simp: less_eq_log_level_t_def less_log_level_t_def level_int_inject)

end

definition predefined_log_level_name :: "log_level_t \<Rightarrow> string" where
  "predefined_log_level_name level =
     (case level of
        FATAL \<Rightarrow> ''FATAL'' | ERROR \<Rightarrow> ''ERROR'' | WARNING \<Rightarrow> ''WARNING'' | INFO \<Rightarrow> ''INFO''
      | VERBOSE \<Rightarrow> ''VERBOSE'' | DEBUG \<Rightarrow> ''DEBUG'' | Custom_level _ \<Rightarrow> [])"

definition is_predefined_log_level :: "log_level_t \<Rightarrow> bool" where
  "is_predefined_log_level level = (predefined_log_level_name level \<noteq> [])"

section \<open>Loggers\<close>

record logger =
  pstream :: string
  custom_log_level_names :: "(log_level_t \<times> string) list"
  log_level :: log_level_t
  must_delete_stream :: bool
  enable_flush :: bool

definition mk_logger :: "string \<Rightarrow> logger" where
  "mk_logger stream = \<lparr>pstream = stream, custom_log_level_names = [], log_level = INFO,
     must_delete_stream = False, enable_flush = True\<rparr>"

definition mk_file_logger :: "bool \<Rightarrow> string \<Rightarrow> logger result" where
  "mk_file_logger open_ok file_name =
     (if \<not> open_ok
      then bindR (format_string ''Failed to open file {}.'' [file_name]) (\<lambda>m. Inl (Runtime_error m))
      else Inr ((mk_logger [])\<lparr>must_delete_stream := True\<rparr>))"

text \<open>
  Moving a logger, by construction and by assignment: the new value of the target and what is
  left of the source, which no longer deletes the stream. The destructor says whether it
  deletes one.
\<close>

definition move_logger :: "logger \<Rightarrow> logger \<times> logger" where
  "move_logger another =
     (\<lparr>pstream = pstream another, custom_log_level_names = custom_log_level_names another,
       log_level = log_level another, must_delete_stream = must_delete_stream another,
       enable_flush = enable_flush another\<rparr>,
      another\<lparr>custom_log_level_names := [], must_delete_stream := False\<rparr>)"

definition assign_logger :: "logger \<Rightarrow> logger \<Rightarrow> logger \<times> logger" where
  "assign_logger this another =
     (this\<lparr>pstream := pstream another, enable_flush := enable_flush another,
           must_delete_stream := must_delete_stream another, log_level := log_level another,
           custom_log_level_names := custom_log_level_names another\<rparr>,
      another\<lparr>custom_log_level_names := [], must_delete_stream := False\<rparr>)"

definition destroy_logger_deletes :: "logger \<Rightarrow> bool" where
  "destroy_logger_deletes l = must_delete_stream l"

definition set_log_level :: "log_level_t \<Rightarrow> logger \<Rightarrow> logger" where
  "set_log_level max_level l = l\<lparr>log_level := max_level\<rparr>"

definition set_flush :: "bool \<Rightarrow> logger \<Rightarrow> logger" where
  "set_flush enable l = l\<lparr>enable_flush := enable\<rparr>"

definition log_level_name :: "logger \<Rightarrow> log_level_t \<Rightarrow> string" where
  "log_level_name l level =
     (let name = predefined_log_level_name level in
      if name \<noteq> [] then name
      else let name = (case List.find (\<lambda>(lv, n). level = lv) (custom_log_level_names l) of
                         None \<Rightarrow> [] | Some (_, n) \<Rightarrow> n) in
        if name \<noteq> [] then name else ''LEVEL-'' @ to_string (level_int level))"

definition log :: "string \<Rightarrow> log_level_t \<Rightarrow> string \<Rightarrow> string list \<Rightarrow> logger \<Rightarrow> logger result" where
  "log now level info extra_args l =
     (if is_predefined_log_level level \<and> level > log_level l then Inr l
      else bindR (format_string info extra_args) (\<lambda>text.
        bindR (format_string ''[{}|{}] {}'' [now, log_level_name l level, text]) (\<lambda>line.
          Inr (l\<lparr>pstream := pstream l @ line @ [CHR 0x0A]\<rparr>))))"

text \<open>The counter is the integer value of the last level in use; \<open>INT_MAX\<close> is \<open>2 ^ 31 - 1\<close>.\<close>

text \<open>One method per predefined level.\<close>

definition log_fatal :: "string \<Rightarrow> string \<Rightarrow> string list \<Rightarrow> logger \<Rightarrow> logger result" where
  "log_fatal now info extra l = log now FATAL info extra l"

definition log_error :: "string \<Rightarrow> string \<Rightarrow> string list \<Rightarrow> logger \<Rightarrow> logger result" where
  "log_error now info extra l = log now ERROR info extra l"

definition log_warning :: "string \<Rightarrow> string \<Rightarrow> string list \<Rightarrow> logger \<Rightarrow> logger result" where
  "log_warning now info extra l = log now WARNING info extra l"

definition log_info :: "string \<Rightarrow> string \<Rightarrow> string list \<Rightarrow> logger \<Rightarrow> logger result" where
  "log_info now info extra l = log now INFO info extra l"

definition log_verbose :: "string \<Rightarrow> string \<Rightarrow> string list \<Rightarrow> logger \<Rightarrow> logger result" where
  "log_verbose now info extra l = log now VERBOSE info extra l"

definition log_debug :: "string \<Rightarrow> string \<Rightarrow> string list \<Rightarrow> logger \<Rightarrow> logger result" where
  "log_debug now info extra l = log now DEBUG info extra l"

definition register_log_level ::
  "string \<Rightarrow> nat \<times> logger \<Rightarrow> (log_level_t \<times> nat \<times> logger) result" where
  "register_log_level name = (\<lambda>(max_level, l).
     if max_level = 2 ^ 31 - 1
     then Inl (Overflow_error ''At most 2147483647(INT_MAX) log_level is allowed.'')
     else let max_level = max_level + 1; new_level = Custom_level (max_level - 7)
          in Inr (new_level, max_level,
               l\<lparr>custom_log_level_names := custom_log_level_names l @ [(new_level, name)]\<rparr>))"

section \<open>Lemmas\<close>

lemma literal_log_pieces:
  "literal_piece ''[''" "list_all literal_piece [''|'', ''] '', []]"
  by (simp_all add: literal_piece_def find_str_def upt_rec)

lemma log_line_format:
  "format_string ''[{}|{}] {}'' [a, b, c] = Inr (''['' @ a @ ''|'' @ b @ ''] '' @ c)"
  using format_string_eq [of "''[''" "[''|'', ''] '', []]" "[a, b, c]"] literal_log_pieces
  by (simp add: join_Cons format_result_def interleave_def list_all_iff)

lemma format_string_plain:
  "literal_piece info \<Longrightarrow> format_string info [] = Inr info"
  using format_string_eq [of info "[]" "[]"] by (simp add: join_Cons format_result_def interleave_def)

lemma predefined_iff: "is_predefined_log_level level \<longleftrightarrow> (\<forall>n. level \<noteq> Custom_level n)"
  by (cases level) (simp_all add: is_predefined_log_level_def predefined_log_level_name_def)

lemma find_append_new:
  "List.find P xs = None \<Longrightarrow> List.find P (xs @ [y]) = (if P y then Some y else None)"
  by (induction xs) (auto split: if_splits)

section \<open>Properties\<close>

text \<open>A message without placeholders is written exactly when its level is not above the
  logger's level, or when it is an added level, which is never filtered; the line carries the
  time, the name of the level and the message, and nothing else of the logger changes.\<close>

theorem log_filters_by_level:
  assumes "literal_piece info"
  shows "log now level info [] l = Inr
     (if level \<le> log_level l \<or> (\<exists>n. level = Custom_level n)
      then l\<lparr>pstream := pstream l @ (''['' @ now @ ''|'' @ log_level_name l level @ ''] '' @ info) @ [CHR 0x0A]\<rparr>
      else l)"
  using assms by (auto simp: log_def log_line_format format_string_plain predefined_iff not_le)

lemma log_filters_by_level_witness:
  "log ''now'' DEBUG ''x'' [] (mk_logger []) = Inr (mk_logger []) \<and>
   log ''now'' ERROR ''x'' [] (mk_logger []) = Inr (mk_logger (''[now|ERROR] x'' @ [CHR 0x0A]))"
proof -
  have "literal_piece ''x''" by (simp add: literal_piece_def find_str_def)
  note f = log_filters_by_level [OF this, where now = "''now''" and l = "mk_logger []"]
  show ?thesis
    unfolding f by (simp add: mk_logger_def less_eq_log_level_t_def log_level_name_def
        predefined_log_level_name_def)
qed

text \<open>A level registered with a name is new to the program, its name is what the logger
  shows for it, and it is written under its name whatever the logger's level.\<close>

theorem registered_level_name:
  assumes "register_log_level name (max_level, l) = Inr (level, max_level', l')"
    and "6 \<le> max_level" "list_all (\<lambda>(lv, n). level_int lv \<le> max_level) (custom_log_level_names l)"
    and "name \<noteq> []"
  shows "level_int level = max_level + 1 \<and> max_level' = max_level + 1 \<and> log_level_name l' level = name \<and>
    list_all (\<lambda>(lv, n). level_int lv \<le> max_level') (custom_log_level_names l') \<and>
    \<not> is_predefined_log_level level"
proof -
  have r: "level = Custom_level (max_level + 1 - 7)" "max_level' = max_level + 1"
      "l' = l\<lparr>custom_log_level_names := custom_log_level_names l @ [(level, name)]\<rparr>"
    using assms(1) by (auto simp: register_log_level_def Let_def split: if_splits)
  have int: "level_int level = max_level + 1" using r(1) assms(2) by simp
  have "List.find (\<lambda>(lv, n). level = lv) (custom_log_level_names l) = None"
    using assms(3) int by (fastforce simp: find_None_iff list_all_iff)
  then have "List.find (\<lambda>(lv, n). level = lv) (custom_log_level_names l') = Some (level, name)"
    by (simp add: r(3) find_append_new)
  moreover have "predefined_log_level_name level = []" "\<not> is_predefined_log_level level"
    using r(1) by (simp_all add: predefined_log_level_name_def predefined_iff)
  moreover have "list_all (\<lambda>(lv, n). level_int lv \<le> max_level') (custom_log_level_names l')"
    using assms(3) int r(2,3) by (auto simp: list_all_iff)
  ultimately show ?thesis using int r(2) assms(4) by (simp add: log_level_name_def)
qed

lemma registered_level_name_witness:
  "log_level_name ((mk_logger [])\<lparr>custom_log_level_names := [(Custom_level 0, ''TRACE'')]\<rparr>) (Custom_level 0) =
     ''TRACE''"
proof -
  have "register_log_level ''TRACE'' (6, mk_logger []) =
      Inr (Custom_level 0, 7, (mk_logger [])\<lparr>custom_log_level_names := [(Custom_level 0, ''TRACE'')]\<rparr>)"
    by (simp add: register_log_level_def mk_logger_def Let_def)
  from registered_level_name [OF this] show ?thesis by (simp add: mk_logger_def)
qed

end
