(* ===== verification/Sock_Io.thy ===== *)
theory Sock_Io
  imports Rstring Scope_Guard
begin

text \<open>
  The socket helpers of \<open>src/src/lib/rlib/sys/sio.hpp\<close>: reading and writing exactly \<open>n\<close> bytes
  over a stream, the framed messages of the inter-thread pipe, reading everything there is,
  and opening listening and connected sockets.

  The operating system is a parameter: a receiving operation takes the list of the arrivals
  on its socket, in order, a sending one the list of the answers to its \<open>send\<close> calls, and
  opening a socket the list of the outcomes for each address that \<open>getaddrinfo\<close> returned.
  \<open>None\<close> as the value of an operation means that it blocks: the list is used up and the
  operation still waits.
\<close>

section \<open>Receiving\<close>

text \<open>
  An arrival is a chunk of bytes, an interruption by a signal or an error. A \<open>recv\<close> call gets
  at most the requested number of bytes of the first chunk and leaves the rest in the
  socket; the empty chunk is the end of the stream.
\<close>

datatype arrival = Chunk bytes | Interrupted | Broken

datatype recv_answer = Got bytes | Eintr | Err

fun recv_call :: "nat \<Rightarrow> arrival list \<Rightarrow> (recv_answer \<times> arrival list) option" where
  "recv_call n [] = None"
| "recv_call n (Interrupted # as) = Some (Eintr, as)"
| "recv_call n (Broken # as) = Some (Err, as)"
| "recv_call n (Chunk bs # as) =
     (if length bs \<le> n then Some (Got bs, as) else Some (Got (take n bs), Chunk (drop n bs) # as))"

text \<open>
  \<open>recvn\<close>: the value is the returned count, -1 for an error, with the bytes that were put in
  the buffer.
\<close>

function recvn_loop :: "nat \<Rightarrow> nat \<Rightarrow> bytes \<Rightarrow> arrival list \<Rightarrow> ((int \<times> bytes) \<times> arrival list) option" where
  "recvn_loop n nleft buf as =
     (if nleft = 0 then Some ((int n, buf), as)
      else case recv_call nleft as of
        None \<Rightarrow> None
      | Some (Eintr, as') \<Rightarrow> recvn_loop n nleft buf as'
      | Some (Err, as') \<Rightarrow> Some ((-1, buf), as')
      | Some (Got bs, as') \<Rightarrow>
          if length bs = 0 then Some ((-1, buf), as')
          else recvn_loop n (nleft - length bs) (buf @ bs) as')"
  by pat_completeness auto

lemma recv_call_decreases:
  "recv_call n as = Some (a, as') \<Longrightarrow> 0 < n \<Longrightarrow>
     length as' < length as \<or> length as' = length as \<and> (\<exists>bs. a = Got bs \<and> length bs = n)"
  by (induction n as rule: recv_call.induct) (auto split: if_splits)

termination recvn_loop
  by (relation "measure (\<lambda>(n, nleft, buf, as). nleft + length as)")
    (auto dest!: recv_call_decreases)

declare recvn_loop.simps [simp del]

definition recvn :: "nat \<Rightarrow> arrival list \<Rightarrow> ((int \<times> bytes) \<times> arrival list) option" where
  "recvn n as = recvn_loop n n [] as"

text \<open>
  An operation that may block, fail with an exception or return: its value carries the
  arrivals that are left.
\<close>

definition bindIO ::
  "('a result \<times> 's) option \<Rightarrow> ('a \<Rightarrow> 's \<Rightarrow> ('b result \<times> 's) option) \<Rightarrow> ('b result \<times> 's) option" where
  "bindIO r f = (case r of
       None \<Rightarrow> None
     | Some (Inl e, s) \<Rightarrow> Some (Inl e, s)
     | Some (Inr x, s) \<Rightarrow> f x s)"

lemma bindIO_simps [simp]:
  "bindIO None f = None"
  "bindIO (Some (Inl e, s)) f = Some (Inl e, s)"
  "bindIO (Some (Inr x, s)) f = f x s"
  by (simp_all add: bindIO_def)

text \<open>The text of an error number is not modelled: the messages end before it.\<close>

definition recvn_ex :: "nat \<Rightarrow> arrival list \<Rightarrow> (bytes result \<times> arrival list) option" where
  "recvn_ex n as = (case recvn n as of
       None \<Rightarrow> None
     | Some ((ret, buf), as') \<Rightarrow>
         if ret = -1 then Some (Inl (Runtime_error ''recvn failed. ''), as') else Some (Inr buf, as'))"

definition quick_recvn :: "nat \<Rightarrow> arrival list \<Rightarrow> (bytes result \<times> arrival list) option" where
  "quick_recvn n as = bindIO (recvn_ex n as) (\<lambda>buf as'.
     Some (Inr (buf @ drop (length buf) (replicate n 48)), as'))"

section \<open>Sending\<close>

text \<open>
  The answer to a \<open>send\<close> call: a number of bytes taken, never more than were offered, an
  interruption or an error. The bytes taken go on the wire.
\<close>

datatype send_answer = Sent nat | Send_eintr | Send_err

fun sendn_loop :: "nat \<Rightarrow> bytes \<Rightarrow> bytes \<Rightarrow> send_answer list \<Rightarrow> ((int \<times> bytes) \<times> send_answer list) option" where
  "sendn_loop n [] wire as = Some ((int n, wire), as)"
| "sendn_loop n (b # rest) wire [] = None"
| "sendn_loop n (b # rest) wire (Send_eintr # as) = sendn_loop n (b # rest) wire as"
| "sendn_loop n (b # rest) wire (Send_err # as) = Some ((-1, wire), as)"
| "sendn_loop n (b # rest) wire (Sent k # as) =
     (if k = 0 then Some ((-1, wire), as)
      else sendn_loop n (drop k (b # rest)) (wire @ take k (b # rest)) as)"

definition sendn :: "bytes \<Rightarrow> send_answer list \<Rightarrow> ((int \<times> bytes) \<times> send_answer list) option" where
  "sendn dat as = sendn_loop (length dat) dat [] as"

text \<open>The value is what went on the wire, with the exception if there was one.\<close>

definition sendn_ex :: "bytes \<Rightarrow> send_answer list \<Rightarrow> (unit result \<times> bytes \<times> send_answer list) option" where
  "sendn_ex dat as = (case sendn dat as of
       None \<Rightarrow> None
     | Some ((ret, wire), as') \<Rightarrow>
         Some (if ret = -1 then Inl (Runtime_error ''sendn failed. '') else Inr (), wire, as'))"

definition quick_send :: "bytes \<Rightarrow> send_answer list \<Rightarrow> (unit result \<times> bytes \<times> send_answer list) option" where
  "quick_send dat as = sendn_ex dat as"

section \<open>Framed messages\<close>

record packed_msg_head =
  head_magic :: u32
  head_len :: u64

definition msg_magic :: u32 where
  "msg_magic = 0x19990823"

definition head_bytes :: "packed_msg_head \<Rightarrow> bytes" where
  "head_bytes h = le_bytes 4 (ucast (head_magic h)) @ le_bytes 8 (head_len h)"

definition parse_head :: "bytes \<Rightarrow> packed_msg_head" where
  "parse_head bs = \<lparr>head_magic = ucast (le_value (take 4 bs)), head_len = le_value (drop 4 bs)\<rparr>"

definition recv_msg :: "arrival list \<Rightarrow> (bytes result \<times> arrival list) option" where
  "recv_msg as = bindIO (recvn_ex 12 as) (\<lambda>bs as.
     let head = parse_head bs in
     if head_magic head \<noteq> msg_magic then Some (Inl (Runtime_error ''Invalid magic received.''), as)
     else if head_len head > 1024 * 1024 * 1024 * 2
     then Some (Inl (Runtime_error
       ''Message len is greater than 2GiB. Refuse to alloc space.''), as)
     else bindIO (recvn_ex (unat (head_len head)) as) (\<lambda>dat as. Some (Inr dat, as)))"

definition send_msg :: "bytes \<Rightarrow> send_answer list \<Rightarrow> (unit result \<times> bytes \<times> send_answer list) option" where
  "send_msg dat as =
     (let head = \<lparr>head_magic = msg_magic, head_len = of_nat (length dat)\<rparr> in
      case sendn_ex (head_bytes head) as of
        None \<Rightarrow> None
      | Some (Inl e, wire, as) \<Rightarrow> Some (Inl e, wire, as)
      | Some (Inr u, wire, as) \<Rightarrow>
          (case sendn_ex dat as of
             None \<Rightarrow> None
           | Some (r, wire', as) \<Rightarrow> Some (r, wire @ wire', as)))"

section \<open>Lemmas on sending and receiving\<close>

lemma sendn_loop_outcome:
  "sendn_loop n dat wire as = Some ((r, wire'), as') \<Longrightarrow>
     r = int n \<and> wire' = wire @ dat \<or> r = -1 \<and> (\<exists>k < length dat. wire' = wire @ take k dat)"
proof (induction n dat wire as rule: sendn_loop.induct)
  case (5 n b rest wire k as)
  show ?case
  proof (cases "k = 0")
    case False
    with 5 have "r = int n \<and> wire' = (wire @ take k (b # rest)) @ drop k (b # rest) \<or>
        r = -1 \<and> (\<exists>j < length (drop k (b # rest)).
          wire' = (wire @ take k (b # rest)) @ take j (drop k (b # rest)))"
      by (simp del: append_assoc)
    moreover have "take k (b # rest) @ take j (drop k (b # rest)) = take (k + j) (b # rest)" for j
      by (simp add: take_add)
    ultimately show ?thesis
      by (metis append.assoc append_take_drop_id length_drop less_diff_conv add.commute)
  qed (use 5 in auto)
qed (auto intro: exI [of _ 0])

lemma sendn_outcome:
  "sendn dat as = Some ((r, wire), as') \<Longrightarrow>
     r = int (length dat) \<and> wire = dat \<or> r = -1 \<and> (\<exists>k < length dat. wire = take k dat)"
  unfolding sendn_def by (drule sendn_loop_outcome) simp

lemma sendn_ex_success: "sendn_ex dat as = Some (Inr (), wire, as') \<Longrightarrow> wire = dat"
  by (auto simp: sendn_ex_def split: option.splits if_splits dest: sendn_outcome)

text \<open>
  The arrivals of a connection that is not closed: no error and no end of the stream. Their
  bytes are what the peer has sent and the operation may read.
\<close>

definition open_stream :: "arrival list \<Rightarrow> bool" where
  "open_stream as \<longleftrightarrow> list_all (\<lambda>a. a \<noteq> Broken \<and> a \<noteq> Chunk []) as"

fun arrived :: "arrival list \<Rightarrow> bytes" where
  "arrived [] = []"
| "arrived (Chunk bs # as) = bs @ arrived as"
| "arrived (_ # as) = arrived as"

lemma open_stream_simps [simp]:
  "open_stream []"
  "open_stream (a # as) \<longleftrightarrow> a \<noteq> Broken \<and> a \<noteq> Chunk [] \<and> open_stream as"
  by (simp_all add: open_stream_def)

lemma recv_call_open:
  assumes "open_stream as" "0 < n"
  shows "case recv_call n as of
      None \<Rightarrow> arrived as = []
    | Some (a, as') \<Rightarrow> open_stream as' \<and>
        (a = Eintr \<and> arrived as' = arrived as \<and> length as' < length as \<or>
         (\<exists>bs. a = Got bs \<and> bs \<noteq> [] \<and> length bs \<le> n \<and> arrived as = bs @ arrived as'))"
  using assms by (induction n as rule: recv_call.induct) auto

lemma recvn_loop_open:
  "open_stream as \<Longrightarrow> nleft \<le> length (arrived as) \<Longrightarrow>
     \<exists>as'. recvn_loop n nleft buf as = Some ((int n, buf @ take nleft (arrived as)), as') \<and>
       open_stream as' \<and> arrived as' = drop nleft (arrived as)"
proof (induction n nleft buf as rule: recvn_loop.induct)
  case (1 n nleft buf as)
  show ?case
  proof (cases "nleft = 0")
    case True
    then show ?thesis using 1(3) by (simp add: recvn_loop.simps [of n])
  next
    case False
    note rc = recv_call_open [OF 1(3), of nleft]
    show ?thesis
    proof (cases "recv_call nleft as")
      case None
      then show ?thesis using rc False 1(4) by simp
    next
      case (Some r)
      obtain a as1 where r: "r = (a, as1)" by (cases r)
      show ?thesis
      proof (cases a)
        case Eintr
        then show ?thesis using rc Some r False 1(2) [OF False Some r [symmetric] Eintr] 1(4)
          by (simp add: recvn_loop.simps [of n nleft])
      next
        case (Got bs)
        then have g: "open_stream as1" "bs \<noteq> []" "length bs \<le> nleft" "arrived as = bs @ arrived as1"
          using rc Some r False by auto
        have "nleft - length bs \<le> length (arrived as1)" using 1(4) g by simp
        from 1(1) [OF False Some r [symmetric] Got _ g(1) this] g Some r False Got show ?thesis
          by (simp add: recvn_loop.simps [of n nleft])
      next
        case Err
        then show ?thesis using rc Some r False by simp
      qed
    qed
  qed
qed

lemma recvn_open:
  assumes "open_stream as" "n \<le> length (arrived as)"
  shows "\<exists>as'. recvn_ex n as = Some (Inr (take n (arrived as)), as') \<and>
       open_stream as' \<and> arrived as' = drop n (arrived as)"
  using recvn_loop_open [OF assms, of n "[]"] by (auto simp: recvn_ex_def recvn_def)

lemma recvn_loop_outcome:
  "recvn_loop n nleft buf as = Some ((r, buf'), as') \<Longrightarrow> length buf + nleft = n \<Longrightarrow>
     r = int n \<and> length buf' = n \<or> r = -1 \<and> length buf' < n"
proof (induction n nleft buf as rule: recvn_loop.induct)
  case (1 n nleft buf as)
  show ?case
  proof (cases "nleft = 0")
    case True
    then show ?thesis using 1(3,4) by (simp add: recvn_loop.simps [of n])
  next
    case False
    from 1(3) False obtain a as1 where Some: "recv_call nleft as = Some (a, as1)"
      by (auto simp: recvn_loop.simps [of n nleft] split: option.splits)
    show ?thesis
    proof (cases a)
      case Eintr
      then show ?thesis using 1(2) [OF False Some refl Eintr] 1(3,4) False Some
        by (simp add: recvn_loop.simps [of n nleft])
    next
      case Err
      then show ?thesis using 1(3,4) False Some
        by (auto simp: recvn_loop.simps [of n nleft])
    next
      case (Got bs)
      have "length bs \<le> nleft" using Some Got
        by (induction nleft as rule: recv_call.induct) (auto split: if_splits)
      then show ?thesis using 1(1) [OF False Some refl Got] 1(3,4) False Some Got
        by (auto simp: recvn_loop.simps [of n nleft] split: if_splits)
    qed
  qed
qed

lemma recvn_outcome:
  "recvn n as = Some ((r, buf), as') \<Longrightarrow> r = int n \<and> length buf = n \<or> r = -1 \<and> length buf < n"
  unfolding recvn_def by (drule recvn_loop_outcome) simp_all

lemma recvn_ex_length: "recvn_ex n as = Some (Inr buf, as') \<Longrightarrow> length buf = n"
  by (auto simp: recvn_ex_def split: option.splits if_splits dest: recvn_outcome)

section \<open>Lemmas on frames\<close>

definition frame :: "bytes \<Rightarrow> bytes" where
  "frame dat = head_bytes \<lparr>head_magic = msg_magic, head_len = of_nat (length dat)\<rparr> @ dat"

lemma length_head_bytes [simp]: "length (head_bytes h) = 12"
  by (simp add: head_bytes_def)

lemma le_value_le_bytes_32 [simp]: "(ucast (le_value (le_bytes 4 (ucast (w :: u32)))) :: u32) = w"
  by (rule bit_word_eqI) (auto simp: le_value_le_bytes bit_simps)

lemma parse_head_bytes [simp]: "parse_head (head_bytes h) = h"
  by (simp add: parse_head_def head_bytes_def)

lemma send_msg_frame: "send_msg dat as = Some (Inr (), wire, as') \<Longrightarrow> wire = frame dat"
  by (auto simp: send_msg_def frame_def Let_def split: option.splits sum.splits unit.splits
      dest!: sendn_ex_success)

lemma unat_len: "length dat \<le> 2147483648 \<Longrightarrow> unat (of_nat (length dat) :: u64) = length dat"
  by (simp add: unat_of_nat)

lemma len_not_too_big: "length dat \<le> 2147483648 \<Longrightarrow> \<not> (of_nat (length dat) :: u64) > 2147483648"
  by (simp add: word_less_nat_alt unat_of_nat)

lemma recv_msg_frame:
  assumes "open_stream as" "arrived as = frame dat @ rest" "length dat \<le> 2147483648"
  shows "\<exists>as'. recv_msg as = Some (Inr dat, as') \<and> open_stream as' \<and> arrived as' = rest"
proof -
  let ?h = "\<lparr>head_magic = msg_magic, head_len = of_nat (length dat)\<rparr>"
  obtain as1 where as1: "recvn_ex 12 as = Some (Inr (head_bytes ?h), as1)" "open_stream as1"
      "arrived as1 = dat @ rest"
    using recvn_open [OF assms(1), of 12] assms(2) by (auto simp: frame_def)
  obtain as2 where "recvn_ex (length dat) as1 = Some (Inr dat, as2)" "open_stream as2" "arrived as2 = rest"
    using recvn_open [OF as1(2), of "length dat"] as1(3) by auto
  with as1 show ?thesis
    using len_not_too_big [OF assms(3)]
    by (simp add: recv_msg_def Let_def unat_len [OF assms(3)])
qed

section \<open>Opening sockets\<close>

text \<open>
  One address that \<open>getaddrinfo\<close> returned, with what the operating system answers when the
  code tries it: the descriptor of the new socket, or \<open>None\<close>, and the outcome of each call
  on it. The code's effects outside memory are a trace of system events.
\<close>

datatype socktype = SOCK_STREAM | SOCK_DGRAM
datatype protocol = IPPROTO_TCP | IPPROTO_UDP

record addr_hints =
  ai_socktype :: socktype
  ai_protocol :: protocol
  ai_passive :: bool

record candidate =
  cand_fd :: "nat option"
  reuseaddr_ok :: bool
  reuseport_ok :: bool
  attach_ok :: bool

record net_env =
  getaddrinfo :: "string \<Rightarrow> string \<Rightarrow> addr_hints \<Rightarrow> int \<times> candidate list"
  listen_ok :: "nat \<Rightarrow> bool"
  wsa_startup :: int

datatype sys_event = Opened nat | Closed nat | Freed_addrinfo | Wsa_cleanup

definition int_string :: "int \<Rightarrow> string" where
  "int_string i = (if i < 0 then CHR ''-'' # to_string (nat (- i)) else to_string (nat i))"

definition mk_hints :: "bool \<Rightarrow> bool \<Rightarrow> addr_hints" where
  "mk_hints use_udp passive =
     (if use_udp then \<lparr>ai_socktype = SOCK_DGRAM, ai_protocol = IPPROTO_UDP, ai_passive = passive\<rparr>
      else \<lparr>ai_socktype = SOCK_STREAM, ai_protocol = IPPROTO_TCP, ai_passive = passive\<rparr>)"

text \<open>
  The loop over the addresses, the same in the four functions: \<open>attach\<close> is \<open>bind\<close> for a
  listening and \<open>connect\<close> for a connected socket, and only POSIX sets \<open>SO_REUSEPORT\<close>.
\<close>

fun open_loop :: "bool \<Rightarrow> candidate list \<Rightarrow> sys_event list \<Rightarrow> nat option result \<times> sys_event list" where
  "open_loop posix [] tr = (Inr None, tr)"
| "open_loop posix (c # cs) tr =
     (case cand_fd c of
        None \<Rightarrow> open_loop posix cs tr
      | Some fd \<Rightarrow>
          let tr = tr @ [Opened fd] in
          if \<not> reuseaddr_ok c
          then (Inl (Runtime_error ''setsockopt(SO_REUSEADDR) failed''), tr)
          else if posix \<and> \<not> reuseport_ok c
          then (Inl (Runtime_error ''setsockopt(SO_REUSEPORT) failed''), tr)
          else if attach_ok c then (Inr (Some fd), tr)
          else open_loop posix cs (tr @ [Closed fd]))"

definition quick_listen_posix ::
  "net_env \<Rightarrow> string \<Rightarrow> u16 \<Rightarrow> bool \<Rightarrow> nat result \<times> sys_event list" where
  "quick_listen_posix env addr port use_udp =
     (let (ret, cands) = getaddrinfo env addr (to_string (unat port)) (mk_hints use_udp True) in
      if ret \<noteq> 0
      then (Inl (Runtime_error (''Failed to getaddrinfo. returnval='' @ int_string ret @
              '', check `man getaddrinfo`'s return value.'')), [])
      else case open_loop True cands [] of
        (Inl e, tr) \<Rightarrow> (Inl e, tr)
      | (Inr None, tr) \<Rightarrow> (Inl (Runtime_error
            (''Failed to bind '' @ addr @ '':'' @ to_string (unat port) @ ''.'')), tr)
      | (Inr (Some fd), tr) \<Rightarrow>
          if \<not> use_udp \<and> \<not> listen_ok env fd then (Inl (Runtime_error ''listen failed. ''), tr)
          else (Inr fd, tr @ [Freed_addrinfo]))"

definition quick_connect_posix ::
  "net_env \<Rightarrow> string \<Rightarrow> u16 \<Rightarrow> bool \<Rightarrow> nat result \<times> sys_event list" where
  "quick_connect_posix env addr port use_udp =
     (let (ret, cands) = getaddrinfo env addr (to_string (unat port)) (mk_hints use_udp False) in
      if ret \<noteq> 0
      then (Inl (Runtime_error (''getaddrinfo failed. Check network connection to '' @ addr @ '':'' @
              to_string (unat port) @ ''; returnval='' @ int_string ret @
              '', check `man getaddrinfo`'s return value.'')), [])
      else case open_loop True cands [] of
        (Inl e, tr) \<Rightarrow> (Inl e, tr @ [Freed_addrinfo])
      | (Inr None, tr) \<Rightarrow>
          (Inl (Runtime_error ''Failed to connect to any of these addr.''), tr @ [Freed_addrinfo])
      | (Inr (Some fd), tr) \<Rightarrow> (Inr fd, tr @ [Freed_addrinfo]))"

definition quick_listen_windows ::
  "net_env \<Rightarrow> bool \<Rightarrow> string \<Rightarrow> u16 \<Rightarrow> bool \<Rightarrow> nat result \<times> sys_event list" where
  "quick_listen_windows env doNotWSAStartup addr port use_udp =
     (if \<not> doNotWSAStartup \<and> wsa_startup env \<noteq> 0
      then (Inl (Runtime_error (''WSAStartup failed with error: '' @ int_string (wsa_startup env) @ [CHR 0x0A])), [])
      else let (ret, cands) = getaddrinfo env addr (to_string (unat port)) (mk_hints use_udp True) in
        if ret \<noteq> 0
        then (Inl (Runtime_error (''Failed to getaddrinfo. returnval='' @ int_string ret @
                '', check `man getaddrinfo`'s return value.'')), [Wsa_cleanup])
        else case open_loop False cands [] of
          (Inl e, tr) \<Rightarrow> (Inl e, tr)
        | (Inr None, tr) \<Rightarrow> (Inl (Runtime_error ''Failed to bind to any of these addr.''), tr)
        | (Inr (Some fd), tr) \<Rightarrow>
            if \<not> use_udp \<and> \<not> listen_ok env fd then (Inl (Runtime_error ''listen failed. ''), tr)
            else (Inr fd, tr @ [Freed_addrinfo]))"

text \<open>
  The guard of the Windows variant cleans up and frees the address list when the function is
  left, also after the explicit call at its end.
\<close>

definition quick_connect_windows ::
  "net_env \<Rightarrow> bool \<Rightarrow> string \<Rightarrow> u16 \<Rightarrow> bool \<Rightarrow> nat result \<times> sys_event list" where
  "quick_connect_windows env doNotWSAStartup addr port use_udp =
     (if \<not> doNotWSAStartup \<and> wsa_startup env \<noteq> 0
      then (Inl (Runtime_error (''WSAStartup failed with error: '' @ int_string (wsa_startup env) @ [CHR 0x0A])), [])
      else let (ret, cands) = getaddrinfo env addr (to_string (unat port)) (mk_hints use_udp False) in
        if ret \<noteq> 0
        then (Inl (Runtime_error (''getaddrinfo failed. Check network connection to '' @ addr @ '':'' @
                to_string (unat port) @ ''; returnval='' @ int_string ret @
                '', check `man getaddrinfo`'s return value.'')), [Wsa_cleanup])
        else let guard = [Wsa_cleanup, Freed_addrinfo] in
          case open_loop False cands [] of
            (Inl e, tr) \<Rightarrow> (Inl e, tr @ guard)
          | (Inr None, tr) \<Rightarrow>
              (Inl (Runtime_error ''Failed to connect to any of these addr.''), tr @ guard)
          | (Inr (Some fd), tr) \<Rightarrow> (Inr fd, tr @ [Freed_addrinfo] @ guard))"

text \<open>\<open>accept\<close> returns a descriptor or fails; \<open>close_ex\<close> turns a failing \<open>close\<close> into an
  exception.\<close>

definition quick_accept :: "nat option \<Rightarrow> nat result" where
  "quick_accept res =
     (case res of None \<Rightarrow> Inl (Runtime_error ''accept failed. errno = '') | Some fd \<Rightarrow> Inr fd)"

definition close_ex :: "bool \<Rightarrow> nat \<Rightarrow> unit result \<times> sys_event list" where
  "close_ex close_ok fd =
     (if \<not> close_ok then (Inl (Runtime_error ''close failed. error code: ''), []) else (Inr (), [Closed fd]))"

section \<open>Lemmas on opening sockets\<close>

definition works :: "candidate \<Rightarrow> bool" where
  "works c \<longleftrightarrow> cand_fd c \<noteq> None \<and> attach_ok c"

definition tried_events :: "candidate \<Rightarrow> sys_event list" where
  "tried_events c = (case cand_fd c of None \<Rightarrow> [] | Some fd \<Rightarrow> [Opened fd, Closed fd])"

lemma open_loop_eq:
  "list_all (\<lambda>c. reuseaddr_ok c \<and> reuseport_ok c) cs \<Longrightarrow>
     open_loop posix cs tr =
       (case dropWhile (\<lambda>c. \<not> works c) cs of
          [] \<Rightarrow> (Inr None, tr @ concat (map tried_events cs))
        | c # _ \<Rightarrow> (Inr (cand_fd c), tr @ concat (map tried_events (takeWhile (\<lambda>c. \<not> works c) cs)) @
                     [Opened (the (cand_fd c))]))"
proof (induction cs arbitrary: tr)
  case (Cons a cs)
  show ?case
  proof (cases "works a")
    case True
    then obtain fd where "cand_fd a = Some fd" "attach_ok a" by (auto simp: works_def)
    with True Cons.prems show ?thesis by (simp add: Let_def)
  next
    case False
    then consider "cand_fd a = None" | fd where "cand_fd a = Some fd" "\<not> attach_ok a"
      by (auto simp: works_def)
    then have step: "open_loop posix (a # cs) tr = open_loop posix cs (tr @ tried_events a)"
      using Cons.prems by cases (simp_all add: tried_events_def Let_def)
    show ?thesis
      using False Cons by (simp add: step split: list.split del: open_loop.simps dropWhile_eq_Nil_conv)
  qed
qed simp

lemma no_free_in_tried: "Freed_addrinfo \<notin> set (concat (map tried_events cs))"
  by (auto simp: tried_events_def split: option.splits)

lemma sendn_ex_once:
  assumes "length dat = n" "0 < n"
  shows "sendn_ex dat (Sent n # as) = Some (Inr (), dat, as)"
  using assms by (cases dat) (auto simp: sendn_ex_def sendn_def)

section \<open>Properties\<close>

text \<open>C11: A message sent in a frame is received unchanged. Whatever the sizes of the partial
  writes and the interruptions on the sending side, a completed send puts exactly the frame on
  the wire; however the wire is cut into arrivals and interrupted, receiving from it returns the
  message and leaves the bytes behind the frame for the next one.\<close>

theorem framed_message_round_trip:
  assumes "send_msg dat answers = Some (Inr (), wire, answers')"
    and "open_stream as" "arrived as = wire @ rest" "length dat \<le> 2147483648"
  shows "\<exists>as'. recv_msg as = Some (Inr dat, as') \<and> open_stream as' \<and> arrived as' = rest"
  using recv_msg_frame [OF assms(2) _ assms(4), of rest] send_msg_frame [OF assms(1)] assms(3) by simp

lemma framed_message_round_trip_witness:
  "\<exists>as'. recv_msg [Chunk (take 5 (frame [7, 8])), Interrupted, Chunk (drop 5 (frame [7, 8]) @ [9])] =
     Some (Inr [7, 8], as') \<and> open_stream as' \<and> arrived as' = [9]"
proof (rule framed_message_round_trip)
  show "send_msg [7, 8] [Sent 12, Send_eintr, Sent 1, Sent 1] = Some (Inr (), frame [7, 8], [])"
  proof -
    let ?h = "head_bytes \<lparr>head_magic = msg_magic, head_len = 2\<rparr>"
    have "sendn_ex ?h [Sent 12, Send_eintr, Sent 1, Sent 1] =
        Some (Inr (), ?h, [Send_eintr, Sent 1, Sent 1])"
      by (rule sendn_ex_once) simp_all
    moreover have "sendn_ex [7, 8] [Send_eintr, Sent 1, Sent 1] = Some (Inr (), [7, 8], [])"
      by (simp add: sendn_ex_def sendn_def)
    ultimately show ?thesis by (simp add: send_msg_def frame_def Let_def)
  qed
  have "length (frame [7, 8]) = 14" by (simp add: frame_def)
  then show "open_stream [Chunk (take 5 (frame [7, 8])), Interrupted, Chunk (drop 5 (frame [7, 8]) @ [9])]"
    by auto
qed simp_all

text \<open>The exact-count transfers: \<open>recvn\<close> returns \<open>n\<close> with exactly \<open>n\<close> bytes, or -1 with
  fewer, and \<open>sendn\<close> returns the length with the whole buffer on the wire, or -1 with a proper
  part of it. On an open stream that holds enough bytes \<open>recvn\<close> does return, and takes them in
  order.\<close>

theorem exact_count_transfers:
  "(recvn n as = Some ((r, buf), as') \<longrightarrow> r = int n \<and> length buf = n \<or> r = -1 \<and> length buf < n) \<and>
   (sendn dat answers = Some ((q, wire), answers') \<longrightarrow>
      q = int (length dat) \<and> wire = dat \<or> q = -1 \<and> (\<exists>k < length dat. wire = take k dat)) \<and>
   (open_stream as \<and> n \<le> length (arrived as) \<longrightarrow>
      (\<exists>as1. recvn n as = Some ((int n, take n (arrived as)), as1) \<and>
         open_stream as1 \<and> arrived as1 = drop n (arrived as)))"
  using recvn_loop_open [of as n n "[]"] recvn_outcome sendn_outcome by (auto simp: recvn_def)

lemma exact_count_transfers_witness:
  "\<exists>as1. recvn 3 [Chunk [1, 2], Interrupted, Chunk [3, 4]] = Some ((3, [1, 2, 3]), as1) \<and>
     open_stream as1 \<and> arrived as1 = [4]"
  using exact_count_transfers [of 3 "[Chunk [1, 2], Interrupted, Chunk [3, 4]]"] by simp

text \<open>Opening a socket uses the first address, in the order of the resolver, on which a
  socket can be opened and bound or connected; every other socket opened on the way is closed.
  The address list is freed once by the POSIX variants on success, not at all when
  \<open>quick_listen\<close> fails to bind, and twice by the Windows \<open>quick_connect\<close>.\<close>

theorem open_first_working_address:
  assumes "\<And>h. getaddrinfo env addr (to_string (unat port)) h = (0, cs)"
    and "list_all (\<lambda>c. reuseaddr_ok c \<and> reuseport_ok c) cs" "\<And>fd. listen_ok env fd" "wsa_startup env = 0"
  defines "tried \<equiv> concat (map tried_events (takeWhile (\<lambda>c. \<not> works c) cs))"
  shows "case dropWhile (\<lambda>c. \<not> works c) cs of
      [] \<Rightarrow> (\<exists>m. quick_listen_posix env addr port udp = (Inl (Runtime_error m), tried)) \<and>
        (\<exists>m. quick_connect_posix env addr port udp = (Inl (Runtime_error m), tried @ [Freed_addrinfo]))
    | c # _ \<Rightarrow> (\<exists>fd. cand_fd c = Some fd \<and>
        quick_listen_posix env addr port udp = (Inr fd, tried @ [Opened fd, Freed_addrinfo]) \<and>
        quick_connect_posix env addr port udp = (Inr fd, tried @ [Opened fd, Freed_addrinfo]) \<and>
        quick_connect_windows env nostart addr port udp =
          (Inr fd, tried @ [Opened fd, Freed_addrinfo, Wsa_cleanup, Freed_addrinfo]))"
proof (cases "dropWhile (\<lambda>c. \<not> works c) cs")
  case Nil
  then have "takeWhile (\<lambda>c. \<not> works c) cs = cs" by (simp add: dropWhile_eq_Nil_conv takeWhile_eq_all_conv)
  then have "tried = concat (map tried_events cs)" by (simp only: tried_def)
  with assms(1-4) show ?thesis
    by (simp add: quick_listen_posix_def quick_connect_posix_def open_loop_eq Nil)
next
  case (Cons c rest)
  then have "works c" by (metis hd_dropWhile list.distinct(1) list.sel(1))
  then obtain fd where "cand_fd c = Some fd" by (auto simp: works_def)
  with Cons assms(1-4) show ?thesis
    by (simp add: quick_listen_posix_def quick_connect_posix_def quick_connect_windows_def
        open_loop_eq tried_def)
qed

lemma open_first_working_address_witness:
  "\<exists>fd. fd = 4 \<and> quick_listen_posix
     \<lparr>getaddrinfo = (\<lambda>a p h. (0, [\<lparr>cand_fd = Some 3, reuseaddr_ok = True, reuseport_ok = True, attach_ok = False\<rparr>,
        \<lparr>cand_fd = Some 4, reuseaddr_ok = True, reuseport_ok = True, attach_ok = True\<rparr>])),
      listen_ok = (\<lambda>_. True), wsa_startup = 0\<rparr> ''::'' 80 True =
     (Inr fd, [Opened 3, Closed 3, Opened 4, Freed_addrinfo])"
proof -
  let ?a = "\<lparr>cand_fd = Some (3 :: nat), reuseaddr_ok = True, reuseport_ok = True, attach_ok = False\<rparr>"
  let ?b = "\<lparr>cand_fd = Some (4 :: nat), reuseaddr_ok = True, reuseport_ok = True, attach_ok = True\<rparr>"
  let ?env = "\<lparr>getaddrinfo = (\<lambda>a p h. (0, [?a, ?b])), listen_ok = (\<lambda>_. True), wsa_startup = 0\<rparr>"
  have "\<not> works ?a" "works ?b" "tried_events ?a = [Opened 3, Closed 3]"
    by (simp_all add: works_def tried_events_def)
  then show ?thesis
    using open_first_working_address [of ?env "''::''" 80 "[?a, ?b]" True True] by simp
qed

end
