(* ===== verification/Fd_Io.thy ===== *)
theory Fd_Io
  imports Sock_Io
begin

text \<open>
  The other transfer routines of \<open>src/src/lib/rlib/sys/sio.hpp\<close>: class \<open>fdIO\<close>, which reads and
  writes file descriptors, the Windows variants of the socket routines, and the wrappers that
  turn a failure into an exception.

  \<open>readn\<close>, \<open>writen\<close> and the Windows \<open>recvn\<close>, \<open>sendn\<close> are copies of the POSIX socket loops around
  another system call, and are built on the same loops of \<open>Sock_Io\<close>. The routines that read
  until there is no more differ: the Windows one retries after an interruption.
\<close>

section \<open>Exact counts\<close>

definition readn :: "nat \<Rightarrow> arrival list \<Rightarrow> ((int \<times> bytes) \<times> arrival list) option" where
  "readn n as = recvn_loop n n [] as"

definition writen :: "bytes \<Rightarrow> send_answer list \<Rightarrow> ((int \<times> bytes) \<times> send_answer list) option" where
  "writen dat as = sendn_loop (length dat) dat [] as"

definition recvn_windows :: "nat \<Rightarrow> arrival list \<Rightarrow> ((int \<times> bytes) \<times> arrival list) option" where
  "recvn_windows n as = recvn_loop n n [] as"

definition sendn_windows :: "bytes \<Rightarrow> send_answer list \<Rightarrow> ((int \<times> bytes) \<times> send_answer list) option" where
  "sendn_windows dat as = sendn_loop (length dat) dat [] as"

definition readn_ex :: "nat \<Rightarrow> arrival list \<Rightarrow> (bytes result \<times> arrival list) option" where
  "readn_ex n as = (case readn n as of
       None \<Rightarrow> None
     | Some ((ret, buf), as') \<Rightarrow>
         if ret = -1 then Some (Inl (Runtime_error ''readn failed. errno = ''), as')
         else Some (Inr buf, as'))"

definition writen_ex :: "bytes \<Rightarrow> send_answer list \<Rightarrow> (unit result \<times> bytes \<times> send_answer list) option" where
  "writen_ex dat as = (case writen dat as of
       None \<Rightarrow> None
     | Some ((ret, wire), as') \<Rightarrow>
         Some (if ret = -1 then Inl (Runtime_error ''writen failed. errno = '') else Inr (), wire, as'))"

definition quick_readn :: "nat \<Rightarrow> arrival list \<Rightarrow> (bytes result \<times> arrival list) option" where
  "quick_readn n as = bindIO (readn_ex n as) (\<lambda>buf as'.
     Some (Inr (buf @ drop (length buf) (replicate n 48)), as'))"

definition quick_write :: "bytes \<Rightarrow> send_answer list \<Rightarrow> (unit result \<times> bytes \<times> send_answer list) option" where
  "quick_write dat as = writen_ex dat as"

section \<open>Reading until there is no more\<close>

text \<open>
  The caller of \<open>readall\<close> passes a pointer to its buffer pointer, which is null, points to an
  allocated buffer of some size, or has not been initialised. The code never checks the size
  of a buffer it is given.
\<close>

datatype buffer_arg = Null | Allocated nat | Indeterminate

definition put :: "nat \<Rightarrow> bytes \<Rightarrow> bytes \<Rightarrow> bytes result" where
  "put cap buf bs =
     (if length buf + length bs \<le> cap then Inr (buf @ bs)
      else Inl (Undefined_behaviour ''write outside the buffer''))"

text \<open>
  The second and later reads. \<open>cap\<close> is the size of the buffer: what the last \<open>realloc\<close> gave,
  or what there was before the first one. \<open>retry\<close> is what the variant does when the call was
  interrupted: only the Windows one calls again. The value is -1 or the number of bytes read,
  with the bytes.
\<close>

partial_function (option) recvall_loop ::
  "bool \<Rightarrow> (nat \<Rightarrow> bool) \<Rightarrow> nat \<Rightarrow> nat \<Rightarrow> bytes \<Rightarrow> arrival list \<Rightarrow>
     ((int \<times> bytes) result \<times> arrival list) option" where
  "recvall_loop retry realloc_ok cap current buf as =
     (case recv_call (current div 2) as of
        None \<Rightarrow> None
      | Some (Eintr, as') \<Rightarrow>
          if retry then recvall_loop retry realloc_ok cap current buf as'
          else Some (Inr (-1, buf), as')
      | Some (Err, as') \<Rightarrow> Some (Inr (-1, buf), as')
      | Some (Got bs, as') \<Rightarrow>
          (case put cap buf bs of
             Inl e \<Rightarrow> Some (Inl e, as')
           | Inr buf \<Rightarrow>
               if length bs < current then Some (Inr (int (length bs + current div 2), buf), as')
               else if \<not> realloc_ok (current * 2) then Some (Inr (-1, buf), as')
               else recvall_loop retry realloc_ok (current * 2) (current * 2) buf as'))"

text \<open>The first read, which is repeated at the label \<open>_retry_1\<close>.\<close>

fun recvall_first ::
  "bool \<Rightarrow> (nat \<Rightarrow> bool) \<Rightarrow> nat \<Rightarrow> nat \<Rightarrow> arrival list \<Rightarrow> ((int \<times> bytes) result \<times> arrival list) option" where
  "recvall_first retry realloc_ok cap current [] = None"
| "recvall_first retry realloc_ok cap current (Interrupted # as) =
     (if retry then recvall_first retry realloc_ok cap current as else Some (Inr (-1, []), as))"
| "recvall_first retry realloc_ok cap current (Broken # as) = Some (Inr (-1, []), as)"
| "recvall_first retry realloc_ok cap current (Chunk bs # as) =
     (case recv_call (current div 2) (Chunk bs # as) of
        Some (Got bs, as') \<Rightarrow>
          (case put cap [] bs of
             Inl e \<Rightarrow> Some (Inl e, as')
           | Inr buf \<Rightarrow>
               if length bs < current div 2 then Some (Inr (int (length bs), buf), as')
               else recvall_loop retry realloc_ok cap current buf as')
      | _ \<Rightarrow> None)"

definition recvall_start ::
  "bool \<Rightarrow> (nat \<Rightarrow> bool) \<Rightarrow> buffer_arg \<Rightarrow> nat \<Rightarrow> arrival list \<Rightarrow> ((int \<times> bytes) result \<times> arrival list) option" where
  "recvall_start retry realloc_ok ptr initSize as =
     (let current = (if initSize \<noteq> 0 then initSize else 1024) in
      case ptr of
        Indeterminate \<Rightarrow> Some (Inl (Undefined_behaviour ''indeterminate pointer''), as)
      | Null \<Rightarrow> recvall_first retry realloc_ok current current as
      | Allocated cap \<Rightarrow> recvall_first retry realloc_ok cap current as)"

definition readall ::
  "(nat \<Rightarrow> bool) \<Rightarrow> buffer_arg \<Rightarrow> nat \<Rightarrow> arrival list \<Rightarrow> ((int \<times> bytes) result \<times> arrival list) option" where
  "readall = recvall_start False"

definition recvall ::
  "(nat \<Rightarrow> bool) \<Rightarrow> buffer_arg \<Rightarrow> nat \<Rightarrow> arrival list \<Rightarrow> ((int \<times> bytes) result \<times> arrival list) option" where
  "recvall = recvall_start False"

definition recvall_windows ::
  "(nat \<Rightarrow> bool) \<Rightarrow> buffer_arg \<Rightarrow> nat \<Rightarrow> arrival list \<Rightarrow> ((int \<times> bytes) result \<times> arrival list) option" where
  "recvall_windows = recvall_start True"

definition checked ::
  "string \<Rightarrow> ((int \<times> bytes) result \<times> arrival list) option \<Rightarrow> (bytes result \<times> arrival list) option" where
  "checked message r = bindIO r (\<lambda>(ret, buf) as.
     Some (if ret = -1 then Inl (Runtime_error message) else Inr buf, as))"

definition readall_ex ::
  "(nat \<Rightarrow> bool) \<Rightarrow> buffer_arg \<Rightarrow> nat \<Rightarrow> arrival list \<Rightarrow> (bytes result \<times> arrival list) option" where
  "readall_ex realloc_ok ptr initSize as =
     checked ''readall failed. errno = '' (readall realloc_ok ptr initSize as)"

text \<open>\<open>windows\<close> selects the variant that is compiled.\<close>

definition recvall_ex ::
  "bool \<Rightarrow> (nat \<Rightarrow> bool) \<Rightarrow> buffer_arg \<Rightarrow> nat \<Rightarrow> arrival list \<Rightarrow> (bytes result \<times> arrival list) option" where
  "recvall_ex windows realloc_ok ptr initSize as =
     checked ''recvall failed. ''
       ((if windows then recvall_windows else recvall) realloc_ok ptr initSize as)"

definition quick_recvall ::
  "bool \<Rightarrow> (nat \<Rightarrow> bool) \<Rightarrow> arrival list \<Rightarrow> (bytes result \<times> arrival list) option" where
  "quick_recvall windows realloc_ok as = recvall_ex windows realloc_ok Null 0 as"

text \<open>The pointer that \<open>quick_readall\<close> passes has not been initialised.\<close>

definition quick_readall :: "(nat \<Rightarrow> bool) \<Rightarrow> arrival list \<Rightarrow> (bytes result \<times> arrival list) option" where
  "quick_readall realloc_ok as = readall_ex realloc_ok Indeterminate 0 as"

text \<open>\<open>closesocket\<close>, with the last error of Windows sockets in the message.\<close>

definition close_ex_windows :: "int option \<Rightarrow> nat \<Rightarrow> unit result \<times> sys_event list" where
  "close_ex_windows failure fd =
     (case failure of
        Some code \<Rightarrow> (Inl (Runtime_error (''closeSocket failed. error code: '' @ int_string code)), [])
      | None \<Rightarrow> (Inr (), [Closed fd]))"

section \<open>Lemmas\<close>

lemma put_eq_Inr [simp]: "put cap buf bs = Inr buf' \<longleftrightarrow> length buf + length bs \<le> cap \<and> buf' = buf @ bs"
  by (auto simp: put_def)

lemma recv_call_length: "recv_call n as = Some (Got bs, as') \<Longrightarrow> length bs \<le> n"
  by (induction n as rule: recv_call.induct) (auto split: if_splits)

text \<open>
  A read never returns more than half of the buffer, so the test that is meant to detect a full
  buffer always sends the loop to its return.
\<close>

lemma recvall_loop_bound:
  assumes "0 < current"
  shows "recvall_loop retry realloc_ok cap current buf as = Some (Inr (r, buf'), as') \<Longrightarrow>
     length buf' \<le> length buf + current div 2 \<and> length buf' \<le> max cap (length buf)"
proof (induction as rule: length_induct)
  case (1 as)
  note IH = 1(1) and eq = 1(2)
  have half: "current div 2 < current" using assms by simp
  from eq obtain a as1 where call: "recv_call (current div 2) as = Some (a, as1)"
    by (subst (asm) recvall_loop.simps) (auto split: option.splits)
  show ?case
  proof (cases a)
    case (Got bs)
    then have "length bs \<le> current div 2" using call recv_call_length by simp
    then show ?thesis using eq call Got half
      by (subst (asm) recvall_loop.simps) (auto split: sum.splits if_splits)
  next
    case Eintr
    then have "as = Interrupted # as1" using call
      by (induction "current div 2" as rule: recv_call.induct) (auto split: if_splits)
    then show ?thesis using eq IH call Eintr
      by (subst (asm) recvall_loop.simps) (auto split: if_splits)
  next
    case Err
    then show ?thesis using eq call by (subst (asm) recvall_loop.simps) auto
  qed
qed

lemma recvall_first_bound:
  "recvall_first retry realloc_ok cap current as = Some (Inr (r, buf), as') \<Longrightarrow> 0 < current \<Longrightarrow>
     length buf \<le> current"
proof (induction retry realloc_ok cap current as rule: recvall_first.induct)
  case (4 retry realloc_ok cap current bs as)
  show ?case
  proof (cases "recv_call (current div 2) (Chunk bs # as)")
    case (Some r1)
    have "\<exists>cs as1. recv_call (current div 2) (Chunk bs # as) = Some (Got cs, as1)" by simp
    then obtain cs as1 where call: "recv_call (current div 2) (Chunk bs # as) = Some (Got cs, as1)"
      by blast
    have half: "length cs \<le> current div 2" using call by (rule recv_call_length)
    have "length buf \<le> current div 2 \<or> length buf \<le> length cs + current div 2"
      using 4 call half recvall_loop_bound [OF 4(2), of retry realloc_ok cap cs as1 r buf as']
      by (auto split: sum.splits if_splits simp del: recv_call.simps)
    then show ?thesis using half by linarith
  qed (use 4 in auto)
qed (auto split: if_splits)

lemma recvall_start_bound:
  assumes "recvall_start retry realloc_ok ptr initSize as = Some (Inr (r, buf), as')"
  shows "length buf \<le> (if initSize \<noteq> 0 then initSize else 1024)"
  using assms
  by (auto simp: recvall_start_def Let_def split: buffer_arg.splits if_splits
      dest: recvall_first_bound)

lemma checked_Inr: "checked m r = Some (Inr buf, as) \<Longrightarrow> \<exists>n. r = Some (Inr (n, buf), as)"
  by (auto simp: checked_def bindIO_def split: option.splits sum.splits if_splits)

section \<open>Properties\<close>

text \<open>C24: Reading everything does not. In every variant (\<open>readall\<close> of a file descriptor, the
  POSIX and the Windows \<open>recvall\<close>) the loop stops at the second read whatever arrives, so the
  wrappers never return more bytes than the initial buffer size, 1024 unless the caller chooses
  another; and \<open>quick_readall\<close> passes a pointer it has not initialised.\<close>

theorem recvall_truncates:
  "(readall_ex realloc_ok ptr initSize as = Some (Inr buf, as') \<or>
    recvall_ex windows realloc_ok ptr initSize as = Some (Inr buf, as') \<longrightarrow>
      length buf \<le> (if initSize \<noteq> 0 then initSize else 1024)) \<and>
   (quick_recvall windows realloc_ok as = Some (Inr buf, as') \<longrightarrow> length buf \<le> 1024) \<and>
   quick_readall realloc_ok as = Some (Inl (Undefined_behaviour ''indeterminate pointer''), as)"
proof -
  have all: "recvall_ex windows realloc_ok p n as = Some (Inr buf, as') \<Longrightarrow>
      length buf \<le> (if n \<noteq> 0 then n else 1024)" for p n
    unfolding recvall_ex_def recvall_windows_def recvall_def
    by (drule checked_Inr) (cases windows; auto dest: recvall_start_bound)
  moreover have "readall_ex realloc_ok ptr initSize as = Some (Inr buf, as') \<Longrightarrow>
      length buf \<le> (if initSize \<noteq> 0 then initSize else 1024)"
    unfolding readall_ex_def readall_def by (drule checked_Inr) (blast dest: recvall_start_bound)
  moreover have "quick_recvall windows realloc_ok as = Some (Inr buf, as') \<Longrightarrow> length buf \<le> 1024"
    using all [of Null 0] by (simp add: quick_recvall_def)
  moreover have
    "quick_readall realloc_ok as = Some (Inl (Undefined_behaviour ''indeterminate pointer''), as)"
    by (simp add: quick_readall_def readall_ex_def readall_def recvall_start_def checked_def)
  ultimately show ?thesis using all by blast
qed

lemma recvall_truncates_witness:
  "recvall_ex False (\<lambda>_. True) Null 4 [Chunk [1, 2, 3, 4, 5, 6]] =
     Some (Inr [1, 2, 3, 4], [Chunk [5, 6]]) \<and> length [1, 2, 3, 4 :: byte] \<le> 4"
proof -
  have "recvall_ex False (\<lambda>_. True) Null 4 [Chunk [1, 2, 3, 4, 5, 6]] =
      Some (Inr [1, 2, 3, 4], [Chunk [5, 6]])"
    by (simp add: recvall_ex_def recvall_def recvall_start_def recvall_loop.simps [of _ _ 4 4]
        checked_def put_def Let_def)
  with recvall_truncates [of "\<lambda>_. True" Null 4 "[Chunk [1, 2, 3, 4, 5, 6]]" "[1, 2, 3, 4]"
      "[Chunk [5, 6]]" False]
  show ?thesis by simp
qed

end
