(* ===== verification/Aes_Core.thy ===== *)
theory Aes_Core
  imports Prelude
begin

text \<open>
  The block cipher of \<open>src/src/lib/plusaes.hpp\<close> (namespace \<open>plusaes::detail\<close>): the four
  round transformations and their inverses on a state of four 32-bit words, the key
  schedule, and the encryption and decryption of one 16-byte block.

  The struct \<open>State\<close> is a list of four words, indexed as \<open>operator[]\<close> indexes it; a
  \<open>RoundKey\<close> is a \<open>State\<close>, \<open>RoundKeys\<close> a list of them. Every \<open>for\<close> loop over
  the words of a state is a \<open>fold\<close> over its index range that updates the list in place.
  The \<open>memcpy\<close> calls between words and bytes are read on a little-endian host.
\<close>

section \<open>Constants and types\<close>

definition kWordSize :: nat where "kWordSize = 4"
definition kBlockSize :: nat where "kBlockSize = 4"
definition kStateSize :: nat where "kStateSize = 16"

type_synonym state = "u32 list"
type_synonym round_keys = "state list"

definition kSbox :: "byte list" where
  "kSbox =
    [0x63, 0x7c, 0x77, 0x7b, 0xf2, 0x6b, 0x6f, 0xc5, 0x30, 0x01, 0x67, 0x2b, 0xfe, 0xd7, 0xab, 0x76,
     0xca, 0x82, 0xc9, 0x7d, 0xfa, 0x59, 0x47, 0xf0, 0xad, 0xd4, 0xa2, 0xaf, 0x9c, 0xa4, 0x72, 0xc0,
     0xb7, 0xfd, 0x93, 0x26, 0x36, 0x3f, 0xf7, 0xcc, 0x34, 0xa5, 0xe5, 0xf1, 0x71, 0xd8, 0x31, 0x15,
     0x04, 0xc7, 0x23, 0xc3, 0x18, 0x96, 0x05, 0x9a, 0x07, 0x12, 0x80, 0xe2, 0xeb, 0x27, 0xb2, 0x75,
     0x09, 0x83, 0x2c, 0x1a, 0x1b, 0x6e, 0x5a, 0xa0, 0x52, 0x3b, 0xd6, 0xb3, 0x29, 0xe3, 0x2f, 0x84,
     0x53, 0xd1, 0x00, 0xed, 0x20, 0xfc, 0xb1, 0x5b, 0x6a, 0xcb, 0xbe, 0x39, 0x4a, 0x4c, 0x58, 0xcf,
     0xd0, 0xef, 0xaa, 0xfb, 0x43, 0x4d, 0x33, 0x85, 0x45, 0xf9, 0x02, 0x7f, 0x50, 0x3c, 0x9f, 0xa8,
     0x51, 0xa3, 0x40, 0x8f, 0x92, 0x9d, 0x38, 0xf5, 0xbc, 0xb6, 0xda, 0x21, 0x10, 0xff, 0xf3, 0xd2,
     0xcd, 0x0c, 0x13, 0xec, 0x5f, 0x97, 0x44, 0x17, 0xc4, 0xa7, 0x7e, 0x3d, 0x64, 0x5d, 0x19, 0x73,
     0x60, 0x81, 0x4f, 0xdc, 0x22, 0x2a, 0x90, 0x88, 0x46, 0xee, 0xb8, 0x14, 0xde, 0x5e, 0x0b, 0xdb,
     0xe0, 0x32, 0x3a, 0x0a, 0x49, 0x06, 0x24, 0x5c, 0xc2, 0xd3, 0xac, 0x62, 0x91, 0x95, 0xe4, 0x79,
     0xe7, 0xc8, 0x37, 0x6d, 0x8d, 0xd5, 0x4e, 0xa9, 0x6c, 0x56, 0xf4, 0xea, 0x65, 0x7a, 0xae, 0x08,
     0xba, 0x78, 0x25, 0x2e, 0x1c, 0xa6, 0xb4, 0xc6, 0xe8, 0xdd, 0x74, 0x1f, 0x4b, 0xbd, 0x8b, 0x8a,
     0x70, 0x3e, 0xb5, 0x66, 0x48, 0x03, 0xf6, 0x0e, 0x61, 0x35, 0x57, 0xb9, 0x86, 0xc1, 0x1d, 0x9e,
     0xe1, 0xf8, 0x98, 0x11, 0x69, 0xd9, 0x8e, 0x94, 0x9b, 0x1e, 0x87, 0xe9, 0xce, 0x55, 0x28, 0xdf,
     0x8c, 0xa1, 0x89, 0x0d, 0xbf, 0xe6, 0x42, 0x68, 0x41, 0x99, 0x2d, 0x0f, 0xb0, 0x54, 0xbb, 0x16]"

definition kInvSbox :: "byte list" where
  "kInvSbox =
    [0x52, 0x09, 0x6a, 0xd5, 0x30, 0x36, 0xa5, 0x38, 0xbf, 0x40, 0xa3, 0x9e, 0x81, 0xf3, 0xd7, 0xfb,
     0x7c, 0xe3, 0x39, 0x82, 0x9b, 0x2f, 0xff, 0x87, 0x34, 0x8e, 0x43, 0x44, 0xc4, 0xde, 0xe9, 0xcb,
     0x54, 0x7b, 0x94, 0x32, 0xa6, 0xc2, 0x23, 0x3d, 0xee, 0x4c, 0x95, 0x0b, 0x42, 0xfa, 0xc3, 0x4e,
     0x08, 0x2e, 0xa1, 0x66, 0x28, 0xd9, 0x24, 0xb2, 0x76, 0x5b, 0xa2, 0x49, 0x6d, 0x8b, 0xd1, 0x25,
     0x72, 0xf8, 0xf6, 0x64, 0x86, 0x68, 0x98, 0x16, 0xd4, 0xa4, 0x5c, 0xcc, 0x5d, 0x65, 0xb6, 0x92,
     0x6c, 0x70, 0x48, 0x50, 0xfd, 0xed, 0xb9, 0xda, 0x5e, 0x15, 0x46, 0x57, 0xa7, 0x8d, 0x9d, 0x84,
     0x90, 0xd8, 0xab, 0x00, 0x8c, 0xbc, 0xd3, 0x0a, 0xf7, 0xe4, 0x58, 0x05, 0xb8, 0xb3, 0x45, 0x06,
     0xd0, 0x2c, 0x1e, 0x8f, 0xca, 0x3f, 0x0f, 0x02, 0xc1, 0xaf, 0xbd, 0x03, 0x01, 0x13, 0x8a, 0x6b,
     0x3a, 0x91, 0x11, 0x41, 0x4f, 0x67, 0xdc, 0xea, 0x97, 0xf2, 0xcf, 0xce, 0xf0, 0xb4, 0xe6, 0x73,
     0x96, 0xac, 0x74, 0x22, 0xe7, 0xad, 0x35, 0x85, 0xe2, 0xf9, 0x37, 0xe8, 0x1c, 0x75, 0xdf, 0x6e,
     0x47, 0xf1, 0x1a, 0x71, 0x1d, 0x29, 0xc5, 0x89, 0x6f, 0xb7, 0x62, 0x0e, 0xaa, 0x18, 0xbe, 0x1b,
     0xfc, 0x56, 0x3e, 0x4b, 0xc6, 0xd2, 0x79, 0x20, 0x9a, 0xdb, 0xc0, 0xfe, 0x78, 0xcd, 0x5a, 0xf4,
     0x1f, 0xdd, 0xa8, 0x33, 0x88, 0x07, 0xc7, 0x31, 0xb1, 0x12, 0x10, 0x59, 0x27, 0x80, 0xec, 0x5f,
     0x60, 0x51, 0x7f, 0xa9, 0x19, 0xb5, 0x4a, 0x0d, 0x2d, 0xe5, 0x7a, 0x9f, 0x93, 0xc9, 0x9c, 0xef,
     0xa0, 0xe0, 0x3b, 0x4d, 0xae, 0x2a, 0xf5, 0xb0, 0xc8, 0xeb, 0xbb, 0x3c, 0x83, 0x53, 0x99, 0x61,
     0x17, 0x2b, 0x04, 0x7e, 0xba, 0x77, 0xd6, 0x26, 0xe1, 0x69, 0x14, 0x63, 0x55, 0x21, 0x0c, 0x7d]"

section \<open>Round transformations\<close>

definition add_round_key :: "state \<Rightarrow> state \<Rightarrow> state" where
  "add_round_key key state = fold (\<lambda>i s. s[i := s ! i XOR key ! i]) [0..<kBlockSize] state"

definition sub_word :: "u32 \<Rightarrow> u32" where
  "sub_word w =
     push_bit 0 (ucast (kSbox ! unat (drop_bit 0 w AND 0xFF))) OR
     push_bit 8 (ucast (kSbox ! unat (drop_bit 8 w AND 0xFF))) OR
     push_bit 16 (ucast (kSbox ! unat (drop_bit 16 w AND 0xFF))) OR
     push_bit 24 (ucast (kSbox ! unat (drop_bit 24 w AND 0xFF)))"

definition inv_sub_word :: "u32 \<Rightarrow> u32" where
  "inv_sub_word w =
     push_bit 0 (ucast (kInvSbox ! unat (drop_bit 0 w AND 0xFF))) OR
     push_bit 8 (ucast (kInvSbox ! unat (drop_bit 8 w AND 0xFF))) OR
     push_bit 16 (ucast (kInvSbox ! unat (drop_bit 16 w AND 0xFF))) OR
     push_bit 24 (ucast (kInvSbox ! unat (drop_bit 24 w AND 0xFF)))"

definition sub_bytes :: "state \<Rightarrow> state" where
  "sub_bytes state = fold (\<lambda>i s. s[i := sub_word (s ! i)]) [0..<kBlockSize] state"

definition inv_sub_bytes :: "state \<Rightarrow> state" where
  "inv_sub_bytes state = fold (\<lambda>i s. s[i := inv_sub_word (s ! i)]) [0..<kBlockSize] state"

definition shift_rows :: "state \<Rightarrow> state" where
  "shift_rows ori =
     fold (\<lambda>r st.
        let m2 = push_bit (r * 8) 0xFF; m1 = NOT m2 in
        fold (\<lambda>c s. s[c := (s ! c AND m1) OR (ori ! ((c + r) mod kBlockSize) AND m2)])
          [0..<kBlockSize] st)
       [1..<kWordSize] ori"

definition inv_shift_rows :: "state \<Rightarrow> state" where
  "inv_shift_rows ori =
     fold (\<lambda>r st.
        let m2 = push_bit (r * 8) 0xFF; m1 = NOT m2 in
        fold (\<lambda>c s. s[c := (s ! c AND m1) OR
               (ori ! ((c + kBlockSize - r) mod kWordSize) AND m2)])
          [0..<kBlockSize] st)
       [1..<kWordSize] ori"

definition mul2 :: "byte \<Rightarrow> byte" where
  "mul2 b = (let m2 = push_bit 1 b in if b AND 0x80 \<noteq> 0 then m2 XOR ucast (0x011B :: u32) else m2)"

text \<open>The loop of \<open>mul\<close> carries the pair \<open>(v, t)\<close>.\<close>

definition mul :: "byte \<Rightarrow> byte \<Rightarrow> byte" where
  "mul b m = fst (fold (\<lambda>i (v, t).
       (if drop_bit i m AND 0x01 \<noteq> 0 then v XOR t else v, mul2 t)) [0..<8] (0, b))"

definition mix_column :: "u32 \<Rightarrow> u32" where
  "mix_column w =
     (let v0_1 = ucast (drop_bit 0 w AND 0xFF) :: byte;
          v1_1 = ucast (drop_bit 8 w AND 0xFF) :: byte;
          v2_1 = ucast (drop_bit 16 w AND 0xFF) :: byte;
          v3_1 = ucast (drop_bit 24 w AND 0xFF) :: byte;
          v0_2 = mul2 v0_1; v1_2 = mul2 v1_1; v2_2 = mul2 v2_1; v3_2 = mul2 v3_1;
          v0_3 = v0_2 XOR v0_1; v1_3 = v1_2 XOR v1_1;
          v2_3 = v2_2 XOR v2_1; v3_3 = v3_2 XOR v3_1
      in push_bit 0 (ucast (v0_2 XOR v1_3 XOR v2_1 XOR v3_1)) OR
         push_bit 8 (ucast (v0_1 XOR v1_2 XOR v2_3 XOR v3_1)) OR
         push_bit 16 (ucast (v0_1 XOR v1_1 XOR v2_2 XOR v3_3)) OR
         push_bit 24 (ucast (v0_3 XOR v1_1 XOR v2_1 XOR v3_2)))"

definition mix_columns :: "state \<Rightarrow> state" where
  "mix_columns state = fold (\<lambda>i s. s[i := mix_column (s ! i)]) [0..<kBlockSize] state"

definition inv_mix_column :: "u32 \<Rightarrow> u32" where
  "inv_mix_column w =
     (let v0 = ucast (drop_bit 0 w AND 0xFF) :: byte;
          v1 = ucast (drop_bit 8 w AND 0xFF) :: byte;
          v2 = ucast (drop_bit 16 w AND 0xFF) :: byte;
          v3 = ucast (drop_bit 24 w AND 0xFF) :: byte
      in push_bit 0 (ucast (mul v0 0x0E XOR mul v1 0x0B XOR mul v2 0x0D XOR mul v3 0x09)) OR
         push_bit 8 (ucast (mul v0 0x09 XOR mul v1 0x0E XOR mul v2 0x0B XOR mul v3 0x0D)) OR
         push_bit 16 (ucast (mul v0 0x0D XOR mul v1 0x09 XOR mul v2 0x0E XOR mul v3 0x0B)) OR
         push_bit 24 (ucast (mul v0 0x0B XOR mul v1 0x0D XOR mul v2 0x09 XOR mul v3 0x0E)))"

definition inv_mix_columns :: "state \<Rightarrow> state" where
  "inv_mix_columns state = fold (\<lambda>i s. s[i := inv_mix_column (s ! i)]) [0..<kBlockSize] state"

section \<open>Key schedule\<close>

definition rot_word :: "u32 \<Rightarrow> u32" where
  "rot_word v = (drop_bit 8 v AND 0x00FFFFFF) OR push_bit 24 (v AND 0xFF)"

definition get_round_count :: "nat \<Rightarrow> nat result" where
  "get_round_count key_size =
     (if key_size = 16 then Inr 10
      else if key_size = 24 then Inr 12
      else if key_size = 32 then Inr 14
      else Inl (Invalid_argument ''Invalid key size''))"

definition rcon :: "u32 list" where
  "rcon = [0x00, 0x01, 0x02, 0x04, 0x08, 0x10, 0x20, 0x40, 0x80, 0x1b, 0x36]"

definition word_at :: "bytes \<Rightarrow> nat \<Rightarrow> u32" where
  "word_at bs off = word_of_bytes (bs ! off) (bs ! (off + 1)) (bs ! (off + 2)) (bs ! (off + 3))"

definition expand_key_step :: "nat \<Rightarrow> nat \<Rightarrow> u32 list \<Rightarrow> u32 list" where
  "expand_key_step nk i w =
     (let t = w ! (i - 1);
          t' = (if i mod nk = 0 then sub_word (rot_word t) XOR rcon ! (i div nk)
                else if nk > 6 \<and> i mod nk = 4 then sub_word t
                else t)
      in w[i := t' XOR w ! (i - nk)])"

definition expand_key :: "bytes \<Rightarrow> nat \<Rightarrow> round_keys result" where
  "expand_key key key_size =
     (if key_size \<noteq> 16 \<and> key_size \<noteq> 24 \<and> key_size \<noteq> 32
      then Inl (Invalid_argument ''Invalid key size'')
      else let nb = kBlockSize; nk = key_size div nb in
        bindR (get_round_count key_size) (\<lambda>nr.
        bindR (loopR (\<lambda>i w. bindR (read_at key (i * kWordSize) kWordSize) (\<lambda>b.
                 Inr (w[i := word_at b 0]))) [0..<nk] (replicate (nb * (nr + 1)) 0)) (\<lambda>w.
          let w = fold (expand_key_step nk) [nk..<nb * (nr + 1)] w
          in Inr (map (\<lambda>r. take kBlockSize (drop (kBlockSize * r) w)) [0..<nr + 1]))))"

section \<open>One block\<close>

definition copy_bytes_to_state :: "bytes \<Rightarrow> state" where
  "copy_bytes_to_state data = [word_at data 0, word_at data 4, word_at data 8, word_at data 12]"

definition bytes_of_word :: "u32 \<Rightarrow> bytes" where
  "bytes_of_word w = [byte_at 0 w, byte_at 1 w, byte_at 2 w, byte_at 3 w]"

definition copy_state_to_bytes :: "state \<Rightarrow> bytes" where
  "copy_state_to_bytes state =
     bytes_of_word (state ! 0) @ bytes_of_word (state ! 1) @
     bytes_of_word (state ! 2) @ bytes_of_word (state ! 3)"

definition encrypt_state :: "round_keys \<Rightarrow> bytes \<Rightarrow> bytes" where
  "encrypt_state rkeys data =
     (let s = copy_bytes_to_state data;
          s = add_round_key (rkeys ! 0) s;
          s = fold (\<lambda>i s. add_round_key (rkeys ! i) (mix_columns (shift_rows (sub_bytes s))))
                [1..<length rkeys - 1] s;
          s = add_round_key (last rkeys) (shift_rows (sub_bytes s))
      in copy_state_to_bytes s)"

definition decrypt_state :: "round_keys \<Rightarrow> bytes \<Rightarrow> bytes" where
  "decrypt_state rkeys data =
     (let s = copy_bytes_to_state data;
          s = inv_sub_bytes (inv_shift_rows (add_round_key (last rkeys) s));
          s = fold (\<lambda>i s. inv_sub_bytes (inv_shift_rows (inv_mix_columns (add_round_key (rkeys ! i) s))))
                (rev [1..<length rkeys - 1]) s;
          s = add_round_key (rkeys ! 0) s
      in copy_state_to_bytes s)"

definition key_from_string :: "bytes \<Rightarrow> bytes" where
  "key_from_string key_str = take (length key_str - 1) key_str"

definition is_valid_key_size :: "u64 \<Rightarrow> bool" where
  "is_valid_key_size key_size =
     (if key_size \<noteq> 16 \<and> key_size \<noteq> 24 \<and> key_size \<noteq> 32 then False else True)"

section \<open>The transformations on bytes\<close>

lemma drop_bit_and_mask_8: "drop_bit (8 * k) w AND mask 8 = (ucast (byte_at k w) :: u32)"
  unfolding take_bit_eq_mask [symmetric]
  by (rule bit_word_eqI) (auto simp: byte_at_def bit_simps)

lemma byte_extract:
  "drop_bit 0 w AND 0xFF = (ucast (byte_at 0 w) :: u32)"
  "drop_bit 8 w AND 0xFF = (ucast (byte_at (Suc 0) w) :: u32)"
  "drop_bit 16 w AND 0xFF = (ucast (byte_at 2 w) :: u32)"
  "drop_bit 24 w AND 0xFF = (ucast (byte_at 3 w) :: u32)"
  using drop_bit_and_mask_8 [of 0 w] drop_bit_and_mask_8 [of 1 w]
    drop_bit_and_mask_8 [of 2 w] drop_bit_and_mask_8 [of 3 w]
  by (simp_all add: mask_eq_exp_minus_1)

lemma unat_ucast_byte [simp]: "unat (ucast (b :: byte) :: u32) = unat b"
proof -
  have "unat b < 2 ^ 32" using unat_byte_less [of b] by (simp del: unat_byte_less)
  then show ?thesis by (simp add: unsigned_ucast_eq take_bit_nat_eq_self)
qed

lemma ucast_ucast_byte [simp]: "(ucast (ucast (b :: byte) :: u32) :: byte) = b"
  by (rule bit_word_eqI) (auto simp: bit_simps dest: bit_imp_le_length)

lemma sub_word_bytes:
  "sub_word (word_of_bytes a b c d) = word_of_bytes (kSbox ! unat a) (kSbox ! unat b)
     (kSbox ! unat c) (kSbox ! unat d)"
  unfolding sub_word_def byte_extract
  by (simp add: word_of_bytes_def [of "kSbox ! unat a"])

lemma inv_sub_word_bytes:
  "inv_sub_word (word_of_bytes a b c d) = word_of_bytes (kInvSbox ! unat a) (kInvSbox ! unat b)
     (kInvSbox ! unat c) (kInvSbox ! unat d)"
  unfolding inv_sub_word_def byte_extract
  by (simp add: word_of_bytes_def [of "kInvSbox ! unat a"])

lemma sbox_table: "map (\<lambda>b. kInvSbox ! unat b) kSbox = map of_nat [0..<256]"
  by code_simp
lemma inv_sbox_table: "map (\<lambda>b. kSbox ! unat b) kInvSbox = map of_nat [0..<256]"
  by code_simp
lemma length_sbox: "length kSbox = 256" "length kInvSbox = 256"
  by (simp_all add: kSbox_def kInvSbox_def)

lemma sbox_inverse [simp]: "kInvSbox ! unat (kSbox ! unat b) = b" for b :: byte
proof -
  have lt: "unat b < 256" by (rule unat_byte_less)
  then have "map (\<lambda>b. kInvSbox ! unat b) kSbox ! unat b = b"
    by (simp add: sbox_table)
  with lt show ?thesis by (simp add: length_sbox)
qed
lemma inv_sbox_inverse [simp]: "kSbox ! unat (kInvSbox ! unat b) = b" for b :: byte
proof -
  have lt: "unat b < 256" by (rule unat_byte_less)
  then have "map (\<lambda>b. kSbox ! unat b) kInvSbox ! unat b = b"
    by (simp add: inv_sbox_table)
  with lt show ?thesis by (simp add: length_sbox)
qed

lemma inv_sub_word_sub_word [simp]: "inv_sub_word (sub_word w) = w"
  by (rule word_of_bytes_exhaust [of w]) (simp add: sub_word_bytes inv_sub_word_bytes)

lemma sub_word_inv_sub_word [simp]: "sub_word (inv_sub_word w) = w"
  by (rule word_of_bytes_exhaust [of w]) (simp add: sub_word_bytes inv_sub_word_bytes)

lemma mul2_alt: "mul2 b = push_bit 1 b XOR (if bit b 7 then 0x1B else 0)"
proof -
  have "b AND 0x80 \<noteq> 0 \<longleftrightarrow> bit b 7"
    using and_exp_eq_0_iff_not_bit [of b 7] by simp
  moreover have "ucast (0x011B :: u32) = (0x1B :: byte)" by simp
  ultimately show ?thesis unfolding mul2_def Let_def by (simp only: if_cancel split: if_splits) simp
qed

lemma mul2_xor [simp]: "mul2 (a XOR b) = mul2 a XOR mul2 b"
  by (simp add: mul2_alt push_bit_xor bit_xor_iff ac_simps)

lemma mul_coefficients:
  "mul b 0x09 = b XOR mul2 (mul2 (mul2 b))"
  "mul b 0x0B = b XOR mul2 b XOR mul2 (mul2 (mul2 b))"
  "mul b 0x0D = b XOR mul2 (mul2 b) XOR mul2 (mul2 (mul2 b))"
  "mul b 0x0E = mul2 b XOR mul2 (mul2 b) XOR mul2 (mul2 (mul2 b))"
  by (simp_all add: mul_def upt_rec xor.assoc)

lemma mix_column_bytes:
  "mix_column (word_of_bytes a b c d) =
     word_of_bytes (mul2 a XOR mul2 b XOR b XOR c XOR d) (a XOR mul2 b XOR mul2 c XOR c XOR d)
       (a XOR b XOR mul2 c XOR mul2 d XOR d) (mul2 a XOR a XOR b XOR c XOR mul2 d)"
  unfolding mix_column_def byte_extract word_of_bytes_def [of "mul2 a XOR mul2 b XOR b XOR c XOR d"]
  by (simp add: Let_def xor.assoc)

lemma inv_mix_column_bytes:
  "inv_mix_column (word_of_bytes a b c d) =
     word_of_bytes (mul a 0x0E XOR mul b 0x0B XOR mul c 0x0D XOR mul d 0x09)
       (mul a 0x09 XOR mul b 0x0E XOR mul c 0x0B XOR mul d 0x0D)
       (mul a 0x0D XOR mul b 0x09 XOR mul c 0x0E XOR mul d 0x0B)
       (mul a 0x0B XOR mul b 0x0D XOR mul c 0x09 XOR mul d 0x0E)"
  unfolding inv_mix_column_def byte_extract
   word_of_bytes_def [of "mul a 0x0E XOR mul b 0x0B XOR mul c 0x0D XOR mul d 0x09"]
  by (simp add: Let_def)

lemma inv_mix_column_mix_column [simp]: "inv_mix_column (mix_column w) = w"
  by (rule word_of_bytes_exhaust [of w])
    (simp add: mix_column_bytes inv_mix_column_bytes mul_coefficients ac_simps)

lemma mix_column_inv_mix_column [simp]: "mix_column (inv_mix_column w) = w"
  by (rule word_of_bytes_exhaust [of w])
    (simp add: mix_column_bytes inv_mix_column_bytes mul_coefficients ac_simps)

text \<open>States as lists of exactly four words.\<close>

definition wf_state :: "state \<Rightarrow> bool" where "wf_state s \<longleftrightarrow> length s = 4"

lemma wf_stateE:
  assumes "wf_state s"
  obtains a b c d where "s = [a, b, c, d]"
  using assms by (auto simp: wf_state_def elim: list_of_length_4)

lemma add_round_key_4:
  "add_round_key [k0, k1, k2, k3] [a, b, c, d] = [a XOR k0, b XOR k1, c XOR k2, d XOR k3]"
  by (simp add: add_round_key_def kBlockSize_def upt_rec numeral_eq_Suc)

lemma sub_bytes_4: "sub_bytes [a, b, c, d] = map sub_word [a, b, c, d]"
  by (simp add: sub_bytes_def kBlockSize_def upt_rec numeral_eq_Suc)

lemma inv_sub_bytes_4: "inv_sub_bytes [a, b, c, d] = map inv_sub_word [a, b, c, d]"
  by (simp add: inv_sub_bytes_def kBlockSize_def upt_rec numeral_eq_Suc)

lemma mix_columns_4: "mix_columns [a, b, c, d] = map mix_column [a, b, c, d]"
  by (simp add: mix_columns_def kBlockSize_def upt_rec numeral_eq_Suc)

lemma inv_mix_columns_4: "inv_mix_columns [a, b, c, d] = map inv_mix_column [a, b, c, d]"
  by (simp add: inv_mix_columns_def kBlockSize_def upt_rec numeral_eq_Suc)

text \<open>The masks \<open>m2\<close> and \<open>m1 = ~m2\<close> of the three rows, in the simplifier's normal form.\<close>

lemma byte_at_row_masks:
  "byte_at 0 0xFF00 = 0" "byte_at (Suc 0) 0xFF00 = -1" "byte_at 2 0xFF00 = 0" "byte_at 3 0xFF00 = 0"
  "byte_at 0 0xFF0000 = 0" "byte_at (Suc 0) 0xFF0000 = 0" "byte_at 2 0xFF0000 = -1" "byte_at 3 0xFF0000 = 0"
  "byte_at 0 0xFF000000 = 0" "byte_at (Suc 0) 0xFF000000 = 0" "byte_at 2 0xFF000000 = 0" "byte_at 3 0xFF000000 = -1"
  "byte_at 0 (- 65281) = -1" "byte_at (Suc 0) (- 65281) = 0" "byte_at 2 (- 65281) = -1" "byte_at 3 (- 65281) = -1"
  "byte_at 0 (- 16711681) = -1" "byte_at (Suc 0) (- 16711681) = -1" "byte_at 2 (- 16711681) = 0" "byte_at 3 (- 16711681) = -1"
  "byte_at 0 (- 4278190081) = -1" "byte_at (Suc 0) (- 4278190081) = -1" "byte_at 2 (- 4278190081) = -1" "byte_at 3 (- 4278190081) = 0"
  by code_simp+

lemma row_masks_select:
  "(word_of_bytes a b c d AND - 65281) OR (word_of_bytes a' b' c' d' AND 0xFF00) = word_of_bytes a b' c d"
  "(word_of_bytes a b c d AND - 16711681) OR (word_of_bytes a' b' c' d' AND 0xFF0000) = word_of_bytes a b c' d"
  "(word_of_bytes a b c d AND - 4278190081) OR (word_of_bytes a' b' c' d' AND 0xFF000000) = word_of_bytes a b c d'"
  by (rule word_eq_by_bytes; simp add: byte_at_or byte_at_and byte_at_row_masks)+

lemma shift_rows_bytes:
  "shift_rows [word_of_bytes a0 a1 a2 a3, word_of_bytes b0 b1 b2 b3,
               word_of_bytes c0 c1 c2 c3, word_of_bytes d0 d1 d2 d3] =
     [word_of_bytes a0 b1 c2 d3, word_of_bytes b0 c1 d2 a3,
      word_of_bytes c0 d1 a2 b3, word_of_bytes d0 a1 b2 c3]"
  by (simp add: shift_rows_def kBlockSize_def kWordSize_def upt_rec Let_def row_masks_select)

lemma inv_shift_rows_bytes:
  "inv_shift_rows [word_of_bytes a0 a1 a2 a3, word_of_bytes b0 b1 b2 b3,
               word_of_bytes c0 c1 c2 c3, word_of_bytes d0 d1 d2 d3] =
     [word_of_bytes a0 d1 c2 b3, word_of_bytes b0 a1 d2 c3,
      word_of_bytes c0 b1 a2 d3, word_of_bytes d0 c1 b2 a3]"
  by (simp add: inv_shift_rows_def kBlockSize_def kWordSize_def upt_rec Let_def row_masks_select)

lemma wf_state_bytesE:
  assumes "wf_state s"
  obtains a0 a1 a2 a3 b0 b1 b2 b3 c0 c1 c2 c3 d0 d1 d2 d3
  where "s = [word_of_bytes a0 a1 a2 a3, word_of_bytes b0 b1 b2 b3,
              word_of_bytes c0 c1 c2 c3, word_of_bytes d0 d1 d2 d3]"
  using assms by (elim wf_stateE) (metis word_of_bytes_exhaust)

lemma length_fold_update [simp]:
  "length (fold (\<lambda>i s. s[g i := f i s]) is s) = length s"
  by (induction "is" arbitrary: s) simp_all

lemma wf_state_ops [simp]:
  "wf_state (add_round_key k s) \<longleftrightarrow> wf_state s"
  "wf_state (sub_bytes s) \<longleftrightarrow> wf_state s"
  "wf_state (inv_sub_bytes s) \<longleftrightarrow> wf_state s"
  "wf_state (mix_columns s) \<longleftrightarrow> wf_state s"
  "wf_state (inv_mix_columns s) \<longleftrightarrow> wf_state s"
  "wf_state (shift_rows s) \<longleftrightarrow> wf_state s"
  "wf_state (inv_shift_rows s) \<longleftrightarrow> wf_state s"
  by (simp_all add: wf_state_def add_round_key_def sub_bytes_def inv_sub_bytes_def
      mix_columns_def inv_mix_columns_def shift_rows_def inv_shift_rows_def kWordSize_def upt_rec Let_def)

lemma sub_mix_inverses [simp]:
  assumes "wf_state s"
  shows "inv_sub_bytes (sub_bytes s) = s" "sub_bytes (inv_sub_bytes s) = s"
    and "inv_mix_columns (mix_columns s) = s" "mix_columns (inv_mix_columns s) = s"
    and "wf_state k \<Longrightarrow> add_round_key k (add_round_key k s) = s"
  using assms
  by (auto elim!: wf_stateE simp: sub_bytes_4 inv_sub_bytes_4 mix_columns_4 inv_mix_columns_4 add_round_key_4)

lemma shift_rows_inverses [simp]:
  assumes "wf_state s"
  shows "inv_shift_rows (shift_rows s) = s" "shift_rows (inv_shift_rows s) = s"
  using assms by (auto elim!: wf_state_bytesE simp: shift_rows_bytes inv_shift_rows_bytes)

text \<open>A loop run backwards with the inverse body undoes the loop.\<close>

lemma fold_rev_inverse:
  assumes "\<And>i s. i \<in> set is \<Longrightarrow> P s \<Longrightarrow> g i (f i s) = s"
    and "\<And>i s. i \<in> set is \<Longrightarrow> P s \<Longrightarrow> P (f i s)" and "P s"
  shows "fold g (rev is) (fold f is s) = s"
  using assms by (induction "is" arbitrary: s) simp_all

lemma fold_keeps:
  assumes "\<And>i s. i \<in> set is \<Longrightarrow> P s \<Longrightarrow> P (f i s)" and "P s"
  shows "P (fold f is s)"
  using assms by (induction "is" arbitrary: s) simp_all

definition wf_round_keys :: "round_keys \<Rightarrow> bool" where
  "wf_round_keys rkeys \<longleftrightarrow> 2 \<le> length rkeys \<and> list_all wf_state rkeys"

lemma wf_round_keys_nth: "wf_round_keys rkeys \<Longrightarrow> i < length rkeys \<Longrightarrow> wf_state (rkeys ! i)"
  by (simp add: wf_round_keys_def list_all_length)

lemma wf_round_keys_last: "wf_round_keys rkeys \<Longrightarrow> wf_state (last rkeys)"
  using wf_round_keys_nth [of rkeys "length rkeys - 1"]
  by (cases "rkeys = []") (auto simp: last_conv_nth wf_round_keys_def)

lemma wf_round_keys_first: "wf_round_keys rkeys \<Longrightarrow> wf_state (rkeys ! 0)"
  by (rule wf_round_keys_nth) (auto simp: wf_round_keys_def)

lemma copy_bytes_wf [simp]: "wf_state (copy_bytes_to_state data)"
  by (simp add: wf_state_def copy_bytes_to_state_def)

lemma length_copy_state_to_bytes [simp]: "length (copy_state_to_bytes s) = 16"
  by (simp add: copy_state_to_bytes_def bytes_of_word_def)

lemma copy_state_to_bytes_inverse [simp]:
  "wf_state s \<Longrightarrow> copy_bytes_to_state (copy_state_to_bytes s) = s"
  by (auto elim!: wf_state_bytesE
      simp: copy_bytes_to_state_def copy_state_to_bytes_def bytes_of_word_def word_at_def)

lemma list_of_length_16:
  assumes "length xs = 16"
  shows "xs = [xs ! 0, xs ! 1, xs ! 2, xs ! 3, xs ! 4, xs ! 5, xs ! 6, xs ! 7, xs ! 8, xs ! 9,
    xs ! 10, xs ! 11, xs ! 12, xs ! 13, xs ! 14, xs ! 15]"
  using assms by (intro nth_equalityI) (auto simp: less_Suc_eq numeral_eq_Suc)

lemma copy_bytes_to_state_inverse [simp]:
  "length data = 16 \<Longrightarrow> copy_state_to_bytes (copy_bytes_to_state data) = data"
  using list_of_length_16 [of data, symmetric]
  by (simp add: numeral_2_eq_2 byte_at_word_of_bytes(3) [unfolded numeral_2_eq_2] copy_bytes_to_state_def copy_state_to_bytes_def bytes_of_word_def word_at_def)

lemma length_encrypt_state [simp]: "length (encrypt_state rkeys data) = 16"
  by (simp add: encrypt_state_def)

lemma length_decrypt_state [simp]: "length (decrypt_state rkeys data) = 16"
  by (simp add: decrypt_state_def)

abbreviation enc_rounds :: "round_keys \<Rightarrow> nat list \<Rightarrow> state \<Rightarrow> state" where
  "enc_rounds rkeys \<equiv> fold (\<lambda>i s. add_round_key (rkeys ! i) (mix_columns (shift_rows (sub_bytes s))))"

abbreviation dec_rounds :: "round_keys \<Rightarrow> nat list \<Rightarrow> state \<Rightarrow> state" where
  "dec_rounds rkeys \<equiv>
     fold (\<lambda>i s. inv_sub_bytes (inv_shift_rows (inv_mix_columns (add_round_key (rkeys ! i) s))))"

lemma rounds_wf:
  "wf_state s \<Longrightarrow> wf_state (enc_rounds rkeys is s)"
  "wf_state s \<Longrightarrow> wf_state (dec_rounds rkeys is s)"
  by (rule fold_keeps; simp)+

lemma rounds_inverse:
  assumes "wf_round_keys rkeys" "wf_state s"
  shows "dec_rounds rkeys (rev [1..<length rkeys - 1]) (enc_rounds rkeys [1..<length rkeys - 1] s) = s"
    and "enc_rounds rkeys [1..<length rkeys - 1] (dec_rounds rkeys (rev [1..<length rkeys - 1]) s) = s"
proof -
  have key: "wf_state (rkeys ! i)" if "i \<in> set [1..<length rkeys - 1]" for i
    using that assms(1) by (intro wf_round_keys_nth) auto
  show "dec_rounds rkeys (rev [1..<length rkeys - 1]) (enc_rounds rkeys [1..<length rkeys - 1] s) = s"
    by (rule fold_rev_inverse [where P = wf_state]) (simp_all add: key assms del: set_upt)
  have "enc_rounds rkeys (rev (rev [1..<length rkeys - 1])) (dec_rounds rkeys (rev [1..<length rkeys - 1]) s) = s"
    by (rule fold_rev_inverse [where P = wf_state]) (simp_all add: key assms del: set_upt rev_rev_ident)
  then show "enc_rounds rkeys [1..<length rkeys - 1] (dec_rounds rkeys (rev [1..<length rkeys - 1]) s) = s"
    by simp
qed

lemma decrypt_encrypt_state:
  assumes "wf_round_keys rkeys" "length data = 16"
  shows "decrypt_state rkeys (encrypt_state rkeys data) = data"
  using assms
  by (simp add: encrypt_state_def decrypt_state_def Let_def rounds_wf rounds_inverse
      wf_round_keys_last wf_round_keys_first del: One_nat_def)

lemma encrypt_decrypt_state:
  assumes "wf_round_keys rkeys" "length data = 16"
  shows "encrypt_state rkeys (decrypt_state rkeys data) = data"
  using assms
  by (simp add: encrypt_state_def decrypt_state_def Let_def rounds_wf rounds_inverse
      wf_round_keys_last wf_round_keys_first del: One_nat_def)


section \<open>The key schedule\<close>

lemma length_expand_key_step [simp]: "length (expand_key_step nk i w) = length w"
  by (simp add: expand_key_step_def Let_def)

lemma length_fold_expand [simp]: "length (fold (expand_key_step nk) is w) = length w"
  by (induction "is" arbitrary: w) simp_all

lemma expand_key_step_other: "j \<noteq> i \<Longrightarrow> expand_key_step nk i w ! j = w ! j"
  by (simp add: expand_key_step_def Let_def)

lemma fold_expand_other: "j \<notin> set is \<Longrightarrow> fold (expand_key_step nk) is w ! j = w ! j"
  by (induction "is" arbitrary: w) (simp_all add: expand_key_step_other)

definition key_word :: "nat \<Rightarrow> u32 list \<Rightarrow> nat \<Rightarrow> u32" where
  "key_word nk w i =
     (if i mod nk = 0 then sub_word (rot_word (w ! (i - 1))) XOR rcon ! (i div nk)
      else if nk > 6 \<and> i mod nk = 4 then sub_word (w ! (i - 1))
      else w ! (i - 1)) XOR w ! (i - nk)"

text \<open>The loop leaves every word in the recurrence of the schedule.\<close>

lemma fold_expand_recurrence:
  assumes "0 < nk" "nk \<le> i" "i < n" "n \<le> length w"
  shows "fold (expand_key_step nk) [nk..<n] w ! i =
    key_word nk (fold (expand_key_step nk) [nk..<n] w) i"
proof -
  let ?f = "expand_key_step nk"
  have split: "[nk..<n] = [nk..<i] @ i # [Suc i..<n]"
    using assms upt_add_eq_append [of nk i "n - i"] upt_conv_Cons [of i n] by simp
  define u where "u = fold ?f [nk..<i] w"
  have all: "fold ?f [nk..<n] w = fold ?f [Suc i..<n] (?f i u)"
    by (simp add: split u_def)
  have kept: "fold ?f [nk..<n] w ! j = u ! j" if "j < i" for j
    using that by (simp add: all fold_expand_other expand_key_step_other)
  have "fold ?f [nk..<n] w ! i = ?f i u ! i"
    by (simp add: all fold_expand_other)
  also have "\<dots> = key_word nk u i"
    using assms by (simp add: expand_key_step_def Let_def key_word_def u_def)
  also have "\<dots> = key_word nk (fold ?f [nk..<n] w) i"
    using assms by (simp add: key_word_def kept)
  finally show ?thesis .
qed

lemma fold_load_words:
  "n \<le> length w \<Longrightarrow> i < n \<Longrightarrow> fold (\<lambda>i w. w[i := g i]) [0..<n] w ! i = g i"
  by (induction n) (auto simp: less_Suc_eq)

text \<open>The number of rounds of a valid key size, and the flat word list the schedule fills.\<close>

definition round_count :: "nat \<Rightarrow> nat" where
  "round_count key_size = (if key_size = 16 then 10 else if key_size = 24 then 12 else 14)"

definition schedule_words :: "bytes \<Rightarrow> nat \<Rightarrow> u32 list" where
  "schedule_words key key_size =
     (let n = kBlockSize * (round_count key_size + 1); nk = key_size div kBlockSize in
      fold (expand_key_step nk) [nk..<n]
        (fold (\<lambda>i w. w[i := word_at key (i * kWordSize)]) [0..<nk] (replicate n 0)))"

lemma loopR_load_words:
  assumes "4 * n \<le> length key"
  shows "loopR (\<lambda>i w. bindR (read_at key (i * kWordSize) kWordSize) (\<lambda>b. Inr (w[i := word_at b 0])))
      [0..<n] w = Inr (fold (\<lambda>i w. w[i := word_at key (i * kWordSize)]) [0..<n] w)"
proof -
  let ?g = "\<lambda>i. fold (\<lambda>i w. w[i := word_at key (i * kWordSize)]) [0..<i] w"
  have "word_at (take 4 (drop (i * 4) key)) 0 = word_at key (i * 4)" if "i < n" for i
    using that assms by (simp add: word_at_def)
  then show ?thesis
    using assms loopR_upt_exact [of 0 n "\<lambda>i w. bindR (read_at key (i * kWordSize) kWordSize)
      (\<lambda>b. Inr (w[i := word_at b 0]))" ?g]
    by (simp add: kWordSize_def)
qed

lemma loopR_load_words_short:
  assumes "length key < 4 * n" "0 < n"
  shows "loopR (\<lambda>i w. bindR (read_at key (i * kWordSize) kWordSize) (\<lambda>b. Inr (w[i := word_at b 0])))
      [0..<n] w \<noteq> Inr w'"
proof -
  obtain m where "n = Suc m" using assms(2) by (cases n) simp_all
  then show ?thesis using assms(1)
    by (simp add: loopR_append bindR_eq_Inr_iff read_at_def kWordSize_def)
qed

lemma expand_key_eq:
  "key_size \<in> {16, 24, 32} \<Longrightarrow> key_size \<le> length key \<Longrightarrow>
     expand_key key key_size =
       Inr (map (\<lambda>r. take 4 (drop (4 * r) (schedule_words key key_size)))
          [0..<round_count key_size + 1])"
  by (auto simp: expand_key_def get_round_count_def round_count_def schedule_words_def Let_def
      kBlockSize_def loopR_load_words)

lemma length_schedule_words: "length (schedule_words key n) = 4 * (round_count n + 1)"
  by (simp add: schedule_words_def Let_def kBlockSize_def)

lemma expand_key_Inr_iff:
  "(\<exists>rk. expand_key key n = Inr rk) \<longleftrightarrow> n \<in> {16, 24, 32} \<and> n \<le> length key"
proof
  assume "\<exists>rk. expand_key key n = Inr rk"
  then obtain rk where rk: "expand_key key n = Inr rk" ..
  then have n: "n \<in> {16, 24, 32}" by (auto simp: expand_key_def split: if_splits)
  moreover have "\<not> length key < 4 * (n div 4)"
  proof
    assume "length key < 4 * (n div 4)"
    from loopR_load_words_short [OF this] n rk show False
      by (auto simp: expand_key_def bindR_eq_Inr_iff Let_def kBlockSize_def)
  qed
  ultimately show "n \<in> {16, 24, 32} \<and> n \<le> length key" by auto
qed (use expand_key_eq in blast)

lemma expand_key_wf:
  assumes "expand_key key n = Inr rk"
  shows "wf_round_keys rk" and "length rk = round_count n + 1"
proof -
  have n: "n \<in> {16, 24, 32}" "n \<le> length key" using assms expand_key_Inr_iff by blast+
  then have rk: "rk = map (\<lambda>r. take 4 (drop (4 * r) (schedule_words key n))) [0..<round_count n + 1]"
    using assms expand_key_eq by simp
  show "length rk = round_count n + 1" using rk by simp
  moreover have "1 \<le> round_count n" by (simp add: round_count_def)
  ultimately show "wf_round_keys rk"
    by (auto simp: wf_round_keys_def rk list_all_iff wf_state_def length_schedule_words)
qed


lemma round_count_eq: "n \<in> {16, 24, 32} \<Longrightarrow> round_count n = n div 4 + 6"
  by (auto simp: round_count_def)

lemma schedule_words_recurrence:
  assumes "n \<in> {16, 24, 32}"
  shows "i < n div 4 \<Longrightarrow> schedule_words key n ! i = word_at key (4 * i)"
    and "n div 4 \<le> i \<Longrightarrow> i < length (schedule_words key n) \<Longrightarrow>
      schedule_words key n ! i = key_word (n div 4) (schedule_words key n) i"
proof -
  have n: "n div 4 \<le> 4 * (round_count n + 1)" "0 < n div 4"
    using assms by (auto simp: round_count_def)
  show "schedule_words key n ! i = word_at key (4 * i)" if "i < n div 4"
    using n that
    by (simp add: schedule_words_def Let_def kBlockSize_def kWordSize_def fold_expand_other
        fold_load_words mult.commute)
  show "schedule_words key n ! i = key_word (n div 4) (schedule_words key n) i"
    if "n div 4 \<le> i" "i < length (schedule_words key n)"
    using n that fold_expand_recurrence
    by (simp add: schedule_words_def Let_def kBlockSize_def)
qed

end
