(* ===== verification/Aes_Modes.thy ===== *)
theory Aes_Modes
  imports Aes_Core
begin

text \<open>
  The modes of operation of \<open>src/src/lib/plusaes.hpp\<close>: the argument checks, the PKCS padding
  check, ECB and CBC encryption and decryption over caller-supplied buffers, and the CTR
  mode with its big-endian counter.

  A pointer with a size is a byte list together with the size the caller states, a 64-bit
  word; reads and writes through the pointer are checked against the length of the list.
  An operation returns the new contents of its output buffer next to its error code. The
  out-parameter \<open>padded_size\<close> is \<open>None\<close> for a null pointer and \<open>Some v\<close> for a pointer to a
  variable that holds \<open>v\<close>.
\<close>

unbundle bit_operations_syntax

section \<open>Sizes, error codes and argument checks\<close>

datatype aes_error =
    kErrorOk
  | kErrorInvalidDataSize
  | kErrorInvalidKeySize
  | kErrorInvalidBufferSize
  | kErrorInvalidKey
  | kErrorInvalidNonceSize

definition get_padded_encrypted_size :: "u64 \<Rightarrow> u64" where
  "get_padded_encrypted_size data_size =
     data_size + of_nat kStateSize - (data_size mod of_nat kStateSize)"

definition check_encrypt_cond :: "u64 \<Rightarrow> u64 \<Rightarrow> u64 \<Rightarrow> bool \<Rightarrow> aes_error" where
  "check_encrypt_cond data_size key_size encrypted_size pads =
     (if \<not> pads \<and> data_size mod of_nat kStateSize \<noteq> 0 then kErrorInvalidDataSize
      else if \<not> is_valid_key_size key_size then kErrorInvalidKeySize
      else if pads then
        (if encrypted_size < get_padded_encrypted_size data_size
         then kErrorInvalidBufferSize else kErrorOk)
      else if encrypted_size < data_size then kErrorInvalidBufferSize
      else kErrorOk)"

definition check_decrypt_cond :: "u64 \<Rightarrow> u64 \<Rightarrow> u64 \<Rightarrow> u64 option \<Rightarrow> aes_error" where
  "check_decrypt_cond data_size key_size decrypted_size padded_size =
     (if data_size mod 16 \<noteq> 0 then kErrorInvalidDataSize
      else if \<not> is_valid_key_size key_size then kErrorInvalidKeySize
      else if padded_size = None then
        (if decrypted_size < data_size then kErrorInvalidBufferSize else kErrorOk)
      else if decrypted_size < data_size - of_nat kStateSize then kErrorInvalidBufferSize
      else kErrorOk)"

definition check_padding :: "u64 \<Rightarrow> bytes \<Rightarrow> bool" where
  "check_padding padding data =
     (if padding > of_nat kStateSize then False
      else list_all (\<lambda>i. ucast (data ! (kStateSize - 1 - i)) = padding) [0..<unat padding])"

section \<open>Helpers on 16-byte buffers\<close>

definition xor_data :: "bytes \<Rightarrow> bytes \<Rightarrow> bytes" where
  "xor_data data v = fold (\<lambda>i d. d[i := d ! i XOR v ! i]) [0..<kStateSize] data"

definition xor_data_at :: "bytes \<Rightarrow> nat \<Rightarrow> bytes \<Rightarrow> bytes result" where
  "xor_data_at buf off v =
     bindR (read_at buf off kStateSize) (\<lambda>d. write_at buf off (xor_data d v))"

definition incr_counter :: "bytes \<Rightarrow> bytes" where
  "incr_counter counter = fst (fold (\<lambda>n (counter, c :: u32).
       let c = c + ucast (counter ! n) in (counter[n := ucast c], drop_bit 8 c))
     (rev [0..<kStateSize]) (counter, 1))"

text \<open>The block that carries the padding: \<open>rem\<close> bytes of data, then the padding value.\<close>

definition padding_block :: "bytes \<Rightarrow> u64 \<Rightarrow> bytes result" where
  "padding_block data data_size =
     (let rem = unat (data_size mod of_nat kStateSize);
          pad_v = of_nat (kStateSize - rem)
      in bindR (read_at data (unat data_size - rem) rem) (\<lambda>tail.
           write_at (replicate kStateSize pad_v) 0 tail))"

section \<open>ECB\<close>

definition encrypt_ecb ::
  "bytes \<Rightarrow> u64 \<Rightarrow> bytes \<Rightarrow> u64 \<Rightarrow> bytes \<Rightarrow> u64 \<Rightarrow> bool \<Rightarrow> (aes_error \<times> bytes) result" where
  "encrypt_ecb data data_size key key_size encrypted encrypted_size pads =
     (let e = check_encrypt_cond data_size key_size encrypted_size pads in
      if e \<noteq> kErrorOk then Inr (e, encrypted)
      else bindR (expand_key key (unat key_size)) (\<lambda>rkeys.
        let bc = unat (data_size div of_nat kStateSize) in
        bindR (loopR (\<lambda>i enc. bindR (read_at data (i * kStateSize) kStateSize) (\<lambda>b.
                 write_at enc (i * kStateSize) (encrypt_state rkeys b))) [0..<bc] encrypted)
          (\<lambda>encrypted.
            if pads then
              bindR (padding_block data data_size) (\<lambda>ib.
                bindR (write_at encrypted
                    (unat data_size - unat (data_size mod of_nat kStateSize)) (encrypt_state rkeys ib))
                  (\<lambda>encrypted. Inr (kErrorOk, encrypted)))
            else Inr (kErrorOk, encrypted))))"

text \<open>
  The end of both decryptions: the last block is examined for its padding and the bytes
  before the padding are copied out.
\<close>

definition finish_decrypt ::
  "bytes \<Rightarrow> u64 \<Rightarrow> u64 \<Rightarrow> u64 option \<Rightarrow> bytes \<Rightarrow> (aes_error \<times> bytes \<times> u64 option) result" where
  "finish_decrypt last_blk bc decrypted_size padded_size decrypted =
     (case padded_size of
        Some _ \<Rightarrow>
          let padded = ucast (last_blk ! (kStateSize - 1)) :: u64;
              cs = of_nat kStateSize - padded
          in if \<not> check_padding padded last_blk then Inr (kErrorInvalidKey, decrypted, Some padded)
             else if decrypted_size \<ge> bc * of_nat kStateSize + cs then
               bindR (read_at last_blk 0 (unat cs)) (\<lambda>bs.
                 bindR (write_at decrypted (unat (bc * of_nat kStateSize)) bs)
                   (\<lambda>decrypted. Inr (kErrorOk, decrypted, Some padded)))
             else Inr (kErrorInvalidBufferSize, decrypted, Some padded)
      | None \<Rightarrow>
          bindR (write_at decrypted (unat (bc * of_nat kStateSize)) last_blk)
            (\<lambda>decrypted. Inr (kErrorOk, decrypted, None)))"

definition decrypt_ecb ::
  "bytes \<Rightarrow> u64 \<Rightarrow> bytes \<Rightarrow> u64 \<Rightarrow> bytes \<Rightarrow> u64 \<Rightarrow> u64 option \<Rightarrow>
     (aes_error \<times> bytes \<times> u64 option) result" where
  "decrypt_ecb data data_size key key_size decrypted decrypted_size padded_size =
     (let e = check_decrypt_cond data_size key_size decrypted_size padded_size in
      if e \<noteq> kErrorOk then Inr (e, decrypted, padded_size)
      else bindR (expand_key key (unat key_size)) (\<lambda>rkeys.
        let bc = data_size div of_nat kStateSize - 1 in
        bindR (loopR (\<lambda>i dec. bindR (read_at data (i * kStateSize) kStateSize) (\<lambda>b.
                 write_at dec (i * kStateSize) (decrypt_state rkeys b))) [0..<unat bc] decrypted)
          (\<lambda>decrypted.
            bindR (read_at data (unat (bc * of_nat kStateSize)) kStateSize) (\<lambda>b.
              finish_decrypt (decrypt_state rkeys b) bc decrypted_size padded_size decrypted))))"

section \<open>CBC\<close>

definition encrypt_cbc ::
  "bytes \<Rightarrow> u64 \<Rightarrow> bytes \<Rightarrow> u64 \<Rightarrow> bytes option \<Rightarrow> bytes \<Rightarrow> u64 \<Rightarrow> bool \<Rightarrow>
     (aes_error \<times> bytes) result" where
  "encrypt_cbc data data_size key key_size iv encrypted encrypted_size pads =
     (let e = check_encrypt_cond data_size key_size encrypted_size pads in
      if e \<noteq> kErrorOk then Inr (e, encrypted)
      else bindR (expand_key key (unat key_size)) (\<lambda>rkeys.
        let ge16 = data_size \<ge> of_nat kStateSize;
            rem = unat (data_size mod of_nat kStateSize);
            pad_v = of_nat (kStateSize - rem) :: byte
        in bindR (if ge16 then read_at data 0 kStateSize
                  else bindR (read_at data 0 (unat data_size)) (\<lambda>d.
                         write_at (replicate kStateSize pad_v) 0 d)) (\<lambda>s.
           let s = (case iv of None \<Rightarrow> s | Some v \<Rightarrow> xor_data s v) in
           bindR (write_at encrypted 0 (encrypt_state rkeys s)) (\<lambda>encrypted.
           let bc = unat (data_size div of_nat kStateSize) in
           bindR (loopR (\<lambda>i enc.
                let offset = i * kStateSize in
                bindR (read_at data offset kStateSize) (\<lambda>s.
                bindR (read_at enc (offset - kStateSize) kStateSize) (\<lambda>prev.
                write_at enc offset (encrypt_state rkeys (xor_data s prev))))) [1..<bc] encrypted)
           (\<lambda>encrypted.
             if pads \<and> ge16 then
               bindR (padding_block data data_size) (\<lambda>ib.
               bindR (read_at encrypted ((bc - 1) * kStateSize) kStateSize) (\<lambda>prev.
               bindR (write_at encrypted (unat data_size - rem)
                   (encrypt_state rkeys (xor_data ib prev))) (\<lambda>encrypted.
               Inr (kErrorOk, encrypted))))
             else Inr (kErrorOk, encrypted))))))"

definition decrypt_cbc ::
  "bytes \<Rightarrow> u64 \<Rightarrow> bytes \<Rightarrow> u64 \<Rightarrow> bytes option \<Rightarrow> bytes \<Rightarrow> u64 \<Rightarrow> u64 option \<Rightarrow>
     (aes_error \<times> bytes \<times> u64 option) result" where
  "decrypt_cbc data data_size key key_size iv decrypted decrypted_size padded_size =
     (let e = check_decrypt_cond data_size key_size decrypted_size padded_size in
      if e \<noteq> kErrorOk then Inr (e, decrypted, padded_size)
      else bindR (expand_key key (unat key_size)) (\<lambda>rkeys.
        bindR (bindR (read_at data 0 kStateSize) (\<lambda>b.
                 write_at decrypted 0 (decrypt_state rkeys b))) (\<lambda>decrypted.
        bindR (case iv of None \<Rightarrow> Inr decrypted | Some v \<Rightarrow> xor_data_at decrypted 0 v) (\<lambda>decrypted.
        let bc = data_size div of_nat kStateSize - 1 in
        bindR (loopR (\<lambda>i dec.
             let offset = i * kStateSize in
             bindR (read_at data offset kStateSize) (\<lambda>b.
             bindR (write_at dec offset (decrypt_state rkeys b)) (\<lambda>dec.
             bindR (read_at data (offset - kStateSize) kStateSize) (\<lambda>prev.
             xor_data_at dec offset prev)))) [1..<unat bc] decrypted) (\<lambda>decrypted.
        bindR (if data_size > of_nat kStateSize then
                 bindR (read_at data (unat (bc * of_nat kStateSize)) kStateSize) (\<lambda>b.
                 bindR (read_at data (unat (bc * of_nat kStateSize - of_nat kStateSize)) kStateSize)
                   (\<lambda>prev. Inr (xor_data (decrypt_state rkeys b) prev, decrypted)))
               else
                 bindR (read_at decrypted 0 (unat data_size)) (\<lambda>d.
                 bindR (write_at (replicate kStateSize 0) 0 d) (\<lambda>last_blk.
                 bindR (write_at decrypted 0 (replicate (unat decrypted_size) 0))
                   (\<lambda>decrypted. Inr (last_blk, decrypted)))))
          (\<lambda>(last_blk, decrypted).
             finish_decrypt last_blk bc decrypted_size padded_size decrypted))))))"

section \<open>CTR\<close>

record ctr_state =
  ctr_data :: bytes
  ctr_blkpos :: nat
  ctr_blk :: bytes
  ctr_counter :: bytes

definition ctr_step :: "round_keys \<Rightarrow> nat \<Rightarrow> ctr_state \<Rightarrow> ctr_state result" where
  "ctr_step rkeys pos st =
     (let st = (if ctr_blkpos st = kStateSize
                then st\<lparr>ctr_blk := encrypt_state rkeys (ctr_counter st),
                        ctr_counter := incr_counter (ctr_counter st), ctr_blkpos := 0\<rparr>
                else st)
      in bindR (read_at (ctr_data st) pos 1) (\<lambda>d.
         bindR (write_at (ctr_data st) pos [hd d XOR ctr_blk st ! ctr_blkpos st]) (\<lambda>data.
         Inr (st\<lparr>ctr_data := data, ctr_blkpos := ctr_blkpos st + 1\<rparr>))))"

definition crypt_ctr ::
  "bytes \<Rightarrow> u64 \<Rightarrow> bytes \<Rightarrow> u64 \<Rightarrow> bytes \<Rightarrow> u64 \<Rightarrow> (aes_error \<times> bytes) result" where
  "crypt_ctr data data_size key key_size nonce nonce_size =
     (if nonce_size > of_nat kStateSize then Inr (kErrorInvalidNonceSize, data)
      else if \<not> is_valid_key_size key_size then Inr (kErrorInvalidKeySize, data)
      else bindR (expand_key key (unat key_size)) (\<lambda>rkeys.
        bindR (read_at nonce 0 (unat nonce_size)) (\<lambda>n.
        bindR (write_at (replicate kStateSize 0) 0 n) (\<lambda>counter.
        bindR (loopR (ctr_step rkeys) [0..<unat data_size]
            \<lparr>ctr_data = data, ctr_blkpos = kStateSize, ctr_blk = replicate kStateSize 0,
             ctr_counter = counter\<rparr>)
          (\<lambda>st. Inr (kErrorOk, ctr_data st))))))"

section \<open>Sizes\<close>

lemma of_nat_u64_arith:
  assumes "n < 2 ^ 64"
  shows "unat (of_nat n :: u64) = n"
    and "unat (of_nat n div 16 :: u64) = n div 16"
    and "unat (of_nat n mod 16 :: u64) = n mod 16"
  using assms by (simp_all add: unat_of_nat unat_div unat_mod)

lemma len64: "LENGTH(64) = 64" by simp

lemma padded_size_nat: "16 * (n div 16 + 1) = n + 16 - n mod (16 :: nat)"
  by (metis add.commute add_diff_assoc distrib_left minus_mod_eq_mult_div
      mod_less_eq_dividend mult.right_neutral)

lemma get_padded_encrypted_size_unat:
  assumes "n < 2 ^ 64 - 16"
  shows "unat (get_padded_encrypted_size (of_nat n)) = 16 * (n div 16 + 1)"
proof -
  have "get_padded_encrypted_size (of_nat n) = of_nat (n + 16 - n mod 16)"
  proof -
    have "(of_nat n mod 16 :: u64) = of_nat (n mod 16)"
      using assms by (simp add: word_unat_eq_iff of_nat_u64_arith)
    then show ?thesis
      by (simp add: get_padded_encrypted_size_def kStateSize_def of_nat_diff)
  qed
  moreover have "n + 16 - n mod 16 < 2 ^ 64" using assms by simp
  ultimately show ?thesis
    unfolding padded_size_nat by (simp only: unat_of_nat len64 mod_less)
qed

section \<open>The padded message as a list of blocks\<close>

definition pkcs_pad :: "bytes \<Rightarrow> bytes" where
  "pkcs_pad d = d @ replicate (16 - length d mod 16) (of_nat (16 - length d mod 16))"

definition blocks16 :: "bytes \<Rightarrow> bytes list" where
  "blocks16 d = map (\<lambda>i. take 16 (drop (16 * i) d)) [0..<length d div 16]"

lemma length_pkcs_pad: "length (pkcs_pad d) = 16 * (length d div 16 + 1)"
proof -
  have "length d mod 16 < 16" by simp
  then have "length d + (16 - length d mod 16) = length d + 16 - length d mod 16" by linarith
  then show ?thesis unfolding padded_size_nat by (simp add: pkcs_pad_def)
qed

lemma length_blocks16_pkcs [simp]: "length (blocks16 (pkcs_pad d)) = length d div 16 + 1"
  by (simp add: blocks16_def length_pkcs_pad del: mult_Suc_right)

lemma concat_blocks16_take:
  "16 * n \<le> length d \<Longrightarrow> concat (map (\<lambda>i. take 16 (drop (16 * i) d)) [0..<n]) = take (16 * n) d"
proof (induction n)
  case (Suc n)
  have "take (16 * Suc n) d = take (16 * n) d @ take 16 (drop (16 * n) d)"
    by (metis add.commute mult_Suc_right take_add)
  with Suc show ?case by simp
qed simp

lemma concat_blocks16: "16 dvd length d \<Longrightarrow> concat (blocks16 d) = d"
  by (simp add: blocks16_def concat_blocks16_take)

lemma length_in_blocks16: "b \<in> set (blocks16 d) \<Longrightarrow> length b = 16"
  by (auto simp: blocks16_def)

lemma blocks16_concat:
  "\<forall>b \<in> set bs. length b = 16 \<Longrightarrow> blocks16 (concat bs) = bs"
proof (induction bs)
  case Nil
  then show ?case by (simp add: blocks16_def)
next
  case (Cons b bs)
  have len: "length (concat bs) = 16 * length bs"
    using Cons.prems by (induction bs) auto
  then have "blocks16 (concat (b # bs)) = b # blocks16 (concat bs)"
    using Cons.prems
    by (simp add: blocks16_def upt_conv_Cons map_Suc_upt [symmetric] del: upt_Suc)
  with Cons show ?case by simp
qed

lemma blocks16_pkcs_nth:
  assumes "i < length d div 16"
  shows "blocks16 (pkcs_pad d) ! i = take 16 (drop (16 * i) d)"
proof -
  have "16 * i + 16 \<le> length d" using assms by linarith
  with assms show ?thesis
    by (simp add: blocks16_def length_pkcs_pad nth_append del: mult_Suc_right upt_Suc)
      (simp add: pkcs_pad_def)
qed

lemma blocks16_pkcs_last:
  "blocks16 (pkcs_pad d) ! (length d div 16) =
     drop (16 * (length d div 16)) d @ replicate (16 - length d mod 16) (of_nat (16 - length d mod 16))"
proof -
  have "length d - 16 * (length d div 16) = length d mod 16"
    by (simp add: minus_mult_div_eq_mod)
  then show ?thesis
    by (simp add: blocks16_def length_pkcs_pad del: mult_Suc_right upt_Suc) (simp add: pkcs_pad_def)
qed

lemma padding_block_eq:
  assumes "length d < 2 ^ 64"
  shows "padding_block d (of_nat (length d)) = Inr (blocks16 (pkcs_pad d) ! (length d div 16))"
proof -
  have off: "length d - length d mod 16 = 16 * (length d div 16)"
    by (simp add: minus_mod_eq_mult_div)
  have "length d - 16 * (length d div 16) = length d mod 16"
    by (simp add: minus_mult_div_eq_mod)
  then show ?thesis
    using assms by (simp add: padding_block_def Let_def kStateSize_def of_nat_u64_arith off
      blocks16_pkcs_last)
qed

section \<open>Blocks written one after the other\<close>

definition filled :: "bytes list \<Rightarrow> nat \<Rightarrow> bytes \<Rightarrow> bytes" where
  "filled cs i buf = concat (take i cs) @ drop (16 * i) buf"

lemma length_concat16: "\<forall>c \<in> set cs. length c = 16 \<Longrightarrow> length (concat cs) = 16 * length cs"
  by (induction cs) auto

lemma length_concat_take16:
  "\<forall>c \<in> set cs. length c = 16 \<Longrightarrow> i \<le> length cs \<Longrightarrow> length (concat (take i cs)) = 16 * i"
  by (subst length_concat16) (auto dest: in_set_takeD)

lemma filled_0 [simp]: "filled cs 0 buf = buf"
  by (simp add: filled_def)

lemma write_block_filled:
  assumes "\<forall>c \<in> set cs. length c = 16" "i < length cs" "16 * length cs \<le> length buf" "c = cs ! i"
  shows "write_at (filled cs i buf) (16 * i) c = Inr (filled cs (Suc i) buf)"
proof -
  have c: "length c = 16" using assms by simp
  have "16 * i + 16 \<le> length buf" using assms by linarith
  then show ?thesis
    using assms c length_concat_take16 [of cs i]
    by (simp add: filled_def take_Suc_conv_app_nth)
qed

lemma read_block_concat:
  assumes "\<forall>c \<in> set cs. length c = 16" "j < length cs"
  shows "take 16 (drop (16 * j) (concat cs @ ys)) = cs ! j"
proof -
  have "concat cs = concat (take j cs) @ cs ! j @ concat (drop (Suc j) cs)"
    using assms(2) by (metis concat.simps(2) concat_append id_take_nth_drop)
  moreover have "length (concat (take j cs)) = 16 * j"
    using assms by (simp add: length_concat_take16)
  ultimately show ?thesis using assms by simp
qed

lemma read_block_filled:
  assumes "\<forall>c \<in> set cs. length c = 16" "j < i" "i \<le> length cs"
  shows "read_at (filled cs i buf) (16 * j) 16 = Inr (cs ! j)"
proof -
  have "16 * j + 16 \<le> length (filled cs i buf)"
    using assms length_concat_take16 [of cs i] by (simp add: filled_def)
  moreover have "take 16 (drop (16 * j) (filled cs i buf)) = take i cs ! j"
    unfolding filled_def using assms
    by (intro read_block_concat) (auto dest: in_set_takeD)
  ultimately show ?thesis using assms by simp
qed

end
