(* ===== verification/Aes_Modes_Correct.thy ===== *)
theory Aes_Modes_Correct
  imports Aes_Modes
begin

text \<open>
  Correctness of the modes of operation. The chaining modes are first stated on lists of
  16-byte blocks, over any block cipher (locale \<open>block_cipher\<close>, interpreted on the AES
  block operations); then the buffer code of \<open>Aes_Modes\<close> is shown to compute these
  functions on the padded message without an access outside a buffer, which gives the
  round trips of whole messages. The CTR mode is shown to add a key stream that depends on
  the key and the counter only.
\<close>

unbundle bit_operations_syntax

section \<open>The chaining modes on lists of blocks\<close>

fun cbc_encrypt_blocks :: "(bytes \<Rightarrow> bytes) \<Rightarrow> bytes \<Rightarrow> bytes list \<Rightarrow> bytes list" where
  "cbc_encrypt_blocks E prev [] = []"
| "cbc_encrypt_blocks E prev (b # bs) =
     (let c = E (xor_data b prev) in c # cbc_encrypt_blocks E c bs)"

fun cbc_decrypt_blocks :: "(bytes \<Rightarrow> bytes) \<Rightarrow> bytes \<Rightarrow> bytes list \<Rightarrow> bytes list" where
  "cbc_decrypt_blocks D prev [] = []"
| "cbc_decrypt_blocks D prev (c # cs) = xor_data (D c) prev # cbc_decrypt_blocks D c cs"

lemma length_cbc_blocks [simp]:
  "length (cbc_encrypt_blocks E prev bs) = length bs"
  "length (cbc_decrypt_blocks D prev bs) = length bs"
  by (induction bs arbitrary: prev) (simp_all add: Let_def)

lemma cbc_encrypt_nth:
  "i < length bs \<Longrightarrow> cbc_encrypt_blocks E prev bs ! i =
     E (xor_data (bs ! i) (if i = 0 then prev else cbc_encrypt_blocks E prev bs ! (i - 1)))"
proof (induction bs arbitrary: prev i)
  case (Cons b bs)
  show ?case
  proof (cases i)
    case (Suc j)
    with Cons show ?thesis by (cases j) (simp_all add: Let_def)
  qed (simp add: Let_def)
qed simp

lemma cbc_decrypt_nth:
  "i < length cs \<Longrightarrow> cbc_decrypt_blocks D prev cs ! i =
     xor_data (D (cs ! i)) (if i = 0 then prev else cs ! (i - 1))"
proof (induction cs arbitrary: prev i)
  case (Cons c cs)
  show ?case
  proof (cases i)
    case (Suc j)
    with Cons show ?thesis by (cases j) simp_all
  qed simp
qed simp

lemma length_in_cbc_encrypt:
  "(\<And>b. length (E b) = 16) \<Longrightarrow> c \<in> set (cbc_encrypt_blocks E prev bs) \<Longrightarrow> length c = 16"
  by (induction bs arbitrary: prev) (auto simp: Let_def)

lemma length_xor_data [simp]: "length (xor_data d v) = length d"
  by (simp add: xor_data_def)

lemma xor_data_nth:
  assumes "length d = 16" "i < 16"
  shows "xor_data d v ! i = d ! i XOR v ! i"
proof -
  have "fold (\<lambda>i d. d[i := d ! i XOR v ! i]) [0..<n] d ! i = (if i < n then d ! i XOR v ! i else d ! i)"
    if "n \<le> 16" for n
    using that assms by (induction n) (auto simp: nth_list_update less_Suc_eq)
  then show ?thesis using assms(2) by (simp add: xor_data_def kStateSize_def)
qed

lemma xor_data_cancel [simp]: "length d = 16 \<Longrightarrow> xor_data (xor_data d v) v = d"
  by (rule nth_equalityI) (simp_all add: xor_data_nth)

lemma length_in_cbc_decrypt:
  "(\<And>b. length (D b) = 16) \<Longrightarrow> c \<in> set (cbc_decrypt_blocks D prev bs) \<Longrightarrow> length c = 16"
  by (induction bs arbitrary: prev) auto

locale block_cipher =
  fixes E D :: "'k \<Rightarrow> bytes \<Rightarrow> bytes" and valid_key :: "'k \<Rightarrow> bool"
  assumes length_E: "length (E k b) = 16"
    and length_D: "length (D k b) = 16"
    and D_E: "valid_key k \<Longrightarrow> length b = 16 \<Longrightarrow> D k (E k b) = b"
    and E_D: "valid_key k \<Longrightarrow> length b = 16 \<Longrightarrow> E k (D k b) = b"
begin

lemma cbc_blocks_inverse:
  assumes "valid_key k" "\<forall>b \<in> set bs. length b = 16"
  shows "cbc_decrypt_blocks (D k) iv (cbc_encrypt_blocks (E k) iv bs) = bs"
  using assms(2) by (induction bs arbitrary: iv) (simp_all add: Let_def D_E [OF assms(1)])

lemma cbc_blocks_inverse_back:
  assumes "valid_key k" "\<forall>c \<in> set cs. length c = 16"
  shows "cbc_encrypt_blocks (E k) iv (cbc_decrypt_blocks (D k) iv cs) = cs"
  using assms(2)
  by (induction cs arbitrary: iv) (simp_all add: Let_def length_D E_D [OF assms(1)])

lemma cbc_injective:
  assumes "valid_key k" "\<forall>b \<in> set bs. length b = 16" "\<forall>b \<in> set bs'. length b = 16"
    and "cbc_encrypt_blocks (E k) iv bs = cbc_encrypt_blocks (E k) iv bs'"
  shows "bs = bs'"
  using assms cbc_blocks_inverse by metis

lemma ecb_blocks_inverse:
  assumes "valid_key k" "\<forall>b \<in> set bs. length b = 16"
  shows "map (D k) (map (E k) bs) = bs"
  using assms(2) by (induction bs) (simp_all add: D_E [OF assms(1)])

text \<open>A changed ciphertext block garbles its own plaintext block and the next one only.\<close>

lemma cbc_error_propagation:
  assumes "j < length cs" "i < length cs" "i \<noteq> j" "i \<noteq> Suc j"
  shows "cbc_decrypt_blocks (D k) iv (cs[j := c]) ! i = cbc_decrypt_blocks (D k) iv cs ! i"
  using assms by (auto simp: cbc_decrypt_nth)

end

interpretation aes: block_cipher encrypt_state decrypt_state wf_round_keys
  by unfold_locales (simp_all add: decrypt_encrypt_state encrypt_decrypt_state)

section \<open>The buffer code computes the block-list functions\<close>

lemma check_encrypt_ok:
  assumes "length d < 2 ^ 64 - 16" "n \<in> {16, 24, 32}" "m < 2 ^ 64" "16 * (length d div 16 + 1) \<le> m"
  shows "check_encrypt_cond (of_nat (length d)) (of_nat n) (of_nat m) True = kErrorOk"
  using assms get_padded_encrypted_size_unat [of "length d"]
  by (auto simp: check_encrypt_cond_def is_valid_key_size_def word_less_nat_alt of_nat_u64_arith)

lemma loopR_filled:
  assumes cs: "\<forall>c \<in> set cs. length c = 16" "16 * length cs \<le> length buf"
    and mn: "m \<le> n" "n \<le> length cs"
    and body: "\<And>i. m \<le> i \<Longrightarrow> i < n \<Longrightarrow>
      body i (filled cs i buf) = write_at (filled cs i buf) (16 * i) (cs ! i)"
  shows "loopR body [m..<n] (filled cs m buf) = Inr (filled cs n buf)"
  using mn body by (intro loopR_upt_exact) (auto simp: write_block_filled [OF cs(1) _ cs(2)])

lemma encrypt_cbc_blocks:
  assumes d: "length d < 2 ^ 64 - 16" and n: "n \<in> {16, 24, 32}" and key: "expand_key key n = Inr rk"
    and buf: "length buf < 2 ^ 64" "16 * (length d div 16 + 1) \<le> length buf"
    and cs: "cs = cbc_encrypt_blocks (encrypt_state rk) iv (blocks16 (pkcs_pad d))"
  shows "encrypt_cbc d (of_nat (length d)) key (of_nat n) (Some iv) buf (of_nat (length buf)) True =
    Inr (kErrorOk, concat cs @ drop (16 * length cs) buf)"
proof -
  let ?q = "length d div 16" and ?bs = "blocks16 (pkcs_pad d)"
  have lcs: "length cs = ?q + 1" by (simp add: cs)
  have c16: "\<forall>c \<in> set cs. length c = 16" using length_in_cbc_encrypt [of "encrypt_state rk"] cs by auto
  have bufcs: "16 * length cs \<le> length buf" using buf(2) lcs by simp
  have nth: "cs ! i = encrypt_state rk (xor_data (?bs ! i) (if i = 0 then iv else cs ! (i - 1)))"
    if "i \<le> ?q" for i
    unfolding cs by (rule cbc_encrypt_nth) (use that in simp)
  have n64: "unat (of_nat n :: u64) = n" using n by (auto simp: of_nat_u64_arith)
  note wr = write_block_filled [OF c16 _ bufcs]
  have first: "write_at buf 0 (cs ! 0) = Inr (filled cs 1 buf)"
    using wr [of 0] lcs by simp
  have ge: "(of_nat kStateSize :: u64) \<le> of_nat (length d) \<longleftrightarrow> 16 \<le> length d"
    using d by (simp add: kStateSize_def word_le_nat_alt of_nat_u64_arith)
  have m: "unat (of_nat (length d) mod of_nat kStateSize :: u64) = length d mod 16"
    and q: "unat (of_nat (length d) div of_nat kStateSize :: u64) = ?q"
    and l: "unat (of_nat (length d) :: u64) = length d"
    using d by (simp_all add: kStateSize_def of_nat_u64_arith)
  note unfolded = encrypt_cbc_def Let_def check_encrypt_ok [OF d n buf] key n64 ge m q l
  show ?thesis
  proof (cases "16 \<le> length d")
    case False
    then have q0: "?q = 0" and m0: "length d mod 16 = length d" by simp_all
    have "?bs ! 0 = d @ replicate (16 - length d) (of_nat (16 - length d))"
      using blocks16_pkcs_last [of d] q0 m0 by simp
    then have "cs ! 0 = encrypt_state rk (xor_data (d @ replicate (16 - length d) (of_nat (16 - length d))) iv)"
      using nth [of 0] by simp
    then show ?thesis
      using False q0 m0 lcs first unfolding unfolded by (simp add: kStateSize_def filled_def)
  next
    case True
    then have q1: "1 \<le> ?q" by linarith
    have blk: "read_at d (i * kStateSize) kStateSize = Inr (?bs ! i)" if "i < ?q" for i
    proof -
      have "16 * i + 16 \<le> length d" using that by linarith
      then show ?thesis using that by (simp add: kStateSize_def mult.commute blocks16_pkcs_nth)
    qed
    have prev: "read_at (filled cs i buf) (i * kStateSize - kStateSize) kStateSize = Inr (cs ! (i - 1))"
      if "1 \<le> i" "i \<le> ?q" for i
    proof -
      have "i * kStateSize - kStateSize = 16 * (i - 1)" by (simp add: kStateSize_def algebra_simps)
      then show ?thesis using read_block_filled [OF c16, of "i - 1" i] that lcs
        by (simp add: kStateSize_def)
    qed
    have loop: "loopR (\<lambda>i enc.
          bindR (read_at d (i * kStateSize) kStateSize) (\<lambda>s.
          bindR (read_at enc (i * kStateSize - kStateSize) kStateSize) (\<lambda>prev.
          write_at enc (i * kStateSize) (encrypt_state rk (xor_data s prev))))) [1..<?q] (filled cs 1 buf)
        = Inr (filled cs ?q buf)"
    proof (rule loopR_filled [OF c16 bufcs])
      fix i assume i: "1 \<le> i" "i < ?q"
      then have "cs ! i = encrypt_state rk (xor_data (?bs ! i) (cs ! (i - 1)))"
        using nth [of i] by simp
      with i show "bindR (read_at d (i * kStateSize) kStateSize) (\<lambda>s.
          bindR (read_at (filled cs i buf) (i * kStateSize - kStateSize) kStateSize) (\<lambda>prev.
          write_at (filled cs i buf) (i * kStateSize) (encrypt_state rk (xor_data s prev)))) =
        write_at (filled cs i buf) (16 * i) (cs ! i)"
        by (simp add: blk prev) (simp add: kStateSize_def mult.commute)
    qed (use q1 lcs in auto)
    have last: "write_at (filled cs ?q buf) (length d - length d mod 16) (cs ! ?q) =
        Inr (filled cs (?q + 1) buf)"
      using wr [of ?q] lcs by (simp add: minus_mod_eq_mult_div)
    have "read_at (filled cs ?q buf) ((?q - 1) * kStateSize) kStateSize = Inr (cs ! (?q - 1))"
      using prev [of ?q] q1 by (simp add: diff_mult_distrib)
    moreover have "read_at d 0 kStateSize = Inr (?bs ! 0)" using blk [of 0] q1 by simp
    moreover have "?q \<noteq> 0" using q1 by simp
    ultimately show ?thesis
      using first loop last d lcs unfolding unfolded filled_def
      using nth [of 0] nth [of ?q]
      by (simp add: True padding_block_eq del: One_nat_def read_at_inside write_at_inside)
  qed
qed
lemma encrypt_ecb_blocks:
  assumes d: "length d < 2 ^ 64 - 16" and n: "n \<in> {16, 24, 32}" and key: "expand_key key n = Inr rk"
    and buf: "length buf < 2 ^ 64" "16 * (length d div 16 + 1) \<le> length buf"
    and cs: "cs = map (encrypt_state rk) (blocks16 (pkcs_pad d))"
  shows "encrypt_ecb d (of_nat (length d)) key (of_nat n) buf (of_nat (length buf)) True =
    Inr (kErrorOk, concat cs @ drop (16 * length cs) buf)"
proof -
  let ?q = "length d div 16" and ?bs = "blocks16 (pkcs_pad d)"
  have lcs: "length cs = ?q + 1" by (simp add: cs)
  have c16: "\<forall>c \<in> set cs. length c = 16" by (auto simp: cs)
  have bufcs: "16 * length cs \<le> length buf" using buf(2) lcs by simp
  have nth: "cs ! i = encrypt_state rk (?bs ! i)" if "i \<le> ?q" for i
    using that by (simp add: cs)
  have n64: "unat (of_nat n :: u64) = n" using n by (auto simp: of_nat_u64_arith)
  have m: "unat (of_nat (length d) mod of_nat kStateSize :: u64) = length d mod 16"
    and q: "unat (of_nat (length d) div of_nat kStateSize :: u64) = ?q"
    and l: "unat (of_nat (length d) :: u64) = length d"
    using d by (simp_all add: kStateSize_def of_nat_u64_arith)
  note unfolded = encrypt_ecb_def Let_def check_encrypt_ok [OF d n buf] key n64 m q l
  have loop: "loopR (\<lambda>i enc. bindR (read_at d (i * kStateSize) kStateSize) (\<lambda>b.
        write_at enc (i * kStateSize) (encrypt_state rk b))) [0..<?q] (filled cs 0 buf)
      = Inr (filled cs ?q buf)"
  proof (rule loopR_filled [OF c16 bufcs])
    fix i assume i: "0 \<le> i" "i < ?q"
    then have "16 * i + 16 \<le> length d" by linarith
    with i show "bindR (read_at d (i * kStateSize) kStateSize) (\<lambda>b.
        write_at (filled cs i buf) (i * kStateSize) (encrypt_state rk b)) =
      write_at (filled cs i buf) (16 * i) (cs ! i)"
      by (simp add: kStateSize_def mult.commute blocks16_pkcs_nth nth)
  qed (use lcs in auto)
  have "write_at (filled cs ?q buf) (length d - length d mod 16) (cs ! ?q) =
      Inr (filled cs (?q + 1) buf)"
    using write_block_filled [OF c16 _ bufcs, of ?q] lcs by (simp add: minus_mod_eq_mult_div)
  then show ?thesis
    using loop d lcs nth [of ?q] unfolding unfolded filled_0
    by (simp add: padding_block_eq filled_def del: write_at_inside)
qed

lemma check_padding_le: "check_padding p last_blk \<Longrightarrow> unat p \<le> 16"
  by (auto simp: check_padding_def kStateSize_def word_less_nat_alt split: if_splits)

lemma u64_minus_unat: "a \<le> b \<Longrightarrow> unat (b - a :: u64) = unat b - unat a"
  by (rule unat_sub)

lemma finish_decrypt_eq:
  assumes p: "length p = 16" and dec: "16 * (k + 1) \<le> length dec" "length dec < 2 ^ 64"
  shows "finish_decrypt p (of_nat k) (of_nat (length dec)) (Some v) dec =
    (let pad = unat (p ! 15) in
     if check_padding (ucast (p ! 15)) p
     then Inr (kErrorOk, take (16 * k) dec @ take (16 - pad) p @ drop (16 * k + (16 - pad)) dec,
               Some (ucast (p ! 15)))
     else Inr (kErrorInvalidKey, dec, Some (ucast (p ! 15))))"
proof (cases "check_padding (ucast (p ! 15)) p")
  case False
  then show ?thesis by (simp add: finish_decrypt_def Let_def kStateSize_def)
next
  case True
  define pad where "pad = unat (p ! 15)"
  have u: "unat (ucast (p ! 15) :: u64) = pad"
    using unat_byte_less [of "p ! 15"] by (simp add: pad_def unsigned_ucast_eq take_bit_nat_eq_self del: unat_byte_less)
  have le: "pad \<le> 16" using check_padding_le [OF True] u by simp
  then have cs: "unat (16 - ucast (p ! 15) :: u64) = 16 - pad"
    using u by (subst unat_sub) (simp_all add: word_le_nat_alt)
  have k: "of_nat k * 16 = (of_nat (16 * k) :: u64)" by simp
  have kk: "16 * k < 2 ^ 64" using dec by simp
  have "(of_nat (16 * k) + (16 - ucast (p ! 15)) :: u64) = of_nat (16 * k + (16 - pad))"
    unfolding of_nat_add cs [symmetric] by simp
  moreover have "16 * k + (16 - pad) \<le> length dec" using dec by simp
  ultimately have "of_nat (16 * k) + (16 - ucast (p ! 15)) \<le> (of_nat (length dec) :: u64)"
    using dec(2) by (simp only: word_le_nat_alt unat_of_nat len64) simp
  then show ?thesis
    using True le dec p kk
    unfolding finish_decrypt_def Let_def kStateSize_def
    by (simp add: cs k pad_def [symmetric] u of_nat_u64_arith del: of_nat_mult)
qed


lemma check_decrypt_ok:
  assumes "16 dvd n" "16 \<le> n" "n < 2 ^ 64" "k \<in> {16, 24, 32}"
  shows "check_decrypt_cond (of_nat n) (of_nat k) (of_nat n) (Some v) = kErrorOk"
proof -
  have "(of_nat n mod 16 :: u64) = 0"
    using assms by (simp add: word_unat_eq_iff of_nat_u64_arith)
  moreover have "\<not> (of_nat n :: u64) < of_nat n - 16"
    using assms u64_minus_unat [of 16 "of_nat n"]
    by (simp add: word_less_nat_alt word_le_nat_alt of_nat_u64_arith)
  ultimately show ?thesis
    using assms(4) by (auto simp: check_decrypt_cond_def is_valid_key_size_def kStateSize_def)
qed

lemma xor_data_at_block:
  assumes "length b = 16" "length a = off"
  shows "xor_data_at (a @ b @ r) off v = Inr (a @ xor_data b v @ r)"
  using assms by (simp add: xor_data_at_def kStateSize_def)

lemma write_xor_block_filled:
  assumes "\<forall>c \<in> set ps. length c = 16" "i < length ps" "16 * length ps \<le> length buf"
    and "length b = 16" "ps ! i = xor_data b v"
  shows "bindR (write_at (filled ps i buf) (16 * i) b) (\<lambda>dec. xor_data_at dec (16 * i) v) =
    Inr (filled ps (Suc i) buf)"
proof -
  let ?a = "concat (take i ps)"
  have a: "length ?a = 16 * i" using assms(1,2) by (simp add: length_concat_take16)
  have "16 * i + 16 \<le> length buf" using assms(2,3) by linarith
  then have "write_at (filled ps i buf) (16 * i) b = Inr (?a @ b @ drop (16 * i + 16) buf)"
    using a assms(4) by (simp add: filled_def add.commute)
  moreover have "?a @ xor_data b v @ drop (16 * i + 16) buf = filled ps (Suc i) buf"
    using assms(2,5) by (simp add: filled_def take_Suc_conv_app_nth add.commute)
  ultimately show ?thesis
    using xor_data_at_block [OF assms(4) a] by (simp del: write_at_inside)
qed

lemma block_count_word:
  assumes "0 < n" "16 * n < 2 ^ 64"
  shows "(of_nat (16 * n) div of_nat kStateSize - 1 :: u64) = of_nat (n - 1)"
proof -
  have n: "1 \<le> n" "n - 1 < 2 ^ 64" using assms by simp_all
  have u: "unat (of_nat (16 * n) div of_nat kStateSize :: u64) = n"
    using assms(2) by (simp add: kStateSize_def of_nat_u64_arith del: of_nat_mult)
  show ?thesis
    unfolding word_unat_eq_iff
    by (subst u64_minus_unat) (use n u in \<open>simp_all add: word_le_nat_alt of_nat_u64_arith del: of_nat_diff\<close>)
qed

lemma decrypt_cbc_blocks:
  assumes cs: "\<forall>c \<in> set cs. length c = 16" and n: "0 < length cs" "16 * length cs < 2 ^ 64"
    and ks: "ks \<in> {16, 24, 32}" and key: "expand_key key ks = Inr rk"
    and ps: "ps = cbc_decrypt_blocks (decrypt_state rk) iv cs"
    and L: "L = 16 * length cs"
  shows "decrypt_cbc (concat cs) (of_nat L) key (of_nat ks) (Some iv) (replicate L 0) (of_nat L) (Some v) =
    finish_decrypt (ps ! (length cs - 1)) (of_nat (length cs - 1)) (of_nat L) (Some v)
      (filled ps (length cs - 1) (replicate L 0))"
proof -
  let ?n = "length cs" and ?buf = "replicate L 0 :: bytes" and ?D = "decrypt_state rk"
  have lps: "length ps = ?n" by (simp add: ps)
  have p16: "\<forall>p \<in> set ps. length p = 16" using length_in_cbc_decrypt [of ?D] ps by auto
  have bufps: "16 * length ps \<le> length ?buf" using lps L by simp
  have nth: "ps ! i = xor_data (?D (cs ! i)) (if i = 0 then iv else cs ! (i - 1))" if "i < ?n" for i
    unfolding ps using that by (rule cbc_decrypt_nth)
  have rd: "read_at (concat cs) (16 * i) 16 = Inr (cs ! i)" if "i < ?n" for i
  proof -
    have "16 * i + 16 \<le> length (concat cs)" using that cs by (simp add: length_concat16)
    then show ?thesis using read_block_concat [OF cs that, of "[]"] by simp
  qed
  note step = write_xor_block_filled [OF p16 _ bufps length_decrypt_state]
  have first: "bindR (write_at ?buf 0 (?D (cs ! 0))) (\<lambda>dec. xor_data_at dec 0 iv) = Inr (filled ps 1 ?buf)"
    using step [of 0 rk "cs ! 0" iv] nth [of 0] n lps by simp
  have loop: "loopR (\<lambda>i dec.
        bindR (read_at (concat cs) (i * kStateSize) kStateSize) (\<lambda>b.
        bindR (write_at dec (i * kStateSize) (?D b)) (\<lambda>dec.
        bindR (read_at (concat cs) (i * kStateSize - kStateSize) kStateSize) (\<lambda>prev.
        xor_data_at dec (i * kStateSize) prev)))) [1..<?n - 1] (filled ps 1 ?buf) =
      Inr (filled ps (?n - 1) ?buf)" if "1 < ?n"
  proof (rule loopR_upt_exact)
    fix i assume i: "1 \<le> i" "i < ?n - 1"
    have e: "16 * i - 16 = 16 * (i - 1)" by (simp add: diff_mult_distrib2)
    show "bindR (read_at (concat cs) (i * kStateSize) kStateSize) (\<lambda>b.
        bindR (write_at (filled ps i ?buf) (i * kStateSize) (?D b)) (\<lambda>dec.
        bindR (read_at (concat cs) (i * kStateSize - kStateSize) kStateSize) (\<lambda>prev.
        xor_data_at dec (i * kStateSize) prev))) = Inr (filled ps (Suc i) ?buf)"
      unfolding kStateSize_def mult.commute [of i 16] e
      using rd [of i] rd [of "i - 1"] step [of i rk "cs ! i" "cs ! (i - 1)"] nth [of i] lps i
      by simp
  qed (use that in simp)
  obtain d1 where d1: "write_at ?buf 0 (?D (cs ! 0)) = Inr d1" "xor_data_at d1 0 iv = Inr (filled ps 1 ?buf)"
    using first by (auto simp: bindR_eq_Inr_iff)
  have ks64: "unat (of_nat ks :: u64) = ks" using ks by (auto simp: of_nat_u64_arith)
  have l: "unat (of_nat L :: u64) = L" using n(2) L by (simp add: of_nat_u64_arith del: of_nat_mult)
  have n1: "?n - 1 < 2 ^ 64" using n(2) by simp
  have bc: "(of_nat L div of_nat kStateSize - 1 :: u64) = of_nat (?n - 1)"
    unfolding L by (rule block_count_word [OF n])
  have bcn: "unat (of_nat (?n - 1) :: u64) = ?n - 1" using n1 by (rule of_nat_u64_arith)
  have off: "(of_nat (?n - 1) * of_nat kStateSize :: u64) = of_nat (16 * (?n - 1))"
    by (simp add: kStateSize_def)
  have offn: "unat (of_nat (16 * (?n - 1)) :: u64) = 16 * (?n - 1)"
    by (rule of_nat_u64_arith) (use n in simp)
  have gt: "(of_nat L :: u64) > of_nat kStateSize \<longleftrightarrow> 1 < ?n"
    using l L by (auto simp: word_less_nat_alt kStateSize_def)
  have n0: "1 \<le> ?n" using n(1) by linarith
  have ok: "check_decrypt_cond (of_nat L) (of_nat ks) (of_nat L) (Some v) = kErrorOk"
    by (rule check_decrypt_ok) (use n(2) n0 L ks in auto)
  have z: "read_at (concat cs) 0 kStateSize = Inr (cs ! 0)"
    using rd [of 0] n by (simp add: kStateSize_def)
  note unfolded = decrypt_cbc_def Let_def ok key ks64 bc bcn off offn gt l z
  show ?thesis
  proof (cases "1 < ?n")
    case True
    have s16: "unat (of_nat (16 * (?n - 1)) - of_nat kStateSize :: u64) = 16 * (?n - 2)"
      using True offn by (simp add: kStateSize_def u64_minus_unat word_le_nat_alt del: of_nat_mult)
    have lastblk: "ps ! (?n - 1) = xor_data (?D (cs ! (?n - 1))) (cs ! (?n - 2))"
      using nth [of "?n - 1"] True by (simp add: numeral_2_eq_2)
    have "read_at (concat cs) (16 * (?n - 1)) kStateSize = Inr (cs ! (?n - 1))"
      "read_at (concat cs) (16 * (?n - 2)) kStateSize = Inr (cs ! (?n - 2))"
      using rd [of "?n - 1"] rd [of "?n - 2"] True by (simp_all add: kStateSize_def)
    then show ?thesis
      unfolding unfolded s16 using True d1 loop [OF True] lastblk by simp
  next
    case False
    then have n1: "?n = 1" using n0 by linarith
    then have L16: "L = 16" by (simp add: L)
    have f1: "filled ps 1 ?buf = ps ! 0"
      using n1 lps L16 by (cases ps) (simp_all add: filled_def)
    have "length (ps ! 0) = 16" using p16 lps n1 by simp
    then show ?thesis
      unfolding unfolded using False d1 f1 n1 L16 by (simp add: kStateSize_def)
  qed
qed


lemma decrypt_ecb_blocks:
  assumes cs: "\<forall>c \<in> set cs. length c = 16" and n: "0 < length cs" "16 * length cs < 2 ^ 64"
    and ks: "ks \<in> {16, 24, 32}" and key: "expand_key key ks = Inr rk"
    and ps: "ps = map (decrypt_state rk) cs"
    and L: "L = 16 * length cs"
  shows "decrypt_ecb (concat cs) (of_nat L) key (of_nat ks) (replicate L 0) (of_nat L) (Some v) =
    finish_decrypt (ps ! (length cs - 1)) (of_nat (length cs - 1)) (of_nat L) (Some v)
      (filled ps (length cs - 1) (replicate L 0))"
proof -
  let ?n = "length cs" and ?buf = "replicate L 0 :: bytes" and ?D = "decrypt_state rk"
  have lps: "length ps = ?n" by (simp add: ps)
  have p16: "\<forall>p \<in> set ps. length p = 16" by (auto simp: ps)
  have bufps: "16 * length ps \<le> length ?buf" using lps L by simp
  have rd: "read_at (concat cs) (16 * i) 16 = Inr (cs ! i)" if "i < ?n" for i
  proof -
    have "16 * i + 16 \<le> length (concat cs)" using that cs by (simp add: length_concat16)
    then show ?thesis using read_block_concat [OF cs that, of "[]"] by simp
  qed
  have loop: "loopR (\<lambda>i dec. bindR (read_at (concat cs) (i * kStateSize) kStateSize) (\<lambda>b.
        write_at dec (i * kStateSize) (?D b))) [0..<?n - 1] (filled ps 0 ?buf) =
      Inr (filled ps (?n - 1) ?buf)"
    using lps n rd by (intro loopR_filled [OF p16 bufps])
      (simp_all add: kStateSize_def mult.commute [of _ 16] ps)
  have ks64: "unat (of_nat ks :: u64) = ks" using ks by (auto simp: of_nat_u64_arith)
  have n1: "?n - 1 < 2 ^ 64" using n(2) by simp
  have bc: "(of_nat L div of_nat kStateSize - 1 :: u64) = of_nat (?n - 1)"
    unfolding L by (rule block_count_word [OF n])
  have bcn: "unat (of_nat (?n - 1) :: u64) = ?n - 1" using n1 by (rule of_nat_u64_arith)
  have off: "(of_nat (?n - 1) * of_nat kStateSize :: u64) = of_nat (16 * (?n - 1))"
    by (simp add: kStateSize_def)
  have offn: "unat (of_nat (16 * (?n - 1)) :: u64) = 16 * (?n - 1)"
    by (rule of_nat_u64_arith) (use n in simp)
  have n0: "1 \<le> ?n" using n(1) by linarith
  have ok: "check_decrypt_cond (of_nat L) (of_nat ks) (of_nat L) (Some v) = kErrorOk"
    by (rule check_decrypt_ok) (use n(2) n0 L ks in auto)
  have "read_at (concat cs) (16 * (?n - 1)) kStateSize = Inr (cs ! (?n - 1))"
    using rd [of "?n - 1"] n by (simp add: kStateSize_def)
  then show ?thesis
    unfolding decrypt_ecb_def Let_def ok key ks64 bc bcn off offn
    using loop n by (simp add: ps)
qed

text \<open>The padding of a padded message passes the check and is what was added.\<close>

lemma last_block_padding:
  fixes d :: bytes
  defines "r \<equiv> length d mod 16"
  defines "p \<equiv> blocks16 (pkcs_pad d) ! (length d div 16)"
  shows "length p = 16" and "p ! 15 = of_nat (16 - r)" and "unat (p ! 15) = 16 - r"
    and "check_padding (ucast (p ! 15)) p" and "take (16 - (16 - r)) p = drop (16 * (length d div 16)) d"
proof -
  have r: "r < 16" by (simp add: r_def)
  have l: "length (drop (16 * (length d div 16)) d) = r"
    by (simp add: r_def minus_mult_div_eq_mod)
  have p: "p = drop (16 * (length d div 16)) d @ replicate (16 - r) (of_nat (16 - r))"
    unfolding p_def r_def by (rule blocks16_pkcs_last)
  show len: "length p = 16" using p l r by simp
  show p15: "p ! 15 = of_nat (16 - r)" using r l by (simp add: p nth_append)
  have "(16 - r) < 2 ^ LENGTH(8)" by simp
  then show u: "unat (p ! 15) = 16 - r" by (simp only: p15 unat_of_nat mod_less)
  have uu: "unat (ucast (p ! 15) :: u64) = 16 - r"
    using u r by (simp add: unsigned_ucast_eq take_bit_nat_eq_self)
  have "p ! (15 - i) = p ! 15" if "i < 16 - r" for i
  proof -
    have "\<not> 15 - i < r" "15 - i - r < 16 - r" using that r by linarith+
    then show ?thesis using l r by (simp add: p nth_append del: of_nat_diff length_drop)
  qed
  then show "check_padding (ucast (p ! 15)) p"
    unfolding check_padding_def uu list_all_iff
    using uu by (simp add: kStateSize_def word_less_nat_alt)
  show "take (16 - (16 - r)) p = drop (16 * (length d div 16)) d"
    using r l by (simp add: p)
qed

lemma decrypted_message:
  fixes d :: bytes
  defines "q \<equiv> length d div 16" and "n \<equiv> 16 * (length d div 16 + 1)"
  assumes ps: "ps = blocks16 (pkcs_pad d)" and n: "n < 2 ^ 64"
  shows "finish_decrypt (ps ! q) (of_nat q) (of_nat n) (Some v) (filled ps q (replicate n 0)) =
    Inr (kErrorOk, d @ replicate (n - length d) 0, Some (of_nat (n - length d)))"
proof -
  let ?dec = "filled ps q (replicate n 0)"
  note pad = last_block_padding [of d, folded q_def ps]
  have p16: "\<forall>p \<in> set ps. length p = 16" using ps length_in_blocks16 by blast
  have lps: "length ps = q + 1" by (simp add: ps q_def)
  have nq: "n = 16 * (q + 1)" by (simp add: n_def q_def)
  have lt: "length (concat (take q ps)) = 16 * q" using p16 lps by (simp add: length_concat_take16)
  have ldec: "length ?dec = n" using lt by (simp add: filled_def nq)
  have "take q ps = map (\<lambda>i. take 16 (drop (16 * i) d)) [0..<q]"
    by (rule nth_equalityI) (auto simp: lps ps blocks16_pkcs_nth q_def)
  moreover have "16 * q \<le> length d" by (simp add: q_def)
  ultimately have cq: "concat (take q ps) = take (16 * q) d"
    by (simp add: concat_blocks16_take)
  obtain m where m: "length d mod 16 = m" "m < 16" "length d = 16 * q + m"
    by (metis mod_less_divisor mult_div_mod_eq q_def zero_less_numeral)
  then have nd: "16 - length d mod 16 = n - length d" unfolding nq m(1) by (simp only: m(3)) simp
  have last: "(ucast (ps ! q ! 15) :: u64) = of_nat (n - length d)"
    using pad(3) nd by (metis of_nat_unat unat_ucast_byte_64)
  have pre: "16 * (q + 1) \<le> length ?dec" "length ?dec < 2 ^ 64" using ldec nq n by simp_all
  have "finish_decrypt (ps ! q) (of_nat q) (of_nat n) (Some v) ?dec =
      Inr (kErrorOk, take (16 * q) ?dec @ drop (16 * q) d @ drop (16 * q + m) ?dec,
           Some (of_nat (n - length d)))"
    using finish_decrypt_eq [OF pad(1) pre, of v] pad(3,4,5) m(2)
    unfolding last ldec Let_def m(1) by simp
  moreover have "take (16 * q) ?dec = take (16 * q) d"
    using lt cq by (simp add: filled_def)
  moreover have "drop (16 * q + m) ?dec = replicate (n - length d) 0"
    using lt m nq by (simp add: filled_def)
  ultimately show ?thesis by simp
qed

lemma cbc_buffers_round_trip:
  assumes d: "length d < 2 ^ 64 - 16" and n: "n \<in> {16, 24, 32}"
    and k: "n \<le> length key" and L: "L = 16 * (length d div 16 + 1)"
  shows "\<exists>c. length c = L \<and>
    encrypt_cbc d (of_nat (length d)) key (of_nat n) (Some iv) (replicate L 0) (of_nat L) True =
      Inr (kErrorOk, c) \<and>
    decrypt_cbc c (of_nat L) key (of_nat n) (Some iv) (replicate L 0) (of_nat L) (Some v) =
      Inr (kErrorOk, d @ replicate (L - length d) 0, Some (of_nat (L - length d)))"
proof -
  obtain rk where rk: "expand_key key n = Inr rk" using n k expand_key_Inr_iff by blast
  define cs where "cs = cbc_encrypt_blocks (encrypt_state rk) iv (blocks16 (pkcs_pad d))"
  have lcs: "length cs = length d div 16 + 1" by (simp add: cs_def)
  have c16: "\<forall>c \<in> set cs. length c = 16"
    using length_in_cbc_encrypt [of "encrypt_state rk"] cs_def by auto
  have L64: "L < 2 ^ 64" and Lcs: "L = 16 * length cs"
    using d L lcs by simp_all
  have ps: "cbc_decrypt_blocks (decrypt_state rk) iv cs = blocks16 (pkcs_pad d)"
    unfolding cs_def using length_in_blocks16
    by (intro aes.cbc_blocks_inverse) (auto simp: expand_key_wf(1) [OF rk])
  have "encrypt_cbc d (of_nat (length d)) key (of_nat n) (Some iv) (replicate L 0) (of_nat L) True =
      Inr (kErrorOk, concat cs)"
    using encrypt_cbc_blocks [OF d n rk _ _ cs_def, of "replicate L 0"] L64 L Lcs by simp
  moreover have "decrypt_cbc (concat cs) (of_nat L) key (of_nat n) (Some iv) (replicate L 0) (of_nat L) (Some v) =
      finish_decrypt (blocks16 (pkcs_pad d) ! (length d div 16)) (of_nat (length d div 16)) (of_nat L)
        (Some v) (filled (blocks16 (pkcs_pad d)) (length d div 16) (replicate L 0))"
    using decrypt_cbc_blocks [OF c16 _ _ n rk refl Lcs, of iv v] L64 Lcs lcs by (simp add: ps)
  moreover have "\<dots> = Inr (kErrorOk, d @ replicate (L - length d) 0, Some (of_nat (L - length d)))"
    using decrypted_message [of "blocks16 (pkcs_pad d)" d v] L L64 by simp
  ultimately show ?thesis
    using length_concat16 [OF c16] Lcs by (intro exI [of _ "concat cs"]) simp
qed

lemma ecb_buffers_round_trip:
  assumes d: "length d < 2 ^ 64 - 16" and n: "n \<in> {16, 24, 32}"
    and k: "n \<le> length key" and L: "L = 16 * (length d div 16 + 1)"
  shows "\<exists>c. length c = L \<and>
    encrypt_ecb d (of_nat (length d)) key (of_nat n) (replicate L 0) (of_nat L) True =
      Inr (kErrorOk, c) \<and>
    decrypt_ecb c (of_nat L) key (of_nat n) (replicate L 0) (of_nat L) (Some v) =
      Inr (kErrorOk, d @ replicate (L - length d) 0, Some (of_nat (L - length d)))"
proof -
  obtain rk where rk: "expand_key key n = Inr rk" using n k expand_key_Inr_iff by blast
  define cs where "cs = map (encrypt_state rk) (blocks16 (pkcs_pad d))"
  have lcs: "length cs = length d div 16 + 1" by (simp add: cs_def)
  have c16: "\<forall>c \<in> set cs. length c = 16" by (auto simp: cs_def)
  have L64: "L < 2 ^ 64" and Lcs: "L = 16 * length cs"
    using d L lcs by simp_all
  have ps: "map (decrypt_state rk) cs = blocks16 (pkcs_pad d)"
    unfolding cs_def using length_in_blocks16
    by (intro aes.ecb_blocks_inverse) (auto simp: expand_key_wf(1) [OF rk])
  have "encrypt_ecb d (of_nat (length d)) key (of_nat n) (replicate L 0) (of_nat L) True =
      Inr (kErrorOk, concat cs)"
    using encrypt_ecb_blocks [OF d n rk _ _ cs_def, of "replicate L 0"] L64 L Lcs by simp
  moreover have "decrypt_ecb (concat cs) (of_nat L) key (of_nat n) (replicate L 0) (of_nat L) (Some v) =
      finish_decrypt (blocks16 (pkcs_pad d) ! (length d div 16)) (of_nat (length d div 16)) (of_nat L)
        (Some v) (filled (blocks16 (pkcs_pad d)) (length d div 16) (replicate L 0))"
    using decrypt_ecb_blocks [OF c16 _ _ n rk refl Lcs, of v] L64 Lcs lcs by (simp add: ps)
  moreover have "\<dots> = Inr (kErrorOk, d @ replicate (L - length d) 0, Some (of_nat (L - length d)))"
    using decrypted_message [of "blocks16 (pkcs_pad d)" d v] L L64 by simp
  ultimately show ?thesis
    using length_concat16 [OF c16] Lcs by (intro exI [of _ "concat cs"]) simp
qed

section \<open>The counter of the CTR mode\<close>

definition be_value :: "bytes \<Rightarrow> nat" where
  "be_value bs = foldl (\<lambda>a b. 256 * a + unat b) 0 bs"

lemma be_value_snoc: "be_value (bs @ [b]) = 256 * be_value bs + unat b"
  by (simp add: be_value_def)

lemma be_value_take_Suc: "n < length l \<Longrightarrow> be_value (take (Suc n) l) = 256 * be_value (take n l) + unat (l ! n)"
  by (simp add: take_Suc_conv_app_nth be_value_snoc)

abbreviation counter_loop :: "nat \<Rightarrow> bytes \<times> u32 \<Rightarrow> bytes \<times> u32" where
  "counter_loop n \<equiv> fold (\<lambda>n (counter, c :: u32).
       let c = c + ucast (counter ! n) in (counter[n := ucast c], drop_bit 8 c)) (rev [0..<n])"

lemma counter_byte:
  fixes b :: byte and c :: u32
  assumes "unat c \<le> 1"
  shows "unat (ucast (c + ucast b) :: byte) = (unat c + unat b) mod 256"
    and "unat (drop_bit 8 (c + ucast b)) = (unat c + unat b) div 256"
proof -
  have "unat c + unat b < 2 ^ 32" using assms unat_byte_less [of b] by (simp del: unat_byte_less)
  then have "unat (c + ucast b) = unat c + unat b"
    by (simp add: unat_word_ariths)
  then show "unat (ucast (c + ucast b) :: byte) = (unat c + unat b) mod 256"
    and "unat (drop_bit 8 (c + ucast b)) = (unat c + unat b) div 256"
    by (simp_all add: unsigned_ucast_eq take_bit_eq_mod unat_drop_bit_eq drop_bit_eq_div unat_div)
qed

lemma counter_loop_value:
  assumes "n \<le> length l" "unat c \<le> 1" "counter_loop n (l, c) = (l', c')"
  shows "length l' = length l \<and> unat c' \<le> 1 \<and> drop n l' = drop n l \<and>
    be_value (take n l') + 256 ^ n * unat c' = be_value (take n l) + unat c"
  using assms
proof (induction n arbitrary: l c)
  case 0
  then show ?case by (simp add: be_value_def)
next
  case (Suc n)
  let ?s = "c + ucast (l ! n) :: u32" and ?b = "unat (l ! n)"
  let ?l = "l[n := ucast ?s]"
  note byte = counter_byte [OF Suc.prems(2), of "l ! n"]
  have c1: "unat (drop_bit 8 ?s) \<le> 1"
    using byte Suc.prems(2) unat_byte_less [of "l ! n"] by (simp del: unat_byte_less)
  have "counter_loop n (?l, drop_bit 8 ?s) = (l', c')"
    using Suc.prems(3) by (simp add: Let_def)
  with Suc.IH [of ?l "drop_bit 8 ?s"] Suc.prems(1) c1
  have IH: "length l' = length l" "unat c' \<le> 1" "drop n l' = drop n ?l"
    "be_value (take n l') + 256 ^ n * unat c' = be_value (take n l) + unat (drop_bit 8 ?s)"
    by auto
  have ln: "l' ! n = ucast ?s"
    using IH(1,3) Suc.prems(1) by (metis hd_drop_conv_nth length_list_update nth_list_update_eq Suc_le_lessD)
  have "drop (Suc n) l' = drop 1 (drop n l')" by simp
  also have "\<dots> = drop (Suc n) l" unfolding IH(3) by simp
  finally have "drop (Suc n) l' = drop (Suc n) l" .
  moreover have "be_value (take (Suc n) l') + 256 ^ Suc n * unat c' =
      256 * (be_value (take n l') + 256 ^ n * unat c') + (unat c + ?b) mod 256"
    using Suc.prems(1) IH(1) by (simp add: be_value_take_Suc ln byte(1))
  moreover have "\<dots> = be_value (take (Suc n) l) + unat c"
    unfolding IH(4) byte(2) using Suc.prems(1)
    by (simp add: be_value_take_Suc add_mult_distrib2)
  ultimately show ?case using IH(1,2) by simp
qed

lemma be_value_less: "be_value bs < 256 ^ length bs"
proof (induction bs rule: rev_induct)
  case (snoc b bs)
  then have "256 * be_value bs + 256 \<le> 256 * 256 ^ length bs" by simp
  with unat_byte_less [of b] show ?case by (simp add: be_value_snoc del: unat_byte_less)
qed (simp add: be_value_def)

lemma incr_counter_value:
  assumes "length counter = 16"
  shows "length (incr_counter counter) = 16"
    and "be_value (incr_counter counter) = (be_value counter + 1) mod 2 ^ 128"
proof -
  obtain l c where lc: "counter_loop 16 (counter, 1) = (l, c)" by force
  then have l: "incr_counter counter = l" by (simp add: incr_counter_def kStateSize_def)
  have v: "length l = 16" "unat c \<le> 1" "be_value l + 256 ^ 16 * unat c = be_value counter + 1"
    using counter_loop_value [OF _ _ lc] assms by auto
  then show "length (incr_counter counter) = 16" using l by simp
  have "be_value l < 2 ^ 128" using be_value_less [of l] v(1) by simp
  moreover have "be_value l + 2 ^ 128 * unat c = be_value counter + 1" using v(3) by simp
  ultimately show "be_value (incr_counter counter) = (be_value counter + 1) mod 2 ^ 128"
    unfolding l by (metis mod_less mod_mult_self2)
qed


section \<open>The key stream of the CTR mode\<close>

definition keystream :: "round_keys \<Rightarrow> bytes \<Rightarrow> nat \<Rightarrow> byte" where
  "keystream rkeys counter j =
     encrypt_state rkeys ((incr_counter ^^ (j div 16)) counter) ! (j mod 16)"

definition xor_keystream :: "round_keys \<Rightarrow> bytes \<Rightarrow> bytes \<Rightarrow> nat \<Rightarrow> bytes" where
  "xor_keystream rkeys counter data n =
     map (\<lambda>j. data ! j XOR keystream rkeys counter j) [0..<n] @ drop n data"

definition ctr_invariant :: "round_keys \<Rightarrow> bytes \<Rightarrow> bytes \<Rightarrow> nat \<Rightarrow> ctr_state \<Rightarrow> bool" where
  "ctr_invariant rkeys counter data pos st \<longleftrightarrow>
     ctr_data st = xor_keystream rkeys counter data pos \<and>
     ctr_counter st = (incr_counter ^^ ((pos + 15) div 16)) counter \<and>
     (if pos mod 16 = 0 then ctr_blkpos st = 16 else ctr_blkpos st = pos mod 16 \<and>
        ctr_blk st = encrypt_state rkeys ((incr_counter ^^ (pos div 16)) counter))"

lemma xor_keystream_Suc:
  assumes "pos < length data"
  shows "(xor_keystream rkeys counter data pos)[pos := data ! pos XOR keystream rkeys counter pos] =
    xor_keystream rkeys counter data (Suc pos)"
  using assms by (simp add: xor_keystream_def list_update_append Cons_nth_drop_Suc [symmetric])

lemma write_one_byte:
  "pos < length buf \<Longrightarrow> write_at buf pos [b] = Inr (buf[pos := b])"
  by (simp add: upd_conv_take_nth_drop)

lemma ctr_position_aligned:
  fixes pos :: nat
  assumes "pos mod 16 = 0"
  shows "(pos + 15) div 16 = pos div 16" "Suc pos mod 16 = 1" "Suc pos div 16 = pos div 16"
    "(Suc pos + 15) div 16 = Suc (pos div 16)"
  using assms by (simp_all add: div_add1_eq mod_Suc div_Suc)

lemma ctr_position_inside:
  fixes pos :: nat
  assumes "pos mod 16 \<noteq> 0"
  shows "(pos + 15) div 16 = Suc (pos div 16)" "(Suc pos + 15) div 16 = Suc (pos div 16)"
    "Suc pos mod 16 = 0 \<and> pos mod 16 = 15 \<or>
     Suc pos mod 16 = Suc (pos mod 16) \<and> Suc pos div 16 = pos div 16"
proof -
  obtain q r where qr: "pos = 16 * q + r" "r < 16" "pos mod 16 = r" "pos div 16 = q"
    by (metis mod_less_divisor mult_div_mod_eq zero_less_numeral)
  with assms obtain r' where r': "r = Suc r'" "r' < 15" by (cases r) auto
  have "pos + 15 = 16 * Suc q + r'" using qr r' by simp
  then show "(pos + 15) div 16 = Suc (pos div 16)" using qr r' by simp
  have "Suc pos + 15 = 16 * Suc q + r" using qr by simp
  then show "(Suc pos + 15) div 16 = Suc (pos div 16)" using qr by simp
  show "Suc pos mod 16 = 0 \<and> pos mod 16 = 15 \<or>
     Suc pos mod 16 = Suc (pos mod 16) \<and> Suc pos div 16 = pos div 16"
    by (auto simp: mod_Suc div_Suc)
qed

lemma ctr_step_invariant:
  assumes pos: "pos < length data" and inv: "ctr_invariant rkeys counter data pos st"
  shows "\<exists>st'. ctr_step rkeys pos st = Inr st' \<and> ctr_invariant rkeys counter data (Suc pos) st'"
proof -
  let ?x = "xor_keystream rkeys counter data pos"
  have len: "length ?x = length data" using pos by (simp add: xor_keystream_def)
  have hd: "read_at ?x pos 1 = Inr [data ! pos]"
    using pos len by (simp add: xor_keystream_def take_Suc_conv_app_nth hd_drop_conv_nth take_Suc)
  have wr: "write_at ?x pos [b] = Inr (?x[pos := b])" for b
    using pos len by (intro write_one_byte) simp
  note upd = xor_keystream_Suc [OF pos, of rkeys counter]
  show ?thesis
  proof (cases "pos mod 16 = 0")
    case True
    then show ?thesis
      using ctr_position_aligned [OF True] inv hd wr upd
      by (simp add: ctr_invariant_def ctr_step_def kStateSize_def keystream_def)
  next
    case False
    have "pos mod 16 \<noteq> 16" using mod_less_divisor [of 16 pos] by simp
    with False ctr_position_inside [OF False] inv hd wr upd show ?thesis
      by (auto simp: ctr_invariant_def ctr_step_def kStateSize_def keystream_def)
  qed
qed

text \<open>The initial counter is the nonce followed by zero bytes.\<close>

lemma crypt_ctr_keystream:
  assumes d: "length data < 2 ^ 64" and n: "n \<in> {16, 24, 32}" and key: "expand_key key n = Inr rk"
    and nonce: "length nonce \<le> 16"
  shows "crypt_ctr data (of_nat (length data)) key (of_nat n) nonce (of_nat (length nonce)) =
    Inr (kErrorOk, xor_keystream rk (nonce @ replicate (16 - length nonce) 0) data (length data))"
proof -
  let ?c = "nonce @ replicate (16 - length nonce) 0"
  let ?st = "\<lparr>ctr_data = data, ctr_blkpos = kStateSize, ctr_blk = replicate kStateSize 0, ctr_counter = ?c\<rparr>"
  have start: "ctr_invariant rk ?c data 0 ?st"
    by (simp add: ctr_invariant_def xor_keystream_def kStateSize_def)
  obtain st where st: "loopR (ctr_step rk) [0..<length data] ?st = Inr st"
    "ctr_invariant rk ?c data (length data) st"
    using loopR_upt_invariant [of 0 "length data" "ctr_invariant rk ?c data" "ctr_step rk" ?st]
      ctr_step_invariant start by blast
  have ln: "length nonce < 2 ^ 64" using nonce by simp
  have small: "\<not> (of_nat kStateSize :: u64) < of_nat (length nonce)"
    using nonce ln by (simp add: kStateSize_def word_less_nat_alt of_nat_u64_arith)
  have n64: "unat (of_nat n :: u64) = n" using n by (auto simp: of_nat_u64_arith)
  have valid: "is_valid_key_size (of_nat n)" using n by (auto simp: is_valid_key_size_def)
  have "write_at (replicate kStateSize 0) 0 nonce = Inr ?c"
    using nonce by (simp add: kStateSize_def)
  then show ?thesis
    unfolding crypt_ctr_def n64 key
    using st small valid of_nat_u64_arith(1) [OF d] of_nat_u64_arith(1) [OF ln]
    by (simp add: ctr_invariant_def)
qed

lemma xor_keystream_involution:
  "xor_keystream rk c (xor_keystream rk c data (length data)) (length data) = data"
  by (rule nth_equalityI) (simp_all add: xor_keystream_def)

lemma length_xor_keystream [simp]: "length (xor_keystream rk c data (length data)) = length data"
  by (simp add: xor_keystream_def)


section \<open>Properties\<close>

lemma valid_key_expands: "n \<in> {16, 24, 32} \<Longrightarrow> n \<le> length key \<Longrightarrow> \<exists>rk. expand_key key n = Inr rk"
  using expand_key_Inr_iff by blast

text \<open>C14: the AES block cipher is a permutation of the 16-byte blocks for every key the key
  schedule accepts: decryption undoes encryption and encryption undoes decryption.
\<close>

theorem aes_block_permutation:
  assumes "expand_key key n = Inr rk" and "length b = 16"
  shows "decrypt_state rk (encrypt_state rk b) = b \<and> encrypt_state rk (decrypt_state rk b) = b"
  using assms by (simp add: decrypt_encrypt_state encrypt_decrypt_state expand_key_wf(1))

theorem aes_block_permutation_witness:
  "\<exists>rk. expand_key (replicate 16 7) 16 = Inr rk \<and>
     decrypt_state rk (encrypt_state rk (replicate 16 3)) = replicate 16 3"
proof -
  obtain rk where rk: "expand_key (replicate 16 7) 16 = Inr rk"
    using valid_key_expands [of 16 "replicate 16 7"] by auto
  then show ?thesis using aes_block_permutation [OF rk, of "replicate 16 3"] by auto
qed

text \<open>C10: with padding, CBC decryption returns the encrypted message. For every message shorter
  than the address space, every key of a valid size and every initialisation vector, the
  encryption into a buffer of \<open>get_padded_encrypted_size\<close> bytes succeeds without an access
  outside a buffer, and the decryption of its output succeeds and returns the message, then
  zeros, together with the number of padding bytes.
\<close>

theorem cbc_round_trip:
  assumes "length d < 2 ^ 64 - 16" and "n \<in> {16, 24, 32}" and "n \<le> length key"
    and "L = unat (get_padded_encrypted_size (of_nat (length d)))"
  shows "\<exists>c. length c = L \<and>
    encrypt_cbc d (of_nat (length d)) key (of_nat n) (Some iv) (replicate L 0) (of_nat L) True =
      Inr (kErrorOk, c) \<and>
    decrypt_cbc c (of_nat L) key (of_nat n) (Some iv) (replicate L 0) (of_nat L) (Some v) =
      Inr (kErrorOk, d @ replicate (L - length d) 0, Some (of_nat (L - length d)))"
  using cbc_buffers_round_trip [OF assms(1-3)] assms(4) get_padded_encrypted_size_unat [OF assms(1)]
  by simp

theorem cbc_round_trip_witness:
  "\<exists>c. length c = 16 \<and>
    encrypt_cbc [1, 2, 3] (of_nat (length [1, 2, 3 :: byte])) (replicate 16 9) (of_nat 16)
      (Some (replicate 16 0)) (replicate 16 0) (of_nat 16) True = Inr (kErrorOk, c) \<and>
    decrypt_cbc c (of_nat 16) (replicate 16 9) (of_nat 16) (Some (replicate 16 0))
      (replicate 16 0) (of_nat 16) (Some 0) =
      Inr (kErrorOk, [1, 2, 3] @ replicate (16 - length [1, 2, 3 :: byte]) 0,
        Some (of_nat (16 - length [1, 2, 3 :: byte])))"
  by (rule cbc_round_trip) (simp_all add: get_padded_encrypted_size_def kStateSize_def)

text \<open>with padding, ECB decryption returns the encrypted message, under the same conditions.
\<close>

theorem ecb_round_trip:
  assumes "length d < 2 ^ 64 - 16" and "n \<in> {16, 24, 32}" and "n \<le> length key"
    and "L = unat (get_padded_encrypted_size (of_nat (length d)))"
  shows "\<exists>c. length c = L \<and>
    encrypt_ecb d (of_nat (length d)) key (of_nat n) (replicate L 0) (of_nat L) True =
      Inr (kErrorOk, c) \<and>
    decrypt_ecb c (of_nat L) key (of_nat n) (replicate L 0) (of_nat L) (Some v) =
      Inr (kErrorOk, d @ replicate (L - length d) 0, Some (of_nat (L - length d)))"
  using ecb_buffers_round_trip [OF assms(1-3)] assms(4) get_padded_encrypted_size_unat [OF assms(1)]
  by simp

theorem ecb_round_trip_witness:
  "\<exists>c. length c = 16 \<and>
    encrypt_ecb [1, 2, 3] (of_nat (length [1, 2, 3 :: byte])) (replicate 16 9) (of_nat 16)
      (replicate 16 0) (of_nat 16) True = Inr (kErrorOk, c) \<and>
    decrypt_ecb c (of_nat 16) (replicate 16 9) (of_nat 16) (replicate 16 0) (of_nat 16) (Some 0) =
      Inr (kErrorOk, [1, 2, 3] @ replicate (16 - length [1, 2, 3 :: byte]) 0,
        Some (of_nat (16 - length [1, 2, 3 :: byte])))"
  by (rule ecb_round_trip) (simp_all add: get_padded_encrypted_size_def kStateSize_def)

text \<open>the CTR mode is its own inverse: applied twice with the same key and nonce it returns
  the data, and neither application fails or leaves its buffers.
\<close>

theorem ctr_involution:
  assumes "length data < 2 ^ 64" and "n \<in> {16, 24, 32}" and "n \<le> length key"
    and "length nonce \<le> 16"
  shows "\<exists>c. crypt_ctr data (of_nat (length data)) key (of_nat n) nonce (of_nat (length nonce)) =
      Inr (kErrorOk, c) \<and> length c = length data \<and>
    crypt_ctr c (of_nat (length c)) key (of_nat n) nonce (of_nat (length nonce)) = Inr (kErrorOk, data)"
proof -
  obtain rk where rk: "expand_key key n = Inr rk" using valid_key_expands [OF assms(2,3)] by blast
  note ctr = crypt_ctr_keystream [OF _ assms(2) rk assms(4)]
  from ctr [OF assms(1)] show ?thesis
    using ctr [of "xor_keystream rk (nonce @ replicate (16 - length nonce) 0) data (length data)"] assms(1)
    by (simp add: xor_keystream_involution)
qed

theorem ctr_involution_witness:
  "\<exists>c. crypt_ctr [1, 2, 3] 3 (replicate 16 9) 16 [5] 1 = Inr (kErrorOk, c) \<and>
     crypt_ctr c 3 (replicate 16 9) 16 [5] 1 = Inr (kErrorOk, [1, 2, 3])"
  using ctr_involution [of "[1, 2, 3]" 16 "replicate 16 9" "[5]"] by auto

text \<open>
  C24: \<open>incr_counter\<close> adds one to the counter read as a 128-bit big-endian number, modulo
  \<open>2 ^ 128\<close>.
\<close>

theorem incr_counter_adds_one:
  assumes "length counter = 16"
  shows "be_value (incr_counter counter) = (be_value counter + 1) mod 2 ^ 128 \<and>
    length (incr_counter counter) = 16"
  using incr_counter_value [OF assms] by simp

theorem incr_counter_adds_one_witness:
  "be_value (incr_counter (replicate 15 0 @ [255])) =
     (be_value (replicate 15 0 @ [255]) + 1) mod 2 ^ 128 \<and>
   length (incr_counter (replicate 15 0 @ [255])) = 16"
  by (rule incr_counter_adds_one) simp

end
