(* ===== verification/Aes_Field.thy ===== *)
theory Aes_Field
  imports Aes_Core
begin

text \<open>
  The field behind the published AES (FIPS 197): bytes are polynomials of degree below 8 with bits as
  coefficients, multiplied modulo \<open>x^8 + x^4 + x^3 + x + 1\<close>, and the S-box is an affine map of the
  inverse. None of it refers to the tables of \<open>src/src/lib/plusaes.hpp\<close>; the last section shows that
  the table \<open>kSbox\<close> of the code is this S-box, with the powers of the generator 3.
\<close>

section \<open>Definitions\<close>

definition gf_xtime :: "byte \<Rightarrow> byte" where
  "gf_xtime a = push_bit 1 a XOR (if bit a 7 then 0x1b else 0)"

fun gf_mult_digits :: "nat \<Rightarrow> byte \<Rightarrow> byte \<Rightarrow> byte" where
  "gf_mult_digits 0 a b = 0"
| "gf_mult_digits (Suc n) a b = (if bit b 0 then a else 0) XOR gf_mult_digits n (gf_xtime a) (drop_bit 1 b)"

definition gf_mult :: "byte \<Rightarrow> byte \<Rightarrow> byte" where
  "gf_mult a b = gf_mult_digits 8 a b"

definition gf_inverse :: "byte \<Rightarrow> byte" where
  "gf_inverse a = (gf_mult a ^^ 254) 1"

definition aes_affine :: "byte \<Rightarrow> byte" where
  "aes_affine b = b XOR word_rotl 1 b XOR word_rotl 2 b XOR word_rotl 3 b XOR word_rotl 4 b XOR 0x63"

definition aes_sbox :: "byte \<Rightarrow> byte" where
  "aes_sbox b = aes_affine (gf_inverse b)"

section \<open>Multiplication by 3\<close>

definition times3 :: "byte \<Rightarrow> byte" where
  "times3 a = gf_xtime a XOR a"

lemma xtime_xor: "gf_xtime (a XOR b) = gf_xtime a XOR gf_xtime b"
  by (simp add: gf_xtime_def push_bit_xor bit_xor_iff ac_simps)

lemma xtime_0: "gf_xtime 0 = 0"
  by (simp add: gf_xtime_def)

lemma times3_linear: "times3 (a XOR b) = times3 a XOR times3 b" "times3 0 = 0"
  "times3 (gf_xtime a) = gf_xtime (times3 a)"
  by (simp_all add: times3_def xtime_xor xtime_0 ac_simps)

lemma mult_digits_times3: "gf_mult_digits n (times3 a) b = times3 (gf_mult_digits n a b)"
  by (induction n arbitrary: a b) (simp_all add: times3_linear flip: times3_linear(3))

lemma mult_times3: "gf_mult (times3 a) b = times3 (gf_mult a b)"
  by (simp add: gf_mult_def mult_digits_times3)

lemma mult_digits_0: "gf_mult_digits n 0 b = 0"
  by (induction n arbitrary: b) (simp_all add: xtime_0)

lemma mult_digits_1: "gf_mult_digits n (push_bit k 1) b = push_bit k (take_bit n b)" if "k + n \<le> 8"
  using that
proof (induction n arbitrary: k b)
  case (Suc n)
  have "gf_mult_digits n (gf_xtime (push_bit k 1)) (drop_bit 1 b) =
      push_bit (Suc k) (take_bit n (drop_bit 1 b))"
  proof (cases n)
    case (Suc m)
    then have "gf_xtime (push_bit k 1) = push_bit (Suc k) 1" using Suc.prems
      by (auto simp: gf_xtime_def bit_exp_iff)
    then show ?thesis using Suc.IH [of "Suc k"] Suc.prems by simp
  qed simp
  then have "gf_mult_digits (Suc n) (push_bit k 1) b =
      (if bit b 0 then push_bit k 1 else 0) XOR push_bit (Suc k) (take_bit n (drop_bit 1 b))"
    by (simp del: push_bit_of_1)
  also have "\<dots> = push_bit k (take_bit (Suc n) b)"
  proof (rule bit_word_eqI)
    fix m
    show "bit ((if bit b 0 then push_bit k 1 else 0) XOR push_bit (Suc k) (take_bit n (drop_bit 1 b))) m =
      bit (push_bit k (take_bit (Suc n) b)) m" if "m < LENGTH(8)"
      using that by (cases "m = k")
        (auto simp del: push_bit_Suc simp: bit_simps not_le Suc_le_eq le_less Suc_diff_Suc)
  qed
  finally show ?case .
qed simp

lemma mult_1: "gf_mult 1 b = b"
  using mult_digits_1 [of 0 8 b] take_bit_length_eq [of b] by (simp add: gf_mult_def)

section \<open>Powers of the generator, and the logarithms of the bytes from 1\<close>

definition powers_of_3 :: "byte list" where
  "powers_of_3 =
  [0x01, 0x03, 0x05, 0x0f, 0x11, 0x33, 0x55, 0xff, 0x1a, 0x2e, 0x72, 0x96, 0xa1, 0xf8, 0x13, 0x35,
   0x5f, 0xe1, 0x38, 0x48, 0xd8, 0x73, 0x95, 0xa4, 0xf7, 0x02, 0x06, 0x0a, 0x1e, 0x22, 0x66, 0xaa,
   0xe5, 0x34, 0x5c, 0xe4, 0x37, 0x59, 0xeb, 0x26, 0x6a, 0xbe, 0xd9, 0x70, 0x90, 0xab, 0xe6, 0x31,
   0x53, 0xf5, 0x04, 0x0c, 0x14, 0x3c, 0x44, 0xcc, 0x4f, 0xd1, 0x68, 0xb8, 0xd3, 0x6e, 0xb2, 0xcd,
   0x4c, 0xd4, 0x67, 0xa9, 0xe0, 0x3b, 0x4d, 0xd7, 0x62, 0xa6, 0xf1, 0x08, 0x18, 0x28, 0x78, 0x88,
   0x83, 0x9e, 0xb9, 0xd0, 0x6b, 0xbd, 0xdc, 0x7f, 0x81, 0x98, 0xb3, 0xce, 0x49, 0xdb, 0x76, 0x9a,
   0xb5, 0xc4, 0x57, 0xf9, 0x10, 0x30, 0x50, 0xf0, 0x0b, 0x1d, 0x27, 0x69, 0xbb, 0xd6, 0x61, 0xa3,
   0xfe, 0x19, 0x2b, 0x7d, 0x87, 0x92, 0xad, 0xec, 0x2f, 0x71, 0x93, 0xae, 0xe9, 0x20, 0x60, 0xa0,
   0xfb, 0x16, 0x3a, 0x4e, 0xd2, 0x6d, 0xb7, 0xc2, 0x5d, 0xe7, 0x32, 0x56, 0xfa, 0x15, 0x3f, 0x41,
   0xc3, 0x5e, 0xe2, 0x3d, 0x47, 0xc9, 0x40, 0xc0, 0x5b, 0xed, 0x2c, 0x74, 0x9c, 0xbf, 0xda, 0x75,
   0x9f, 0xba, 0xd5, 0x64, 0xac, 0xef, 0x2a, 0x7e, 0x82, 0x9d, 0xbc, 0xdf, 0x7a, 0x8e, 0x89, 0x80,
   0x9b, 0xb6, 0xc1, 0x58, 0xe8, 0x23, 0x65, 0xaf, 0xea, 0x25, 0x6f, 0xb1, 0xc8, 0x43, 0xc5, 0x54,
   0xfc, 0x1f, 0x21, 0x63, 0xa5, 0xf4, 0x07, 0x09, 0x1b, 0x2d, 0x77, 0x99, 0xb0, 0xcb, 0x46, 0xca,
   0x45, 0xcf, 0x4a, 0xde, 0x79, 0x8b, 0x86, 0x91, 0xa8, 0xe3, 0x3e, 0x42, 0xc6, 0x51, 0xf3, 0x0e,
   0x12, 0x36, 0x5a, 0xee, 0x29, 0x7b, 0x8d, 0x8c, 0x8f, 0x8a, 0x85, 0x94, 0xa7, 0xf2, 0x0d, 0x17,
   0x39, 0x4b, 0xdd, 0x7c, 0x84, 0x97, 0xa2, 0xfd, 0x1c, 0x24, 0x6c, 0xb4, 0xc7, 0x52, 0xf6]"

definition logarithms :: "nat list" where
  "logarithms =
  [0, 25, 1, 50, 2, 26, 198, 75, 199, 27, 104, 51, 238, 223, 3, 100,
   4, 224, 14, 52, 141, 129, 239, 76, 113, 8, 200, 248, 105, 28, 193, 125,
   194, 29, 181, 249, 185, 39, 106, 77, 228, 166, 114, 154, 201, 9, 120, 101,
   47, 138, 5, 33, 15, 225, 36, 18, 240, 130, 69, 53, 147, 218, 142, 150,
   143, 219, 189, 54, 208, 206, 148, 19, 92, 210, 241, 64, 70, 131, 56, 102,
   221, 253, 48, 191, 6, 139, 98, 179, 37, 226, 152, 34, 136, 145, 16, 126,
   110, 72, 195, 163, 182, 30, 66, 58, 107, 40, 84, 250, 133, 61, 186, 43,
   121, 10, 21, 155, 159, 94, 202, 78, 212, 172, 229, 243, 115, 167, 87, 175,
   88, 168, 80, 244, 234, 214, 116, 79, 174, 233, 213, 231, 230, 173, 232, 44,
   215, 117, 122, 235, 22, 11, 245, 89, 203, 95, 176, 156, 169, 81, 160, 127,
   12, 246, 111, 23, 196, 73, 236, 216, 67, 31, 45, 164, 118, 123, 183, 204,
   187, 62, 90, 251, 96, 177, 134, 59, 82, 161, 108, 170, 85, 41, 157, 151,
   178, 135, 144, 97, 190, 220, 252, 188, 149, 207, 205, 55, 63, 91, 209, 83,
   57, 132, 60, 65, 162, 109, 71, 20, 42, 158, 93, 86, 242, 211, 171, 68,
   17, 146, 217, 35, 32, 46, 137, 180, 124, 184, 38, 119, 153, 227, 165, 103,
   74, 237, 222, 197, 49, 254, 24, 13, 99, 140, 128, 192, 247, 112, 7]"

lemma powers_step: "map times3 powers_of_3 = rotate1 powers_of_3"
  by (simp add: powers_of_3_def times3_def gf_xtime_def)

lemma logarithms: "map (\<lambda>i. powers_of_3 ! i) logarithms = map of_nat [1..<256]"
proof -
  have "[1..<256] = 1 # [2..<256 :: nat]" by (simp add: upt_conv_Cons numeral_2_eq_2)
  moreover have "map (\<lambda>i. powers_of_3 ! i) logarithms = map of_nat (1 # [2..<256])"
    by (simp add: powers_of_3_def logarithms_def)
  ultimately show ?thesis by simp
qed

lemma rotl_byte:
  fixes b :: byte
  assumes "0 < n" "n < 8"
  shows "word_rotl n b = push_bit n b OR drop_bit (8 - n) b"
proof (rule bit_word_eqI)
  fix m
  assume "m < LENGTH(8)"
  then have m: "m < 8" by simp
  show "bit (word_rotl n b) m = bit (push_bit n b OR drop_bit (8 - n) b) m"
  proof (cases "n \<le> m")
    case True
    then have "(m + 8 - n) mod 8 = m - n" "\<not> 8 + m - n < 8" using m by (simp_all add: mod_if)
    then show ?thesis using True m bit_imp_le_length [of b "8 + m - n"]
      by (auto simp: bit_word_rotl_iff bit_simps)
  next
    case False
    then have "(m + 8 - n) mod 8 = 8 + m - n" using m by simp
    then show ?thesis using False m assms by (auto simp: bit_word_rotl_iff bit_simps)
  qed
qed

definition inverses :: "byte list" where
  "inverses =
  [0x01, 0x8d, 0xf6, 0xcb, 0x52, 0x7b, 0xd1, 0xe8, 0x4f, 0x29, 0xc0, 0xb0, 0xe1, 0xe5, 0xc7, 0x74,
   0xb4, 0xaa, 0x4b, 0x99, 0x2b, 0x60, 0x5f, 0x58, 0x3f, 0xfd, 0xcc, 0xff, 0x40, 0xee, 0xb2, 0x3a,
   0x6e, 0x5a, 0xf1, 0x55, 0x4d, 0xa8, 0xc9, 0xc1, 0x0a, 0x98, 0x15, 0x30, 0x44, 0xa2, 0xc2, 0x2c,
   0x45, 0x92, 0x6c, 0xf3, 0x39, 0x66, 0x42, 0xf2, 0x35, 0x20, 0x6f, 0x77, 0xbb, 0x59, 0x19, 0x1d,
   0xfe, 0x37, 0x67, 0x2d, 0x31, 0xf5, 0x69, 0xa7, 0x64, 0xab, 0x13, 0x54, 0x25, 0xe9, 0x09, 0xed,
   0x5c, 0x05, 0xca, 0x4c, 0x24, 0x87, 0xbf, 0x18, 0x3e, 0x22, 0xf0, 0x51, 0xec, 0x61, 0x17, 0x16,
   0x5e, 0xaf, 0xd3, 0x49, 0xa6, 0x36, 0x43, 0xf4, 0x47, 0x91, 0xdf, 0x33, 0x93, 0x21, 0x3b, 0x79,
   0xb7, 0x97, 0x85, 0x10, 0xb5, 0xba, 0x3c, 0xb6, 0x70, 0xd0, 0x06, 0xa1, 0xfa, 0x81, 0x82, 0x83,
   0x7e, 0x7f, 0x80, 0x96, 0x73, 0xbe, 0x56, 0x9b, 0x9e, 0x95, 0xd9, 0xf7, 0x02, 0xb9, 0xa4, 0xde,
   0x6a, 0x32, 0x6d, 0xd8, 0x8a, 0x84, 0x72, 0x2a, 0x14, 0x9f, 0x88, 0xf9, 0xdc, 0x89, 0x9a, 0xfb,
   0x7c, 0x2e, 0xc3, 0x8f, 0xb8, 0x65, 0x48, 0x26, 0xc8, 0x12, 0x4a, 0xce, 0xe7, 0xd2, 0x62, 0x0c,
   0xe0, 0x1f, 0xef, 0x11, 0x75, 0x78, 0x71, 0xa5, 0x8e, 0x76, 0x3d, 0xbd, 0xbc, 0x86, 0x57, 0x0b,
   0x28, 0x2f, 0xa3, 0xda, 0xd4, 0xe4, 0x0f, 0xa9, 0x27, 0x53, 0x04, 0x1b, 0xfc, 0xac, 0xe6, 0x7a,
   0x07, 0xae, 0x63, 0xc5, 0xdb, 0xe2, 0xea, 0x94, 0x8b, 0xc4, 0xd5, 0x9d, 0xf8, 0x90, 0x6b, 0xb1,
   0x0d, 0xd6, 0xeb, 0xc6, 0x0e, 0xcf, 0xad, 0x08, 0x4e, 0xd7, 0xe3, 0x5d, 0x50, 0x1e, 0xb3, 0x5b,
   0x23, 0x38, 0x34, 0x68, 0x46, 0x03, 0x8c, 0xdd, 0x9c, 0x7d, 0xa0, 0xcd, 0x1a, 0x41, 0x1c]"

lemma inverses: "map (\<lambda>i. powers_of_3 ! ((255 - i) mod 255)) logarithms = inverses"
  by (simp add: powers_of_3_def logarithms_def inverses_def)
lemma length_inverses: "length inverses = 255"
  by (simp add: inverses_def)

lemma inverses_affine: "map aes_affine inverses = tl kSbox"
  by (simp add: inverses_def kSbox_def aes_affine_def rotl_byte)

section \<open>The S-box\<close>

definition power3 :: "nat \<Rightarrow> byte" where
  "power3 i = (times3 ^^ i) 1"

lemma nth_powers: "i < 255 \<Longrightarrow> powers_of_3 ! i = power3 i"
proof (induction i)
  case 0
  then show ?case by (simp add: powers_of_3_def power3_def)
next
  case (Suc i)
  have "length powers_of_3 = 255" by (simp add: powers_of_3_def)
  then have "powers_of_3 ! Suc i = map times3 powers_of_3 ! i"
    unfolding powers_step using Suc.prems by (simp add: nth_rotate1)
  then show ?case using Suc \<open>length powers_of_3 = 255\<close> by (simp add: power3_def)
qed

lemma power3_period: "power3 (255 * k + i) = power3 i"
proof -
  have "power3 255 = times3 (powers_of_3 ! 254)"
    using nth_powers [of 254] funpow.simps(2) [of 254 times3] by (simp add: power3_def)
  then have 1: "(times3 ^^ 255) 1 = 1" by (simp add: power3_def powers_of_3_def times3_def gf_xtime_def)
  have "((times3 ^^ 255) ^^ k) 1 = 1"
  proof (induction k)
    case (Suc k)
    then show ?case using 1 by (simp only: funpow.simps o_apply)
  qed simp
  then have "(times3 ^^ (i + 255 * k)) 1 = (times3 ^^ i) 1"
    by (simp only: funpow_add o_apply funpow_mult)
  then show ?thesis by (simp only: power3_def add.commute)
qed

lemma mult_power3: "gf_mult (power3 i) b = (times3 ^^ i) b"
  by (induction i) (simp_all add: power3_def mult_1 mult_times3)

lemma mult_power3_iterate: "(gf_mult (power3 i) ^^ n) 1 = power3 (i * n)"
proof -
  have "gf_mult (power3 i) = times3 ^^ i" using mult_power3 by (rule ext)
  then show ?thesis by (simp only: funpow_mult power3_def)
qed

lemma gf_inverse_power3:
  assumes "i < 255"
  shows "gf_inverse (power3 i) = powers_of_3 ! ((255 - i) mod 255)"
proof (cases "i = 0")
  case True
  then show ?thesis using nth_powers [of 0] power3_period [of 0 0]
    by (simp add: gf_inverse_def mult_power3_iterate)
next
  case False
  then have "i * 254 = 255 * (i - 1) + (255 - i)" using assms by (cases i) simp_all
  then have "power3 (i * 254) = power3 (255 - i)" by (simp only: power3_period)
  then show ?thesis using nth_powers [of "255 - i"] False assms
    by (simp add: gf_inverse_def mult_power3_iterate)
qed

lemma byte_power3:
  assumes "b \<noteq> 0"
  shows "\<exists>i<255. power3 i = b \<and> logarithms ! (unat b - 1) = i"
proof -
  let ?k = "unat b - 1" let ?i = "logarithms ! ?k"
  have k: "?k < 255" "Suc ?k = unat b" using assms unat_byte_less [of b] unat_gt_0 [of b] by linarith+
  have len: "length logarithms = 255" by (simp add: logarithms_def)
  have "\<forall>i \<in> set logarithms. i < 255" by (simp add: logarithms_def)
  then have "?i < 255" using k(1) len by (metis nth_mem)
  moreover have "powers_of_3 ! ?i = map of_nat [1..<256] ! ?k"
    using k(1) len logarithms nth_map [of ?k logarithms "\<lambda>i. powers_of_3 ! i"] by simp
  moreover have "map of_nat [1..<256] ! ?k = (of_nat (Suc ?k) :: byte)" using k(1) by simp
  moreover have "of_nat (Suc ?k) = b" unfolding k(2) by simp
  ultimately have "power3 ?i = b" "?i < 255" using nth_powers [of ?i] by simp_all
  then show ?thesis by blast
qed

lemma sbox_table_is_aes_sbox: "kSbox ! unat b = aes_sbox b"
proof (cases "b = 0")
  case True
  have "(gf_mult 0 ^^ Suc 253) 1 = 0" unfolding funpow.simps o_apply by (simp only: gf_mult_def mult_digits_0)
  then have "gf_inverse 0 = 0" unfolding gf_inverse_def by (simp only: eval_nat_numeral) simp
  then show ?thesis using True by (simp add: aes_sbox_def aes_affine_def kSbox_def rotl_byte)
next
  case False
  let ?k = "unat b - 1"
  obtain i where i: "i < 255" "power3 i = b" "logarithms ! ?k = i" using byte_power3 [OF False] by blast
  have k: "?k < 255" "Suc ?k = unat b" using False unat_byte_less [of b] unat_gt_0 [of b] by linarith+
  have len: "length logarithms = 255" by (simp add: logarithms_def)
  have "kSbox ! unat b = tl kSbox ! ?k" using k by (simp add: nth_tl length_sbox)
  also have "\<dots> = aes_affine (inverses ! ?k)"
    using k(1) length_inverses by (simp flip: inverses_affine)
  also have "inverses ! ?k = powers_of_3 ! ((255 - i) mod 255)"
    using k(1) len i(3) nth_map [of ?k logarithms] unfolding inverses [symmetric] by simp
  also have "\<dots> = gf_inverse b" using gf_inverse_power3 [OF i(1)] i(2) by simp
  finally show ?thesis by (simp add: aes_sbox_def)
qed

lemma gf_inverse_is_inverse:
  assumes "b \<noteq> 0"
  shows "gf_mult b (gf_inverse b) = 1"
proof -
  obtain i where i: "i < 255" "power3 i = b" using byte_power3 [OF assms] by blast
  have "gf_mult b (gf_inverse b) = (gf_mult (power3 i) ^^ Suc 254) 1"
    by (simp only: gf_inverse_def i(2) funpow.simps o_apply)
  also have "\<dots> = power3 (255 * i + 0)" unfolding mult_power3_iterate by (simp add: mult.commute)
  also have "\<dots> = 1" unfolding power3_period by (simp add: power3_def)
  finally show ?thesis .
qed

end
