(* ===== verification/Aes_Standard.thy ===== *)
theory Aes_Standard
  imports Aes_Field
begin

text \<open>
  AES as it is published (FIPS 197), on lists of bytes and with the field of \<open>Aes_Field\<close>: the key
  expansion, and the cipher on the 16 bytes of a block. Nothing here refers to the tables or the word
  operations of \<open>src/src/lib/plusaes.hpp\<close>, which are shown to compute it.
\<close>

section \<open>The published algorithm\<close>

definition xor_bytes :: "bytes \<Rightarrow> bytes \<Rightarrow> bytes" where
  "xor_bytes xs ys = map2 (XOR) xs ys"

definition aes_rcon :: "nat \<Rightarrow> bytes" where
  "aes_rcon j = [(gf_xtime ^^ (j - 1)) 1, 0, 0, 0]"

text \<open>Word \<open>i\<close> of the expanded key, for a key of \<open>nk\<close> words.\<close>

function aes_key_word :: "bytes \<Rightarrow> nat \<Rightarrow> nat \<Rightarrow> bytes" where
  "aes_key_word key nk i =
     (if nk = 0 \<or> i < nk then [key ! (4 * i), key ! (4 * i + 1), key ! (4 * i + 2), key ! (4 * i + 3)]
      else
        let temp = aes_key_word key nk (i - 1);
            temp = (if i mod nk = 0 then xor_bytes (map aes_sbox (rotate1 temp)) (aes_rcon (i div nk))
                    else if nk > 6 \<and> i mod nk = 4 then map aes_sbox temp
                    else temp)
        in xor_bytes (aes_key_word key nk (i - nk)) temp)"
  by pat_completeness auto
termination
  by (relation "measure (\<lambda>(key, nk, i). i)") auto

declare aes_key_word.simps [simp del]

definition aes_round_key :: "bytes \<Rightarrow> nat \<Rightarrow> nat \<Rightarrow> bytes" where
  "aes_round_key key nk r = concat (map (\<lambda>c. aes_key_word key nk (4 * r + c)) [0..<4])"

text \<open>Byte \<open>4 * c + r\<close> of a block is row \<open>r\<close> of column \<open>c\<close>.\<close>

definition aes_shift_rows :: "bytes \<Rightarrow> bytes" where
  "aes_shift_rows s = map (\<lambda>j. s ! ((j + 4 * (j mod 4)) mod 16)) [0..<16]"

definition aes_mix_columns :: "bytes \<Rightarrow> bytes" where
  "aes_mix_columns s =
     map (\<lambda>j. let x = (\<lambda>k. s ! (4 * (j div 4) + (j + k) mod 4))
              in gf_mult (x 0) 2 XOR gf_mult (x 1) 3 XOR x 2 XOR x 3) [0..<16]"

definition aes_cipher :: "bytes \<Rightarrow> nat \<Rightarrow> bytes \<Rightarrow> bytes" where
  "aes_cipher key nk b =
     (let nr = nk + 6;
          s = xor_bytes b (aes_round_key key nk 0);
          s = fold (\<lambda>r s. xor_bytes (aes_mix_columns (aes_shift_rows (map aes_sbox s)))
                (aes_round_key key nk r)) [1..<nr] s
      in xor_bytes (aes_shift_rows (map aes_sbox s)) (aes_round_key key nk nr))"

section \<open>The key expansion\<close>

lemma bytes_of_word_bytes: "bytes_of_word (word_of_bytes a b c d) = [a, b, c, d]"
  by (simp add: bytes_of_word_def)

lemma bytes_of_word_xor: "bytes_of_word (v XOR w) = xor_bytes (bytes_of_word v) (bytes_of_word w)"
  by (simp add: bytes_of_word_def byte_at_xor xor_bytes_def)

lemma bytes_of_sub_word: "bytes_of_word (sub_word w) = map aes_sbox (bytes_of_word w)"
  by (rule word_of_bytes_exhaust [of w])
    (simp add: sub_word_bytes bytes_of_word_bytes sbox_table_is_aes_sbox)

lemma bytes_of_rot_word: "bytes_of_word (rot_word w) = rotate1 (bytes_of_word w)"
proof -
  have m: "(0xFFFFFF :: u32) = mask 24" "(0xFF :: u32) = mask 8" by (simp_all add: mask_eq_exp_minus_1)
  have "byte_at 0 (rot_word w) = byte_at 1 w" "byte_at 1 (rot_word w) = byte_at 2 w"
    "byte_at 2 (rot_word w) = byte_at 3 w" "byte_at 3 (rot_word w) = byte_at 0 w"
    by (rule bit_word_eqI; auto simp: byte_at_def rot_word_def m bit_simps)+
  then show ?thesis by (simp only: bytes_of_word_def rotate1.simps append.simps)
qed

lemma bytes_of_rcon: "0 < j \<Longrightarrow> j < 11 \<Longrightarrow> bytes_of_word (rcon ! j) = aes_rcon j"
proof -
  assume "0 < j" "j < 11"
  then have "j \<in> set [1, 2, 3, 4, 5, 6, 7, 8, 9, 10]" by (simp only: list.set insert_iff empty_iff) arith
  moreover have "list_all (\<lambda>j. bytes_of_word (rcon ! j) = aes_rcon j) [1, 2, 3, 4, 5, 6, 7, 8, 9, 10]"
    by code_simp
  ultimately show ?thesis by (simp only: list_all_iff)
qed

lemma aes_key_word_step:
  assumes "0 < nk" "nk \<le> i"
  shows "aes_key_word key nk i = xor_bytes (aes_key_word key nk (i - nk))
    (if i mod nk = 0 then xor_bytes (map aes_sbox (rotate1 (aes_key_word key nk (i - 1)))) (aes_rcon (i div nk))
     else if nk > 6 \<and> i mod nk = 4 then map aes_sbox (aes_key_word key nk (i - 1))
     else aes_key_word key nk (i - 1))"
proof -
  have "\<not> (nk = 0 \<or> i < nk)" using assms by simp
  then show ?thesis by (subst aes_key_word.simps) (simp only: if_False Let_def)
qed

lemma schedule_words_published:
  assumes n: "n \<in> {16, 24, 32}"
  shows "i < 4 * (n div 4 + 7) \<Longrightarrow>
    bytes_of_word (schedule_words key n ! i) = aes_key_word key (n div 4) i"
proof (induction i rule: less_induct)
  case (less i)
  let ?nk = "n div 4" and ?w = "schedule_words key n"
  have nk: "?nk \<in> {4, 6, 8}" using n by auto
  show ?case
  proof (cases "i < ?nk")
    case True
    then show ?thesis using schedule_words_recurrence(1) [OF n True, of key]
      by (simp add: aes_key_word.simps [of key ?nk i] word_at_def bytes_of_word_bytes)
  next
    case False
    have len: "i < length ?w" using less.prems n by (auto simp: length_schedule_words round_count_eq)
    have "i - 1 < i" "i - ?nk < i" using False nk by auto
    then have prev: "bytes_of_word (?w ! (i - 1)) = aes_key_word key ?nk (i - 1)"
      "bytes_of_word (?w ! (i - ?nk)) = aes_key_word key ?nk (i - ?nk)"
      using less.IH less.prems by simp_all
    have "0 < i div ?nk" using False nk by (auto simp: div_greater_zero_iff)
    moreover have "i div ?nk < 11" using less.prems nk by auto
    ultimately have rcon: "bytes_of_word (rcon ! (i div ?nk)) = aes_rcon (i div ?nk)" by (rule bytes_of_rcon)
    have "?w ! i = key_word ?nk ?w i"
      using schedule_words_recurrence(2) [OF n _ len] False by simp
    then have "?w ! i = ?w ! (i - ?nk) XOR
        (if i mod ?nk = 0 then sub_word (rot_word (?w ! (i - 1))) XOR rcon ! (i div ?nk)
         else if ?nk > 6 \<and> i mod ?nk = 4 then sub_word (?w ! (i - 1)) else ?w ! (i - 1))"
      unfolding key_word_def by (simp only: xor.commute)
    then have "bytes_of_word (?w ! i) = xor_bytes (aes_key_word key ?nk (i - ?nk))
        (if i mod ?nk = 0 then xor_bytes (map aes_sbox (rotate1 (aes_key_word key ?nk (i - 1)))) (aes_rcon (i div ?nk))
         else if ?nk > 6 \<and> i mod ?nk = 4 then map aes_sbox (aes_key_word key ?nk (i - 1))
         else aes_key_word key ?nk (i - 1))"
      by (simp only: bytes_of_word_xor if_distrib [of bytes_of_word] bytes_of_sub_word bytes_of_rot_word prev rcon)
    also have "\<dots> = aes_key_word key ?nk i"
      using False nk by (intro aes_key_word_step [symmetric]) auto
    finally show ?thesis .
  qed
qed

lemma round_key_published:
  assumes n: "n \<in> {16, 24, 32}" and len: "n \<le> length key" and rk: "expand_key key n = Inr rk"
    and r: "r < length rk"
  shows "copy_state_to_bytes (rk ! r) = aes_round_key key (n div 4) r"
proof -
  have l: "length rk = n div 4 + 7" using expand_key_wf(2) [OF rk] round_count_eq [OF n] by simp
  have "rk ! r = take 4 (drop (4 * r) (schedule_words key n))"
    using expand_key_eq [OF n len] rk r by (simp del: upt_Suc)
  then have "rk ! r ! c = schedule_words key n ! (4 * r + c)" if "c < 4" for c
    using that r l by (simp add: length_schedule_words round_count_eq [OF n])
  then have "bytes_of_word (rk ! r ! c) = aes_key_word key (n div 4) (4 * r + c)" if "c < 4" for c
    using that r l by (simp add: schedule_words_published [OF n])
  moreover have "[0..<4] = [0, 1, 2, 3 :: nat]" by (simp add: upt_rec)
  ultimately show ?thesis by (simp add: copy_state_to_bytes_def aes_round_key_def)
qed

section \<open>The cipher\<close>

lemma gf_mult_2_3: "gf_mult b 2 = mul2 b" "gf_mult b 3 = mul2 b XOR b"
proof -
  have 8: "8 = Suc (Suc (Suc (Suc (Suc (Suc (Suc (Suc 0)))))))" by simp
  have "gf_xtime b = mul2 b" by (simp add: gf_xtime_def mul2_alt)
  then show "gf_mult b 2 = mul2 b" "gf_mult b 3 = mul2 b XOR b"
    unfolding gf_mult_def 8 gf_mult_digits.simps by (simp_all add: xor.commute)
qed

lemma round_steps:
  assumes "wf_state s"
  shows "copy_state_to_bytes (sub_bytes s) = map aes_sbox (copy_state_to_bytes s)"
    "copy_state_to_bytes (shift_rows s) = aes_shift_rows (copy_state_to_bytes s)"
    "copy_state_to_bytes (mix_columns s) = aes_mix_columns (copy_state_to_bytes s)"
    "wf_state k \<Longrightarrow> copy_state_to_bytes (add_round_key k s) = xor_bytes (copy_state_to_bytes s) (copy_state_to_bytes k)"
proof -
  obtain a0 a1 a2 a3 b0 b1 b2 b3 c0 c1 c2 c3 d0 d1 d2 d3 where
    s: "s = [word_of_bytes a0 a1 a2 a3, word_of_bytes b0 b1 b2 b3, word_of_bytes c0 c1 c2 c3, word_of_bytes d0 d1 d2 d3]"
    by (rule wf_state_bytesE [OF assms])
  have l: "[0..<16] = [0, 1, 2, 3, 4, 5, 6, 7, 8, 9, 10, 11, 12, 13, 14, 15 :: nat]" by (simp add: upt_rec)
  note c = copy_state_to_bytes_def bytes_of_word_bytes
  show "copy_state_to_bytes (sub_bytes s) = map aes_sbox (copy_state_to_bytes s)"
    by (simp add: s sub_bytes_4 c sub_word_bytes sbox_table_is_aes_sbox)
  show "copy_state_to_bytes (shift_rows s) = aes_shift_rows (copy_state_to_bytes s)"
    unfolding s shift_rows_bytes aes_shift_rows_def l by (simp add: c)
  show "copy_state_to_bytes (mix_columns s) = aes_mix_columns (copy_state_to_bytes s)"
    unfolding s mix_columns_4 aes_mix_columns_def l
    by (simp add: c mix_column_bytes gf_mult_2_3 ac_simps)
  show "copy_state_to_bytes (add_round_key k s) = xor_bytes (copy_state_to_bytes s) (copy_state_to_bytes k)"
    if "wf_state k"
    using that by (elim wf_state_bytesE) (simp add: s add_round_key_4 c word_of_bytes_xor xor_bytes_def)
qed

lemma encrypt_published:
  assumes n: "n \<in> {16, 24, 32}" and len: "n \<le> length key" and rk: "expand_key key n = Inr rk"
    and b: "length b = 16"
  shows "encrypt_state rk b = aes_cipher key (n div 4) b"
proof -
  let ?key = "\<lambda>r. aes_round_key key (n div 4) r"
  let ?round = "\<lambda>i s. add_round_key (rk ! i) (mix_columns (shift_rows (sub_bytes s)))"
  let ?ref = "\<lambda>r s. xor_bytes (aes_mix_columns (aes_shift_rows (map aes_sbox s))) (?key r)"
  note wf = expand_key_wf(1) [OF rk]
  have l: "length rk = n div 4 + 7" using expand_key_wf(2) [OF rk] round_count_eq [OF n] by simp
  have key: "copy_state_to_bytes (rk ! r) = ?key r" "wf_state (rk ! r)" if "r < length rk" for r
    using round_key_published [OF n len rk that] wf_round_keys_nth [OF wf that] .
  have rounds: "wf_state (fold ?round rs s) \<and> copy_state_to_bytes (fold ?round rs s) = fold ?ref rs (copy_state_to_bytes s)"
    if "wf_state s" "\<forall>r \<in> set rs. r < length rk" for rs s
    using that by (induction rs arbitrary: s) (simp_all add: round_steps key)
  have "last rk = rk ! (n div 4 + 6)" using l by (subst last_conv_nth) (auto simp: add.commute)
  moreover have "wf_state (add_round_key (rk ! 0) (copy_bytes_to_state b))" by simp
  note rounds [OF this, of "[1..<n div 4 + 6]"]
  ultimately show ?thesis using l b key [of 0] key [of "n div 4 + 6"]
    by (simp add: encrypt_state_def aes_cipher_def Let_def round_steps add.commute)
qed

section \<open>Properties\<close>

text \<open>C15: The code computes AES as published. For every key size of the standard the round keys are
  those of the published key expansion, byte for byte, with the S-box as the affine map of the inverse
  in the field, the round constants as powers of 2 in it, and the rotation of the bytes of a word; and
  the encryption of every block is the published cipher.\<close>

theorem aes_is_published:
  assumes "n \<in> {16, 24, 32}" and "n \<le> length key"
  shows "\<exists>rk. expand_key key n = Inr rk \<and> length rk = n div 4 + 7 \<and>
    (\<forall>r < length rk. copy_state_to_bytes (rk ! r) = aes_round_key key (n div 4) r) \<and>
    (\<forall>b. length b = 16 \<longrightarrow> encrypt_state rk b = aes_cipher key (n div 4) b)"
proof -
  obtain rk where rk: "expand_key key n = Inr rk" using assms expand_key_Inr_iff by blast
  then have "length rk = n div 4 + 7" using expand_key_wf(2) round_count_eq [OF assms(1)] by simp
  then show ?thesis
    using rk round_key_published [OF assms rk] encrypt_published [OF assms rk] by blast
qed

lemma aes_is_published_witness:
  "\<exists>rk. expand_key (map of_nat [0..<32]) 32 = Inr rk \<and> length rk = 15 \<and>
     encrypt_state rk (replicate 16 7) = aes_cipher (map of_nat [0..<32]) 8 (replicate 16 7)"
proof -
  have "\<exists>rk. expand_key (map of_nat [0..<32]) 32 = Inr rk \<and> length rk = 32 div 4 + 7 \<and>
    (\<forall>r < length rk. copy_state_to_bytes (rk ! r) = aes_round_key (map of_nat [0..<32]) (32 div 4) r) \<and>
    (\<forall>b. length b = 16 \<longrightarrow> encrypt_state rk b = aes_cipher (map of_nat [0..<32]) (32 div 4) b)"
    by (rule aes_is_published) simp_all
  then show ?thesis by auto
qed

end
