(* ===== verification/Utils.thy ===== *)
theory Utils
  imports Rstring
begin

text \<open>
  The helpers of \<open>src/src/utils.hpp\<close> and the constants of \<open>src/src/common.hpp\<close>: socket
  addresses and the client identifiers made of them, and the derivation of a filter key from
  a password.

  \<open>SockAddr\<close> is the object as it lies in memory on 64-bit Linux: 128 bytes of storage for
  the address, a 32-bit length and 4 bytes of padding. The program declares such an object
  without initialising the storage, and \<open>recvfrom\<close> writes only as many bytes as the address
  has; what is there before is the parameter \<open>stack\<close>.
\<close>

section \<open>Constants\<close>

definition EPOLL_MAX_EVENTS :: nat where
  "EPOLL_MAX_EVENTS = 32"

definition DGRAM_BUFFER_SIZE :: nat where
  "DGRAM_BUFFER_SIZE = 20480"

definition SERVER_ENCRYPT_CONNECTION_TIMEOUT_SECONDS :: nat where
  "SERVER_ENCRYPT_CONNECTION_TIMEOUT_SECONDS = 60"

text \<open>The port is a number between 40000 and 60000 that the random device supplies.\<close>

definition get_tmp_tcp_port_number :: "(nat \<Rightarrow> nat \<Rightarrow> nat) \<Rightarrow> u16" where
  "get_tmp_tcp_port_number uniform = of_nat (uniform 40000 60000)"

section \<open>Socket addresses and client identifiers\<close>

record sock_addr =
  addr_storage :: bytes
  addr_len :: u32
  addr_padding :: bytes

definition sizeof_sockaddr_storage :: nat where
  "sizeof_sockaddr_storage = 128"

definition sizeof_sock_addr :: nat where
  "sizeof_sock_addr = 136"

definition is_sock_addr :: "sock_addr \<Rightarrow> bool" where
  "is_sock_addr a \<longleftrightarrow> length (addr_storage a) = sizeof_sockaddr_storage \<and> length (addr_padding a) = 4"

text \<open>A fresh object: the storage and padding hold whatever the stack held.\<close>

definition fresh_sock_addr :: "bytes \<Rightarrow> sock_addr" where
  "fresh_sock_addr stack =
     \<lparr>addr_storage = take 128 stack, addr_len = of_nat sizeof_sockaddr_storage,
      addr_padding = take 4 (drop 132 stack)\<rparr>"

text \<open>What \<open>recvfrom\<close> does with the address arguments for a peer of the given address.\<close>

definition recvfrom_addr :: "bytes \<Rightarrow> sock_addr \<Rightarrow> sock_addr" where
  "recvfrom_addr peer a =
     a\<lparr>addr_storage := take (length (addr_storage a)) (peer @ drop (length peer) (addr_storage a)),
       addr_len := of_nat (length peer)\<rparr>"

definition makeClientId :: "sock_addr \<Rightarrow> bytes" where
  "makeClientId a = addr_storage a @ le_bytes 4 (ucast (addr_len a)) @ addr_padding a"

definition parseClientId :: "bytes \<Rightarrow> sock_addr result" where
  "parseClientId clientId =
     (if length clientId \<noteq> sizeof_sock_addr
      then Inl (Invalid_argument ''parseClientId, invalid input binary string length.'')
      else Inr \<lparr>addr_storage = take 128 clientId,
                addr_len = ucast (le_value (take 4 (drop 128 clientId))),
                addr_padding = drop 132 clientId\<rparr>)"

text \<open>The address the kernel reads back from an object: its first \<open>len\<close> bytes.\<close>

definition peer_of :: "sock_addr \<Rightarrow> bytes" where
  "peer_of a = take (unat (addr_len a)) (addr_storage a)"

section \<open>Keys from passwords\<close>

text \<open>
  \<open>std::hash\<close> is the parameter \<open>hash\<close>. The template's size argument is \<open>n\<close>; the static
  assertion of the code requires a multiple of the hash size.
\<close>

definition pskToKey :: "(string \<Rightarrow> u64) \<Rightarrow> nat \<Rightarrow> string \<Rightarrow> bytes result" where
  "pskToKey hash n psk =
     (if n mod 8 \<noteq> 0
      then Inl (Logic_error ''pskToKey: result_length MUST be multiply of HashResultSize.'')
      else loopR (\<lambda>k key. write_at key (8 * k) (le_bytes 8 (hash psk))) [0..<n div 8] (replicate n 0))"

section \<open>Lemmas\<close>

lemma length_makeClientId [simp]: "is_sock_addr a \<Longrightarrow> length (makeClientId a) = 136"
  by (simp add: makeClientId_def is_sock_addr_def sizeof_sockaddr_storage_def)

lemma ucast_32_64 [simp]: "(ucast (ucast (w :: u32) :: u64) :: u32) = w"
  by (rule bit_word_eqI) (auto simp: bit_simps)

lemma le_value_le_bytes_4 [simp]: "le_value (le_bytes 4 (ucast (w :: u32))) = ucast w"
  by (rule bit_word_eqI) (auto simp: le_value_le_bytes bit_simps dest: bit_imp_le_length)

lemma parse_make_client_id: "is_sock_addr a \<Longrightarrow> parseClientId (makeClientId a) = Inr a"
  by (simp add: parseClientId_def sizeof_sock_addr_def)
    (simp add: makeClientId_def is_sock_addr_def sizeof_sockaddr_storage_def)

lemma le_bytes_4_ucast: "length bs = 4 \<Longrightarrow> le_bytes 4 (ucast (ucast (le_value bs) :: u32)) = bs"
proof -
  assume bs: "length bs = 4"
  have "take_bit 32 (le_value bs) = le_value bs"
    using le_value_le_bytes [of 4 "le_value bs"] le_bytes_le_value [of bs] bs by simp
  moreover have "(ucast (ucast (w :: u64) :: u32) :: u64) = take_bit 32 w" for w
    by (rule bit_word_eqI) (auto simp: bit_simps dest: bit_imp_le_length)
  ultimately show ?thesis using le_bytes_le_value [of bs] bs by simp
qed

lemma split_136: "take 128 c @ take 4 (drop 128 c) @ drop 132 c = (c :: bytes)"
proof -
  have "drop 132 c = drop 4 (drop 128 c)" by simp
  then show ?thesis by (simp only: append_take_drop_id)
qed

lemma make_parse_client_id:
  "length c = 136 \<Longrightarrow> \<exists>a. parseClientId c = Inr a \<and> is_sock_addr a \<and> makeClientId a = c"
  using le_bytes_4_ucast [of "take 4 (drop 128 c)"] split_136 [of c]
  by (simp add: parseClientId_def sizeof_sock_addr_def is_sock_addr_def makeClientId_def
      sizeof_sockaddr_storage_def)

lemma pskToKey_eq:
  assumes "n mod 8 = 0"
  shows "pskToKey hash n psk = Inr (concat (replicate (n div 8) (le_bytes 8 (hash psk))))"
proof -
  define h where "h = le_bytes 8 (hash psk)"
  have h: "length h = 8" by (simp add: h_def)
  have len: "length (concat (replicate k h)) = 8 * k" for k by (induction k) (simp_all add: h)
  define g where "g k = concat (replicate k h) @ replicate (n - 8 * k) 0" for k
  have "write_at (g k) (8 * k) h = Inr (g (Suc k))" if "k < n div 8" for k
  proof -
    have k: "8 * k + 8 \<le> n" using that by linarith
    have "concat (replicate (Suc k) h) = concat (replicate k h) @ h"
      by (metis concat_append concat.simps append_Nil2 replicate_Suc replicate_append_same)
    with k len [of k] show ?thesis by (simp add: g_def h del: replicate_Suc)
  qed
  then have "loopR (\<lambda>k key. write_at key (8 * k) h) [0..<n div 8] (g 0) = Inr (g (n div 8))"
    by (intro loopR_upt_exact) simp_all
  with assms show ?thesis by (simp add: pskToKey_def g_def h_def minus_mod_eq_mult_div [symmetric])
qed

lemma recvfrom_is_sock_addr:
  "length stack = 136 \<Longrightarrow> is_sock_addr (recvfrom_addr peer (fresh_sock_addr stack))"
  by (simp add: is_sock_addr_def recvfrom_addr_def fresh_sock_addr_def sizeof_sockaddr_storage_def)

lemma peer_of_recvfrom:
  assumes "length stack = 136" "length peer \<le> 128"
  shows "peer_of (recvfrom_addr peer (fresh_sock_addr stack)) = peer"
  using assms by (simp add: peer_of_def recvfrom_addr_def fresh_sock_addr_def unat_of_nat)

section \<open>Properties\<close>

text \<open>C20: Client identifiers and socket addresses are in bijection: an identifier parses back
  to the address object it was made of, every string of 136 bytes is the identifier of one
  address object, and every other string is rejected.\<close>

theorem client_id_round_trip:
  "(is_sock_addr a \<longrightarrow> length (makeClientId a) = 136 \<and> parseClientId (makeClientId a) = Inr a) \<and>
   (if length c = 136 then \<exists>b. parseClientId c = Inr b \<and> is_sock_addr b \<and> makeClientId b = c
    else parseClientId c = Inl (Invalid_argument
      ''parseClientId, invalid input binary string length.''))"
  using make_parse_client_id [of c]
  by (simp add: parse_make_client_id) (simp add: parseClientId_def sizeof_sock_addr_def)

lemma client_id_round_trip_witness:
  "parseClientId (makeClientId \<lparr>addr_storage = replicate 128 1, addr_len = 16, addr_padding = replicate 4 2\<rparr>) =
     Inr \<lparr>addr_storage = replicate 128 1, addr_len = 16, addr_padding = replicate 4 2\<rparr>"
  using client_id_round_trip
    [of "\<lparr>addr_storage = replicate 128 1, addr_len = 16, addr_padding = replicate 4 2\<rparr>" "[]"]
  by (simp add: is_sock_addr_def sizeof_sockaddr_storage_def)

text \<open>A client identifier depends on memory the program never initialised. For one and the
  same peer address, shorter than the storage, two receptions whose stack contents differ in
  the bytes behind the address give two different identifiers, though the kernel reads the same
  peer address back from both.\<close>

theorem client_id_not_canonical:
  assumes "length stack = 136" "length stack' = 136" "length peer < 128"
    and "take 1 (drop (length peer) stack) \<noteq> take 1 (drop (length peer) stack')"
  defines "a \<equiv> recvfrom_addr peer (fresh_sock_addr stack)"
    and "b \<equiv> recvfrom_addr peer (fresh_sock_addr stack')"
  shows "makeClientId a \<noteq> makeClientId b \<and> peer_of a = peer_of b"
proof
  have nth: "take 1 (drop n s) = [s ! n]" if "n < length s" for n and s :: bytes
    using that by (simp add: take_Suc_conv_app_nth hd_drop_conv_nth take_Suc)
  have "addr_storage a ! length peer = stack ! length peer"
    "addr_storage b ! length peer = stack' ! length peer"
    using assms(1-3) by (simp_all add: a_def b_def recvfrom_addr_def fresh_sock_addr_def nth_append)
  moreover have "stack ! length peer \<noteq> stack' ! length peer"
    using assms(1-4) nth [of "length peer" stack] nth [of "length peer" stack'] by simp
  ultimately have "a \<noteq> b" by metis
  then show "makeClientId a \<noteq> makeClientId b"
    using parse_make_client_id [of a] parse_make_client_id [of b] recvfrom_is_sock_addr assms(1,2)
    by (metis a_def b_def sum.inject(2))
  show "peer_of a = peer_of b"
    using assms(1-3) by (simp add: a_def b_def peer_of_recvfrom)
qed

lemma client_id_not_canonical_witness:
  "makeClientId (recvfrom_addr [2, 0, 80] (fresh_sock_addr (replicate 136 0))) \<noteq>
     makeClientId (recvfrom_addr [2, 0, 80] (fresh_sock_addr (replicate 136 1))) \<and>
   peer_of (recvfrom_addr [2, 0, 80] (fresh_sock_addr (replicate 136 0))) =
     peer_of (recvfrom_addr [2, 0, 80] (fresh_sock_addr (replicate 136 1)))"
  by (rule client_id_not_canonical) (simp_all add: drop_replicate)

text \<open>The key derived from a password is one hash value repeated: a key of \<open>8 k\<close> bytes
  takes at most as many values as the 64-bit hash, and two passwords with the same hash are
  interchangeable.\<close>

theorem pskToKey_repeats_hash:
  assumes "n mod 8 = 0"
  shows "pskToKey hash n psk = Inr (concat (replicate (n div 8) (le_bytes 8 (hash psk)))) \<and>
    (0 < n \<longrightarrow> (pskToKey hash n psk = pskToKey hash n psk' \<longleftrightarrow> hash psk = hash psk'))"
proof -
  have "hash psk = hash psk'"
    if n: "0 < n" and eq: "concat (replicate (n div 8) (le_bytes 8 (hash psk))) =
      concat (replicate (n div 8) (le_bytes 8 (hash psk')))"
  proof -
    have "0 < n div 8" using n assms by presburger
    then obtain m where m: "n div 8 = Suc m" using gr0_implies_Suc by blast
    from eq have "le_bytes 8 (hash psk) = le_bytes 8 (hash psk')"
      by (simp add: m)
    then show ?thesis by simp
  qed
  then show ?thesis using assms by (auto simp: pskToKey_eq)
qed

lemma pskToKey_repeats_hash_witness:
  "pskToKey (\<lambda>s. of_nat (length s)) 32 ''abc'' =
     Inr (concat (replicate 4 (le_bytes 8 (of_nat (length ''abc'')))))"
  using pskToKey_repeats_hash [of 32 "\<lambda>s. of_nat (length s)" "''abc''"] by simp

end
