(* ===== verification/Filters.thy ===== *)
theory Filters
  imports Aes_Modes_Correct Utils
begin

text \<open>
  The datagram filters of \<open>src/src/filters/\<close> and the factory that builds one from its
  configuration (\<open>CreateFilterFromConfig\<close> in \<open>src/src/forwarder.hpp\<close>).

  The class hierarchy is one datatype; the virtual calls \<open>convertForward\<close> and
  \<open>convertBackward\<close> are functions by cases on it. A datagram is a byte list, and a conversion
  fails with \<open>Undefined_behaviour\<close> where the code reads outside a buffer.
\<close>

unbundle bit_operations_syntax

datatype filter =
    AESFilter (aes_key: bytes)
  | XorFilter (xor_key: bytes)
  | ReversedFilter filter
  | ChainedFilters "filter list"

section \<open>The AES filter\<close>

definition aes_iv :: bytes where
  "aes_iv = [0x00, 0x01, 0x02, 0x03, 0x04, 0x05, 0x06, 0x07,
             0x08, 0x09, 0x0A, 0x0B, 0x0C, 0x0D, 0x0E, 0x0F]"

definition aes_loadConfig :: "(string \<Rightarrow> u64) \<Rightarrow> string \<Rightarrow> filter result" where
  "aes_loadConfig hash config =
     bindR (split CHR ''@'' config) (\<lambda>ar.
       if length ar \<noteq> 2
       then Inl (Invalid_argument
              ''Wrong parameter string for filter 'aes'. Example: aes@MyPassword'')
       else bindR (pskToKey hash 16 (ar ! 1)) (\<lambda>tmpKey.
         bindR (write_at (replicate 17 0) 0 tmpKey) (\<lambda>aesKey.
           Inr (AESFilter (key_from_string aesKey)))))"

definition aes_convertForward :: "bytes \<Rightarrow> bytes \<Rightarrow> bytes result" where
  "aes_convertForward key datagram =
     (let n = of_nat (length datagram);
          result = replicate (unat (get_padded_encrypted_size n)) 0
      in bindR (encrypt_cbc datagram n key (of_nat (length key)) (Some aes_iv)
                  result (of_nat (length result)) True)
           (\<lambda>(err, result). Inr result))"

definition aes_convertBackward :: "bytes \<Rightarrow> bytes \<Rightarrow> bytes result" where
  "aes_convertBackward key datagram =
     (let n = of_nat (length datagram); result = replicate (length datagram) 0
      in bindR (decrypt_cbc datagram n key (of_nat (length key)) (Some aes_iv)
                  result (of_nat (length result)) (Some 0))
           (\<lambda>(err, result, padded_size). substr result 0 (unat (n - the padded_size))))"

section \<open>The XOR filter\<close>

text \<open>
  \<open>operator[]\<close> of a string: the terminating zero may be read, anything behind it may not.
\<close>

definition string_at :: "bytes \<Rightarrow> nat \<Rightarrow> byte result" where
  "string_at s i =
     (if i < length s then Inr (s ! i)
      else if i = length s then Inr 0
      else Inl (Undefined_behaviour ''string index past the end''))"

definition xor_loadConfig :: "(string \<Rightarrow> u64) \<Rightarrow> string \<Rightarrow> filter result" where
  "xor_loadConfig hash config =
     bindR (split CHR ''@'' config) (\<lambda>ar.
       if length ar \<noteq> 2
       then Inl (Invalid_argument
              ''Wrong parameter string for protocol 'plain'. Example:    XOR@MyPassword'')
       else bindR (pskToKey hash 32 (ar ! 1)) (\<lambda>key. Inr (XorFilter key)))"

definition xor_step :: "bytes \<Rightarrow> nat \<Rightarrow> bytes \<times> nat \<Rightarrow> (bytes \<times> nat) result" where
  "xor_step key offset = (\<lambda>(datagram, curr_key_digit).
     bindR (string_at key curr_key_digit) (\<lambda>k.
       Inr (datagram[offset := datagram ! offset XOR k], curr_key_digit + 1)))"

definition xor_convertForward :: "bytes \<Rightarrow> bytes \<Rightarrow> bytes result" where
  "xor_convertForward key datagram =
     bindR (loopR (xor_step key) [0..<length datagram] (datagram, 0)) (\<lambda>(datagram, _). Inr datagram)"

definition xor_convertBackward :: "bytes \<Rightarrow> bytes \<Rightarrow> bytes result" where
  "xor_convertBackward key datagram = xor_convertForward key datagram"

section \<open>Dispatch, reversal and chains\<close>

fun convertForward :: "filter \<Rightarrow> bytes \<Rightarrow> bytes result"
  and convertBackward :: "filter \<Rightarrow> bytes \<Rightarrow> bytes result" where
  "convertForward (AESFilter key) d = aes_convertForward key d"
| "convertForward (XorFilter key) d = xor_convertForward key d"
| "convertForward (ReversedFilter real) d = convertBackward real d"
| "convertForward (ChainedFilters fs) d = loopR (\<lambda>f d. convertForward f d) fs d"
| "convertBackward (AESFilter key) d = aes_convertBackward key d"
| "convertBackward (XorFilter key) d = xor_convertBackward key d"
| "convertBackward (ReversedFilter real) d = convertForward real d"
| "convertBackward (ChainedFilters fs) d = loopR (\<lambda>f d. convertBackward f d) (rev fs) d"

text \<open>The base class's \<open>loadConfig\<close> does nothing.\<close>

fun loadConfig :: "(string \<Rightarrow> u64) \<Rightarrow> filter \<Rightarrow> string \<Rightarrow> filter result" where
  "loadConfig hash (AESFilter _) config = aes_loadConfig hash config"
| "loadConfig hash (XorFilter _) config = xor_loadConfig hash config"
| "loadConfig hash (ReversedFilter f) config = Inr (ReversedFilter f)"
| "loadConfig hash (ChainedFilters fs) config = Inr (ChainedFilters fs)"

function CreateFilterFromConfig :: "(string \<Rightarrow> u64) \<Rightarrow> string \<Rightarrow> filter result" where
  "CreateFilterFromConfig hash filterConfig =
     bindR
       (if starts_with filterConfig ''aes@'' then Inr (AESFilter [])
        else if starts_with filterConfig ''xor@'' then Inr (XorFilter [])
        else if starts_with filterConfig ''reverse@'' then
          bindR (substr_from filterConfig 8) (\<lambda>newFilterConfig.
            bindR (CreateFilterFromConfig hash newFilterConfig) (\<lambda>f. Inr (ReversedFilter f)))
        else Inl (Invalid_argument (''Unknown filter in filterConfig item: '' @ filterConfig)))
       (\<lambda>newFilter. loadConfig hash newFilter filterConfig)"
  by pat_completeness auto
termination
  by (relation "measure (\<lambda>(hash, config). length config)")
    (auto simp: substr_from_def substr_def starts_with_prefix prefix_def split: if_splits)

declare CreateFilterFromConfig.simps [simp del]

section \<open>The interface of a datagram codec\<close>

text \<open>
  What a protocol relies on: on the datagrams it accepts, a filter's forward conversion
  succeeds and its backward conversion undoes it.
\<close>

locale datagram_codec =
  fixes enc :: "bytes \<Rightarrow> bytes result" and dec :: "bytes \<Rightarrow> bytes result"
    and ok :: "bytes \<Rightarrow> bool"
  assumes dec_enc: "ok d \<Longrightarrow> \<exists>c. enc d = Inr c \<and> dec c = Inr d"
begin

lemma enc_total: "ok d \<Longrightarrow> \<exists>c. enc d = Inr c"
  using dec_enc by blast

lemma dec_of_enc: "ok d \<Longrightarrow> enc d = Inr c \<Longrightarrow> dec c = Inr d"
  using dec_enc [of d] by auto

lemma enc_inject: "ok d \<Longrightarrow> ok d' \<Longrightarrow> enc d = enc d' \<Longrightarrow> d = d'"
  using dec_enc [of d] dec_enc [of d'] by auto

end

lemma word_of_nat_unat_id: "of_nat (unat w) = (w :: 'a::len word)"
  by simp

section \<open>The AES filter round trip\<close>

lemma of_nat_key_size: "n \<in> {16, 24, 32} \<Longrightarrow> (of_nat n :: u64) \<in> {16, 24, 32}"
  by auto

lemma aes_filter_round_trip:
  assumes key: "length key \<in> {16, 24, 32}" and d: "length d < 2 ^ 64 - 16"
  shows "\<exists>c. length c = 16 * (length d div 16 + 1) \<and>
    aes_convertForward key d = Inr c \<and> aes_convertBackward key c = Inr d"
proof -
  define L where "L = 16 * (length d div 16 + 1)"
  from cbc_buffers_round_trip [OF d key order_refl L_def, of aes_iv 0] obtain c where
    c: "length c = L"
      "encrypt_cbc d (of_nat (length d)) key (of_nat (length key)) (Some aes_iv) (replicate L 0) (of_nat L) True =
        Inr (kErrorOk, c)"
      "decrypt_cbc c (of_nat L) key (of_nat (length key)) (Some aes_iv) (replicate L 0) (of_nat L) (Some 0) =
        Inr (kErrorOk, d @ replicate (L - length d) 0, Some (of_nat (L - length d)))"
    by blast
  have L: "unat (get_padded_encrypted_size (of_nat (length d))) = L"
    using get_padded_encrypted_size_unat [OF d] by (simp add: L_def)
  then have L': "get_padded_encrypted_size (of_nat (length d)) = of_nat L"
    by (metis word_of_nat_unat_id)
  have dL: "length d \<le> L" "L - length d \<le> 16" unfolding L_def by (simp_all, linarith?)
  have "(of_nat L :: u64) - of_nat (L - length d) = of_nat (length d)"
    using dL by (simp add: of_nat_diff)
  then have "unat ((of_nat L :: u64) - of_nat (L - length d)) = length d"
    using d by (simp add: unat_of_nat)
  with c L L' show ?thesis
    unfolding L_def [symmetric]
    by (intro exI [of _ c]) (simp add: aes_convertForward_def aes_convertBackward_def Let_def)
qed

lemma aes_backward_wrong_size:
  assumes "length d < 2 ^ 64" "length d mod 16 \<noteq> 0"
  shows "aes_convertBackward key d = Inr (replicate (length d) 0)"
proof -
  have "(of_nat (length d) mod 16 :: u64) \<noteq> 0"
    using assms by (simp add: word_unat_eq_iff of_nat_u64_arith)
  with assms show ?thesis
    by (simp add: aes_convertBackward_def decrypt_cbc_def check_decrypt_cond_def unat_of_nat)
qed

section \<open>The XOR filter\<close>

definition xor_with :: "bytes \<Rightarrow> bytes \<Rightarrow> bytes" where
  "xor_with key d = map (\<lambda>i. d ! i XOR (key @ [0]) ! i) [0..<length d]"

definition xor_partial :: "bytes \<Rightarrow> bytes \<Rightarrow> nat \<Rightarrow> bytes \<times> nat" where
  "xor_partial key d i = (map (\<lambda>i. d ! i XOR (key @ [0]) ! i) [0..<i] @ drop i d, i)"

lemma xor_step_partial:
  assumes "i < length d" "i \<le> length key"
  shows "xor_step key i (xor_partial key d i) = Inr (xor_partial key d (Suc i))"
proof -
  have "string_at key i = Inr ((key @ [0]) ! i)"
    using assms(2) by (simp add: string_at_def nth_append)
  moreover have "drop i d = d ! i # drop (Suc i) d" using assms(1) by (simp add: Cons_nth_drop_Suc)
  ultimately show ?thesis
    using assms by (simp add: xor_step_def xor_partial_def list_update_append nth_append)
qed

lemma xor_loop_partial:
  assumes "n \<le> length d" "n \<le> length key + 1"
  shows "loopR (xor_step key) [0..<n] (d, 0) = Inr (xor_partial key d n)"
proof -
  have "loopR (xor_step key) [0..<n] (xor_partial key d 0) = Inr (xor_partial key d n)"
    using assms by (intro loopR_upt_exact xor_step_partial) auto
  then show ?thesis by (simp add: xor_partial_def)
qed

lemma xor_forward_short:
  "length d \<le> length key + 1 \<Longrightarrow> xor_convertForward key d = Inr (xor_with key d)"
  by (simp add: xor_convertForward_def xor_loop_partial) (simp add: xor_partial_def xor_with_def)

lemma xor_forward_long:
  assumes "length key + 1 < length d"
  shows "xor_convertForward key d = Inl (Undefined_behaviour ''string index past the end'')"
proof -
  let ?n = "length key + 1"
  have "[0..<length d] = [0..<?n] @ ?n # [Suc ?n..<length d]"
  proof -
    obtain k where k: "length d = ?n + Suc k" using assms less_iff_Suc_add by force
    have "[0..<?n + Suc k] = [0..<?n] @ [?n..<?n + Suc k]" by (rule upt_add_eq_append) simp
    also have "[?n..<?n + Suc k] = ?n # [Suc ?n..<?n + Suc k]" by (rule upt_conv_Cons) simp
    finally show ?thesis by (simp only: k)
  qed
  moreover have "loopR (xor_step key) [0..<?n] (d, 0) = Inr (xor_partial key d ?n)"
    using assms by (intro xor_loop_partial) simp_all
  moreover have "xor_step key ?n (xor_partial key d ?n) =
      Inl (Undefined_behaviour ''string index past the end'')"
    by (simp add: xor_step_def xor_partial_def string_at_def)
  ultimately show ?thesis
    by (simp add: xor_convertForward_def loopR_append del: upt_Suc)
qed

lemma length_xor_with [simp]: "length (xor_with key d) = length d"
  by (simp add: xor_with_def)

lemma xor_with_involution: "xor_with key (xor_with key d) = d"
  by (rule nth_equalityI) (simp_all add: xor_with_def)

section \<open>Chains\<close>

fun accepts :: "filter \<Rightarrow> bytes \<Rightarrow> bool"
  and accepts_chain :: "filter list \<Rightarrow> bytes \<Rightarrow> bool" where
  "accepts (AESFilter key) d \<longleftrightarrow> length key \<in> {16, 24, 32} \<and> length d < 2 ^ 64 - 16"
| "accepts (XorFilter key) d \<longleftrightarrow> length d \<le> length key + 1"
| "accepts (ReversedFilter f) d \<longleftrightarrow>
     (case convertBackward f d of Inl e \<Rightarrow> False | Inr c \<Rightarrow> convertForward f c = Inr d)"
| "accepts (ChainedFilters fs) d \<longleftrightarrow> accepts_chain fs d"
| "accepts_chain [] d \<longleftrightarrow> True"
| "accepts_chain (f # fs) d \<longleftrightarrow> accepts f d \<and>
     (case convertForward f d of Inl e \<Rightarrow> False | Inr c \<Rightarrow> accepts_chain fs c)"

interpretation aes_codec: datagram_codec
  "convertForward (AESFilter key)" "convertBackward (AESFilter key)" "accepts (AESFilter key)"
  by unfold_locales (use aes_filter_round_trip in auto)

interpretation xor_codec: datagram_codec
  "convertForward (XorFilter key)" "convertBackward (XorFilter key)" "accepts (XorFilter key)"
  by unfold_locales (simp add: xor_forward_short xor_convertBackward_def xor_with_involution)

lemma accepts_round_trip:
  "accepts f d \<Longrightarrow> \<exists>c. convertForward f d = Inr c \<and> convertBackward f c = Inr d"
  "accepts_chain fs d \<Longrightarrow>
     \<exists>c. loopR (\<lambda>f d. convertForward f d) fs d = Inr c \<and>
       loopR (\<lambda>f d. convertBackward f d) (rev fs) c = Inr d"
proof (induction f d and fs d rule: accepts_accepts_chain.induct)
  case (1 key d)
  then show ?case by (rule aes_codec.dec_enc)
next
  case (2 key d)
  then show ?case by (rule xor_codec.dec_enc)
next
  case (6 f fs d)
  then show ?case by (fastforce simp: result_laws split: sum.splits)
qed (auto split: sum.splits)

interpretation filter_codec: datagram_codec "convertForward f" "convertBackward f" "accepts f"
  by unfold_locales (rule accepts_round_trip(1))

text \<open>The chain the other end of the tunnel runs: every filter reversed, in reverse order.\<close>

definition mirror :: "filter list \<Rightarrow> filter list" where
  "mirror fs = map ReversedFilter (rev fs)"

lemma mirror_converts:
  "convertForward (ChainedFilters (mirror fs)) d = convertBackward (ChainedFilters fs) d"
  "convertBackward (ChainedFilters (mirror fs)) d = convertForward (ChainedFilters fs) d"
proof -
  have "(\<lambda>x. convertForward (ReversedFilter x)) = convertBackward"
    "(\<lambda>x. convertBackward (ReversedFilter x)) = convertForward"
    by (simp_all add: fun_eq_iff)
  then show "convertForward (ChainedFilters (mirror fs)) d = convertBackward (ChainedFilters fs) d"
    "convertBackward (ChainedFilters (mirror fs)) d = convertForward (ChainedFilters fs) d"
    by (simp_all add: mirror_def result_laws rev_map)
qed

section \<open>Configurations\<close>

lemma split_prefix:
  "CHR ''@'' \<notin> set name \<Longrightarrow> split CHR ''@'' (name @ CHR ''@'' # r) = Inr (name # pieces CHR ''@'' r)"
  by (simp add: split_eq pieces_append)

lemma aes_key_from_hash:
  assumes "CHR ''@'' \<notin> set psk"
  shows "CreateFilterFromConfig hash (''aes@'' @ psk) =
    Inr (AESFilter (le_bytes 8 (hash psk) @ le_bytes 8 (hash psk)))"
  using split_prefix [of "''aes''" psk] assms
  by (simp add: CreateFilterFromConfig.simps starts_with_prefix aes_loadConfig_def pieces_none pskToKey_eq
      key_from_string_def numeral_2_eq_2)

lemma xor_key_from_hash:
  assumes "CHR ''@'' \<notin> set psk"
  shows "CreateFilterFromConfig hash (''xor@'' @ psk) =
    Inr (XorFilter (concat (replicate 4 (le_bytes 8 (hash psk)))))"
  using split_prefix [of "''xor''" psk] assms
  by (simp add: CreateFilterFromConfig.simps starts_with_prefix xor_loadConfig_def pieces_none pskToKey_eq)

lemma reversed_filter_config:
  "CreateFilterFromConfig hash (''reverse@'' @ config) =
     bindR (CreateFilterFromConfig hash config) (\<lambda>f. Inr (ReversedFilter f))"
  by (simp add: CreateFilterFromConfig.simps [of hash "CHR ''r'' # _"] starts_with_prefix bindR_assoc)

lemma mirrored_configs:
  "mapR (CreateFilterFromConfig hash) configs = Inr fs \<Longrightarrow>
     mapR (CreateFilterFromConfig hash) (map (\<lambda>c. ''reverse@'' @ c) (rev configs)) = Inr (mirror fs)"
proof (induction configs arbitrary: fs)
  case (Cons c configs)
  then show ?case
    by (auto simp: bindR_eq_Inr_iff result_laws mirror_def reversed_filter_config simp del: append_Cons)
qed (simp add: mirror_def)

section \<open>The lengths of converted datagrams\<close>

lemma loopR_preserves:
  assumes "loopR f is s = Inr s'" "P s" "\<And>i u v. f i u = Inr v \<Longrightarrow> P u \<Longrightarrow> P v"
  shows "P s'"
  using assms by (induction "is" arbitrary: s) (auto simp: bindR_eq_Inr_iff)

lemma encrypt_cbc_length:
  assumes "encrypt_cbc data n key ks iv buf m pads = Inr (e, buf')"
  shows "length buf' = length buf"
  using assms
  by (auto simp: encrypt_cbc_def Let_def bindR_eq_Inr_iff dest!: write_at_length split: if_splits
      elim!: loopR_preserves [where P = "\<lambda>u. length u = length buf"])

lemma xor_data_at_length: "xor_data_at buf off v = Inr buf' \<Longrightarrow> length buf' = length buf"
  by (auto simp: xor_data_at_def bindR_eq_Inr_iff dest: write_at_length)

lemma finish_decrypt_length:
  "finish_decrypt blk bc m ps buf = Inr (e, buf', ps') \<Longrightarrow> length buf' = length buf"
  by (auto simp: finish_decrypt_def Let_def bindR_eq_Inr_iff dest!: write_at_length split: if_splits option.splits)

lemma decrypt_cbc_length:
  assumes "decrypt_cbc data n key ks iv buf m ps = Inr (e, buf', ps')"
  shows "length buf' = length buf"
  using assms
  by (auto simp: decrypt_cbc_def Let_def bindR_eq_Inr_iff dest!: write_at_length xor_data_at_length
      finish_decrypt_length split: if_splits option.splits
      elim!: loopR_preserves [where P = "\<lambda>u. length u = length buf"])

lemma aes_backward_length: "aes_convertBackward key d = Inr c \<Longrightarrow> length c \<le> length d"
  by (auto simp: aes_convertBackward_def Let_def bindR_eq_Inr_iff substr_def dest!: decrypt_cbc_length)

lemma aes_forward_length:
  assumes "aes_convertForward key d = Inr c" "length d < 2 ^ 64 - 16"
  shows "length c \<le> length d + 16"
proof -
  have "length c = unat (get_padded_encrypted_size (of_nat (length d)))"
    using assms(1) by (auto simp: aes_convertForward_def Let_def bindR_eq_Inr_iff dest!: encrypt_cbc_length)
  also have "\<dots> \<le> length d + 16"
    using get_padded_encrypted_size_unat [OF assms(2)] by simp
  finally show ?thesis .
qed

lemma xor_forward_length: "xor_convertForward key d = Inr c \<Longrightarrow> length c = length d"
  using xor_forward_short [of d key] xor_forward_long [of key d] by (cases "length d \<le> length key + 1") auto

text \<open>The number of filters in a filter: each can add at most one block of padding.\<close>

fun stages :: "filter \<Rightarrow> nat" where
  "stages (AESFilter key) = 1"
| "stages (XorFilter key) = 1"
| "stages (ReversedFilter real) = stages real"
| "stages (ChainedFilters fs) = sum_list (map stages fs)"

lemma loopR_grows:
  assumes "\<And>f u v. f \<in> set fs \<Longrightarrow> g f u = Inr v \<Longrightarrow> length u + 16 * stages f < 2 ^ 64 \<Longrightarrow>
      length v \<le> length u + 16 * stages f"
  shows "loopR g fs d = Inr c \<Longrightarrow> length d + 16 * sum_list (map stages fs) < 2 ^ 64 \<Longrightarrow>
      length c \<le> length d + 16 * sum_list (map stages fs)"
  using assms
proof (induction fs arbitrary: d)
  case (Cons f fs)
  then obtain v where v: "g f d = Inr v" "loopR g fs v = Inr c" by (auto simp: bindR_eq_Inr_iff)
  have "length v \<le> length d + 16 * stages f" using Cons.prems(2,3) v(1) by simp
  moreover have "length c \<le> length v + 16 * sum_list (map stages fs)"
    using Cons.IH [OF v(2)] Cons.prems(2,3) calculation by simp
  ultimately show ?case by simp
qed simp

lemma conversion_length:
  "convertForward f d = Inr c \<Longrightarrow> length d + 16 * stages f < 2 ^ 64 \<Longrightarrow> length c \<le> length d + 16 * stages f"
  "convertBackward f d = Inr c \<Longrightarrow> length d + 16 * stages f < 2 ^ 64 \<Longrightarrow> length c \<le> length d + 16 * stages f"
proof (induction f arbitrary: d c)
  case (AESFilter key)
  {
    case 1
    then show ?case using aes_forward_length by simp
  next
    case 2
    then show ?case using aes_backward_length [of key d c] by simp
  }
next
  case (XorFilter key)
  {
    case 1
    then show ?case using xor_forward_length [of key d c] by simp
  next
    case 2
    then show ?case using xor_forward_length [of key d c] by (simp add: xor_convertBackward_def)
  }
next
  case (ChainedFilters fs)
  {
    case 1
    then show ?case using loopR_grows [of fs convertForward d c] ChainedFilters by simp
  next
    case 2
    then show ?case using loopR_grows [of "rev fs" convertBackward d c] ChainedFilters
      by (simp add: rev_map [symmetric])
  }
qed auto

section \<open>Properties\<close>

text \<open>C13: Every filter undoes its own conversion: whatever it is built of, on each datagram it
  accepts the forward conversion returns and the backward conversion of the result is the
  datagram. An AES filter accepts every datagram, an XOR filter those that its key covers, a
  reversed filter those that its real filter's backward conversion takes and its forward conversion
  restores (there the claim is its own condition), a chain those that every stage accepts.\<close>

theorem filter_round_trip:
  assumes "accepts f d"
  shows "\<exists>c. convertForward f d = Inr c \<and> convertBackward f c = Inr d"
  using assms by (rule filter_codec.dec_enc)

lemma filter_round_trip_witness:
  "\<exists>c. convertForward (ChainedFilters [XorFilter [7, 8], AESFilter (replicate 16 1)]) [1, 2, 3] = Inr c \<and>
     convertBackward (ChainedFilters [XorFilter [7, 8], AESFilter (replicate 16 1)]) c = Inr [1, 2, 3]"
proof (rule filter_round_trip)
  obtain c where "convertForward (AESFilter (replicate 16 1)) (xor_with [7, 8] [1, 2, 3]) = Inr c"
    using aes_codec.enc_total [of "replicate 16 1" "xor_with [7, 8] [1, 2, 3]"] by auto
  then show "accepts (ChainedFilters [XorFilter [7, 8], AESFilter (replicate 16 1)]) [1, 2, 3]"
    by (simp add: xor_forward_short)
qed



text \<open>C18: The XOR filter never wraps its key index: on a datagram at most one byte longer than
  the key it xors every byte with the key, the extra byte with the terminating zero, and is its
  own inverse; on every longer datagram it reads behind the key string, which is undefined.\<close>

theorem xor_filter_key_limit:
  "if length d \<le> length key + 1
   then xor_convertForward key d = Inr (map (\<lambda>i. d ! i XOR (key @ [0]) ! i) [0..<length d]) \<and>
     bindR (xor_convertForward key d) (xor_convertBackward key) = Inr d
   else xor_convertForward key d = Inl (Undefined_behaviour ''string index past the end'')"
  by (simp add: xor_forward_short xor_forward_long xor_convertBackward_def xor_with_involution
      xor_with_def [symmetric])

text \<open>C19: The AES filter ignores the error codes of the cipher: a received datagram whose size
  is not a multiple of the block size is not dropped but turned into as many zero bytes.\<close>

theorem aes_filter_ignores_errors:
  assumes "length d < 2 ^ 64" "length d mod 16 \<noteq> 0"
  shows "convertBackward (AESFilter key) d = Inr (replicate (length d) 0)"
  using assms by (simp add: aes_backward_wrong_size)

lemma aes_filter_ignores_errors_witness:
  "convertBackward (AESFilter (replicate 16 1)) [1, 2, 3] = Inr (replicate (length [1, 2, 3 :: byte]) 0)"
  by (rule aes_filter_ignores_errors) simp_all

text \<open>The filter options: a password without the separator gives an AES filter with a
  16-byte key or an XOR filter with a 32-byte key, both repetitions of the password's hash; the
  prefix \<open>reverse@\<close> reverses the filter of the remaining option, an invalid remainder being
  an error of the whole; any other option is rejected.\<close>

theorem create_filter_from_config:
  "CreateFilterFromConfig hash (''reverse@'' @ config) =
     bindR (CreateFilterFromConfig hash config) (\<lambda>f. Inr (ReversedFilter f)) \<and>
   (if CHR ''@'' \<in> set psk
    then (\<exists>m. CreateFilterFromConfig hash (''aes@'' @ psk) = Inl (Invalid_argument m)) \<and>
      (\<exists>m. CreateFilterFromConfig hash (''xor@'' @ psk) = Inl (Invalid_argument m))
    else (let h = le_bytes 8 (hash psk) in
      CreateFilterFromConfig hash (''aes@'' @ psk) = Inr (AESFilter (h @ h)) \<and>
      CreateFilterFromConfig hash (''xor@'' @ psk) = Inr (XorFilter (h @ h @ h @ h)))) \<and>
   (if prefix ''aes@'' other \<or> prefix ''xor@'' other \<or> prefix ''reverse@'' other then True
    else CreateFilterFromConfig hash other =
      Inl (Invalid_argument (''Unknown filter in filterConfig item: '' @ other)))"
proof -
  have "length (pieces CHR ''@'' psk) \<noteq> 1" if "CHR ''@'' \<in> set psk"
    using that by (simp add: length_pieces count_list_0_iff)
  then have "CHR ''@'' \<in> set psk \<Longrightarrow> \<exists>m. CreateFilterFromConfig hash (''aes@'' @ psk) = Inl (Invalid_argument m)"
    "CHR ''@'' \<in> set psk \<Longrightarrow> \<exists>m. CreateFilterFromConfig hash (''xor@'' @ psk) = Inl (Invalid_argument m)"
    using split_prefix [of "''aes''" psk] split_prefix [of "''xor''" psk]
    by (simp_all add: CreateFilterFromConfig.simps starts_with_prefix aes_loadConfig_def xor_loadConfig_def)
  moreover have "CreateFilterFromConfig hash other =
      Inl (Invalid_argument (''Unknown filter in filterConfig item: '' @ other))"
    if "\<not> (prefix ''aes@'' other \<or> prefix ''xor@'' other \<or> prefix ''reverse@'' other)"
    using that by (simp add: CreateFilterFromConfig.simps [of hash other] starts_with_prefix)
  ultimately show ?thesis
    using aes_key_from_hash [of psk hash] xor_key_from_hash [of psk hash] reversed_filter_config
    by (simp add: Let_def numeral_eq_Suc)
qed

end
