(* ===== verification/Conn_Map.thy ===== *)
theory Conn_Map
  imports Prelude
begin

text \<open>
  The connection mapping of \<open>src/src/protocols/plain.hpp\<close>
  (\<open>InjectiveConnectionMapping\<close>): two hash tables, one per direction, that the outbound
  thread keeps inverse to each other. The index operator of a hash table inserts the default
  value of the element type for a missing key; that value is a parameter of the deletions.
\<close>

record ('c, 's) conn_map =
  client2server :: "'c \<Rightarrow> 's option"
  server2client :: "'s \<Rightarrow> 'c option"

definition empty_map :: "('c, 's) conn_map" where
  "empty_map = \<lparr>client2server = (\<lambda>_. None), server2client = (\<lambda>_. None)\<rparr>"

definition add :: "'c \<Rightarrow> 's \<Rightarrow> ('c, 's) conn_map \<Rightarrow> ('c, 's) conn_map" where
  "add clientId serverId m =
     \<lparr>client2server = (client2server m)(clientId \<mapsto> serverId),
      server2client = (server2client m)(serverId \<mapsto> clientId)\<rparr>"

text \<open>\<open>m[k]\<close>: the element and the table after the access.\<close>

definition index_op :: "'v \<Rightarrow> 'k \<Rightarrow> ('k \<Rightarrow> 'v option) \<Rightarrow> 'v \<times> ('k \<Rightarrow> 'v option)" where
  "index_op dflt k m = (case m k of Some v \<Rightarrow> (v, m) | None \<Rightarrow> (dflt, m(k \<mapsto> dflt)))"

definition del_client :: "'s \<Rightarrow> 'c \<Rightarrow> ('c, 's) conn_map \<Rightarrow> ('c, 's) conn_map" where
  "del_client dflt clientId m =
     (let (serverId, c2s) = index_op dflt clientId (client2server m)
      in \<lparr>client2server = c2s(clientId := None),
          server2client = (server2client m)(serverId := None)\<rparr>)"

definition del_server :: "'c \<Rightarrow> 's \<Rightarrow> ('c, 's) conn_map \<Rightarrow> ('c, 's) conn_map" where
  "del_server dflt serverId m =
     (let (clientId, s2c) = index_op dflt serverId (server2client m)
      in \<lparr>client2server = (client2server m)(clientId := None),
          server2client = s2c(serverId := None)\<rparr>)"

section \<open>The invariant\<close>

definition mutual_inverse :: "('c, 's) conn_map \<Rightarrow> bool" where
  "mutual_inverse m \<longleftrightarrow> (\<forall>c s. client2server m c = Some s \<longleftrightarrow> server2client m s = Some c)"

lemma mutual_inverse_empty [simp]: "mutual_inverse empty_map"
  by (simp add: mutual_inverse_def empty_map_def)

lemma del_server_known:
  "server2client m s = Some c \<Longrightarrow>
     client2server (del_server d s m) = (client2server m)(c := None) \<and>
     server2client (del_server d s m) = (server2client m)(s := None)"
  by (simp add: del_server_def index_op_def)

lemma del_client_known:
  "client2server m c = Some s \<Longrightarrow>
     client2server (del_client d c m) = (client2server m)(c := None) \<and>
     server2client (del_client d c m) = (server2client m)(s := None)"
  by (simp add: del_client_def index_op_def)

lemma del_server_unknown:
  "server2client m s = None \<Longrightarrow>
     client2server (del_server d s m) = (client2server m)(d := None) \<and>
     server2client (del_server d s m) = server2client m"
  by (auto simp: del_server_def index_op_def)

lemma del_client_unknown:
  "client2server m c = None \<Longrightarrow>
     client2server (del_client d c m) = client2server m \<and>
     server2client (del_client d c m) = (server2client m)(d := None)"
  by (auto simp: del_client_def index_op_def)

lemma mutual_inverseD:
  "mutual_inverse m \<Longrightarrow> server2client m s = Some c \<longleftrightarrow> client2server m c = Some s"
  by (simp add: mutual_inverse_def)

lemma mutual_inverseI:
  "(\<And>c s. client2server m c = Some s \<longleftrightarrow> server2client m s = Some c) \<Longrightarrow> mutual_inverse m"
  by (simp add: mutual_inverse_def)

lemma mutual_inverse_add:
  assumes "mutual_inverse m" "client2server m c = None" "server2client m s = None"
  shows "mutual_inverse (add c s m)"
proof (rule mutual_inverseI)
  fix c' s'
  show "client2server (add c s m) c' = Some s' \<longleftrightarrow> server2client (add c s m) s' = Some c'"
    using assms(2,3) mutual_inverseD [OF assms(1), of s' c'] mutual_inverseD [OF assms(1), of s c']
    by (auto simp: add_def)
qed

lemma mutual_inverse_del_server:
  assumes "mutual_inverse m" "server2client m s = Some c"
  shows "mutual_inverse (del_server d s m)"
proof (rule mutual_inverseI)
  fix c' s'
  show "client2server (del_server d s m) c' = Some s' \<longleftrightarrow> server2client (del_server d s m) s' = Some c'"
    using assms(2) mutual_inverseD [OF assms(1), of s' c'] mutual_inverseD [OF assms(1), of s c]
    by (auto simp: del_server_known [OF assms(2)])
qed

lemma mutual_inverse_del_client:
  assumes "mutual_inverse m" "client2server m c = Some s"
  shows "mutual_inverse (del_client d c m)"
proof (rule mutual_inverseI)
  fix c' s'
  show "client2server (del_client d c m) c' = Some s' \<longleftrightarrow> server2client (del_client d c m) s' = Some c'"
    using assms(2) mutual_inverseD [OF assms(1), of s' c'] mutual_inverseD [OF assms(1), of s c]
    by (auto simp: del_client_known [OF assms(2)])
qed

lemma option_eqI: "(\<And>x. a = Some x \<longleftrightarrow> b = Some x) \<Longrightarrow> a = b"
  by (cases a; cases b) auto

section \<open>The interface the outbound relies on\<close>

text \<open>
  A connection table looks up the connection of a client and the client of a connection. The
  client lemmas are what the outbound's event handler needs: a reply finds the client whose
  message opened the connection, however the table was used for other clients in between.
\<close>

locale connection_table =
  fixes server_of :: "'t \<Rightarrow> 'c \<Rightarrow> 's option" and client_of :: "'t \<Rightarrow> 's \<Rightarrow> 'c option"
    and insert_conn :: "'c \<Rightarrow> 's \<Rightarrow> 't \<Rightarrow> 't" and close_conn :: "'s \<Rightarrow> 't \<Rightarrow> 't"
    and inv :: "'t \<Rightarrow> bool"
  assumes inverse: "inv t \<Longrightarrow> server_of t c = Some s \<longleftrightarrow> client_of t s = Some c"
    and insert_inv: "inv t \<Longrightarrow> server_of t c = None \<Longrightarrow> client_of t s = None \<Longrightarrow> inv (insert_conn c s t)"
    and insert_lookup: "server_of (insert_conn c s t) = (server_of t)(c \<mapsto> s)"
    and close_inv: "inv t \<Longrightarrow> client_of t s = Some c \<Longrightarrow> inv (close_conn s t)"
    and close_lookup: "inv t \<Longrightarrow> client_of t s = Some c \<Longrightarrow>
      server_of (close_conn s t) = (server_of t)(c := None)"
begin

lemma one_client: "inv t \<Longrightarrow> server_of t c = Some s \<Longrightarrow> server_of t c' = Some s \<Longrightarrow> c = c'"
  using inverse by (metis option.inject)

lemma reply_after_insert:
  assumes "inv t" "server_of t c = None" "client_of t s = None"
  shows "client_of (insert_conn c s t) s = Some c"
  using inverse [OF insert_inv [OF assms], of c s] by (simp add: insert_lookup)

lemma insert_keeps_others:
  assumes "inv t" "server_of t c = None" "client_of t s = None" "s' \<noteq> s"
  shows "client_of (insert_conn c s t) s' = client_of t s'"
proof (rule option_eqI)
  fix c'
  have "client_of (insert_conn c s t) s' = Some c' \<longleftrightarrow> ((server_of t)(c \<mapsto> s)) c' = Some s'"
    using inverse [OF insert_inv [OF assms(1-3)], of c' s'] by (simp add: insert_lookup)
  also have "\<dots> \<longleftrightarrow> server_of t c' = Some s'" using assms(2,4) by auto
  also have "\<dots> \<longleftrightarrow> client_of t s' = Some c'" using inverse [OF assms(1)] .
  finally show "client_of (insert_conn c s t) s' = Some c' \<longleftrightarrow> client_of t s' = Some c'" .
qed

lemma close_forgets:
  assumes "inv t" "client_of t s = Some c"
  shows "client_of (close_conn s t) s = None"
proof (rule option_eqI)
  fix c'
  have "client_of (close_conn s t) s = Some c' \<longleftrightarrow> ((server_of t)(c := None)) c' = Some s"
    using inverse [OF close_inv [OF assms], of c' s] by (simp add: close_lookup [OF assms])
  then show "client_of (close_conn s t) s = Some c' \<longleftrightarrow> None = Some c'"
    using assms inverse [OF assms(1), of c' s] by auto
qed

lemma insert_close:
  assumes "inv t" "server_of t c = None" "client_of t s = None"
  shows "server_of (close_conn s (insert_conn c s t)) = server_of t"
  using assms close_lookup [OF insert_inv reply_after_insert] insert_lookup by auto

end

interpretation injective_map: connection_table client2server server2client add "del_server d" mutual_inverse
proof unfold_locales
  show "mutual_inverse t \<Longrightarrow> (client2server t c = Some s) = (server2client t s = Some c)"
    for t :: "('a, 'b) conn_map" and c s
    by (simp add: mutual_inverse_def)
  show "client2server (add c s t) = (client2server t)(c \<mapsto> s)" for t :: "('a, 'b) conn_map" and c s
    by (simp add: add_def)
qed (simp_all add: mutual_inverse_add mutual_inverse_del_server del_server_known)

section \<open>Properties\<close>

text \<open>The two tables stay inverse to each other: adding an unknown client with an unused
  connection and deleting a known client or connection keep the invariant, the added
  connection answers to its client, and a deleted pair is gone from both tables while every
  other pair stays.\<close>

theorem mapping_invariant:
  assumes "mutual_inverse m" "client2server m c = None" "server2client m s = None"
    and "server2client m s' = Some c'"
  shows "mutual_inverse (add c s m) \<and> client2server (add c s m) = (client2server m)(c \<mapsto> s) \<and>
      server2client (add c s m) s = Some c \<and>
    mutual_inverse (del_server d s' m) \<and> mutual_inverse (del_client d' c' m) \<and>
    client2server (del_server d s' m) = (client2server m)(c' := None) \<and>
    server2client (del_client d' c' m) = (server2client m)(s' := None)"
proof -
  have c': "client2server m c' = Some s'" using assms(4) injective_map.inverse [OF assms(1)] by simp
  show ?thesis
    by (intro conjI injective_map.insert_inv [OF assms(1-3)] injective_map.insert_lookup
        injective_map.reply_after_insert [OF assms(1-3)] injective_map.close_inv [OF assms(1,4)]
        mutual_inverse_del_client [OF assms(1) c'] injective_map.close_lookup [OF assms(1,4)]
        del_client_known [OF c', THEN conjunct2])
qed

lemma mapping_invariant_witness:
  "mutual_inverse (add 1 (11 :: nat) (add (2 :: nat) 12 empty_map)) \<and>
     mutual_inverse (del_server 0 12 (add (2 :: nat) (12 :: nat) empty_map))"
proof -
  let ?m = "add (2 :: nat) (12 :: nat) empty_map"
  have "mutual_inverse ?m" by (rule mutual_inverse_add) (simp_all, simp_all add: empty_map_def)
  moreover have "client2server ?m 1 = None" "server2client ?m 11 = None" "server2client ?m 12 = Some 2"
    by (simp_all add: add_def empty_map_def)
  ultimately show ?thesis using mapping_invariant [of ?m 1 11 12 2] by blast
qed

text \<open>Deleting something the mapping does not contain is not a no-op. The index operator
  invents the default identifier, and the entry of that identifier in the opposite table is
  erased: if the default identifier is in use, the two tables are no longer inverse.\<close>

theorem delete_unknown_breaks_mapping:
  assumes "mutual_inverse m"
  shows "(server2client m s = None \<longrightarrow>
      (mutual_inverse (del_server dc s m) \<longleftrightarrow> client2server m dc = None)) \<and>
    (client2server m c = None \<longrightarrow>
      (mutual_inverse (del_client ds c m) \<longleftrightarrow> server2client m ds = None))"
proof (intro conjI impI)
  note inv = mutual_inverseD [OF assms]
  assume "server2client m s = None"
  note del = del_server_unknown [OF this, of dc]
  show "mutual_inverse (del_server dc s m) \<longleftrightarrow> client2server m dc = None"
  proof
    assume m: "mutual_inverse (del_server dc s m)"
    show "client2server m dc = None"
      using mutual_inverseD [OF m, where c = dc] del inv [where c = dc] by (cases "client2server m dc") auto
  next
    assume "client2server m dc = None"
    then show "mutual_inverse (del_server dc s m)"
      using assms del by (simp add: mutual_inverse_def fun_upd_idem)
  qed
next
  note inv = mutual_inverseD [OF assms]
  assume "client2server m c = None"
  note del = del_client_unknown [OF this, of ds]
  show "mutual_inverse (del_client ds c m) \<longleftrightarrow> server2client m ds = None"
  proof
    assume m: "mutual_inverse (del_client ds c m)"
    show "server2client m ds = None"
      using mutual_inverseD [OF m, where s = ds] del inv [where s = ds] by (cases "server2client m ds") auto
  next
    assume "server2client m ds = None"
    then show "mutual_inverse (del_client ds c m)"
      using assms del by (simp add: mutual_inverse_def fun_upd_idem)
  qed
qed

lemma delete_unknown_breaks_mapping_witness:
  "\<not> mutual_inverse (del_client 0 (7 :: nat) (add (3 :: nat) (0 :: nat) empty_map))"
proof -
  let ?m = "add (3 :: nat) (0 :: nat) empty_map"
  have "mutual_inverse ?m" by (rule mutual_inverse_add) (simp_all, simp_all add: empty_map_def)
  moreover have "client2server ?m 7 = None" "server2client ?m 0 = Some 3"
    by (simp_all add: add_def empty_map_def)
  ultimately show ?thesis using delete_unknown_breaks_mapping [of ?m 5 5 7 0] by simp
qed

end
