(* ===== verification/Plain_Protocol.thy ===== *)
theory Plain_Protocol
  imports Filters Conn_Map Sock_Io
begin

text \<open>
  The plain UDP protocol of \<open>src/src/protocols/plain.hpp\<close>: the inbound listener that talks to
  the clients, the outbound that talks to the next hop over one connected socket per client,
  and the two-way pipe between their threads.

  The world is the state both threads share or own: the frames in transit on the pipe, in
  either direction, the descriptors the outbound has registered with epoll, its connection
  mapping, and what the program has sent so far. Each event handler is one function on the
  world; what the operating system answers during the handler is its argument. \<open>None\<close> means
  that the handler blocks, \<open>Inl\<close> that an exception leaves the thread and ends the program.
\<close>

section \<open>Configuration\<close>

record plain_config =
  plain_addr :: string
  plain_port :: u16

definition wrong_plain_config :: string where
  "wrong_plain_config =
     ''Wrong parameter string for protocol 'plain'. Example:    plain@fe00:1e10:ce95:1@10809''"

definition PlainInbound_loadConfig :: "string \<Rightarrow> plain_config result" where
  "PlainInbound_loadConfig config =
     bindR (split CHR ''@'' config) (\<lambda>ar.
       if length ar \<noteq> 3 then Inl (Invalid_argument wrong_plain_config)
       else bindR (as_ushort (ar ! 2)) (\<lambda>port. Inr \<lparr>plain_addr = ar ! 1, plain_port = port\<rparr>))"

definition PlainOutbound_loadConfig :: "string \<Rightarrow> plain_config result" where
  "PlainOutbound_loadConfig config =
     bindR (split CHR ''@'' config) (\<lambda>ar.
       if length ar \<noteq> 3 then Inl (Invalid_argument wrong_plain_config)
       else bindR (as_ushort (ar ! 2)) (\<lambda>port. Inr \<lparr>plain_addr = ar ! 1, plain_port = port\<rparr>))"

section \<open>epoll\<close>

text \<open>The registered descriptors; registering one twice or removing an unknown one fails.\<close>

definition epoll_add_fd :: "nat \<Rightarrow> nat list \<Rightarrow> nat list result" where
  "epoll_add_fd fd fds =
     (if fd \<in> set fds then Inl (Runtime_error ''epoll_ctl failed.'') else Inr (fds @ [fd]))"

definition epoll_del_fd :: "nat \<Rightarrow> nat list \<Rightarrow> nat list result" where
  "epoll_del_fd fd fds =
     (if fd \<notin> set fds then Inl (Runtime_error ''epoll_ctl failed.'') else Inr (removeAll fd fds))"

definition dynamic_assert :: "bool \<Rightarrow> unit result" where
  "dynamic_assert expr =
     (if \<not> expr then Inl (Runtime_error ''dynamic_assert failed. See rlog.error.'') else Inr ())"

section \<open>The world\<close>

record world =
  to_outbound :: "bytes list"
  to_inbound :: "bytes list"
  out_epoll :: "nat list"
  connectionMap :: "(bytes, nat) conn_map"
  sent_to_server :: "(nat \<times> bytes) list"
  sent_to_clients :: "(bytes \<times> bytes) list"

text \<open>
  Sending through the pipe appends a frame, receiving takes the first one and blocks when
  there is none.
\<close>

fun pipe_recv :: "bytes list \<Rightarrow> (bytes \<times> bytes list) option" where
  "pipe_recv [] = None"
| "pipe_recv (m # q) = Some (m, q)"

fun_cases pipe_recv_SomeE: "pipe_recv q = Some (m, q')"

definition pipe_recv2 :: "bytes list \<Rightarrow> (bytes \<times> bytes \<times> bytes list) option" where
  "pipe_recv2 q = (case pipe_recv q of
       None \<Rightarrow> None
     | Some (a, q') \<Rightarrow> (case pipe_recv q' of None \<Rightarrow> None | Some (b, q'') \<Rightarrow> Some (a, b, q'')))"

definition forwardMessageToOutbound :: "bytes \<Rightarrow> bytes \<Rightarrow> world \<Rightarrow> world" where
  "forwardMessageToOutbound binaryMessage senderId w =
     w\<lparr>to_outbound := (to_outbound w @ [senderId]) @ [binaryMessage]\<rparr>"

definition forwardMessageToInbound :: "bytes \<Rightarrow> bytes \<Rightarrow> world \<Rightarrow> world" where
  "forwardMessageToInbound binaryMessage senderId w =
     w\<lparr>to_inbound := (to_inbound w @ [senderId]) @ [binaryMessage]\<rparr>"

section \<open>Handlers of the inbound thread\<close>

text \<open>A reply from the outbound: \<open>sendto_ok\<close> is whether \<open>sendto\<close> succeeds.\<close>

definition inbound_on_ipc :: "bool \<Rightarrow> world \<Rightarrow> world result option" where
  "inbound_on_ipc sendto_ok w =
     (case pipe_recv2 (to_inbound w) of
        None \<Rightarrow> None
      | Some (targetClientId, msg, q) \<Rightarrow>
          Some (bindR (parseClientId targetClientId) (\<lambda>clientAddr.
            bindR (dynamic_assert sendto_ok) (\<lambda>_.
              Inr (w\<lparr>to_inbound := q,
                     sent_to_clients := sent_to_clients w @ [(peer_of clientAddr, msg)]\<rparr>)))))"

text \<open>
  A datagram from a client: \<open>recvfrom\<close> fails or delivers a datagram and the address of its
  sender; the buffer keeps the first \<open>DGRAM_BUFFER_SIZE\<close> bytes. \<open>stack\<close> is the memory in which
  the address object is created.
\<close>

definition inbound_on_client ::
  "filter \<Rightarrow> bytes \<Rightarrow> (bytes \<times> bytes) option \<Rightarrow> world \<Rightarrow> world result option" where
  "inbound_on_client flt stack received w =
     (case received of
        None \<Rightarrow> Some (bindR (dynamic_assert False) (\<lambda>_. Inr w))
      | Some (datagram, peer) \<Rightarrow>
          let clientAddr = recvfrom_addr peer (fresh_sock_addr stack);
              msgBuffer = take DGRAM_BUFFER_SIZE datagram
          in Some (bindR (convertForward flt msgBuffer) (\<lambda>converted.
               Inr (forwardMessageToOutbound converted (makeClientId clientAddr) w))))"

text \<open>The descriptors of the inbound thread, and the dispatch of an event.\<close>

record inbound_fds =
  in_ipcPipe :: nat
  in_listenFd :: nat

definition inbound_onEvent ::
  "inbound_fds \<Rightarrow> filter \<Rightarrow> nat \<Rightarrow> bytes \<Rightarrow> (bytes \<times> bytes) option \<Rightarrow> bool \<Rightarrow> world \<Rightarrow> world result option" where
  "inbound_onEvent fds flt activeFd stack received sendto_ok w =
     (if activeFd = in_ipcPipe fds then inbound_on_ipc sendto_ok w
      else if activeFd = in_listenFd fds then inbound_on_client flt stack received w
      else Some (Inr w))"

section \<open>Handlers of the outbound thread\<close>

text \<open>A UDP datagram is sent by \<open>quick_send\<close>, whose loop does nothing for an empty message.\<close>

definition udp_send :: "nat \<Rightarrow> bytes \<Rightarrow> send_answer list \<Rightarrow> world \<Rightarrow> world result option" where
  "udp_send fd msg answers w =
     (case quick_send msg answers of
        None \<Rightarrow> None
      | Some (Inl e, wire, _) \<Rightarrow> Some (Inl e)
      | Some (Inr u, wire, _) \<Rightarrow>
          Some (Inr (if wire = [] then w else w\<lparr>sent_to_server := sent_to_server w @ [(fd, wire)]\<rparr>)))"

definition outbound_on_ipc ::
  "plain_config \<Rightarrow> net_env \<Rightarrow> send_answer list \<Rightarrow> world \<Rightarrow> world result option" where
  "outbound_on_ipc cfg env answers w =
     (case pipe_recv2 (to_outbound w) of
        None \<Rightarrow> None
      | Some (targetClientId, msg, q) \<Rightarrow>
          let w = w\<lparr>to_outbound := q\<rparr> in
          (case client2server (connectionMap w) targetClientId of
             Some connFd \<Rightarrow> udp_send connFd msg answers w
           | None \<Rightarrow>
               (case fst (quick_connect_posix env (plain_addr cfg) (plain_port cfg) True) of
                  Inl e \<Rightarrow> Some (Inl e)
                | Inr connFd \<Rightarrow>
                    (case epoll_add_fd connFd (out_epoll w) of
                       Inl e \<Rightarrow> Some (Inl e)
                     | Inr fds \<Rightarrow>
                         udp_send connFd msg answers
                           (w\<lparr>out_epoll := fds,
                              connectionMap := add targetClientId connFd (connectionMap w)\<rparr>)))))"

text \<open>
  A datagram from the next hop on the socket \<open>activeFd\<close>. An empty one is taken for the end of
  a connection: the socket is removed and closed, and the handler goes on with the descriptor
  it has just forgotten.
\<close>

definition outbound_on_server ::
  "filter \<Rightarrow> nat \<Rightarrow> bytes option \<Rightarrow> bool \<Rightarrow> world \<Rightarrow> world result option" where
  "outbound_on_server flt activeFd received close_ok w =
     Some (case received of
        None \<Rightarrow> bindR (dynamic_assert False) (\<lambda>_. Inr w)
      | Some datagram \<Rightarrow>
          let msgBuffer = take DGRAM_BUFFER_SIZE datagram in
          bindR (if length msgBuffer = 0 then
                   bindR (epoll_del_fd activeFd (out_epoll w)) (\<lambda>fds.
                   let w = w\<lparr>out_epoll := fds,
                             connectionMap := del_server [] activeFd (connectionMap w)\<rparr> in
                   bindR (fst (close_ex close_ok activeFd)) (\<lambda>_. Inr w))
                 else Inr w) (\<lambda>w.
            bindR (dynamic_assert (server2client (connectionMap w) activeFd \<noteq> None)) (\<lambda>_.
            bindR (convertBackward flt msgBuffer) (\<lambda>converted.
            case server2client (connectionMap w) activeFd of
              None \<Rightarrow> Inl (Out_of_range ''_Map_base::at'')
            | Some senderId \<Rightarrow> Inr (forwardMessageToInbound converted senderId w)))))"

definition outbound_onEvent ::
  "nat \<Rightarrow> plain_config \<Rightarrow> filter \<Rightarrow> net_env \<Rightarrow> nat \<Rightarrow> bytes option \<Rightarrow> send_answer list \<Rightarrow> bool \<Rightarrow>
     world \<Rightarrow> world result option" where
  "outbound_onEvent ipcPipe cfg flt env activeFd received answers close_ok w =
     (if activeFd = ipcPipe then outbound_on_ipc cfg env answers w
      else outbound_on_server flt activeFd received close_ok w)"

section \<open>The main loops\<close>

text \<open>
  \<open>epoll_wait\<close> reports at most \<open>EPOLL_MAX_EVENTS\<close> ready descriptors; the loop body handles them
  one after the other, each with what the operating system answers during its handler.
\<close>

fun handle_batch :: "('e \<Rightarrow> world \<Rightarrow> world result option) \<Rightarrow> 'e list \<Rightarrow> world \<Rightarrow> world result option" where
  "handle_batch onEvent [] w = Some (Inr w)"
| "handle_batch onEvent (e # es) w =
     (case onEvent e w of
        None \<Rightarrow> None
      | Some (Inl err) \<Rightarrow> Some (Inl err)
      | Some (Inr w') \<Rightarrow> handle_batch onEvent es w')"

definition loop_body ::
  "('e \<Rightarrow> world \<Rightarrow> world result option) \<Rightarrow> 'e list option \<Rightarrow> world \<Rightarrow> world result option" where
  "loop_body onEvent ready w =
     (case ready of
        None \<Rightarrow> Some (bindR (dynamic_assert False) (\<lambda>_. Inr w))
      | Some es \<Rightarrow> handle_batch onEvent (take EPOLL_MAX_EVENTS es) w)"

section \<open>Start of the listeners\<close>

definition inbound_setup ::
  "plain_config \<Rightarrow> net_env \<Rightarrow> nat \<times> nat \<Rightarrow> bool \<Rightarrow> (inbound_fds \<times> nat list \<times> nat) result" where
  "inbound_setup cfg env pipe_fds epoll_ok =
     (let (ipcPipe, nextHop_ipcPipe) = pipe_fds in
      bindR (fst (quick_listen_posix env (plain_addr cfg) (plain_port cfg) True)) (\<lambda>listenFd.
      bindR (dynamic_assert epoll_ok) (\<lambda>_.
      bindR (epoll_add_fd listenFd []) (\<lambda>fds.
      bindR (epoll_add_fd ipcPipe fds) (\<lambda>fds.
      Inr (\<lparr>in_ipcPipe = ipcPipe, in_listenFd = listenFd\<rparr>, fds, nextHop_ipcPipe))))))"

definition outbound_setup :: "nat \<Rightarrow> bool \<Rightarrow> nat list result" where
  "outbound_setup ipcPipe epoll_ok =
     bindR (dynamic_assert epoll_ok) (\<lambda>_. epoll_add_fd ipcPipe [])"

definition initial_world :: "nat list \<Rightarrow> world" where
  "initial_world fds =
     \<lparr>to_outbound = [], to_inbound = [], out_epoll = fds, connectionMap = empty_map,
      sent_to_server = [], sent_to_clients = []\<rparr>"

section \<open>Executions of the two threads\<close>

text \<open>
  The events of the program in the order in which the two threads handle them. The threads
  share only the pipe, each end of which one thread writes and the other reads, so every
  interleaving of their handlers is such a sequence.
\<close>

datatype event =
    Client_datagram bytes bytes bytes
  | Outbound_pipe net_env "send_answer list"
  | Server_datagram nat bytes bool
  | Inbound_pipe bool

fun handle :: "plain_config \<Rightarrow> filter \<Rightarrow> event \<Rightarrow> world \<Rightarrow> world result option" where
  "handle cfg flt (Client_datagram stack peer datagram) w =
     inbound_on_client flt stack (Some (datagram, peer)) w"
| "handle cfg flt (Outbound_pipe env answers) w = outbound_on_ipc cfg env answers w"
| "handle cfg flt (Server_datagram fd datagram close_ok) w =
     outbound_on_server flt fd (Some datagram) close_ok w"
| "handle cfg flt (Inbound_pipe sendto_ok) w = inbound_on_ipc sendto_ok w"

text \<open>
  What the operating system guarantees: an address object has its size and the kernel's
  addresses fit it, and a datagram arrives only on a registered socket.
\<close>

fun admissible :: "nat \<Rightarrow> event \<Rightarrow> world \<Rightarrow> bool" where
  "admissible ipcPipe (Client_datagram stack peer datagram) w \<longleftrightarrow> length stack = 136 \<and> length peer \<le> 128"
| "admissible ipcPipe (Server_datagram fd datagram close_ok) w \<longleftrightarrow> fd \<in> set (out_epoll w) \<and> fd \<noteq> ipcPipe"
| "admissible ipcPipe _ w \<longleftrightarrow> True"

inductive execution :: "nat \<Rightarrow> plain_config \<Rightarrow> filter \<Rightarrow> event list \<Rightarrow> world \<Rightarrow> bool"
  for ipcPipe cfg flt where
  start: "outbound_setup ipcPipe True = Inr fds \<Longrightarrow> execution ipcPipe cfg flt [] (initial_world fds)"
| step: "execution ipcPipe cfg flt evs w \<Longrightarrow> admissible ipcPipe ev w \<Longrightarrow>
     handle cfg flt ev w = Some (Inr w') \<Longrightarrow> execution ipcPipe cfg flt (evs @ [ev]) w'"

inductive_cases execution_snocE: "execution ipcPipe cfg flt (evs @ [ev]) w"

lemma execution_prefix: "execution ipcPipe cfg flt (evs @ later) w \<Longrightarrow> \<exists>v. execution ipcPipe cfg flt evs v"
proof (induction later arbitrary: w rule: rev_induct)
  case (snoc ev later)
  from snoc.prems have "execution ipcPipe cfg flt ((evs @ later) @ [ev]) w" by simp
  then show ?case by (rule execution_snocE) (use snoc.IH in blast)
qed auto

text \<open>What goes into the pipe at an event: the converted datagrams, in each direction.\<close>

fun request_of :: "filter \<Rightarrow> event \<Rightarrow> (bytes \<times> bytes) list" where
  "request_of flt (Client_datagram stack peer datagram) =
     (case convertForward flt (take DGRAM_BUFFER_SIZE datagram) of
        Inl e \<Rightarrow> []
      | Inr c \<Rightarrow> [(makeClientId (recvfrom_addr peer (fresh_sock_addr stack)), c)])"
| "request_of flt _ = []"

fun reply_of :: "filter \<Rightarrow> event \<Rightarrow> (nat \<times> bytes) list" where
  "reply_of flt (Server_datagram fd datagram close_ok) =
     (case convertBackward flt (take DGRAM_BUFFER_SIZE datagram) of
        Inl e \<Rightarrow> []
      | Inr c \<Rightarrow> [(fd, c)])"
| "reply_of flt _ = []"

definition requests :: "filter \<Rightarrow> event list \<Rightarrow> (bytes \<times> bytes) list" where
  "requests flt evs = concat (map (request_of flt) evs)"

definition replies :: "filter \<Rightarrow> event list \<Rightarrow> (nat \<times> bytes) list" where
  "replies flt evs = concat (map (reply_of flt) evs)"

definition outbound_reads :: "event list \<Rightarrow> nat" where
  "outbound_reads evs = length [ev \<leftarrow> evs. case ev of Outbound_pipe _ _ \<Rightarrow> True | _ \<Rightarrow> False]"

definition inbound_reads :: "event list \<Rightarrow> nat" where
  "inbound_reads evs = length [ev \<leftarrow> evs. case ev of Inbound_pipe _ \<Rightarrow> True | _ \<Rightarrow> False]"

definition frames :: "(bytes \<times> bytes) list \<Rightarrow> bytes list" where
  "frames ps = concat (map (\<lambda>(sender, msg). [sender, msg]) ps)"

text \<open>The datagrams the next hop gets for a list of requests: each non-empty one on the
  connection of its client.\<close>

definition on_connections :: "(bytes, nat) conn_map \<Rightarrow> (bytes \<times> bytes) list \<Rightarrow> (nat \<times> bytes) list" where
  "on_connections m rs =
     map (\<lambda>(client, msg). (the (client2server m client), msg)) [r \<leftarrow> rs. snd r \<noteq> []]"

definition client_addr :: "bytes \<Rightarrow> bytes" where
  "client_addr client = (case parseClientId client of Inl e \<Rightarrow> [] | Inr a \<Rightarrow> peer_of a)"

text \<open>The datagrams the clients get for a list of replies: each at the address of the client
  whose connection the reply came from.\<close>

definition to_clients :: "(bytes, nat) conn_map \<Rightarrow> (nat \<times> bytes) list \<Rightarrow> (bytes \<times> bytes) list" where
  "to_clients m rs = map (\<lambda>(fd, msg). (client_addr (the (server2client m fd)), msg)) rs"

definition reply_frames :: "(bytes, nat) conn_map \<Rightarrow> (nat \<times> bytes) list \<Rightarrow> bytes list" where
  "reply_frames m rs = frames (map (\<lambda>(fd, msg). (the (server2client m fd), msg)) rs)"

text \<open>
  The invariant: \<open>rd\<close> and \<open>rp\<close> are the requests the outbound has read from the pipe and those
  still in it, \<open>sd\<close> and \<open>sp\<close> the replies the inbound has read and those still in the pipe.
\<close>

definition registered :: "nat \<Rightarrow> nat list \<Rightarrow> (bytes, nat) conn_map \<Rightarrow> bool" where
  "registered ipcPipe fds m \<longleftrightarrow> ipcPipe \<in> set fds \<and>
     (\<forall>s. server2client m s \<noteq> None \<longleftrightarrow> s \<in> set fds \<and> s \<noteq> ipcPipe)"

definition sized_ids :: "(bytes \<times> bytes) list \<Rightarrow> bool" where
  "sized_ids rs \<longleftrightarrow> list_all (\<lambda>(c, x). length c = sizeof_sock_addr) rs"

definition sized_map :: "(bytes, nat) conn_map \<Rightarrow> bool" where
  "sized_map m \<longleftrightarrow> (\<forall>c s. client2server m c = Some s \<longrightarrow> length c = sizeof_sock_addr)"

definition known_clients :: "(bytes, nat) conn_map \<Rightarrow> (bytes \<times> bytes) list \<Rightarrow> bool" where
  "known_clients m rs \<longleftrightarrow> list_all (\<lambda>(c, x). client2server m c \<noteq> None) rs"

definition known_servers :: "(bytes, nat) conn_map \<Rightarrow> (nat \<times> bytes) list \<Rightarrow> bool" where
  "known_servers m rs \<longleftrightarrow> list_all (\<lambda>(s, x). server2client m s \<noteq> None) rs"

definition exec_inv ::
  "nat \<Rightarrow> (bytes \<times> bytes) list \<Rightarrow> (bytes \<times> bytes) list \<Rightarrow> (nat \<times> bytes) list \<Rightarrow> (nat \<times> bytes) list \<Rightarrow>
     world \<Rightarrow> bool" where
  "exec_inv ipcPipe rd rp sd sp w \<longleftrightarrow>
     mutual_inverse (connectionMap w) \<and> registered ipcPipe (out_epoll w) (connectionMap w) \<and>
     sized_ids rd \<and> sized_ids rp \<and> sized_map (connectionMap w) \<and>
     known_clients (connectionMap w) rd \<and>
     known_servers (connectionMap w) sd \<and> known_servers (connectionMap w) sp \<and>
     to_outbound w = frames rp \<and> sent_to_server w = on_connections (connectionMap w) rd \<and>
     to_inbound w = reply_frames (connectionMap w) sp \<and> sent_to_clients w = to_clients (connectionMap w) sd"

lemma exec_inv_list_simps [simp]:
  "sized_ids []" "sized_ids (r # rs) \<longleftrightarrow> length (fst r) = sizeof_sock_addr \<and> sized_ids rs"
  "sized_ids (rs @ rs') \<longleftrightarrow> sized_ids rs \<and> sized_ids rs'"
  "known_clients m []" "known_clients m (r # rs) \<longleftrightarrow> client2server m (fst r) \<noteq> None \<and> known_clients m rs"
  "known_clients m (rs @ rs') \<longleftrightarrow> known_clients m rs \<and> known_clients m rs'"
  "known_servers m []" "known_servers m (s # ss) \<longleftrightarrow> server2client m (fst s) \<noteq> None \<and> known_servers m ss"
  "known_servers m (ss @ ss') \<longleftrightarrow> known_servers m ss \<and> known_servers m ss'"
  "on_connections m [] = []" "on_connections m (rs @ rs') = on_connections m rs @ on_connections m rs'"
  "on_connections m [(c, x)] = (if x = [] then [] else [(the (client2server m c), x)])"
  "to_clients m [] = []" "to_clients m (ss @ ss') = to_clients m ss @ to_clients m ss'"
  "to_clients m [(fd, x)] = [(client_addr (the (server2client m fd)), x)]"
  by (auto simp: sized_ids_def known_clients_def known_servers_def on_connections_def to_clients_def)

lemma frames_simps [simp]:
  "frames [] = []" "frames ((c, m) # ps) = c # m # frames ps" "frames (ps @ qs) = frames ps @ frames qs"
  by (simp_all add: frames_def)

lemma reply_frames_simps [simp]:
  "reply_frames m [] = []"
  "reply_frames m ((s, x) # ps) = the (server2client m s) # x # reply_frames m ps"
  "reply_frames m (ps @ qs) = reply_frames m ps @ reply_frames m qs"
  by (simp_all add: reply_frames_def)

lemma pipe_recv2_simps [simp]:
  "pipe_recv2 [] = None" "pipe_recv2 (a # b # q) = Some (a, b, q)"
  by (simp_all add: pipe_recv2_def)

lemma pipe_recv2_SomeE:
  assumes "pipe_recv2 q = Some (a, b, q')"
  obtains "q = a # b # q'"
  using assms by (auto simp: pipe_recv2_def split: option.splits elim!: pipe_recv_SomeE)

lemma exec_inv_start: "exec_inv ipcPipe [] [] [] [] (initial_world [ipcPipe])"
  by (auto simp: exec_inv_def initial_world_def registered_def sized_map_def empty_map_def mutual_inverse_def)

lemma client_id_length:
  "length stack = 136 \<Longrightarrow>
     length (makeClientId (recvfrom_addr peer (fresh_sock_addr stack))) = sizeof_sock_addr"
  using recvfrom_is_sock_addr by (simp add: sizeof_sock_addr_def)

lemma exec_inv_client:
  assumes "exec_inv ipcPipe rd rp sd sp w" "length stack = 136"
    and "inbound_on_client flt stack (Some (datagram, peer)) w = Some (Inr w')"
  shows "exec_inv ipcPipe rd (rp @ request_of flt (Client_datagram stack peer datagram)) sd sp w'"
proof -
  obtain c where c: "convertForward flt (take DGRAM_BUFFER_SIZE datagram) = Inr c"
    "w' = forwardMessageToOutbound c (makeClientId (recvfrom_addr peer (fresh_sock_addr stack))) w"
    using assms(3) by (auto simp: inbound_on_client_def Let_def bindR_eq_Inr_iff)
  then show ?thesis
    using assms(1) client_id_length [OF assms(2)]
    by (simp add: exec_inv_def forwardMessageToOutbound_def)
qed

lemma udp_send_effect:
  assumes "udp_send fd msg answers w = Some (Inr w')"
  shows "w' = w\<lparr>sent_to_server := sent_to_server w @ (if msg = [] then [] else [(fd, msg)])\<rparr>"
  using assms sendn_ex_success [of msg answers]
  by (auto simp: udp_send_def quick_send_def split: option.splits sum.splits if_splits)

lemma map_after_add:
  assumes "client2server m c = None" "server2client m s = None"
  shows "known_clients m rd \<Longrightarrow> known_clients (add c s m) rd"
    and "known_clients m rd \<Longrightarrow> on_connections (add c s m) rd = on_connections m rd"
    and "known_servers m sd \<Longrightarrow> known_servers (add c s m) sd"
    and "known_servers m sd \<Longrightarrow> to_clients (add c s m) sd = to_clients m sd"
    and "known_servers m sd \<Longrightarrow> reply_frames (add c s m) sd = reply_frames m sd"
proof -
  show "known_clients m rd \<Longrightarrow> known_clients (add c s m) rd"
    by (auto simp: known_clients_def add_def list_all_iff)
  show "known_clients m rd \<Longrightarrow> on_connections (add c s m) rd = on_connections m rd"
    using assms(1) by (induction rd) (auto simp: on_connections_def add_def)
  show "known_servers m sd \<Longrightarrow> known_servers (add c s m) sd"
    by (auto simp: known_servers_def add_def list_all_iff)
  show "known_servers m sd \<Longrightarrow> to_clients (add c s m) sd = to_clients m sd"
    using assms(2) by (induction sd) (auto simp: to_clients_def add_def)
  show "known_servers m sd \<Longrightarrow> reply_frames (add c s m) sd = reply_frames m sd"
    using assms(2) by (induction sd) (auto simp: add_def)
qed

lemma registered_add:
  "registered ipcPipe fds m \<Longrightarrow> fd \<notin> set fds \<Longrightarrow>
     registered ipcPipe (fds @ [fd]) (add c fd m) \<and> server2client m fd = None"
  by (auto simp: registered_def add_def)

lemma sized_map_add: "sized_map m \<Longrightarrow> length c = sizeof_sock_addr \<Longrightarrow> sized_map (add c s m)"
  by (auto simp: sized_map_def add_def)

lemmas exec_inv_add_laws = map_after_add registered_add sized_map_add mutual_inverse_add

lemma exec_inv_outbound_pipe:
  assumes inv: "exec_inv ipcPipe rd rp sd sp w"
    and handle: "outbound_on_ipc cfg env answers w = Some (Inr w')"
  shows "\<exists>r rp'. rp = r # rp' \<and> exec_inv ipcPipe (rd @ [r]) rp' sd sp w'"
proof (cases rp)
  case Nil
  then show ?thesis using assms by (simp add: exec_inv_def outbound_on_ipc_def)
next
  case (Cons r rp')
  obtain c x where r: "r = (c, x)" by (cases r)
  let ?m = "connectionMap w" and ?w = "w\<lparr>to_outbound := frames rp'\<rparr>"
  have pipe: "pipe_recv2 (to_outbound w) = Some (c, x, frames rp')"
    using inv Cons r by (simp add: exec_inv_def)
  have "exec_inv ipcPipe (rd @ [r]) rp' sd sp w'"
  proof (cases "client2server ?m c")
    case (Some fd)
    then have "w' = ?w\<lparr>sent_to_server := sent_to_server w @ (if x = [] then [] else [(fd, x)])\<rparr>"
      using handle pipe by (auto simp: outbound_on_ipc_def Let_def dest: udp_send_effect)
    then show ?thesis using inv Cons r Some
      by (simp add: exec_inv_def)
  next
    case None
    then obtain fd where fd: "fd \<notin> set (out_epoll w)"
      "w' = ?w\<lparr>out_epoll := out_epoll w @ [fd], connectionMap := add c fd ?m,
        sent_to_server := sent_to_server w @ (if x = [] then [] else [(fd, x)])\<rparr>"
      using handle pipe
      by (auto simp: outbound_on_ipc_def Let_def epoll_add_fd_def split: sum.splits if_splits
          dest!: udp_send_effect)
    have reg: "registered ipcPipe (out_epoll w @ [fd]) (add c fd ?m)" and s: "server2client ?m fd = None"
      using inv fd(1) registered_add by (auto simp: exec_inv_def)
    have "mutual_inverse (add c fd ?m)" "sized_map (add c fd ?m)"
      using inv None s Cons r by (auto simp: exec_inv_def exec_inv_add_laws)
    then show ?thesis
      using inv Cons r reg unfolding fd(2)
      by (simp add: exec_inv_def map_after_add [OF None s]) (simp add: add_def)
  qed
  then show ?thesis using Cons by blast
qed

lemma exec_inv_server:
  assumes inv: "exec_inv ipcPipe rd rp sd sp w" and fd: "fd \<in> set (out_epoll w)" "fd \<noteq> ipcPipe"
    and handle: "outbound_on_server flt fd (Some datagram) close_ok w = Some (Inr w')"
  shows "exec_inv ipcPipe rd rp sd (sp @ reply_of flt (Server_datagram fd datagram close_ok)) w'"
proof -
  have known: "server2client (connectionMap w) fd \<noteq> None"
    using inv fd by (auto simp: exec_inv_def registered_def)
  have "take DGRAM_BUFFER_SIZE datagram \<noteq> []"
    using handle known
    by (auto simp: outbound_on_server_def Let_def bindR_eq_Inr_iff dynamic_assert_def del_server_known
        split: if_splits)
  then obtain c where "convertBackward flt (take DGRAM_BUFFER_SIZE datagram) = Inr c"
    "w' = forwardMessageToInbound c (the (server2client (connectionMap w) fd)) w"
    using handle known
    by (auto simp: outbound_on_server_def Let_def bindR_eq_Inr_iff dynamic_assert_def split: if_splits option.splits)
  then show ?thesis using inv known
    by (simp add: exec_inv_def forwardMessageToInbound_def)
qed

lemma exec_inv_inbound_pipe:
  assumes inv: "exec_inv ipcPipe rd rp sd sp w"
    and handle: "inbound_on_ipc ok w = Some (Inr w')"
  shows "\<exists>s sp'. sp = s # sp' \<and> exec_inv ipcPipe rd rp (sd @ [s]) sp' w'"
proof (cases sp)
  case Nil
  then show ?thesis using assms by (simp add: exec_inv_def inbound_on_ipc_def)
next
  case (Cons s sp')
  obtain fd x where s: "s = (fd, x)" by (cases s)
  have "pipe_recv2 (to_inbound w) =
      Some (the (server2client (connectionMap w) fd), x, reply_frames (connectionMap w) sp')"
    using inv Cons s by (simp add: exec_inv_def)
  then obtain a where "parseClientId (the (server2client (connectionMap w) fd)) = Inr a"
    "w' = w\<lparr>to_inbound := reply_frames (connectionMap w) sp',
      sent_to_clients := sent_to_clients w @ [(peer_of a, x)]\<rparr>"
    using handle by (auto simp: inbound_on_ipc_def bindR_eq_Inr_iff)
  then show ?thesis using inv Cons s
    by (simp add: exec_inv_def client_addr_def)
qed

lemma execution_inv:
  "execution ipcPipe cfg flt evs w \<Longrightarrow> \<exists>rd rp sd sp.
     requests flt evs = rd @ rp \<and> length rd = outbound_reads evs \<and>
     replies flt evs = sd @ sp \<and> length sd = inbound_reads evs \<and>
     exec_inv ipcPipe rd rp sd sp w"
proof (induction rule: execution.induct)
  case (start fds)
  then have "fds = [ipcPipe]" by (simp add: outbound_setup_def dynamic_assert_def epoll_add_fd_def)
  then show ?case using exec_inv_start
    by (simp add: requests_def replies_def outbound_reads_def inbound_reads_def)
next
  case (step evs w ev w')
  then obtain rd rp sd sp where IH: "requests flt evs = rd @ rp" "length rd = outbound_reads evs"
      "replies flt evs = sd @ sp" "length sd = inbound_reads evs" "exec_inv ipcPipe rd rp sd sp w"
    by blast
  note defs = requests_def replies_def outbound_reads_def inbound_reads_def
  show ?case
  proof (cases ev)
    case (Client_datagram stack peer datagram)
    with step exec_inv_client [OF IH(5), of stack flt datagram peer w'] IH(1-4) show ?thesis
      by (intro exI [of _ rd] exI [of _ "rp @ request_of flt ev"] exI [of _ sd] exI [of _ sp])
        (simp add: defs)
  next
    case (Outbound_pipe env answers)
    with step obtain r rp' where "rp = r # rp'" "exec_inv ipcPipe (rd @ [r]) rp' sd sp w'"
      using exec_inv_outbound_pipe [OF IH(5)] by fastforce
    with Outbound_pipe IH(1-4) show ?thesis
      by (intro exI [of _ "rd @ [r]"] exI [of _ rp'] exI [of _ sd] exI [of _ sp]) (simp add: defs)
  next
    case (Server_datagram fd datagram close_ok)
    with step exec_inv_server [OF IH(5), of fd flt datagram close_ok w'] IH(1-4) show ?thesis
      by (intro exI [of _ rd] exI [of _ rp] exI [of _ sd] exI [of _ "sp @ reply_of flt ev"])
        (simp add: defs)
  next
    case (Inbound_pipe ok)
    with step obtain s sp' where "sp = s # sp'" "exec_inv ipcPipe rd rp (sd @ [s]) sp' w'"
      using exec_inv_inbound_pipe [OF IH(5)] by fastforce
    with Inbound_pipe IH(1-4) show ?thesis
      by (intro exI [of _ rd] exI [of _ rp] exI [of _ "sd @ [s]"] exI [of _ sp']) (simp add: defs)
  qed
qed

section \<open>The pipe at the byte level\<close>

text \<open>
  The pipe carries the frames as bytes. A reader sees arrivals whose bytes are the images of
  the frames in the queue; sending and receiving frames refine the operations on the queue.
\<close>

definition wire_of :: "bytes list \<Rightarrow> bytes" where
  "wire_of q = concat (map frame q)"

lemma recvn_loop_blocks:
  "open_stream as \<Longrightarrow> length (arrived as) < nleft \<Longrightarrow> recvn_loop n nleft buf as = None"
proof (induction n nleft buf as rule: recvn_loop.induct)
  case (1 n nleft buf as)
  then have pos: "nleft \<noteq> 0" by simp
  note rc = recv_call_open [OF 1(3), of nleft]
  show ?case
  proof (cases "recv_call nleft as")
    case None
    then show ?thesis using pos by (simp add: recvn_loop.simps [of n nleft])
  next
    case (Some r)
    obtain a as1 where r: "r = (a, as1)" by (cases r)
    show ?thesis
    proof (cases a)
      case Eintr
      then show ?thesis using rc Some r pos 1(2) [OF pos Some r [symmetric] Eintr] 1(4)
        by (simp add: recvn_loop.simps [of n nleft])
    next
      case (Got bs)
      then have g: "open_stream as1" "bs \<noteq> []" "arrived as = bs @ arrived as1"
        using rc Some r pos by auto
      have "length (arrived as1) < nleft - length bs" using 1(4) g(3) by simp
      from 1(1) [OF pos Some r [symmetric] Got _ g(1) this] g Some r pos Got show ?thesis
        by (simp add: recvn_loop.simps [of n nleft])
    next
      case Err
      then show ?thesis using rc Some r pos by simp
    qed
  qed
qed

lemma recv_msg_blocks: "open_stream as \<Longrightarrow> arrived as = [] \<Longrightarrow> recv_msg as = None"
  using recvn_loop_blocks [of as 12 12 "[]"] by (simp add: recv_msg_def recvn_ex_def recvn_def)

section \<open>One round trip\<close>

text \<open>
  A client's datagram goes to the next hop, the reply comes back, and the inbound has not read
  it yet: an execution on which the properties below are instantiated.
\<close>

definition sample_env :: net_env where
  "sample_env = \<lparr>getaddrinfo = (\<lambda>_ _ _. (0,
      [\<lparr>cand_fd = Some 7, reuseaddr_ok = True, reuseport_ok = True, attach_ok = True\<rparr>])),
     listen_ok = (\<lambda>_. True), wsa_startup = 0\<rparr>"

definition sample_events :: "event list" where
  "sample_events =
     [Client_datagram (replicate 136 0) [2, 0, 80] [1, 2, 3], Outbound_pipe sample_env [Sent 3],
      Server_datagram 7 [4, 5] True]"

definition sample_client :: bytes where
  "sample_client = makeClientId (recvfrom_addr [2, 0, 80] (fresh_sock_addr (replicate 136 0)))"

definition sample_world :: world where
  "sample_world = \<lparr>to_outbound = [], to_inbound = [sample_client, [4, 5]], out_epoll = [5, 7],
     connectionMap = add sample_client 7 empty_map, sent_to_server = [(7, [1, 2, 3])],
     sent_to_clients = []\<rparr>"

lemma sample_execution:
  "execution 5 \<lparr>plain_addr = ''::1'', plain_port = 80\<rparr> (ChainedFilters []) sample_events sample_world"
proof -
  let ?cfg = "\<lparr>plain_addr = ''::1'', plain_port = 80\<rparr>" and ?flt = "ChainedFilters []"
  let ?e1 = "Client_datagram (replicate 136 0) [2, 0, 80] [1, 2, 3]"
  let ?e2 = "Outbound_pipe sample_env [Sent 3]" and ?e3 = "Server_datagram 7 [4, 5] True"
  let ?w0 = "initial_world [5]"
  let ?w1 = "?w0\<lparr>to_outbound := [sample_client, [1, 2, 3]]\<rparr>"
  let ?w2 = "?w0\<lparr>out_epoll := [5, 7], connectionMap := add sample_client 7 empty_map,
    sent_to_server := [(7, [1, 2, 3])]\<rparr>"
  have "execution 5 ?cfg ?flt [] ?w0"
    by (rule execution.start) (simp add: outbound_setup_def dynamic_assert_def epoll_add_fd_def)
  then have "execution 5 ?cfg ?flt ([] @ [?e1]) ?w1"
    by (rule execution.step)
      (simp_all add: inbound_on_client_def DGRAM_BUFFER_SIZE_def forwardMessageToOutbound_def
        sample_client_def initial_world_def)
  then have "execution 5 ?cfg ?flt (([] @ [?e1]) @ [?e2]) ?w2"
    by (rule execution.step)
      (simp_all add: outbound_on_ipc_def initial_world_def empty_map_def quick_connect_posix_def sample_env_def
        mk_hints_def epoll_add_fd_def udp_send_def quick_send_def sendn_ex_def sendn_def Let_def)
  then have "execution 5 ?cfg ?flt ((([] @ [?e1]) @ [?e2]) @ [?e3]) sample_world"
    by (rule execution.step)
      (simp_all add: outbound_on_server_def DGRAM_BUFFER_SIZE_def forwardMessageToInbound_def
        initial_world_def dynamic_assert_def sample_world_def, simp_all add: add_def
        forwardMessageToInbound_def)
  then show ?thesis by (simp add: sample_events_def)
qed

lemma sample_requests:
  "requests (ChainedFilters []) sample_events = [(sample_client, [1, 2, 3])]"
  "replies (ChainedFilters []) sample_events = [(7, [4, 5])]"
  "outbound_reads sample_events = 1" "inbound_reads sample_events = 0"
  by (simp_all add: requests_def replies_def sample_events_def sample_client_def DGRAM_BUFFER_SIZE_def
      outbound_reads_def inbound_reads_def)

lemma plain_config_joined:
  assumes "CHR ''@'' \<notin> set method" "CHR ''@'' \<notin> set addr"
  shows "PlainInbound_loadConfig (join ''@'' [method, addr, to_string n]) =
      (if n < 2 ^ 64 then Inr \<lparr>plain_addr = addr, plain_port = of_nat n\<rparr>
       else Inl (Out_of_range ''stoul''))"
proof -
  have "CHR ''@'' \<notin> set (to_string n)" using to_string_digits [of "CHR ''@''" n] by (auto simp: isdigit_def)
  then have "split CHR ''@'' (join [CHR ''@''] [method, addr, to_string n]) = Inr [method, addr, to_string n]"
    using assms by (simp add: split_eq pieces_join)
  then show ?thesis
    by (simp add: PlainInbound_loadConfig_def as_ushort_to_string)
qed

section \<open>Properties\<close>

text \<open>C1: Datagrams are neither lost, duplicated nor reordered between the threads. After any
  interleaving of the two threads' handlers, the datagrams sent to the next hop are the
  converted datagrams received from the clients, as many as the outbound has read from the pipe,
  in the order of their arrival, each on the connection of its client, the empty ones left out;
  the rest is in the pipe. The replies are delivered likewise, each to the client whose
  connection it came from.\<close>

theorem pipe_delivers_in_order:
  assumes "execution ipcPipe cfg flt evs w"
  defines "k \<equiv> outbound_reads evs" and "j \<equiv> inbound_reads evs" and "m \<equiv> connectionMap w"
  shows "k \<le> length (requests flt evs) \<and> j \<le> length (replies flt evs) \<and>
    sent_to_server w = on_connections m (take k (requests flt evs)) \<and>
    to_outbound w = frames (drop k (requests flt evs)) \<and>
    sent_to_clients w = to_clients m (take j (replies flt evs)) \<and>
    to_inbound w = reply_frames m (drop j (replies flt evs))"
  using execution_inv [OF assms(1)] unfolding k_def j_def m_def exec_inv_def by auto

lemma pipe_delivers_in_order_witness:
  "sent_to_server sample_world = on_connections (connectionMap sample_world) [(sample_client, [1, 2, 3])] \<and>
     to_inbound sample_world = reply_frames (connectionMap sample_world) [(7, [4, 5])]"
  using pipe_delivers_in_order [OF sample_execution] by (simp add: sample_requests)

text \<open>C12: In every reachable state the mapping is a bijection between the known clients and the
  registered sockets, and a client that has had a datagram forwarded gets the replies of its own
  connection: the connection is mapped back to that client, at the address its datagram came
  from.\<close>

theorem replies_reach_the_requester:
  assumes "execution ipcPipe cfg flt evs w"
    and "(client, x) \<in> set (take (outbound_reads evs) (requests flt evs))"
    and "client = makeClientId (recvfrom_addr peer (fresh_sock_addr stack))"
    and "length stack = 136" "length peer \<le> 128"
  shows "\<exists>fd. client2server (connectionMap w) client = Some fd \<and> fd \<in> set (out_epoll w) \<and> fd \<noteq> ipcPipe \<and>
    server2client (connectionMap w) fd = Some client \<and>
    to_clients (connectionMap w) [(fd, y)] = [(peer, y)] \<and> mutual_inverse (connectionMap w)"
proof -
  obtain rd rp sd sp where e: "requests flt evs = rd @ rp" "length rd = outbound_reads evs"
      "exec_inv ipcPipe rd rp sd sp w"
    using execution_inv [OF assms(1)] by blast
  then have "(client, x) \<in> set rd" using assms(2) by simp
  then obtain fd where fd: "client2server (connectionMap w) client = Some fd"
    using e(3) by (auto simp: exec_inv_def known_clients_def list_all_iff)
  then have s: "server2client (connectionMap w) fd = Some client"
    using e(3) by (simp add: exec_inv_def mutual_inverse_def)
  have "client_addr client = peer"
    using assms(3-5) parse_make_client_id [OF recvfrom_is_sock_addr] peer_of_recvfrom
    by (simp add: client_addr_def)
  then show ?thesis using fd s e(3) by (auto simp: exec_inv_def registered_def)
qed

lemma replies_reach_the_requester_witness:
  "\<exists>fd. client2server (connectionMap sample_world) sample_client = Some fd \<and>
     to_clients (connectionMap sample_world) [(fd, [4, 5])] = [([2, 0, 80], [4, 5])]"
proof -
  have "(sample_client, [1, 2, 3]) \<in> set (take (outbound_reads sample_events)
      (requests (ChainedFilters []) sample_events))"
    by (simp add: sample_requests)
  note reach = replies_reach_the_requester [OF sample_execution this sample_client_def, of "[4, 5]"]
  have "length (replicate 136 (0 :: byte)) = 136" "length [2, 0, 80 :: byte] \<le> 128" by simp_all
  from reach [OF this] show ?thesis by blast
qed

text \<open>C16: In a reachable state the handlers do not fail by themselves: with a frame in the pipe
  and a working socket the inbound delivers a reply, whose identifier always parses, and the
  outbound accepts every non-empty datagram that its filter decodes on a registered socket.\<close>

theorem handlers_are_safe:
  assumes "execution ipcPipe cfg flt evs w"
  shows "(to_inbound w \<noteq> [] \<longrightarrow> (\<exists>w'. inbound_on_ipc True w = Some (Inr w'))) \<and>
    (fd \<in> set (out_epoll w) \<and> fd \<noteq> ipcPipe \<and> datagram \<noteq> [] \<and>
       convertBackward flt (take DGRAM_BUFFER_SIZE datagram) = Inr c \<longrightarrow>
     (\<exists>w'. outbound_on_server flt fd (Some datagram) close_ok w = Some (Inr w')))"
proof (intro conjI impI)
  obtain rd rp sd sp where inv: "exec_inv ipcPipe rd rp sd sp w"
    using execution_inv [OF assms] by blast
  show "\<exists>w'. inbound_on_ipc True w = Some (Inr w')" if "to_inbound w \<noteq> []"
  proof -
    have "sp \<noteq> []" using that inv by (auto simp: exec_inv_def)
    then obtain s x sp' where sp: "sp = (s, x) # sp'" by (metis neq_Nil_conv surj_pair)
    then obtain c where c: "server2client (connectionMap w) s = Some c"
      using inv by (auto simp: exec_inv_def)
    have "length c = 136" using inv c
      by (auto simp: exec_inv_def sized_map_def mutual_inverse_def sizeof_sock_addr_def)
    then obtain a where "parseClientId c = Inr a" using make_parse_client_id by blast
    then show ?thesis using inv sp c
      by (simp add: exec_inv_def inbound_on_ipc_def dynamic_assert_def)
  qed
  show "\<exists>w'. outbound_on_server flt fd (Some datagram) close_ok w = Some (Inr w')"
    if d: "fd \<in> set (out_epoll w) \<and> fd \<noteq> ipcPipe \<and> datagram \<noteq> [] \<and>
       convertBackward flt (take DGRAM_BUFFER_SIZE datagram) = Inr c"
  proof -
    have "server2client (connectionMap w) fd \<noteq> None"
      using inv d by (auto simp: exec_inv_def registered_def)
    then show ?thesis using d
      by (auto simp: outbound_on_server_def dynamic_assert_def DGRAM_BUFFER_SIZE_def)
  qed
qed

lemma handlers_are_safe_witness:
  "\<exists>w'. inbound_on_ipc True sample_world = Some (Inr w')"
  using handlers_are_safe [OF sample_execution] by (simp add: sample_world_def)

text \<open>C17: An empty datagram from the next hop ends the program: in every reachable state the
  handler removes the socket from epoll and the mapping, closes it, and then fails the assertion
  that the mapping contains it.\<close>

theorem empty_reply_is_fatal:
  assumes "execution ipcPipe cfg flt evs w" "fd \<in> set (out_epoll w)" "fd \<noteq> ipcPipe"
  shows "outbound_on_server flt fd (Some []) True w =
    Some (Inl (Runtime_error ''dynamic_assert failed. See rlog.error.''))"
proof -
  obtain rd rp sd sp where inv: "exec_inv ipcPipe rd rp sd sp w"
    using execution_inv [OF assms(1)] by blast
  then obtain c where "server2client (connectionMap w) fd = Some c"
    using assms(2,3) by (auto simp: exec_inv_def registered_def)
  then show ?thesis using assms(2)
    by (simp add: outbound_on_server_def epoll_del_fd_def close_ex_def del_server_known dynamic_assert_def)
qed

lemma empty_reply_is_fatal_witness:
  "outbound_on_server (ChainedFilters []) 7 (Some []) True sample_world =
     Some (Inl (Runtime_error ''dynamic_assert failed. See rlog.error.''))"
  by (rule empty_reply_is_fatal [OF sample_execution]) (simp_all add: sample_world_def)

text \<open>The frames on the pipe implement the queue of messages: receiving from a stream that
  carries the images of the queued messages takes the first message and leaves the images of the
  others, and blocks when the queue is empty; a completed send appends the image of its
  message.\<close>

theorem pipe_refines_queue:
  assumes "open_stream as" "arrived as = wire_of q" "list_all (\<lambda>m. length m \<le> 2147483648) q"
  shows "(case pipe_recv q of
      None \<Rightarrow> recv_msg as = None
    | Some (m, q') \<Rightarrow> (\<exists>as'. recv_msg as = Some (Inr m, as') \<and> open_stream as' \<and> arrived as' = wire_of q')) \<and>
    (send_msg x answers = Some (Inr (), wire, answers') \<longrightarrow> wire_of q @ wire = wire_of (q @ [x]))"
  using assms recv_msg_frame [OF assms(1)] recv_msg_blocks [OF assms(1)] send_msg_frame [of x answers wire answers']
  by (cases q) (auto simp: wire_of_def)

lemma pipe_refines_queue_witness:
  "\<exists>as'. recv_msg [Chunk (wire_of [[1], [2, 3]])] = Some (Inr [1], as') \<and> arrived as' = wire_of [[2, 3]]"
proof -
  have "open_stream [Chunk (wire_of [[1], [2, 3]])]"
    by (simp add: wire_of_def frame_def)
  from pipe_refines_queue [OF this, of "[[1], [2, 3]]" "[]" "[]" "[]" "[]"] show ?thesis by auto
qed

text \<open>The configuration of both protocol ends: method, address and a decimal port, joined by
  the separator, configure that address and port; any other number of parts is rejected.\<close>

theorem plain_config_parses:
  "(CHR ''@'' \<notin> set method \<and> CHR ''@'' \<notin> set addr \<longrightarrow>
      PlainInbound_loadConfig (join ''@'' [method, addr, to_string n]) =
        (if n < 2 ^ 64 then Inr \<lparr>plain_addr = addr, plain_port = of_nat n\<rparr>
         else Inl (Out_of_range ''stoul''))) \<and>
   PlainOutbound_loadConfig config = PlainInbound_loadConfig config \<and>
   (count_list config CHR ''@'' \<noteq> 2 \<longrightarrow>
      PlainInbound_loadConfig config = Inl (Invalid_argument wrong_plain_config))"
proof (intro conjI impI)
  assume "count_list config CHR ''@'' \<noteq> 2"
  then have "length (pieces CHR ''@'' config) \<noteq> 3" by (simp add: length_pieces)
  then show "PlainInbound_loadConfig config = Inl (Invalid_argument wrong_plain_config)"
    by (simp add: PlainInbound_loadConfig_def split_eq)
qed (simp_all add: plain_config_joined PlainInbound_loadConfig_def [of config] PlainOutbound_loadConfig_def)

lemma plain_config_parses_witness:
  "PlainInbound_loadConfig (join ''@'' [''plain'', ''::1'', to_string 10809]) =
     Inr \<lparr>plain_addr = ''::1'', plain_port = of_nat 10809\<rparr>"
  using plain_config_parses [of "''plain''" "''::1''" 10809] by simp

end
