(* ===== verification/Plain_Pipe.thy ===== *)
theory Plain_Pipe
  imports Plain_Protocol
begin

text \<open>
  The two threads of the plain protocol over a pipe of bounded size. In \<open>Plain_Protocol\<close> a
  handler is one step and the pipe takes every frame; here the handlers of
  \<open>src/src/protocols/plain.hpp\<close> are interrupted where the code may block: \<open>send_msg\<close> of
  \<open>src/src/lib/rlib/sys/sio.hpp\<close> puts bytes into the connection as far as its buffers have room
  and waits for the rest, \<open>recv_msg\<close> takes the bytes it asks for as they arrive.

  The state is what each thread is doing, the bytes in transit in either direction, and the
  \<open>world\<close> of the handlers, whose two queues of frames are empty because the frames are the bytes
  in transit. The capacity of a direction, the bytes the operating system buffers for it, is a
  parameter.
\<close>

section \<open>The threads and the connection\<close>

datatype side = Inbound_side | Outbound_side

fun peer_side :: "side \<Rightarrow> side" where
  "peer_side Inbound_side = Outbound_side"
| "peer_side Outbound_side = Inbound_side"

text \<open>
  A thread waits in \<open>epoll_wait\<close>, is inside \<open>send_msg\<close> with some bytes unsent, or is inside
  \<open>recv_msg\<close>: it has the messages it has read in this handler and the bytes of the present one.
\<close>

datatype task = Idle | Sending bytes | Receiving "bytes list" bytes

record pipe_system =
  ps_world :: world
  task_of :: "side \<Rightarrow> task"
  in_flight :: "side \<Rightarrow> bytes"

definition no_frames :: "world \<Rightarrow> world" where
  "no_frames w = w\<lparr>to_outbound := [], to_inbound := []\<rparr>"

text \<open>The frames a side sends, and the world in which a side finds the frames it has read.\<close>

fun outgoing :: "side \<Rightarrow> world \<Rightarrow> bytes list" where
  "outgoing Inbound_side w = to_outbound w"
| "outgoing Outbound_side w = to_inbound w"

fun with_incoming :: "side \<Rightarrow> bytes list \<Rightarrow> world \<Rightarrow> world" where
  "with_incoming Inbound_side q w = w\<lparr>to_inbound := q\<rparr>"
| "with_incoming Outbound_side q w = w\<lparr>to_outbound := q\<rparr>"

fun event_side :: "event \<Rightarrow> side" where
  "event_side (Client_datagram stack peer datagram) = Inbound_side"
| "event_side (Outbound_pipe env answers) = Outbound_side"
| "event_side (Server_datagram fd datagram close_ok) = Outbound_side"
| "event_side (Inbound_pipe sendto_ok) = Inbound_side"

fun reads_pipe :: "event \<Rightarrow> bool" where
  "reads_pipe (Outbound_pipe env answers) = True"
| "reads_pipe (Inbound_pipe sendto_ok) = True"
| "reads_pipe _ = False"

text \<open>
  The bytes that the present \<open>recv\<close> call of \<open>recv_msg\<close> asks for, after \<open>got\<close>: first the rest of
  the head, then the rest of the message whose length the head gives.
\<close>

definition recv_request :: "bytes \<Rightarrow> nat" where
  "recv_request got =
     (if length got < 12 then 12 - length got
      else unat (head_len (parse_head (take 12 got))) - (length got - 12))"

definition arrivals_of :: "bytes \<Rightarrow> arrival list" where
  "arrivals_of got = (if got = [] then [] else [Chunk got])"

definition after_send :: "bytes \<Rightarrow> task" where
  "after_send rest = (if rest = [] then Idle else Sending rest)"

text \<open>
  The steps inside the program, with the event whose handler the step completes: bytes go into
  the connection, a thread wakes up because the connection is readable, bytes are read, the
  first message of a handler is complete, and the second is complete and the handler runs.
\<close>

inductive pipe_step ::
  "(side \<Rightarrow> nat) \<Rightarrow> plain_config \<Rightarrow> filter \<Rightarrow> event list \<Rightarrow> pipe_system \<Rightarrow> pipe_system \<Rightarrow> bool"
  for cap cfg flt where
  push: "task_of c s = Sending rest \<Longrightarrow> 0 < k \<Longrightarrow> k \<le> length rest \<Longrightarrow>
     length (in_flight c s) + k \<le> cap s \<Longrightarrow>
     pipe_step cap cfg flt [] c
       (c\<lparr>task_of := (task_of c)(s := after_send (drop k rest)),
          in_flight := (in_flight c)(s := in_flight c s @ take k rest)\<rparr>)"
| wake: "task_of c s = Idle \<Longrightarrow> in_flight c (peer_side s) \<noteq> [] \<Longrightarrow>
     pipe_step cap cfg flt [] c (c\<lparr>task_of := (task_of c)(s := Receiving [] [])\<rparr>)"
| pull: "task_of c s = Receiving ms got \<Longrightarrow> 0 < k \<Longrightarrow> k \<le> recv_request got \<Longrightarrow>
     k \<le> length (in_flight c (peer_side s)) \<Longrightarrow>
     pipe_step cap cfg flt [] c
       (c\<lparr>task_of := (task_of c)(s := Receiving ms (got @ take k (in_flight c (peer_side s)))),
          in_flight := (in_flight c)(peer_side s := drop k (in_flight c (peer_side s)))\<rparr>)"
| first: "task_of c s = Receiving [] got \<Longrightarrow> recv_msg (arrivals_of got) = Some (Inr m, as) \<Longrightarrow>
     pipe_step cap cfg flt [] c (c\<lparr>task_of := (task_of c)(s := Receiving [m] (arrived as))\<rparr>)"
| run_handler: "task_of c s = Receiving [a] got \<Longrightarrow> recv_msg (arrivals_of got) = Some (Inr b, as) \<Longrightarrow>
     event_side ev = s \<Longrightarrow> reads_pipe ev \<Longrightarrow>
     handle cfg flt ev (with_incoming s [a, b] (ps_world c)) = Some (Inr w) \<Longrightarrow>
     pipe_step cap cfg flt [ev] c
       (c\<lparr>ps_world := no_frames w, task_of := (task_of c)(s := Idle)\<rparr>)"

text \<open>
  A datagram arrives for a thread that waits: its handler runs up to the first \<open>send_msg\<close> and
  starts to send the frames.
\<close>

inductive datagram_step ::
  "nat \<Rightarrow> plain_config \<Rightarrow> filter \<Rightarrow> event \<Rightarrow> pipe_system \<Rightarrow> pipe_system \<Rightarrow> bool"
  for ipcPipe cfg flt where
  arrive: "task_of c s = Idle \<Longrightarrow> event_side ev = s \<Longrightarrow> \<not> reads_pipe ev \<Longrightarrow>
     admissible ipcPipe ev (ps_world c) \<Longrightarrow> handle cfg flt ev (ps_world c) = Some (Inr w) \<Longrightarrow>
     datagram_step ipcPipe cfg flt ev c
       (c\<lparr>ps_world := no_frames w, task_of := (task_of c)(s := Sending (wire_of (outgoing s w)))\<rparr>)"

definition initial_pipe :: "nat list \<Rightarrow> pipe_system" where
  "initial_pipe fds = \<lparr>ps_world = initial_world fds, task_of = (\<lambda>_. Idle), in_flight = (\<lambda>_. [])\<rparr>"

inductive pipe_run ::
  "(side \<Rightarrow> nat) \<Rightarrow> nat \<Rightarrow> plain_config \<Rightarrow> filter \<Rightarrow> event list \<Rightarrow> pipe_system \<Rightarrow> bool"
  for cap ipcPipe cfg flt where
  start: "outbound_setup ipcPipe True = Inr fds \<Longrightarrow> pipe_run cap ipcPipe cfg flt [] (initial_pipe fds)"
| inside: "pipe_run cap ipcPipe cfg flt evs c \<Longrightarrow> pipe_step cap cfg flt es c c' \<Longrightarrow>
     pipe_run cap ipcPipe cfg flt (evs @ es) c'"
| datagram: "pipe_run cap ipcPipe cfg flt evs c \<Longrightarrow> datagram_step ipcPipe cfg flt ev c c' \<Longrightarrow>
     pipe_run cap ipcPipe cfg flt (evs @ [ev]) c'"

inductive_cases pipe_stepE: "pipe_step cap cfg flt es c c'"
inductive_cases datagram_stepE: "datagram_step ipcPipe cfg flt ev c c'"

section \<open>The bytes in transit are the frames of the queues\<close>

text \<open>
  The queue \<open>q\<close> of a direction is spread over its receiver, the connection and its sender: the
  messages and bytes the receiver has read in the present handler, the bytes in transit, the
  bytes not yet sent.
\<close>

fun received_bytes :: "task \<Rightarrow> bytes" where
  "received_bytes (Receiving ms got) = wire_of ms @ got"
| "received_bytes _ = []"

fun unsent_bytes :: "task \<Rightarrow> bytes" where
  "unsent_bytes (Sending rest) = rest"
| "unsent_bytes _ = []"

fun reader_ok :: "task \<Rightarrow> bytes list \<Rightarrow> bool" where
  "reader_ok (Receiving ms got) q \<longleftrightarrow>
     length ms \<le> 1 \<and> (\<exists>m q'. q = ms @ m # q' \<and> length got \<le> length (frame m))"
| "reader_ok _ q \<longleftrightarrow> True"

definition direction_ok :: "(side \<Rightarrow> nat) \<Rightarrow> side \<Rightarrow> pipe_system \<Rightarrow> bytes list \<Rightarrow> bool" where
  "direction_ok cap s c q \<longleftrightarrow>
     wire_of q = received_bytes (task_of c (peer_side s)) @ in_flight c s @ unsent_bytes (task_of c s) \<and>
     length (in_flight c s) \<le> cap s \<and> task_of c s \<noteq> Sending [] \<and>
     reader_ok (task_of c (peer_side s)) q \<and>
     list_all (\<lambda>m. length m \<le> 2147483648) q \<and> even (length q)"

definition represents :: "(side \<Rightarrow> nat) \<Rightarrow> pipe_system \<Rightarrow> world \<Rightarrow> bool" where
  "represents cap c w \<longleftrightarrow>
     ps_world c = no_frames w \<and> (\<forall>s. direction_ok cap s c (outgoing s w))"

lemma wire_of_simps [simp]:
  "wire_of [] = []" "wire_of (m # q) = frame m @ wire_of q" "wire_of (q @ q') = wire_of q @ wire_of q'"
  by (simp_all add: wire_of_def)

lemma length_frame [simp]: "length (frame m) = 12 + length m"
  by (simp add: frame_def)

lemma frame_not_Nil [simp]: "frame m \<noteq> []"
  using length_frame [of m] by (metis add_is_0 list.size(3) zero_neq_numeral)

lemma peer_side_simps [simp]:
  "peer_side (peer_side s) = s" "peer_side s \<noteq> s" "s \<noteq> peer_side s" "peer_side s = peer_side t \<longleftrightarrow> s = t"
  by (cases s; cases t; simp)+

lemma side_cases: "t = s \<or> t = peer_side s"
  by (cases s; cases t; simp)

lemma no_frames_simps [simp]:
  "no_frames (no_frames w) = no_frames w" "out_epoll (no_frames w) = out_epoll w"
  "connectionMap (no_frames w) = connectionMap w" "outgoing s (no_frames w) = []"
  "to_outbound (no_frames w) = []" "to_inbound (no_frames w) = []"
  "no_frames (w\<lparr>to_outbound := q\<rparr>) = no_frames w" "no_frames (w\<lparr>to_inbound := q\<rparr>) = no_frames w"
  "no_frames (initial_world fds) = initial_world fds" "outgoing s (initial_world fds) = []"
  by (cases s; simp add: no_frames_def initial_world_def)+

lemma unat_head_len:
  "length m \<le> 2147483648 \<Longrightarrow> unat (head_len (parse_head (take 12 (frame m)))) = length m"
  by (simp add: frame_def unat_len)

text \<open>While a message is incomplete the reader asks for some of the missing bytes, and for no other.\<close>

lemma recv_request_missing:
  assumes "got @ x = frame m @ y" "length got \<le> length (frame m)" "length m \<le> 2147483648"
  shows "recv_request got \<le> length (frame m) - length got"
    and "recv_request got = 0 \<longleftrightarrow> got = frame m"
proof -
  have got: "got = take (length got) (frame m)"
    using arg_cong [OF assms(1), of "take (length got)"] assms(2) by simp
  have head: "take 12 got = take 12 (frame m)" if "\<not> length got < 12"
    using that by (subst got) simp
  have full: "got = frame m" if "length got = length (frame m)" using got that by simp
  show "recv_request got \<le> length (frame m) - length got"
    using head unat_head_len [OF assms(3)] by (auto simp: recv_request_def)
  show "recv_request got = 0 \<longleftrightarrow> got = frame m"
    using head unat_head_len [OF assms(3)] full assms(2) by (auto simp: recv_request_def)
qed

lemma recv_msg_complete:
  assumes "length m \<le> 2147483648"
  shows "\<exists>as. recv_msg (arrivals_of (frame m)) = Some (Inr m, as) \<and> arrived as = []"
  using recv_msg_frame [of "arrivals_of (frame m)" m "[]"] assms
  by (auto simp: arrivals_of_def)

lemma recvn_ex_blocks: "open_stream as \<Longrightarrow> length (arrived as) < n \<Longrightarrow> recvn_ex n as = None"
  using recvn_loop_blocks [of as n n "[]"] by (simp add: recvn_ex_def recvn_def)

lemma arrivals_of_simps [simp]: "open_stream (arrivals_of got)" "arrived (arrivals_of got) = got"
  by (simp_all add: arrivals_of_def)

lemma recv_msg_incomplete:
  assumes "got @ x = frame m @ y" "length got < length (frame m)" "length m \<le> 2147483648"
  shows "recv_msg (arrivals_of got) = None"
proof (cases "length got < 12")
  case True
  then show ?thesis by (simp add: recv_msg_def recvn_ex_blocks)
next
  case False
  let ?h = "\<lparr>head_magic = msg_magic, head_len = of_nat (length m)\<rparr>"
  have "got = take (length got) (frame m)"
    using arg_cong [OF assms(1), of "take (length got)"] assms(2) by simp
  then have "take 12 got = take 12 (frame m)" using False by (metis take_take min.absorb2 min.commute not_less)
  then have head: "take 12 got = head_bytes ?h" by (simp add: frame_def)
  obtain as where as: "recvn_ex 12 (arrivals_of got) = Some (Inr (head_bytes ?h), as)" "open_stream as"
      "arrived as = drop 12 got"
    using recvn_open [of "arrivals_of got" 12] False head by auto
  have "length (arrived as) < length m" using as(3) assms(2) False by (simp add: less_diff_conv2)
  then have "recvn_ex (length m) as = None" by (rule recvn_ex_blocks [OF as(2)])
  then show ?thesis using as len_not_too_big [OF assms(3)]
    by (simp add: recv_msg_def Let_def unat_len [OF assms(3)])
qed

lemma recv_msg_exact:
  assumes "got @ x = frame m @ y" "length got \<le> length (frame m)" "length m \<le> 2147483648"
    and "recv_msg (arrivals_of got) = Some (r, as)"
  shows "got = frame m \<and> r = Inr m \<and> arrived as = []"
proof -
  have "\<not> length got < length (frame m)" using recv_msg_incomplete [OF assms(1) _ assms(3)] assms(4) by auto
  then have "got = frame m" using assms(1,2) by (metis append_eq_append_conv le_neq_implies_less)
  then show ?thesis using recv_msg_complete [OF assms(3)] assms(4) by auto
qed

section \<open>Handlers on the queues and on the bytes\<close>

lemma outgoing_no_frames_update [simp]:
  "outgoing (peer_side s) (with_incoming s q w) = q" "outgoing s (with_incoming s q w) = outgoing s w"
  "no_frames (with_incoming s q w) = no_frames w"
  by (cases s; simp add: no_frames_def)+

lemma world_of_parts:
  "no_frames v = no_frames w \<Longrightarrow> outgoing s v = outgoing s w \<Longrightarrow>
     outgoing (peer_side s) v = outgoing (peer_side s) w \<Longrightarrow> v = w"
  by (cases v; cases w; cases s) (auto simp: no_frames_def)

lemma client_handler:
  "inbound_on_client flt stack received (no_frames w) = Some (Inr w') \<Longrightarrow>
     \<exists>a b. w' = (no_frames w)\<lparr>to_outbound := [a, b]\<rparr> \<and>
       inbound_on_client flt stack received w = Some (Inr (w\<lparr>to_outbound := to_outbound w @ [a, b]\<rparr>))"
  by (auto simp: inbound_on_client_def Let_def bindR_eq_Inr_iff forwardMessageToOutbound_def dynamic_assert_def
      split: option.splits prod.splits)

lemma server_handler:
  "outbound_on_server flt fd received close_ok (no_frames w) = Some (Inr w') \<Longrightarrow>
     \<exists>a b. w' = (no_frames w)\<lparr>to_inbound := [a, b]\<rparr> \<and>
       outbound_on_server flt fd received close_ok w = Some (Inr (w\<lparr>to_inbound := to_inbound w @ [a, b]\<rparr>))"
  by (auto simp: outbound_on_server_def Let_def bindR_eq_Inr_iff forwardMessageToInbound_def dynamic_assert_def
      del_server_def no_frames_def split: option.splits prod.splits if_splits; blast)

lemma inbound_pipe_handler:
  "inbound_on_ipc ok ((no_frames w)\<lparr>to_inbound := [a, b]\<rparr>) = Some (Inr w') \<Longrightarrow> to_inbound w = a # b # q \<Longrightarrow>
     \<exists>v. inbound_on_ipc ok w = Some (Inr v) \<and> to_inbound v = q \<and> to_outbound v = to_outbound w \<and>
       no_frames v = no_frames w'"
  by (auto simp: inbound_on_ipc_def bindR_eq_Inr_iff no_frames_def)

lemma udp_send_anywhere:
  assumes "udp_send fd msg answers v = Some (Inr w')"
  shows "w' = v\<lparr>sent_to_server := sent_to_server v @ (if msg = [] then [] else [(fd, msg)])\<rparr> \<and>
    (\<forall>w. udp_send fd msg answers w =
       Some (Inr (w\<lparr>sent_to_server := sent_to_server w @ (if msg = [] then [] else [(fd, msg)])\<rparr>)))"
proof -
  from assms obtain wire as where "quick_send msg answers = Some (Inr (), wire, as)"
    by (auto simp: udp_send_def split: option.splits sum.splits)
  moreover from this have "wire = msg" by (simp add: quick_send_def sendn_ex_success)
  ultimately show ?thesis using udp_send_effect [OF assms] by (simp add: udp_send_def)
qed

lemma outbound_pipe_handler:
  "outbound_on_ipc cfg env answers ((no_frames w)\<lparr>to_outbound := [a, b]\<rparr>) = Some (Inr w') \<Longrightarrow>
     to_outbound w = a # b # q \<Longrightarrow>
     \<exists>v. outbound_on_ipc cfg env answers w = Some (Inr v) \<and> to_outbound v = q \<and> to_inbound v = to_inbound w \<and>
       no_frames v = no_frames w'"
  by (auto simp: outbound_on_ipc_def Let_def no_frames_def split: option.splits sum.splits
      dest!: udp_send_anywhere)

text \<open>A datagram handler appends two frames, of which the first is the identifier of a client.\<close>

lemma datagram_handler:
  assumes "handle cfg flt ev (no_frames w) = Some (Inr w')" "\<not> reads_pipe ev" "event_side ev = s"
  shows "\<exists>a b v. outgoing s w' = [a, b] \<and> handle cfg flt ev w = Some (Inr v) \<and>
    outgoing s v = outgoing s w @ [a, b] \<and> outgoing (peer_side s) v = outgoing (peer_side s) w \<and>
    no_frames v = no_frames w'"
  using assms
  by (cases ev) (auto dest!: client_handler server_handler)

lemma pipe_handler:
  assumes "handle cfg flt ev (with_incoming s [a, b] (no_frames w)) = Some (Inr w')"
    and "reads_pipe ev" "event_side ev = s" "outgoing (peer_side s) w = a # b # q"
  shows "\<exists>v. handle cfg flt ev w = Some (Inr v) \<and> outgoing (peer_side s) v = q \<and>
    outgoing s v = outgoing s w \<and> no_frames v = no_frames w'"
  using assms
  by (cases ev) (auto dest: inbound_pipe_handler outbound_pipe_handler)


section \<open>Refinement: the handlers look atomic\<close>

lemma after_send_simps [simp]:
  "received_bytes (after_send rest) = []" "unsent_bytes (after_send rest) = rest"
  "reader_ok (after_send rest) q" "after_send rest \<noteq> Sending []"
  by (simp_all add: after_send_def)

lemma direction_reader:
  assumes "direction_ok cap (peer_side s) c q" "task_of c s = Receiving ms got"
  obtains m q' y where "q = ms @ m # q'" "got @ in_flight c (peer_side s) @ unsent_bytes (task_of c (peer_side s)) =
      frame m @ wire_of q'" "length got \<le> length (frame m)" "length m \<le> 2147483648" "length ms \<le> 1"
  using assms by (auto simp: direction_ok_def)

lemma push_direction:
  assumes "direction_ok cap t c q" "task_of c s = Sending rest" "k \<le> length rest"
    and "length (in_flight c s) + k \<le> cap s"
  shows "direction_ok cap t (c\<lparr>task_of := (task_of c)(s := after_send (drop k rest)),
      in_flight := (in_flight c)(s := in_flight c s @ take k rest)\<rparr>) q"
  using assms side_cases [of t s] by (auto simp: direction_ok_def)

lemma wake_direction:
  assumes "direction_ok cap t c q" "task_of c s = Idle" "in_flight c (peer_side s) \<noteq> []"
  shows "direction_ok cap t (c\<lparr>task_of := (task_of c)(s := Receiving [] [])\<rparr>) q"
  using assms side_cases [of t s] by (cases q) (auto simp: direction_ok_def)

lemma pull_direction:
  assumes dir: "direction_ok cap t c q" and task: "task_of c s = Receiving ms got"
    and k: "k \<le> recv_request got" "k \<le> length (in_flight c (peer_side s))"
  shows "direction_ok cap t
    (c\<lparr>task_of := (task_of c)(s := Receiving ms (got @ take k (in_flight c (peer_side s)))),
       in_flight := (in_flight c)(peer_side s := drop k (in_flight c (peer_side s)))\<rparr>) q"
proof (cases "t = s")
  case True
  then show ?thesis using dir task by (auto simp: direction_ok_def)
next
  case False
  then have t: "t = peer_side s" using side_cases by blast
  obtain m q' where m: "q = ms @ m # q'" "got @ in_flight c t @ unsent_bytes (task_of c t) = frame m @ wire_of q'"
      "length got \<le> length (frame m)" "length m \<le> 2147483648"
    using direction_reader dir task unfolding t by metis
  have "length (got @ take k (in_flight c t)) \<le> length (frame m)"
    using recv_request_missing(1) [OF m(2-4)] k m(3) by simp
  then show ?thesis using dir task m(1) t k(2) by (auto simp: direction_ok_def)
qed

lemma first_direction:
  assumes dir: "direction_ok cap t c q" and task: "task_of c s = Receiving [] got"
    and msg: "recv_msg (arrivals_of got) = Some (Inr m, as)"
  shows "direction_ok cap t (c\<lparr>task_of := (task_of c)(s := Receiving [m] (arrived as))\<rparr>) q"
proof (cases "t = s")
  case True
  then show ?thesis using dir task by (auto simp: direction_ok_def)
next
  case False
  then have t: "t = peer_side s" using side_cases by blast
  obtain m' q' where m: "q = [] @ m' # q'" "got @ in_flight c t @ unsent_bytes (task_of c t) = frame m' @ wire_of q'"
      "length got \<le> length (frame m')" "length m' \<le> 2147483648"
    using direction_reader dir task unfolding t by metis
  from recv_msg_exact [OF m(2-4) msg] have "got = frame m" "m' = m" "arrived as = []" by auto
  moreover from dir m(1) have "q' \<noteq> []" by (auto simp: direction_ok_def)
  ultimately show ?thesis using dir task m(1) t by (cases q') (auto simp: direction_ok_def)
qed

lemma handler_frames:
  assumes "direction_ok cap (peer_side s) c q" "task_of c s = Receiving [a] got"
    and "recv_msg (arrivals_of got) = Some (Inr b, as)"
  shows "\<exists>q'. q = a # b # q' \<and> got = frame b"
proof -
  obtain m q' where m: "q = [a] @ m # q'"
      "got @ in_flight c (peer_side s) @ unsent_bytes (task_of c (peer_side s)) = frame m @ wire_of q'"
      "length got \<le> length (frame m)" "length m \<le> 2147483648"
    using direction_reader assms(1,2) by metis
  from recv_msg_exact [OF m(2-4) assms(3)] m(1) show ?thesis by auto
qed

lemma run_handler_direction:
  assumes "direction_ok cap (peer_side s) c (a # b # q)" "task_of c s = Receiving [a] (frame b)"
  shows "direction_ok cap (peer_side s) (c\<lparr>ps_world := w, task_of := (task_of c)(s := Idle)\<rparr>) q"
    and "direction_ok cap s c q' \<Longrightarrow>
      direction_ok cap s (c\<lparr>ps_world := w, task_of := (task_of c)(s := Idle)\<rparr>) q'"
  using assms by (auto simp: direction_ok_def)

lemma datagram_direction:
  assumes "task_of c s = Idle" "length a \<le> 2147483648" "length b \<le> 2147483648"
  shows "direction_ok cap s c q \<Longrightarrow> direction_ok cap s
      (c\<lparr>ps_world := w, task_of := (task_of c)(s := Sending (wire_of [a, b]))\<rparr>) (q @ [a, b])"
    and "direction_ok cap (peer_side s) c q' \<Longrightarrow> direction_ok cap (peer_side s)
      (c\<lparr>ps_world := w, task_of := (task_of c)(s := Sending (wire_of [a, b]))\<rparr>) q'"
proof -
  have reader: "reader_ok t q \<Longrightarrow> reader_ok t (q @ [a, b])" for t
    by (cases t) auto
  show "direction_ok cap s c q \<Longrightarrow> direction_ok cap s
      (c\<lparr>ps_world := w, task_of := (task_of c)(s := Sending (wire_of [a, b]))\<rparr>) (q @ [a, b])"
    using assms reader by (auto simp: direction_ok_def)
  show "direction_ok cap (peer_side s) c q' \<Longrightarrow> direction_ok cap (peer_side s)
      (c\<lparr>ps_world := w, task_of := (task_of c)(s := Sending (wire_of [a, b]))\<rparr>) q'"
    using assms by (auto simp: direction_ok_def)
qed

lemma all_sides: "(\<forall>t. P t) \<longleftrightarrow> P s \<and> P (peer_side s)"
  using side_cases by metis

lemma pipe_step_simulation:
  assumes "pipe_step cap cfg flt es c c'" "represents cap c w"
  shows "es = [] \<and> represents cap c' w \<or>
    (\<exists>ev w'. es = [ev] \<and> reads_pipe ev \<and> handle cfg flt ev w = Some (Inr w') \<and> represents cap c' w')"
  using assms(1)
proof (cases rule: pipe_step.cases)
  case (run_handler s a got b as ev v)
  have dir: "direction_ok cap t c (outgoing t w)" for t using assms(2) by (simp add: represents_def)
  obtain q where q: "outgoing (peer_side s) w = a # b # q" "got = frame b"
    using handler_frames [OF dir run_handler(3,4)] by blast
  have "handle cfg flt ev (with_incoming s [a, b] (no_frames w)) = Some (Inr v)"
    using run_handler assms(2) by (simp add: represents_def)
  from pipe_handler [OF this run_handler(6,5) q(1)] obtain w' where
    w': "handle cfg flt ev w = Some (Inr w')" "outgoing (peer_side s) w' = q" "outgoing s w' = outgoing s w"
      "no_frames w' = no_frames v"
    by blast
  have "represents cap c' w'"
    using run_handler_direction(1) [of cap s c a b q] run_handler_direction(2) [of cap s c a b q "outgoing s w"]
      dir [of s] dir [of "peer_side s"] run_handler(2,3) q w'
    by (simp add: represents_def all_sides [of _ s])
  then show ?thesis using run_handler w' by blast
qed (use assms(2) in \<open>auto simp: represents_def
  intro: push_direction wake_direction pull_direction first_direction\<close>)


definition short_output :: "filter \<Rightarrow> bool" where
  "short_output flt \<longleftrightarrow> DGRAM_BUFFER_SIZE + 16 * stages flt \<le> 2147483648"

lemma short_conversion:
  assumes "short_output flt" "convertForward flt (take DGRAM_BUFFER_SIZE d) = Inr c \<or>
      convertBackward flt (take DGRAM_BUFFER_SIZE d) = Inr c"
  shows "length c \<le> 2147483648"
proof -
  have "length (take DGRAM_BUFFER_SIZE d) + 16 * stages flt \<le> 2147483648"
    using assms(1) by (simp add: short_output_def min_def)
  moreover from this have "length (take DGRAM_BUFFER_SIZE d) + 16 * stages flt < 2 ^ 64"
    by (rule le_less_trans) simp
  ultimately show ?thesis
    using assms(2) conversion_length [of flt "take DGRAM_BUFFER_SIZE d" c] by (meson add_leD1 order_trans)
qed

lemma datagram_sizes:
  assumes "execution ipcPipe cfg flt evs w" "short_output flt" "admissible ipcPipe ev w"
    and "handle cfg flt ev w = Some (Inr v)" "outgoing s v = outgoing s w @ [a, b]"
    and "\<not> reads_pipe ev" "event_side ev = s"
  shows "length a \<le> 2147483648 \<and> length b \<le> 2147483648"
proof -
  obtain rd rp sd sp where inv: "exec_inv ipcPipe rd rp sd sp w"
    using execution_inv [OF assms(1)] by blast
  show ?thesis
  proof (cases ev)
    case (Client_datagram stack peer datagram)
    then show ?thesis
      using assms short_conversion [OF assms(2), of datagram b] client_id_length [of stack peer]
      by (auto simp: inbound_on_client_def Let_def bindR_eq_Inr_iff forwardMessageToOutbound_def
          sizeof_sock_addr_def)
  next
    case (Server_datagram fd datagram close_ok)
    then obtain c where known: "server2client (connectionMap w) fd = Some c"
      using inv assms(3) by (auto simp: exec_inv_def registered_def)
    moreover from this have "length c = sizeof_sock_addr"
      using inv by (auto simp: exec_inv_def sized_map_def mutual_inverse_def)
    ultimately have c: "server2client (connectionMap w) fd = Some c" "length c = sizeof_sock_addr"
      by auto
    then show ?thesis
      using assms Server_datagram short_conversion [OF assms(2), of datagram b]
      by (auto simp: outbound_on_server_def Let_def bindR_eq_Inr_iff forwardMessageToInbound_def
          dynamic_assert_def del_server_known sizeof_sock_addr_def split: if_splits)
  qed (use assms in auto)
qed

lemma datagram_step_simulation:
  assumes run: "execution ipcPipe cfg flt evs w" "short_output flt"
    and "datagram_step ipcPipe cfg flt ev c c'" "represents cap c w"
  shows "\<exists>w'. admissible ipcPipe ev w \<and> handle cfg flt ev w = Some (Inr w') \<and> represents cap c' w'"
  using assms(3)
proof (cases rule: datagram_step.cases)
  case (arrive s v)
  have "ps_world c = no_frames w" using assms(4) by (simp add: represents_def)
  then have adm: "admissible ipcPipe ev w" and h: "handle cfg flt ev (no_frames w) = Some (Inr v)"
    using arrive by (cases ev; simp)+
  from datagram_handler [OF h arrive(4,3)] obtain a b w' where
    w': "outgoing s v = [a, b]" "handle cfg flt ev w = Some (Inr w')" "outgoing s w' = outgoing s w @ [a, b]"
      "outgoing (peer_side s) w' = outgoing (peer_side s) w" "no_frames w' = no_frames v"
    by blast
  note sizes = datagram_sizes [OF run adm w'(2,3) arrive(4,3)]
  have "represents cap c' w'"
    using datagram_direction [OF arrive(2)] sizes assms(4) w'(3-5) arrive(1)
    by (simp add: represents_def all_sides [of _ s] w'(1) del: wire_of_simps)
  then show ?thesis using adm w'(2) by blast
qed

lemma represents_start: "represents cap (initial_pipe fds) (initial_world fds)"
  by (auto simp: represents_def direction_ok_def initial_pipe_def)

lemma pipe_run_represents:
  assumes "pipe_run cap ipcPipe cfg flt evs c" "short_output flt"
  shows "\<exists>w. execution ipcPipe cfg flt evs w \<and> represents cap c w"
  using assms(1)
proof (induction rule: pipe_run.induct)
  case (start fds)
  then show ?case using execution.start represents_start by blast
next
  case (inside evs c es c')
  then obtain w where w: "execution ipcPipe cfg flt evs w" "represents cap c w" by blast
  show ?case using pipe_step_simulation [OF inside(2) w(2)]
  proof (elim disjE exE conjE)
    fix ev w'
    assume ev: "es = [ev]" "reads_pipe ev" "handle cfg flt ev w = Some (Inr w')" "represents cap c' w'"
    then have "admissible ipcPipe ev w" by (cases ev) auto
    then show ?thesis using execution.step [OF w(1) _ ev(3)] ev(1,4) by blast
  qed (use w in auto)
next
  case (datagram evs c ev c')
  then obtain w where w: "execution ipcPipe cfg flt evs w" "represents cap c w" by blast
  from datagram_step_simulation [OF w(1) assms(2) datagram(2) w(2)] show ?case
    using execution.step [OF w(1)] by blast
qed

section \<open>When no thread can go on\<close>

definition quiescent :: "pipe_system \<Rightarrow> bool" where
  "quiescent c \<longleftrightarrow> (\<forall>s. task_of c s = Idle \<and> in_flight c s = [])"

definition deadlocked :: "(side \<Rightarrow> nat) \<Rightarrow> pipe_system \<Rightarrow> bool" where
  "deadlocked cap c \<longleftrightarrow>
     (\<forall>s. (\<exists>rest. task_of c s = Sending rest \<and> rest \<noteq> []) \<and> length (in_flight c s) = cap s)"

lemma push_possible:
  assumes "task_of c s = Sending rest" "rest \<noteq> []" "length (in_flight c s) < cap s"
  shows "\<exists>es c'. pipe_step cap cfg flt es c c'"
proof -
  have "1 \<le> length rest" using assms(2) by (cases rest) auto
  then show ?thesis using pipe_step.push [OF assms(1), of 1 cap] assms(3) by force
qed

lemma udp_send_possible: "\<exists>answers w'. udp_send fd msg answers w = Some (Inr w')"
proof (cases msg)
  case Nil
  then show ?thesis by (auto simp: udp_send_def quick_send_def sendn_ex_def sendn_def)
next
  case (Cons b rest)
  have "udp_send fd msg [Sent (length msg)] w = Some (Inr (w\<lparr>sent_to_server := sent_to_server w @ [(fd, msg)]\<rparr>))"
    using Cons by (simp add: udp_send_def quick_send_def sendn_ex_def sendn_def)
  then show ?thesis by blast
qed

text \<open>The operating system can make the handler of a complete request succeed.\<close>

definition willing_env :: "nat \<Rightarrow> net_env" where
  "willing_env fd = \<lparr>getaddrinfo = (\<lambda>_ _ _. (0,
      [\<lparr>cand_fd = Some fd, reuseaddr_ok = True, reuseport_ok = True, attach_ok = True\<rparr>])),
     listen_ok = (\<lambda>_. True), wsa_startup = 0\<rparr>"

lemma willing_connect: "fst (quick_connect_posix (willing_env fd) addr port True) = Inr fd"
  by (simp add: quick_connect_posix_def willing_env_def mk_hints_def Let_def)

lemma outbound_handler_possible:
  "\<exists>ev w'. reads_pipe ev \<and> event_side ev = Outbound_side \<and>
     handle cfg flt ev (with_incoming Outbound_side [a, b] w) = Some (Inr w')"
proof (cases "client2server (connectionMap w) a")
  case None
  obtain fd where fd: "fd \<notin> set (out_epoll w)" using ex_new_if_finite [OF infinite_UNIV_nat] by blast
  obtain answers w' where "udp_send fd b answers (w\<lparr>to_outbound := [], out_epoll := out_epoll w @ [fd],
      connectionMap := add a fd (connectionMap w)\<rparr>) = Some (Inr w')"
    using udp_send_possible by blast
  then have "handle cfg flt (Outbound_pipe (willing_env fd) answers)
      (with_incoming Outbound_side [a, b] w) = Some (Inr w')"
    using None fd by (simp add: outbound_on_ipc_def willing_connect epoll_add_fd_def Let_def)
  then show ?thesis by (metis reads_pipe.simps(1) event_side.simps(2))
next
  case (Some fd)
  obtain answers w' where "udp_send fd b answers (w\<lparr>to_outbound := []\<rparr>) = Some (Inr w')"
    using udp_send_possible by blast
  then have "handle cfg flt (Outbound_pipe env answers)
      (with_incoming Outbound_side [a, b] w) = Some (Inr w')" for env
    using Some by (simp add: outbound_on_ipc_def Let_def)
  then show ?thesis by (metis reads_pipe.simps(1) event_side.simps(2))
qed

lemma inbound_handler_possible:
  assumes "exec_inv ipcPipe rd rp sd sp w" "outgoing Outbound_side w = a # b # q"
  shows "\<exists>ev w'. reads_pipe ev \<and> event_side ev = Inbound_side \<and>
     handle cfg flt ev (with_incoming Inbound_side [a, b] v) = Some (Inr w')"
proof -
  obtain s sp' where sp: "sp = s # sp'" "a = the (server2client (connectionMap w) (fst s))"
    using assms by (cases sp) (auto simp: exec_inv_def)
  then obtain c where "server2client (connectionMap w) (fst s) = Some c"
    using assms(1) by (auto simp: exec_inv_def)
  then have "length a = 136" using assms(1) sp(2)
    by (auto simp: exec_inv_def sized_map_def mutual_inverse_def sizeof_sock_addr_def)
  then obtain x where "parseClientId a = Inr x" using make_parse_client_id by blast
  then have "\<exists>w'. handle cfg flt (Inbound_pipe True) (with_incoming Inbound_side [a, b] v) = Some (Inr w')"
    by (simp add: inbound_on_ipc_def dynamic_assert_def)
  then show ?thesis by (metis reads_pipe.simps(2) event_side.simps(4))
qed


lemma receiver_goes_on:
  assumes rep: "represents cap c w" and inv: "exec_inv ipcPipe rd rp sd sp w"
    and cap: "0 < cap (peer_side s)" and task: "task_of c s = Receiving ms got"
  shows "\<exists>es c'. pipe_step cap cfg flt es c c'"
proof -
  let ?p = "peer_side s"
  have dir: "direction_ok cap ?p c (outgoing ?p w)" using rep by (simp add: represents_def)
  obtain m q y where m: "outgoing ?p w = ms @ m # q"
      "got @ in_flight c ?p @ unsent_bytes (task_of c ?p) = frame m @ wire_of q"
      "length got \<le> length (frame m)" "length m \<le> 2147483648" "length ms \<le> 1"
    using direction_reader [OF dir task] by metis
  note missing = recv_request_missing [OF m(2-4)]
  show ?thesis
  proof (cases "recv_request got = 0")
    case True
    then obtain as where as: "recv_msg (arrivals_of got) = Some (Inr m, as)"
      using recv_msg_complete [OF m(4)] missing(2) by auto
    show ?thesis
    proof (cases ms)
      case Nil
      then show ?thesis using pipe_step.first [OF _ as] task by blast
    next
      case (Cons a ms')
      then have ms: "ms = [a]" "outgoing ?p w = a # m # q" using m(1,5) by auto
      have "\<exists>ev w'. reads_pipe ev \<and> event_side ev = s \<and>
          handle cfg flt ev (with_incoming s [a, m] (ps_world c)) = Some (Inr w')"
        using outbound_handler_possible inbound_handler_possible [OF inv] ms(2) by (cases s) auto
      then show ?thesis using pipe_step.run_handler [OF _ as] task ms(1) by blast
    qed
  next
    case False
    show ?thesis
    proof (cases "in_flight c ?p")
      case Nil
      then have "unsent_bytes (task_of c ?p) \<noteq> []" using m(2,3) missing(2) False by auto
      then obtain rest where "task_of c ?p = Sending rest" "rest \<noteq> []" by (cases "task_of c ?p") auto
      then show ?thesis using push_possible [of c ?p rest cap] Nil cap by simp
    next
      case (Cons b bs)
      then show ?thesis using pipe_step.pull [OF task, of 1 cap] False by force
    qed
  qed
qed

lemma thread_goes_on:
  assumes run: "pipe_run cap ipcPipe cfg flt evs c" "short_output flt" and cap: "\<And>s. 0 < cap s"
    and "\<not> quiescent c" "\<not> deadlocked cap c"
  shows "\<exists>es c'. pipe_step cap cfg flt es c c'"
proof -
  obtain w where w: "execution ipcPipe cfg flt evs w" "represents cap c w"
    using pipe_run_represents [OF run] by blast
  obtain rd rp sd sp where inv: "exec_inv ipcPipe rd rp sd sp w"
    using execution_inv [OF w(1)] by blast
  have dir: "direction_ok cap s c (outgoing s w)" for s using w(2) by (simp add: represents_def)
  show ?thesis
  proof (rule ccontr)
    assume stuck: "\<not> ?thesis"
    have not_receiving: "task_of c s \<noteq> Receiving ms got" for s ms got
      using receiver_goes_on [OF w(2) inv cap] stuck by blast
    have idle: "in_flight c (peer_side s) = []" if "task_of c s = Idle" for s
      using pipe_step.wake [of c s cap cfg flt] that stuck by blast
    have full: "length (in_flight c s) = cap s \<and> rest \<noteq> []" if "task_of c s = Sending rest" for s rest
    proof -
      have "rest \<noteq> []" "length (in_flight c s) \<le> cap s" using dir [of s] that by (auto simp: direction_ok_def)
      then show ?thesis using push_possible [OF that, of cap cfg flt] stuck by (meson le_neq_implies_less)
    qed
    have "task_of c s = Idle" if "task_of c (peer_side s) = Idle" for s
      using idle [OF that] full [of s] cap [of s] not_receiving [of s] by (cases "task_of c s") auto
    then have "task_of c s = Idle \<longleftrightarrow> task_of c (peer_side s) = Idle" for s
      by (metis peer_side_simps(1))
    then consider "\<forall>s. task_of c s = Idle" | "\<forall>s. task_of c s \<noteq> Idle"
      using side_cases by metis
    then show False
    proof cases
      case 1
      then have "in_flight c s = []" for s using idle [of "peer_side s"] by simp
      then show ?thesis using 1 assms(4) by (simp add: quiescent_def)
    next
      case 2
      have "\<exists>rest. task_of c s = Sending rest" for s
        using 2 not_receiving [of s] by (cases "task_of c s") auto
      then show ?thesis using full assms(5) by (auto simp: deadlocked_def)
    qed
  qed
qed

lemma quiescent_stops: "quiescent c \<Longrightarrow> \<not> pipe_step cap cfg flt es c c'"
  by (auto simp: quiescent_def elim!: pipe_stepE)

lemma deadlock_stops:
  assumes "deadlocked cap c"
  shows "\<not> pipe_step cap cfg flt es c c'" and "\<not> datagram_step ipcPipe cfg flt ev c c'"
proof -
  have full: "length (in_flight c s) = cap s" for s using assms by (simp add: deadlocked_def)
  have task: "task_of c s \<noteq> Idle" "task_of c s \<noteq> Receiving ms got" for s ms got
    using assms by (auto simp: deadlocked_def) (metis task.distinct)+
  show "\<not> pipe_step cap cfg flt es c c'"
    using full task by (auto elim!: pipe_stepE)
  show "\<not> datagram_step ipcPipe cfg flt ev c c'"
    using task(1) by (auto elim!: datagram_stepE)
qed

section \<open>The work that is left\<close>

text \<open>Every step inside the program uses up some of the work that the bytes on their way are.\<close>

fun task_work :: "task \<Rightarrow> nat" where
  "task_work Idle = 1"
| "task_work (Sending rest) = 4 * length rest"
| "task_work (Receiving ms got) = length got"

definition work :: "pipe_system \<Rightarrow> nat" where
  "work c = task_work (task_of c Inbound_side) + task_work (task_of c Outbound_side) +
     2 * length (in_flight c Inbound_side) + 2 * length (in_flight c Outbound_side)"

lemma work_side:
  "work c = task_work (task_of c s) + task_work (task_of c (peer_side s)) +
     2 * length (in_flight c s) + 2 * length (in_flight c (peer_side s))"
  by (cases s) (simp_all add: work_def)

lemma step_uses_work:
  assumes "pipe_step cap cfg flt es c c'" "represents cap c w"
  shows "work c' < work c"
proof -
  have dir: "direction_ok cap s c (outgoing s w)" for s using assms(2) by (simp add: represents_def)
  have complete: "12 \<le> length got \<and> arrived as = []"
    if task: "task_of c s = Receiving ms got" and msg: "recv_msg (arrivals_of got) = Some (Inr m, as)"
    for s ms got m as
  proof -
    obtain m' q' where "got @ in_flight c (peer_side s) @ unsent_bytes (task_of c (peer_side s)) =
        frame m' @ wire_of q'" "length got \<le> length (frame m')" "length m' \<le> 2147483648"
      using direction_reader [OF dir task] by metis
    from recv_msg_exact [OF this msg] show ?thesis by auto
  qed
  show ?thesis
    using assms(1)
  proof (cases rule: pipe_step.cases)
    case (push s rest k)
    then show ?thesis by (auto simp: work_side [of _ s] after_send_def)
  next
    case (pull s ms got k)
    then show ?thesis by (auto simp: work_side [of _ s])
  next
    case (wake s)
    then show ?thesis by (simp add: work_side [of _ s])
  next
    case (first s got m as)
    then show ?thesis using complete [of s "[]" got m as] by (auto simp: work_side [of _ s])
  next
    case (run_handler s a got b as ev v)
    then show ?thesis using complete [of s "[a]" got b as] by (simp add: work_side [of _ s])
  qed
qed


text \<open>Left alone, the threads go on until they wait for datagrams or for each other.\<close>

fun is_sending :: "task \<Rightarrow> bool" where
  "is_sending (Sending rest) = True"
| "is_sending _ = False"

lemma steps_start_no_send:
  "pipe_step cap cfg flt es c c' \<Longrightarrow> is_sending (task_of c' s) \<Longrightarrow> is_sending (task_of c s)"
  by (auto elim!: pipe_stepE split: if_splits)

lemma pipe_step_reads: "pipe_step cap cfg flt es c c' \<Longrightarrow> list_all reads_pipe es"
  by (auto elim!: pipe_stepE)

lemma threads_come_to_rest:
  assumes "pipe_run cap ipcPipe cfg flt evs c" "short_output flt" "\<And>s. 0 < cap s"
  shows "\<exists>es c'. pipe_run cap ipcPipe cfg flt (evs @ es) c' \<and> list_all reads_pipe es \<and>
    (quiescent c' \<or> deadlocked cap c') \<and>
    (\<forall>s. is_sending (task_of c' s) \<longrightarrow> is_sending (task_of c s))"
  using assms(1)
proof (induction "work c" arbitrary: evs c rule: less_induct)
  case less
  show ?case
  proof (cases "quiescent c \<or> deadlocked cap c")
    case True
    then show ?thesis using less.prems by (intro exI [of _ "[]"] exI [of _ c]) simp
  next
    case False
    then obtain es c1 where step: "pipe_step cap cfg flt es c c1"
      using thread_goes_on [OF less.prems assms(2,3)] by blast
    obtain w where "represents cap c w" using pipe_run_represents [OF less.prems assms(2)] by blast
    then have "work c1 < work c" by (rule step_uses_work [OF step])
    from less.hyps [OF this pipe_run.inside [OF less.prems step]] obtain es' c' where
      c': "pipe_run cap ipcPipe cfg flt ((evs @ es) @ es') c'" "list_all reads_pipe es'"
        "quiescent c' \<or> deadlocked cap c'"
        "\<forall>s. is_sending (task_of c' s) \<longrightarrow> is_sending (task_of c1 s)"
      by blast
    then show ?thesis using pipe_step_reads [OF step] steps_start_no_send [OF step]
      by (intro exI [of _ "es @ es'"] exI [of _ c']) auto
  qed
qed

lemma reads_are_no_requests:
  "list_all reads_pipe es \<Longrightarrow> requests flt (evs @ es) = requests flt evs \<and> replies flt (evs @ es) = replies flt evs"
proof (induction es rule: rev_induct)
  case (snoc ev es)
  then show ?case by (cases ev) (auto simp: requests_def replies_def)
qed simp

text \<open>The bytes that the datagrams of a direction are on the pipe.\<close>

definition pipe_bytes :: "side \<Rightarrow> filter \<Rightarrow> event list \<Rightarrow> nat" where
  "pipe_bytes s flt evs = (case s of
       Inbound_side \<Rightarrow> \<Sum>(c, x)\<leftarrow>requests flt evs. 24 + sizeof_sock_addr + length x
     | Outbound_side \<Rightarrow> \<Sum>(fd, x)\<leftarrow>replies flt evs. 24 + sizeof_sock_addr + length x)"

lemma length_wire_frames:
  "sized_ids rs \<Longrightarrow> length (wire_of (frames rs)) = (\<Sum>(c, x)\<leftarrow>rs. 24 + sizeof_sock_addr + length x)"
  by (induction rs) auto

lemma length_wire_replies:
  "sized_map m \<Longrightarrow> mutual_inverse m \<Longrightarrow> known_servers m rs \<Longrightarrow>
     length (wire_of (reply_frames m rs)) = (\<Sum>(fd, x)\<leftarrow>rs. 24 + sizeof_sock_addr + length x)"
  by (induction rs) (auto simp: sized_map_def mutual_inverse_def)

lemma queue_bytes:
  assumes "execution ipcPipe cfg flt evs w"
  shows "length (wire_of (outgoing s w)) \<le> pipe_bytes s flt evs"
proof -
  obtain rd rp sd sp where inv: "requests flt evs = rd @ rp" "replies flt evs = sd @ sp"
      "exec_inv ipcPipe rd rp sd sp w"
    using execution_inv [OF assms] by blast
  then show ?thesis
    using length_wire_frames [of rp] length_wire_replies [of "connectionMap w" sp]
    by (cases s) (auto simp: exec_inv_def pipe_bytes_def)
qed

lemma no_deadlock_if_fits:
  assumes "pipe_run cap ipcPipe cfg flt evs c" "short_output flt" "pipe_bytes s flt evs \<le> cap s"
  shows "\<not> deadlocked cap c"
proof
  assume dead: "deadlocked cap c"
  obtain w where w: "execution ipcPipe cfg flt evs w" "represents cap c w"
    using pipe_run_represents [OF assms(1,2)] by blast
  have "length (wire_of (outgoing s w)) \<le> cap s" using queue_bytes [OF w(1), of s] assms(3) by simp
  moreover have "direction_ok cap s c (outgoing s w)" using w(2) by (simp add: represents_def)
  moreover obtain rest where "task_of c s = Sending rest" "rest \<noteq> []" "length (in_flight c s) = cap s"
    using dead by (auto simp: deadlocked_def)
  ultimately show False by (auto simp: direction_ok_def)
qed

lemma quiescent_delivered:
  assumes "quiescent c" "represents cap c w"
  shows "to_outbound w = [] \<and> to_inbound w = []"
proof -
  have "wire_of (outgoing s w) = []" for s
    using assms by (auto simp: represents_def direction_ok_def quiescent_def)
  then have "outgoing s w = []" for s by (cases "outgoing s w") (metis, metis append_is_Nil_conv frame_not_Nil wire_of_simps(2))
  from this [of Inbound_side] this [of Outbound_side] show ?thesis by simp
qed

section \<open>A deadlock is reachable\<close>

text \<open>A thread that gets datagram after datagram fills its direction and waits in \<open>send_msg\<close>.\<close>

lemma thread_fills_direction:
  assumes h: "handle cfg flt ev u = Some (Inr w)" "no_frames w = u" "wire_of (outgoing s w) \<noteq> []"
    and ev: "admissible ipcPipe ev u" "event_side ev = s" "\<not> reads_pipe ev"
  shows "pipe_run cap ipcPipe cfg flt evs c \<Longrightarrow> ps_world c = u \<Longrightarrow> task_of c s = Idle \<Longrightarrow>
    length (in_flight c s) \<le> cap s \<Longrightarrow>
    \<exists>evs' c'. pipe_run cap ipcPipe cfg flt evs' c' \<and> ps_world c' = u \<and>
      task_of c' (peer_side s) = task_of c (peer_side s) \<and>
      in_flight c' (peer_side s) = in_flight c (peer_side s) \<and>
      (\<exists>rest. task_of c' s = Sending rest \<and> rest \<noteq> []) \<and> length (in_flight c' s) = cap s"
proof (induction "cap s - length (in_flight c s)" arbitrary: evs c rule: less_induct)
  case less
  let ?W = "wire_of (outgoing s w)" and ?room = "cap s - length (in_flight c s)"
  let ?c1 = "c\<lparr>ps_world := no_frames w, task_of := (task_of c)(s := Sending ?W)\<rparr>"
  have run1: "pipe_run cap ipcPipe cfg flt (evs @ [ev]) ?c1"
    using pipe_run.datagram [OF less.prems(1)] datagram_step.arrive [OF less.prems(3) ev(2,3)] less.prems(2) ev(1) h(1)
    by blast
  have run2: "pipe_run cap ipcPipe cfg flt (evs @ [ev]) (?c1\<lparr>task_of := (task_of ?c1)(s := after_send (drop k ?W)),
      in_flight := (in_flight ?c1)(s := in_flight ?c1 s @ take k ?W)\<rparr>)"
    if "0 < k" "k \<le> length ?W" "k \<le> ?room" for k
    using pipe_run.inside [OF run1 pipe_step.push [of ?c1 s ?W k cap]] that less.prems(4) by simp
  consider "?room = 0" | "0 < ?room" "?room < length ?W" | "0 < ?room" "length ?W \<le> ?room" by linarith
  then show ?case
  proof cases
    case 1
    then show ?thesis using run1 less.prems h(2,3)
      by (intro exI [of _ "evs @ [ev]"] exI [of _ ?c1]) auto
  next
    case 2
    let ?c2 = "?c1\<lparr>task_of := (task_of ?c1)(s := after_send (drop ?room ?W)),
      in_flight := (in_flight ?c1)(s := in_flight ?c1 s @ take ?room ?W)\<rparr>"
    have "pipe_run cap ipcPipe cfg flt (evs @ [ev]) ?c2" using run2 [of ?room] 2 by simp
    then show ?thesis using 2 less.prems h(2)
      by (intro exI [of _ "evs @ [ev]"] exI [of _ ?c2]) (simp add: after_send_def)
  next
    case 3
    let ?c2 = "?c1\<lparr>task_of := (task_of ?c1)(s := Idle), in_flight := (in_flight ?c1)(s := in_flight ?c1 s @ ?W)\<rparr>"
    have "pipe_run cap ipcPipe cfg flt (evs @ [ev]) ?c2"
      using run2 [of "length ?W"] 3 h(3) by (simp add: after_send_def)
    moreover have "0 < length ?W" using h(3) by simp
    then have "cap s - length (in_flight ?c2 s) < cap s - length (in_flight c s)" "length (in_flight ?c2 s) \<le> cap s"
      using 3 by (simp_all del: length_greater_0_conv)
    ultimately show ?thesis using less.hyps [of ?c2 "evs @ [ev]"] less.prems(2) h(2) by simp
  qed
qed

lemma connection_is_made:
  assumes "outbound_setup ipcPipe True = Inr fds" "short_output flt" "\<And>s. 0 < cap s"
    and "convertForward flt (take DGRAM_BUFFER_SIZE d) = Inr x"
  shows "\<exists>evs c fd. pipe_run cap ipcPipe cfg flt evs c \<and> quiescent c \<and> ps_world c = no_frames (ps_world c) \<and>
    fd \<in> set (out_epoll (ps_world c)) \<and> fd \<noteq> ipcPipe \<and> server2client (connectionMap (ps_world c)) fd \<noteq> None"
proof -
  let ?ev = "Client_datagram (replicate 136 0) [] d" and ?c0 = "initial_pipe fds"
  obtain w where w: "handle cfg flt ?ev (initial_world fds) = Some (Inr w)"
    using assms(4) by (simp add: inbound_on_client_def)
  have "datagram_step ipcPipe cfg flt ?ev ?c0 (?c0\<lparr>ps_world := no_frames w,
      task_of := (task_of ?c0)(Inbound_side := Sending (wire_of (outgoing Inbound_side w)))\<rparr>)" (is "datagram_step _ _ _ _ _ ?c1")
    by (rule datagram_step.arrive) (use w in \<open>simp_all add: initial_pipe_def\<close>)
  from pipe_run.datagram [OF pipe_run.start [OF assms(1)] this]
  have run: "pipe_run cap ipcPipe cfg flt [?ev] ?c1" by simp
  obtain es c where c: "pipe_run cap ipcPipe cfg flt ([?ev] @ es) c" "list_all reads_pipe es"
      "quiescent c \<or> deadlocked cap c"
      "\<forall>s. is_sending (task_of c s) \<longrightarrow> is_sending (task_of ?c1 s)"
    using threads_come_to_rest [OF run assms(2,3)] by blast
  have "\<not> is_sending (task_of c Outbound_side)"
    using c(4) by (auto simp: initial_pipe_def)
  then have q: "quiescent c" using c(3) by (auto simp: deadlocked_def) (metis is_sending.simps(1))
  obtain v where v: "execution ipcPipe cfg flt ([?ev] @ es) v" "represents cap c v"
    using pipe_run_represents [OF c(1) assms(2)] by blast
  obtain rd rp sd sp where inv: "requests flt ([?ev] @ es) = rd @ rp" "exec_inv ipcPipe rd rp sd sp v"
    using execution_inv [OF v(1)] by blast
  have "rp = []" using quiescent_delivered [OF q v(2)] inv(2) by (cases rp) (auto simp: exec_inv_def)
  then obtain client where "known_clients (connectionMap v) [(client, x)]"
    using inv assms(4) reads_are_no_requests [OF c(2), of flt "[?ev]"]
    by (auto simp: exec_inv_def requests_def)
  then obtain fd where "client2server (connectionMap v) client = Some fd" by auto
  then have "server2client (connectionMap v) fd \<noteq> None" using inv(2)
    by (simp add: exec_inv_def mutual_inverse_def)
  moreover from this have "fd \<in> set (out_epoll v)" "fd \<noteq> ipcPipe"
    using inv(2) by (auto simp: exec_inv_def registered_def)
  moreover have "ps_world c = no_frames v" using v(2) by (simp add: represents_def)
  ultimately show ?thesis using c(1) q by (metis no_frames_simps(1-3))
qed

text \<open>The shape of a request or reply on the pipe.\<close>

definition well_formed_pair :: "bytes \<times> bytes \<Rightarrow> bool" where
  "well_formed_pair p \<longleftrightarrow> length (fst p) = sizeof_sock_addr \<and> length (snd p) \<le> 2147483648 \<and>
     (case parseClientId (fst p) of Inl e \<Rightarrow> False | Inr a \<Rightarrow> makeClientId a = fst p)"

lemma id_parses: "length c = sizeof_sock_addr \<Longrightarrow> case parseClientId c of Inl e \<Rightarrow> False | Inr a \<Rightarrow> makeClientId a = c"
  using make_parse_client_id [of c] by (auto simp: sizeof_sock_addr_def)

lemma requests_short:
  assumes "short_output flt" "(c, x) \<in> set (requests flt evs)"
  shows "length x \<le> 2147483648"
proof -
  obtain ev where "(c, x) \<in> set (request_of flt ev)" using assms(2) by (auto simp: requests_def)
  then show ?thesis
    by (cases ev) (auto split: sum.splits dest!: sym [of "Inr _"] intro: short_conversion [OF assms(1)])
qed

lemma replies_short:
  assumes "short_output flt" "(fd, x) \<in> set (replies flt evs)"
  shows "length x \<le> 2147483648"
proof -
  obtain ev where "(fd, x) \<in> set (reply_of flt ev)" using assms(2) by (auto simp: replies_def)
  then show ?thesis
    by (cases ev) (auto split: sum.splits dest!: sym [of "Inr _"] intro: short_conversion [OF assms(1)])
qed

text \<open>A client's datagram of which half a frame is in the connection: an execution for the witnesses.\<close>

definition sample_pipe_start :: pipe_system where
  "sample_pipe_start =
     (initial_pipe [5])\<lparr>task_of := (\<lambda>_. Idle)(Inbound_side := Sending (wire_of [sample_client, [1, 2, 3]]))\<rparr>"

definition sample_pipe :: pipe_system where
  "sample_pipe = sample_pipe_start\<lparr>
     task_of := (task_of sample_pipe_start)(Inbound_side :=
       after_send (drop 100 (wire_of [sample_client, [1, 2, 3]]))),
     in_flight := (in_flight sample_pipe_start)(Inbound_side :=
       in_flight sample_pipe_start Inbound_side @ take 100 (wire_of [sample_client, [1, 2, 3]]))\<rparr>"

lemma sample_pipe_run:
  "pipe_run (\<lambda>_. 100) 5 \<lparr>plain_addr = ''::1'', plain_port = 80\<rparr> (ChainedFilters [])
     [Client_datagram (replicate 136 0) [2, 0, 80] [1, 2, 3]] sample_pipe"
proof -
  let ?cfg = "\<lparr>plain_addr = ''::1'', plain_port = 80\<rparr>" and ?flt = "ChainedFilters []"
  let ?ev = "Client_datagram (replicate 136 0) [2, 0, 80] [1, 2, 3]"
  let ?w = "(initial_world [5])\<lparr>to_outbound := [sample_client, [1, 2, 3]]\<rparr>"
  have "outbound_setup 5 True = Inr [5]"
    by (simp add: outbound_setup_def dynamic_assert_def epoll_add_fd_def)
  note start = pipe_run.start [OF this, of "\<lambda>_. 100" ?cfg ?flt]
  have "handle ?cfg ?flt ?ev (initial_world [5]) = Some (Inr ?w)"
    by (simp add: inbound_on_client_def DGRAM_BUFFER_SIZE_def forwardMessageToOutbound_def
        sample_client_def initial_world_def)
  then have "datagram_step 5 ?cfg ?flt ?ev (initial_pipe [5]) ((initial_pipe [5])\<lparr>ps_world := no_frames ?w,
      task_of := (task_of (initial_pipe [5]))(Inbound_side := Sending (wire_of (outgoing Inbound_side ?w)))\<rparr>)"
    by (intro datagram_step.arrive) (simp_all add: initial_pipe_def)
  also have "(initial_pipe [5])\<lparr>ps_world := no_frames ?w,
      task_of := (task_of (initial_pipe [5]))(Inbound_side := Sending (wire_of (outgoing Inbound_side ?w)))\<rparr> =
      sample_pipe_start"
    by (simp add: sample_pipe_start_def initial_pipe_def)
  finally have run: "pipe_run (\<lambda>_. 100) 5 ?cfg ?flt [?ev] sample_pipe_start"
    using pipe_run.datagram [OF start] by simp
  have "length sample_client = 136"
    unfolding sample_client_def by (subst client_id_length) (simp_all add: sizeof_sock_addr_def)
  then have "pipe_step (\<lambda>_. 100) ?cfg ?flt [] sample_pipe_start sample_pipe"
    unfolding sample_pipe_def
    by (intro pipe_step.push) (simp_all add: sample_pipe_start_def initial_pipe_def)
  from pipe_run.inside [OF run this] show ?thesis by simp
qed

lemma sample_pipe_short: "short_output (ChainedFilters [])"
  by (simp add: short_output_def DGRAM_BUFFER_SIZE_def)

section \<open>Properties\<close>

text \<open>C5: The bounded pipe refines the unbounded one: in every state that the two threads reach over
  connections of any capacity, blocked in the middle of a message or not, the events whose
  handlers have run or begun are an execution in which every handler is one step, and the bytes
  read, in transit and unsent are the frames of its queues.\<close>

theorem bounded_pipe_refines:
  assumes "pipe_run cap ipcPipe cfg flt evs c" "short_output flt"
  shows "\<exists>w. execution ipcPipe cfg flt evs w \<and> ps_world c = no_frames w \<and>
    (\<forall>s. length (in_flight c s) \<le> cap s \<and>
      wire_of (outgoing s w) = received_bytes (task_of c (peer_side s)) @ in_flight c s @ unsent_bytes (task_of c s))"
  using pipe_run_represents [OF assms] by (auto simp: represents_def direction_ok_def)

lemma bounded_pipe_refines_witness:
  "\<exists>(w :: world) evs. execution 5 \<lparr>plain_addr = ''::1'', plain_port = 80\<rparr> (ChainedFilters []) evs w \<and>
     ps_world sample_pipe = no_frames w \<and> length (in_flight sample_pipe Inbound_side) \<le> 100"
  using bounded_pipe_refines [OF sample_pipe_run sample_pipe_short] by blast

text \<open>C6: The threads stop for two reasons only: every datagram is delivered, or each of them waits
  in \<open>send_msg\<close> for the other to read, with both directions full. Until then some thread can
  go on, and every step uses up work, so without new datagrams they come to one of these states.
  The second is impossible as long as the bytes that one of the two directions has got from its
  datagrams fit into its buffers: then no state that the threads reach by reading, in this run or in
  any other run with the same datagrams, is one.\<close>

theorem pipe_stops_empty_or_deadlocked:
  assumes "pipe_run cap ipcPipe cfg flt evs c" "short_output flt" "\<forall>s. 0 < cap s"
  shows "((\<nexists>es c'. pipe_step cap cfg flt es c c') \<longleftrightarrow> quiescent c \<or> deadlocked cap c) \<and>
    (\<forall>es c'. pipe_step cap cfg flt es c c' \<longrightarrow> work c' < work c) \<and>
    (\<exists>es c'. pipe_run cap ipcPipe cfg flt (evs @ es) c' \<and> list_all reads_pipe es \<and>
      (quiescent c' \<or> deadlocked cap c' \<and> (\<forall>s. cap s < pipe_bytes s flt evs))) \<and>
    ((\<exists>s. pipe_bytes s flt evs \<le> cap s) \<longrightarrow>
      (\<forall>es c'. pipe_run cap ipcPipe cfg flt (evs @ es) c' \<longrightarrow> list_all reads_pipe es \<longrightarrow> \<not> deadlocked cap c'))"
proof (intro conjI)
  have fits: "\<not> deadlocked cap c'" if "pipe_bytes s flt evs \<le> cap s"
      "pipe_run cap ipcPipe cfg flt (evs @ es) c'" "list_all reads_pipe es" for s es c'
    using no_deadlock_if_fits [OF that(2) assms(2), of s] that(1) reads_are_no_requests [OF that(3), of flt evs]
    by (cases s) (simp_all add: pipe_bytes_def)
  then show "(\<exists>s. pipe_bytes s flt evs \<le> cap s) \<longrightarrow>
      (\<forall>es c'. pipe_run cap ipcPipe cfg flt (evs @ es) c' \<longrightarrow> list_all reads_pipe es \<longrightarrow> \<not> deadlocked cap c')"
    by blast
  obtain w where rep: "represents cap c w" using pipe_run_represents [OF assms(1,2)] by blast
  show "(\<nexists>es c'. pipe_step cap cfg flt es c c') \<longleftrightarrow> quiescent c \<or> deadlocked cap c"
    using thread_goes_on [OF assms(1,2)] assms(3) quiescent_stops deadlock_stops(1) by metis
  show "\<forall>es c'. pipe_step cap cfg flt es c c' \<longrightarrow> work c' < work c"
    using step_uses_work [OF _ rep] by blast
  obtain es c' where c': "pipe_run cap ipcPipe cfg flt (evs @ es) c'" "list_all reads_pipe es"
      "quiescent c' \<or> deadlocked cap c'"
    using threads_come_to_rest [OF assms(1,2)] assms(3) by blast
  moreover have "cap s < pipe_bytes s flt evs" if "deadlocked cap c'" for s
    using fits [OF _ c'(1,2)] that by (meson not_le)
  ultimately show "\<exists>es c'. pipe_run cap ipcPipe cfg flt (evs @ es) c' \<and> list_all reads_pipe es \<and>
      (quiescent c' \<or> deadlocked cap c' \<and> (\<forall>s. cap s < pipe_bytes s flt evs))"
    by blast
qed

lemma pipe_stops_empty_or_deadlocked_witness:
  "\<exists>evs c. pipe_run (\<lambda>_. 100) 5 \<lparr>plain_addr = ''::1'', plain_port = 80\<rparr> (ChainedFilters []) evs c \<and> quiescent c"
proof -
  have none: "pipe_bytes Outbound_side (ChainedFilters [])
      [Client_datagram (replicate 136 0) [2, 0, 80] [1, 2, 3]] = 0"
    by (simp add: pipe_bytes_def replies_def)
  have "\<forall>s :: side. 0 < (100 :: nat)" by simp
  from pipe_stops_empty_or_deadlocked [OF sample_pipe_run sample_pipe_short this] none show ?thesis
    by (metis not_less0)
qed

text \<open>C7: The two threads can wait for each other forever: whatever the buffers hold, enough
  datagrams from a client and from the next hop fill both directions while neither thread reads,
  and then nothing happens any more, whatever arrives.\<close>

theorem pipe_can_deadlock:
  assumes "\<forall>s. 0 < cap s" "short_output flt" "outbound_setup ipcPipe True = Inr fds"
    and "convertForward flt (take DGRAM_BUFFER_SIZE request) = Inr x"
    and "convertBackward flt (take DGRAM_BUFFER_SIZE reply) = Inr y" "reply \<noteq> []"
  shows "\<exists>evs c. pipe_run cap ipcPipe cfg flt evs c \<and> deadlocked cap c \<and>
    (\<nexists>es c'. pipe_step cap cfg flt es c c') \<and> (\<nexists>ev c'. datagram_step ipcPipe cfg flt ev c c')"
proof -
  obtain evs c fd where c: "pipe_run cap ipcPipe cfg flt evs c" "quiescent c"
      "ps_world c = no_frames (ps_world c)" "fd \<in> set (out_epoll (ps_world c))" "fd \<noteq> ipcPipe"
      "server2client (connectionMap (ps_world c)) fd \<noteq> None"
    using connection_is_made [OF assms(3,2) _ assms(4)] assms(1) by blast
  let ?u = "ps_world c" and ?in = "Client_datagram (replicate 136 0) [] request"
    and ?out = "Server_datagram fd reply True"
  obtain w1 where w1: "handle cfg flt ?in ?u = Some (Inr w1)" "no_frames w1 = ?u" "to_outbound w1 \<noteq> []"
    using assms(4) c(3) by (auto simp: inbound_on_client_def forwardMessageToOutbound_def)
  obtain w2 where w2: "handle cfg flt ?out ?u = Some (Inr w2)" "no_frames w2 = ?u" "to_inbound w2 \<noteq> []"
    using assms(5,6) c(3,6)
    by (auto simp: outbound_on_server_def forwardMessageToInbound_def dynamic_assert_def DGRAM_BUFFER_SIZE_def)
  have wire: "wire_of (outgoing Inbound_side w1) \<noteq> []" "wire_of (outgoing Outbound_side w2) \<noteq> []"
    using w1(3) w2(3) by (cases "to_outbound w1"; cases "to_inbound w2"; simp)+
  have idle: "task_of c s = Idle" "in_flight c s = []" for s using c(2) by (simp_all add: quiescent_def)
  obtain evs1 c1 where c1: "pipe_run cap ipcPipe cfg flt evs1 c1" "ps_world c1 = ?u"
      "task_of c1 Outbound_side = Idle" "in_flight c1 Outbound_side = []"
      "\<exists>rest. task_of c1 Inbound_side = Sending rest \<and> rest \<noteq> []" "length (in_flight c1 Inbound_side) = cap Inbound_side"
    using thread_fills_direction [OF w1(1,2) wire(1), of ipcPipe cap evs c] c(1) idle by auto
  obtain evs2 c2 where c2: "pipe_run cap ipcPipe cfg flt evs2 c2"
      "task_of c2 Inbound_side = task_of c1 Inbound_side" "in_flight c2 Inbound_side = in_flight c1 Inbound_side"
      "\<exists>rest. task_of c2 Outbound_side = Sending rest \<and> rest \<noteq> []" "length (in_flight c2 Outbound_side) = cap Outbound_side"
    using thread_fills_direction [OF w2(1,2) wire(2), of ipcPipe cap evs1 c1] c1 c(4,5) by auto
  have "deadlocked cap c2"
    unfolding deadlocked_def all_sides [of _ Inbound_side] using c1(5,6) c2 by simp
  then show ?thesis using c2(1) deadlock_stops by blast
qed

lemma pipe_can_deadlock_witness:
  "\<exists>evs c. pipe_run (\<lambda>_. 4096) 5 \<lparr>plain_addr = ''::1'', plain_port = 80\<rparr> (ChainedFilters []) evs c \<and>
     deadlocked (\<lambda>_. 4096) c"
proof -
  have "outbound_setup 5 True = Inr [5]"
    by (simp add: outbound_setup_def dynamic_assert_def epoll_add_fd_def)
  from pipe_can_deadlock [OF _ sample_pipe_short this, where cap = "\<lambda>_. 4096" and
      request = "[1]" and reply = "[2]" and x = "take DGRAM_BUFFER_SIZE [1]" and
      y = "take DGRAM_BUFFER_SIZE [2]" and cfg = "\<lparr>plain_addr = ''::1'', plain_port = 80\<rparr>"]
  show ?thesis by auto
qed

text \<open>C8: Every value of the protocol has its shape, in every reachable state: the frames in either
  direction are pairs of a client identifier, which has the size of an address object and parses,
  and a message that \<open>recv_msg\<close> accepts; the mapping pairs identifiers of that size with
  registered sockets other than the pipe, and has an entry for each of them.\<close>

theorem world_well_formed:
  assumes "execution ipcPipe cfg flt evs w" "short_output flt"
  shows "(\<exists>ps. to_outbound w = frames ps \<and> list_all well_formed_pair ps) \<and>
    (\<exists>ps. to_inbound w = frames ps \<and> list_all well_formed_pair ps) \<and>
    (\<forall>c fd. client2server (connectionMap w) c = Some fd \<longrightarrow>
       length c = sizeof_sock_addr \<and> fd \<in> set (out_epoll w) \<and> fd \<noteq> ipcPipe) \<and>
    (\<forall>fd \<in> set (out_epoll w). fd \<noteq> ipcPipe \<longrightarrow> (\<exists>c. client2server (connectionMap w) c = Some fd))"
proof -
  obtain rd rp sd sp where inv: "requests flt evs = rd @ rp" "replies flt evs = sd @ sp"
      "exec_inv ipcPipe rd rp sd sp w"
    using execution_inv [OF assms(1)] by blast
  note parts = inv(3) [unfolded exec_inv_def]
  have sized: "length c = sizeof_sock_addr" if "server2client (connectionMap w) fd = Some c" for fd c
    using parts that by (auto simp: sized_map_def mutual_inverse_def)
  have pair: "well_formed_pair (c, x)" if "length c = sizeof_sock_addr" "length x \<le> 2147483648" for c x
    using that id_parses [OF that(1)] by (auto simp: well_formed_pair_def split: sum.splits)
  have "well_formed_pair (c, x)" if "(c, x) \<in> set rp" for c x
    using that parts inv(1) by (intro pair requests_short [OF assms(2), of c x evs]) (auto simp: sized_ids_def list_all_iff)
  then have "list_all well_formed_pair rp" by (auto simp: list_all_iff)
  moreover have "well_formed_pair (the (server2client (connectionMap w) fd), x)" if m: "(fd, x) \<in> set sp" for fd x
  proof -
    obtain c where "server2client (connectionMap w) fd = Some c"
      using parts m by (auto simp: known_servers_def list_all_iff)
    moreover have "length x \<le> 2147483648" using m inv(2) by (intro replies_short [OF assms(2), of fd x evs]) simp
    ultimately show ?thesis using sized pair by simp
  qed
  then have "list_all well_formed_pair (map (\<lambda>(fd, x). (the (server2client (connectionMap w) fd), x)) sp)"
    by (auto simp: list_all_iff)
  ultimately show ?thesis
    using parts sized by (auto simp: reply_frames_def registered_def mutual_inverse_def)
qed

lemma world_well_formed_witness:
  "\<exists>ps. to_inbound sample_world = frames ps \<and> list_all well_formed_pair ps"
proof -
  have "short_output (ChainedFilters [])" by (rule sample_pipe_short)
  from world_well_formed [OF sample_execution this] show ?thesis by blast
qed

end
