(* ===== verification/Printing.thy ===== *)
theory Printing
  imports Rstring
begin

text \<open>
  Printing: the functions of \<open>src/src/lib/rlib/stdio.hpp\<close>, the terminal fonts of
  \<open>src/src/lib/rlib/terminal.hpp\<close> and the repeated calls of \<open>src/src/lib/rlib/functional.hpp\<close>.

  A stream is the text written to it and the number of times it was flushed. The arguments of
  the variadic functions are already rendered to text by their stream operators. The end of a
  line depends on the operating system, and whether it flushes on a setting of the program.
\<close>

section \<open>Streams and ends of lines\<close>

datatype os_t = UNKNOWN | WINDOWS | LINUX | MACOS | BSD | IOS | ANDROID | UNIX

definition RLIB_IMPL_ENDLINE :: "os_t \<Rightarrow> string" where
  "RLIB_IMPL_ENDLINE os =
     (if os = WINDOWS then [CHR 0x0D, CHR 0x0A] else if os = MACOS then [CHR 0x0D] else [CHR 0x0A])"

record out_stream =
  written :: string
  flushes :: nat

definition write_text :: "string \<Rightarrow> out_stream \<Rightarrow> out_stream" where
  "write_text s os = os\<lparr>written := written os @ s\<rparr>"

text \<open>The setting of the program: the operating system it runs on and the flag for flushing.\<close>

record print_env =
  env_os :: os_t
  endl_flush :: bool

definition enable_endl_flush :: "bool \<Rightarrow> print_env \<Rightarrow> bool \<times> print_env" where
  "enable_endl_flush enable env = (enable, env\<lparr>endl_flush := enable\<rparr>)"

definition endl :: "print_env \<Rightarrow> out_stream \<Rightarrow> out_stream" where
  "endl env os =
     (let os = write_text (RLIB_IMPL_ENDLINE (env_os env)) os
      in if endl_flush env then os\<lparr>flushes := flushes os + 1\<rparr> else os)"

section \<open>print, println, printf, printfln, scanln\<close>

text \<open>\<open>print\<close> needs an argument: without one no overload applies.\<close>

fun print :: "string list \<Rightarrow> out_stream \<Rightarrow> out_stream" where
  "print [] os = os"
| "print [reqArg] os = write_text reqArg os"
| "print (reqArgs # optiArgs) os = print optiArgs (write_text '' '' (write_text reqArgs os))"

definition println :: "print_env \<Rightarrow> string list \<Rightarrow> out_stream \<Rightarrow> out_stream" where
  "println env optiArgs os = (if optiArgs = [] then endl env os else endl env (print optiArgs os))"

definition printf :: "string \<Rightarrow> string list \<Rightarrow> out_stream \<Rightarrow> (nat \<times> out_stream) result" where
  "printf fmt args os =
     bindR (format_string fmt args) (\<lambda>to_print. Inr (length to_print, print [to_print] os))"

definition printfln :: "print_env \<Rightarrow> string \<Rightarrow> string list \<Rightarrow> out_stream \<Rightarrow> (nat \<times> out_stream) result" where
  "printfln env fmt args os =
     bindR (printf fmt args os) (\<lambda>(len, os). Inr (len + 1, println env [] os))"

definition print_printable_iter :: "string list \<Rightarrow> string \<Rightarrow> out_stream \<Rightarrow> out_stream" where
  "print_printable_iter arg spliter os =
     fold (\<lambda>val os. write_text spliter (write_text val os)) arg os"

definition printable_iter :: "string list \<Rightarrow> out_stream \<Rightarrow> out_stream" where
  "printable_iter arg os = print_printable_iter arg '' '' os"

text \<open>
  \<open>std::getline\<close> takes the characters up to the delimiter, which it removes, or up to the end of
  the input. The value is the line and the input that is left.
\<close>

fun scanln :: "char \<Rightarrow> string \<Rightarrow> string \<times> string" where
  "scanln delimiter [] = ([], [])"
| "scanln delimiter (c # rest) =
     (if c = delimiter then ([], rest)
      else let (line, rest) = scanln delimiter rest in (c # line, rest))"

section \<open>Fonts of the terminal\<close>

datatype color_t = color_unset | black | red | green | brown | blue | magenta | cyan | lightgray
datatype font_t = font_unset | bold | underline | dark | background | striked

fun color_to_int :: "color_t \<Rightarrow> nat" where
  "color_to_int color_unset = 10"
| "color_to_int black = 0"
| "color_to_int red = 1"
| "color_to_int green = 2"
| "color_to_int brown = 3"
| "color_to_int blue = 4"
| "color_to_int magenta = 5"
| "color_to_int cyan = 6"
| "color_to_int lightgray = 7"

fun font_to_int :: "font_t \<Rightarrow> nat" where
  "font_to_int font_unset = 0"
| "font_to_int bold = 1"
| "font_to_int underline = 4"
| "font_to_int dark = 2"
| "font_to_int background = 7"
| "font_to_int striked = 9"

record fontInfo =
  textColor :: color_t
  fontType :: font_t
  font_clear :: bool

definition fontInfo_default :: fontInfo where
  "fontInfo_default = \<lparr>textColor = color_unset, fontType = font_unset, font_clear = False\<rparr>"

definition fontInfo_of :: "color_t \<Rightarrow> font_t \<Rightarrow> fontInfo" where
  "fontInfo_of text_color font_type = fontInfo_default\<lparr>textColor := text_color, fontType := font_type\<rparr>"

definition fontInfo_clear :: fontInfo where
  "fontInfo_clear = fontInfo_default\<lparr>font_clear := True\<rparr>"

definition color_to_char :: "color_t \<Rightarrow> char" where
  "color_to_char ct = (if ct = color_unset then CHR 0x00 else char_of (48 + color_to_int ct))"

definition font_to_char :: "font_t \<Rightarrow> char" where
  "font_to_char ft = (if ft = font_unset then CHR 0x00 else char_of (48 + font_to_int ft))"

definition color_to_string :: "fontInfo \<Rightarrow> string" where
  "color_to_string f =
     (if textColor f = color_unset then [] else [CHR 0x1B, CHR ''['', CHR ''3'', color_to_char (textColor f), CHR ''m''])"

definition font_to_string :: "fontInfo \<Rightarrow> string" where
  "font_to_string f =
     (if fontType f = font_unset then [] else [CHR 0x1B, CHR ''['', font_to_char (fontType f), CHR ''m''])"

definition fontInfo_toString :: "os_t \<Rightarrow> fontInfo \<Rightarrow> string" where
  "fontInfo_toString os f =
     (if os = WINDOWS then []
      else if font_clear f then [CHR 0x1B, CHR ''['', CHR ''0'', CHR ''m'']
      else color_to_string f @ font_to_string f)"

section \<open>Repeated calls\<close>

text \<open>
  A function that is called for its effect takes and returns the state, which includes the stored
  arguments: they are forwarded to every call, and a call may move from them. \<open>count - 1\<close> is computed
  on \<open>size_t\<close>; \<open>repeat\<close> refuses the count for which it would wrap around.
\<close>

fun call_times :: "nat \<Rightarrow> ('s \<Rightarrow> 'r \<times> 's) \<Rightarrow> 's \<Rightarrow> 's" where
  "call_times 0 f s = s"
| "call_times (Suc n) f s = call_times n f (snd (f s))"

definition repeated_func :: "u64 \<Rightarrow> ('s \<Rightarrow> 'r \<times> 's) \<Rightarrow> 's \<Rightarrow> 'r \<times> 's" where
  "repeated_func count f s = f (call_times (unat (count - 1)) f s)"

definition repeat :: "u64 \<Rightarrow> ('s \<Rightarrow> 'r \<times> 's) \<Rightarrow> ('s \<Rightarrow> 'r \<times> 's) result" where
  "repeat count f =
     (if count = 0 then Inl (Invalid_argument ''Can not repeat for zero times.'')
      else Inr (repeated_func count f))"

fun return_list_loop :: "nat \<Rightarrow> ('s \<Rightarrow> 'r \<times> 's) \<Rightarrow> 'r list \<Rightarrow> 's \<Rightarrow> 'r list \<times> 's" where
  "return_list_loop 0 f ret s = (ret, s)"
| "return_list_loop (Suc n) f ret s = (let (r, s) = f s in return_list_loop n f (ret @ [r]) s)"

definition repeated_func_return_list :: "u64 \<Rightarrow> ('s \<Rightarrow> 'r \<times> 's) \<Rightarrow> 's \<Rightarrow> 'r list \<times> 's" where
  "repeated_func_return_list count f s =
     (if count = 0 then ([], s) else return_list_loop (unat count) f [] s)"

section \<open>What the functions print\<close>

lemma write_text_simps [simp]:
  "written (write_text s os) = written os @ s" "flushes (write_text s os) = flushes os"
  by (simp_all add: write_text_def)

lemma print_Cons: "args \<noteq> [] \<Longrightarrow> print (a # args) os = print args (write_text '' '' (write_text a os))"
  by (cases args) simp_all

lemma written_print: "written (print args os) = written os @ join '' '' args \<and> flushes (print args os) = flushes os"
proof (induction args arbitrary: os)
  case (Cons a args)
  then show ?case by (cases args) (simp_all add: join_Cons2 join_Cons [of _ _ "[]"] print_Cons del: print.simps(3))
qed simp

lemma written_println:
  "written (println env args os) = written os @ join '' '' args @ RLIB_IMPL_ENDLINE (env_os env)"
  by (simp add: println_def endl_def written_print Let_def)

lemma flushes_println: "flushes (println env args os) = flushes os + (if endl_flush env then 1 else 0)"
  by (simp add: println_def endl_def written_print Let_def)

lemma printf_eq:
  "printf fmt args os = bindR (format_string fmt args) (\<lambda>s. Inr (length s, write_text s os))"
  by (simp add: printf_def)

text \<open>The returned count is that of the characters written, except on Windows, where the end of a
  line has two.\<close>

lemma printfln_counts:
  assumes "printfln env fmt args os = Inr (n, os')"
  shows "length (written os') = length (written os) + n + (if env_os env = WINDOWS then 1 else 0)"
proof -
  obtain s where "os' = println env [] (write_text s os)" "n = length s + 1"
    using assms by (auto simp: printfln_def printf_eq bindR_eq_Inr_iff)
  then show ?thesis by (simp add: written_println RLIB_IMPL_ENDLINE_def)
qed

lemma printable_iter_eq:
  "written (print_printable_iter vals spliter os) = written os @ concat (map (\<lambda>v. v @ spliter) vals)"
  by (induction vals arbitrary: os) (simp_all add: print_printable_iter_def)

text \<open>A printed line is read back, where the end of a line is the delimiter.\<close>

lemma scanln_line: "d \<notin> set line \<Longrightarrow> scanln d (line @ d # rest) = (line, rest)"
  by (induction line) auto

lemma println_scanln:
  assumes "env_os env \<notin> {WINDOWS, MACOS}" "CHR 0x0A \<notin> set (join '' '' args)" "written os = []"
  shows "scanln (CHR 0x0A) (written (println env args os) @ rest) = (join '' '' args, rest)"
  using assms scanln_line [OF assms(2)] by (simp add: written_println RLIB_IMPL_ENDLINE_def)

section \<open>Fonts and repeated calls\<close>

lemma color_to_char_inject: "color_to_char c = color_to_char d \<longleftrightarrow> c = d"
  by (cases c; cases d) (simp_all add: color_to_char_def char_of_def)

lemma font_to_char_inject: "font_to_char c = font_to_char d \<longleftrightarrow> c = d"
  by (cases c; cases d) (simp_all add: font_to_char_def char_of_def)

lemma fontInfo_toString_inject:
  assumes "os \<noteq> WINDOWS" "\<not> font_clear f" "\<not> font_clear g"
  shows "fontInfo_toString os f = fontInfo_toString os g \<longleftrightarrow> textColor f = textColor g \<and> fontType f = fontType g"
  using assms
  by (auto simp: fontInfo_toString_def color_to_string_def font_to_string_def color_to_char_inject
      font_to_char_inject split: if_splits)

lemma repeat_calls:
  assumes "repeat count f = Inr g"
  shows "count \<noteq> 0 \<and> snd (g s) = call_times (unat count) f s"
proof -
  have snoc: "call_times (Suc n) f s = snd (f (call_times n f s))" for n s
    by (induction n arbitrary: s) simp_all
  have c: "count \<noteq> 0" "g = repeated_func count f" using assms by (auto simp: repeat_def split: if_splits)
  then have "unat count = Suc (unat (count - 1))" by (simp add: unat_minus_one unat_gt_0)
  then show ?thesis using c snoc [of "unat (count - 1)" s] by (simp add: repeated_func_def)
qed

lemma return_list_calls:
  "return_list_loop n f ret s = (ret @ map (\<lambda>i. fst (f (call_times i f s))) [0..<n], call_times n f s)"
proof (induction n arbitrary: ret s)
  case (Suc n)
  have "[0..<Suc n] = 0 # map Suc [0..<n]" by (simp add: map_Suc_upt upt_conv_Cons del: upt_Suc)
  then show ?case using Suc by (simp add: case_prod_beta Let_def o_def)
qed simp

text \<open>A call that moves from its stored argument leaves nothing for the next one.\<close>

lemma repeat_forwards_once:
  "repeat 2 (\<lambda>(arg, out). ((), ([], out @ [arg]))) = Inr g \<Longrightarrow> snd (g (''x'', [])) = ([], [''x'', []])"
  by (auto simp: repeat_def repeated_func_def)


end
