(* ===== verification/Build_Config.thy ===== *)
theory Build_Config
  imports Printing
begin

text \<open>
  What is decided when the program is compiled: the operating system and the language version of
  \<open>src/src/lib/rlib/sys/os.hpp\<close>, as functions of the macros the compiler predefines, and the
  constant arrays of \<open>src/src/lib/rlib/meta.hpp\<close>. \<open>None\<close> is a program that does not compile.
\<close>

section \<open>The operating system\<close>

text \<open>
  The predefined macros with their values; \<open>#if\<close> takes an undefined macro as 0. On an Apple system
  the system's own header defines the macros \<open>TARGET_...\<close>, which are the argument \<open>target\<close>.
\<close>

type_synonym macros = "(string \<times> nat) list"

definition is_defined :: "macros \<Rightarrow> string \<Rightarrow> bool" where
  "is_defined ms m = (map_of ms m \<noteq> None)"

definition macro_value :: "macros \<Rightarrow> string \<Rightarrow> nat" where
  "macro_value ms m = (case map_of ms m of None \<Rightarrow> 0 | Some v \<Rightarrow> v)"

definition RLIB_OS_ID :: "macros \<Rightarrow> macros \<Rightarrow> os_t" where
  "RLIB_OS_ID ms target =
     (if is_defined ms ''_Windows'' \<or> is_defined ms ''__WIN32__'' \<or> is_defined ms ''_WIN64'' \<or>
         is_defined ms ''WIN32'' then WINDOWS
      else if is_defined ms ''__linux__'' \<or> is_defined ms ''__linux'' then LINUX
      else if is_defined ms ''__APPLE__'' then
        (if macro_value target ''TARGET_IPHONE_SIMULATOR'' \<noteq> 0 then IOS
         else if macro_value target ''TARGET_OS_IPHONE'' \<noteq> 0 then IOS
         else if macro_value target ''TARGET_OS_MAC'' \<noteq> 0 then MACOS
         else UNKNOWN)
      else if is_defined ms ''__OS_ANDROID__'' then ANDROID
      else if is_defined ms ''__unix__'' \<or> is_defined ms ''__unix'' then UNIX
      else UNKNOWN)"

fun OS_ID :: "os_t \<Rightarrow> nat" where
  "OS_ID WINDOWS = 990823 + 1"
| "OS_ID LINUX = 990823 + 2"
| "OS_ID MACOS = 990823 + 3"
| "OS_ID BSD = 990823 + 4"
| "OS_ID IOS = 990823 + 5"
| "OS_ID ANDROID = 990823 + 6"
| "OS_ID UNIX = 990823 + 7"
| "OS_ID UNKNOWN = 990823 + 8"

text \<open>The year of the language standard; an old Microsoft compiler reports a wrong one.\<close>

definition RLIB_CXX_STD :: "macros \<Rightarrow> bool \<Rightarrow> nat" where
  "RLIB_CXX_STD ms compiler_is_msvc =
     (if is_defined ms ''__cplusplus'' then
        (if compiler_is_msvc then
           (if macro_value ms ''__cplusplus'' = 199711 then 2017 else macro_value ms ''__cplusplus'' div 100)
         else macro_value ms ''__cplusplus'' div 100)
      else 0)"

lemma OS_ID_inject: "OS_ID a = OS_ID b \<longleftrightarrow> a = b"
  by (cases a; cases b) simp_all

text \<open>BSD is never detected, and Android only where the compiler does not say that it is Linux.\<close>

lemma os_detection:
  "RLIB_OS_ID ms target \<noteq> BSD"
  "RLIB_OS_ID ms target = ANDROID \<Longrightarrow> \<not> is_defined ms ''__linux__'' \<and> \<not> is_defined ms ''__linux''"
  by (auto simp: RLIB_OS_ID_def split: if_splits)

section \<open>Constant arrays\<close>

text \<open>\<open>at_last\<close> looks for the element with \<open>index\<close> others behind it; the recursion ends in an empty
  pack, for which there is no template.\<close>

fun at_last_impl :: "nat \<Rightarrow> 'a list \<Rightarrow> 'a option" where
  "at_last_impl index [] = None"
| "at_last_impl index (first_ele # arr) =
     (if length arr = index then Some first_ele else at_last_impl index arr)"

definition at_last :: "nat \<Rightarrow> 'a list \<Rightarrow> 'a option" where
  "at_last index arr = at_last_impl index arr"

text \<open>The subtraction is on \<open>size_t\<close>.\<close>

definition meta_at :: "u64 \<Rightarrow> 'a list \<Rightarrow> 'a option" where
  "meta_at index arr = at_last (unat (of_nat (length arr) - index - 1 :: u64)) arr"

lemma at_last_eq: "at_last index arr = (if index < length arr then Some (rev arr ! index) else None)"
  unfolding at_last_def
proof (induction arr)
  case (Cons a arr)
  then show ?case by (auto simp: nth_append less_Suc_eq)
qed simp

lemma meta_at_eq:
  assumes "length arr < 2 ^ 64"
  shows "meta_at index arr = (if unat index < length arr then Some (arr ! unat index) else None)"
proof (cases "unat index < length arr")
  case True
  have "(of_nat (length arr) - index - 1 :: u64) = of_nat (length arr - unat index - 1)"
    using True by (simp add: of_nat_diff)
  then have "unat (of_nat (length arr) - index - 1 :: u64) = length arr - unat index - 1"
    using assms by (simp add: unat_of_nat)
  then show ?thesis using True by (simp add: meta_at_def at_last_eq rev_nth)
next
  case False
  let ?d = "unat index + 1 - length arr"
  have "unat index < 2 ^ LENGTH(64)" by (rule unsigned_less)
  then have d: "0 < ?d" "?d + length arr \<le> 2 ^ 64" using False by simp_all
  have "(of_nat (2 ^ 64 - ?d) :: u64) = of_nat (2 ^ 64) - of_nat ?d"
    using d(2) by (intro of_nat_diff) linarith
  also have "\<dots> = of_nat (length arr) - index - 1" using False by (simp add: of_nat_diff)
  finally have "unat (of_nat (length arr) - index - 1 :: u64) = unat (of_nat (2 ^ 64 - ?d) :: u64)" by simp
  also have "\<dots> = 2 ^ 64 - ?d" using d(1) by (simp add: unat_of_nat)
  finally have "unat (of_nat (length arr) - index - 1 :: u64) = 2 ^ 64 - ?d" .
  then have "length arr \<le> unat (of_nat (length arr) - index - 1 :: u64)" using d(2) by linarith
  then show ?thesis using False by (simp add: meta_at_def at_last_eq)
qed

end
