(* ===== verification/Forwarder.thy ===== *)
theory Forwarder
  imports Plain_Protocol Opt_Parser Logger Build_Config
begin

text \<open>
  The program as a whole: the \<open>Forwarder\<close> of \<open>src/src/forwarder.hpp\<close>, which builds the two
  protocol ends and the filter chain from their configurations, and \<open>main\<close> of
  \<open>src/src/main.cc\<close>, which reads them from the command line.
\<close>

section \<open>The forwarder\<close>

record forwarder =
  fwd_inbound :: plain_config
  fwd_outbound :: plain_config
  fwd_filter :: filter

text \<open>
  The class behind a configuration. The name \<open>dynport\<close> is recognised but leaves a null
  pointer, on which the code then calls a virtual function.
\<close>

definition select_protocol :: "string \<Rightarrow> string \<Rightarrow> unit result" where
  "select_protocol which config =
     (if starts_with config ''plain'' then Inr ()
      else if starts_with config ''dynport''
      then Inl (Undefined_behaviour ''virtual call on a null pointer'')
      else Inl (Invalid_argument (''Unknown protocol in '' @ which @ '' '' @ config)))"

definition Forwarder_new ::
  "(string \<Rightarrow> u64) \<Rightarrow> string \<Rightarrow> string \<Rightarrow> string list \<Rightarrow> forwarder result" where
  "Forwarder_new hash inboundConfig outboundConfig filterConfigs =
     bindR (select_protocol ''inboundConfig'' inboundConfig) (\<lambda>_.
     bindR (PlainInbound_loadConfig inboundConfig) (\<lambda>ptrInbound.
     bindR (select_protocol ''outboundConfig'' outboundConfig) (\<lambda>_.
     bindR (PlainOutbound_loadConfig outboundConfig) (\<lambda>ptrOutbound.
     bindR (mapR (CreateFilterFromConfig hash) filterConfigs) (\<lambda>chainedFilters.
       Inr \<lparr>fwd_inbound = ptrInbound, fwd_outbound = ptrOutbound,
            fwd_filter = ChainedFilters chainedFilters\<rparr>)))))"

text \<open>
  \<open>runForever\<close> starts the two threads: the inbound creates the pipe and hands its other end to
  the outbound. The value is what the inbound listens on and the world both threads start in.
\<close>

definition runForever ::
  "forwarder \<Rightarrow> net_env \<Rightarrow> nat \<times> nat \<Rightarrow> bool \<Rightarrow> bool \<Rightarrow> (inbound_fds \<times> nat list \<times> world) result" where
  "runForever fwd env pipe_fds in_epoll_ok out_epoll_ok =
     bindR (inbound_setup (fwd_inbound fwd) env pipe_fds in_epoll_ok) (\<lambda>(fds, in_epoll, out_ipc).
     bindR (outbound_setup out_ipc out_epoll_ok) (\<lambda>out_fds.
       Inr (fds, in_epoll, initial_world out_fds)))"

section \<open>Main\<close>

datatype main_outcome =
    Help_shown "string list"
  | Runs log_level_t forwarder

definition parse_log_level :: "string \<Rightarrow> log_level_t result" where
  "parse_log_level lv =
     (if lv = ''error'' then Inr ERROR
      else if lv = ''info'' then Inr INFO
      else if lv = ''verbose'' then Inr VERBOSE
      else if lv = ''debug'' then Inr DEBUG
      else Inl (Runtime_error (''Unknown log level: '' @ lv)))"

definition help_lines :: "string \<Rightarrow> string list result" where
  "help_lines self =
     bindR (format_string
       ''Usage: {} -i $InboundConfig -o $OutboundConfig [--filter $filterConfig ...] [--log=error/info/verbose/debug]''
       [self]) (\<lambda>usage. Inr
       [usage,
        ''  InboundConfig and OutboundConfig are in this format: '',
        ''  '$method@$params', available methods: '',
        ''  'plain@$addr@$port', 'misc@$addr@$portRange@$psk'' @ [CHR 0x27],
        ''There could be multiple --filter, but they MUST be in correct order. '',
        ''available filters: 'aes@$password' , 'xor@$password', 'reverse@$otherFilter'' @ [CHR 0x27]])"

text \<open>The loop over \<open>--filter\<close>: it ends at the first missing or empty value.\<close>

function filter_configs :: "opt_parser \<Rightarrow> (string list \<times> opt_parser) result" where
  "filter_configs args =
     bindR (getValueArg ''--filter'' False [] args) (\<lambda>(filterConfig, args).
       if filterConfig \<noteq> []
       then bindR (filter_configs args) (\<lambda>(rest, args). Inr (filterConfig # rest, args))
       else Inr ([], args))"
  by pat_completeness auto
termination
  by (relation "measure (\<lambda>args. length (opt_args args))") (auto dest: getValueArg_shorter)

declare filter_configs.simps [simp del]

definition real_main :: "(string \<Rightarrow> u64) \<Rightarrow> string option \<Rightarrow> string list \<Rightarrow> main_outcome result" where
  "real_main hash argv0 argv_rest =
     bindR (opt_parser_new argv0 argv_rest) (\<lambda>args.
     bindR (getBoolArg2 ''--help'' ''-h'' args) (\<lambda>(help, args).
     if help then bindR (help_lines (getSelf args)) (\<lambda>ls. Inr (Help_shown ls))
     else
       bindR (getValueArg ''-i'' True [] args) (\<lambda>(inboundConfig, args).
       bindR (getValueArg ''-o'' True [] args) (\<lambda>(outboundConfig, args).
       bindR (getValueArg ''--log'' False ''info'' args) (\<lambda>(lv, args).
       bindR (parse_log_level lv) (\<lambda>level.
       bindR (filter_configs args) (\<lambda>(filterConfigs, args).
       bindR (Forwarder_new hash inboundConfig outboundConfig filterConfigs) (\<lambda>fwd.
         Inr (Runs level fwd)))))))))"

text \<open>
  How the program ends, if it does: with an exit code (and, of the wrapper, what it has reported), or by
  \<open>std::terminate\<close>, which runs for an exception that leaves \<open>main\<close>; undefined behaviour is neither.
\<close>

datatype program_end =
    Exit_code nat string
  | Aborted string
  | Runs_forever log_level_t forwarder
  | No_meaning string

definition what_of :: "error \<Rightarrow> string" where
  "what_of e = (case e of
       Invalid_argument m \<Rightarrow> m | Runtime_error m \<Rightarrow> m | Out_of_range m \<Rightarrow> m | Logic_error m \<Rightarrow> m
     | Overflow_error m \<Rightarrow> m | Undefined_behaviour m \<Rightarrow> m | Terminated \<Rightarrow> [])"

text \<open>The wrapper catches every exception of the standard library, reports it and exits with code 2.\<close>

definition windows_main :: "(string \<Rightarrow> u64) \<Rightarrow> string option \<Rightarrow> string list \<Rightarrow> program_end" where
  "windows_main hash argv0 argv_rest =
     (case real_main hash argv0 argv_rest of
        Inr (Help_shown ls) \<Rightarrow> Exit_code 0 []
      | Inr (Runs level fwd) \<Rightarrow> Runs_forever level fwd
      | Inl (Undefined_behaviour m) \<Rightarrow> No_meaning m
      | Inl Terminated \<Rightarrow> Aborted []
      | Inl e \<Rightarrow> Exit_code 2 (what_of e))"

text \<open>
  Which function the macros make \<open>main\<close>: on Windows the wrapper, elsewhere \<open>real_main\<close> itself, whose
  exceptions nobody catches.
\<close>

definition program_main :: "os_t \<Rightarrow> (string \<Rightarrow> u64) \<Rightarrow> string option \<Rightarrow> string list \<Rightarrow> program_end" where
  "program_main os hash argv0 argv_rest =
     (if os = WINDOWS then windows_main hash argv0 argv_rest
      else
        case real_main hash argv0 argv_rest of
          Inr (Help_shown ls) \<Rightarrow> Exit_code 0 []
        | Inr (Runs level fwd) \<Rightarrow> Runs_forever level fwd
        | Inl (Undefined_behaviour m) \<Rightarrow> No_meaning m
        | Inl e \<Rightarrow> Aborted (what_of e))"

section \<open>Lemmas\<close>

lemma getBoolArg_absent:
  assumes "n \<notin> set as"
  shows "getBoolArg n \<lparr>opt_args = as, opt_arg0 = z\<rparr> = Inr (False, \<lparr>opt_args = as, opt_arg0 = z\<rparr>)"
proof -
  have "List.find (\<lambda>i. as ! i = n) [0..<length as] = None"
    using assms by (auto simp: find_None_iff)
  then show ?thesis by (simp add: getBoolArg_def)
qed

lemma match_filter_values:
  "match_arg n ''--filter'' = None \<Longrightarrow> list_all (\<lambda>f. match_arg n f = None) fs \<Longrightarrow>
     list_all (\<lambda>e. match_arg n e = None) (concat (map (\<lambda>f. [''--filter'', f]) fs))"
  by (induction fs) auto

lemma filter_configs_in_order:
  "list_all (\<lambda>f. f \<noteq> []) fs \<Longrightarrow>
     filter_configs \<lparr>opt_args = concat (map (\<lambda>f. [''--filter'', f]) fs), opt_arg0 = z\<rparr> =
       Inr (fs, \<lparr>opt_args = [], opt_arg0 = z\<rparr>)"
proof (induction fs)
  case Nil
  then show ?case by (simp add: filter_configs.simps [of "\<lparr>opt_args = [], opt_arg0 = z\<rparr>"] getValueArg_absent)
next
  case (Cons f fs)
  have "getValueArg ''--filter'' False []
      \<lparr>opt_args = [] @ ''--filter'' # f # concat (map (\<lambda>f. [''--filter'', f]) fs), opt_arg0 = z\<rparr> =
    Inr (f, \<lparr>opt_args = [] @ concat (map (\<lambda>f. [''--filter'', f]) fs), opt_arg0 = z\<rparr>)"
    by (rule getValueArg_found_next) simp
  with Cons show ?case by (subst filter_configs.simps) simp
qed

text \<open>An argument that is neither a help flag nor taken for one of the options.\<close>

definition ordinary_arg :: "string \<Rightarrow> bool" where
  "ordinary_arg a \<longleftrightarrow> a \<noteq> [] \<and> a \<noteq> ''--help'' \<and> a \<noteq> ''-h'' \<and> match_arg ''--log'' a = None"

lemma real_main_no_log:
  assumes "ic \<noteq> ''--help''" "ic \<noteq> ''-h''" "oc \<noteq> ''--help''" "oc \<noteq> ''-h''" "list_all ordinary_arg fs"
  shows "real_main hash (Some self) ([''-i'', ic, ''-o'', oc] @ concat (map (\<lambda>f. [''--filter'', f]) fs)) =
    bindR (Forwarder_new hash ic oc fs) (\<lambda>fwd. Inr (Runs INFO fwd))"
proof -
  let ?fs = "concat (map (\<lambda>f. [''--filter'', f]) fs)"
  have h: "''--help'' \<notin> set ?fs" "''-h'' \<notin> set ?fs"
    using assms(5) by (auto simp: ordinary_arg_def list_all_iff)
  have log: "list_all (\<lambda>e. match_arg ''--log'' e = None) ?fs"
    using assms(5) by (intro match_filter_values) (auto simp: ordinary_arg_def list_all_iff match_arg_def)
  have f: "list_all (\<lambda>f. f \<noteq> []) fs" using assms(5) by (auto simp: ordinary_arg_def list_all_iff)
  have "getBoolArg2 ''--help'' ''-h'' \<lparr>opt_args = ''-i'' # ic # ''-o'' # oc # ?fs, opt_arg0 = self\<rparr> =
      Inr (False, \<lparr>opt_args = ''-i'' # ic # ''-o'' # oc # ?fs, opt_arg0 = self\<rparr>)"
    using assms(1-4) h by (simp add: getBoolArg2_def getBoolArg_absent)
  moreover have "getValueArg ''-i'' True [] \<lparr>opt_args = ''-i'' # ic # ''-o'' # oc # ?fs, opt_arg0 = self\<rparr> =
      Inr (ic, \<lparr>opt_args = ''-o'' # oc # ?fs, opt_arg0 = self\<rparr>)"
    using getValueArg_found_next [of "''-i''" "[]"] by simp
  moreover have "getValueArg ''-o'' True [] \<lparr>opt_args = ''-o'' # oc # ?fs, opt_arg0 = self\<rparr> =
      Inr (oc, \<lparr>opt_args = ?fs, opt_arg0 = self\<rparr>)"
    using getValueArg_found_next [of "''-o''" "[]"] by simp
  moreover have "getValueArg ''--log'' False ''info'' \<lparr>opt_args = ?fs, opt_arg0 = self\<rparr> =
      Inr (''info'', \<lparr>opt_args = ?fs, opt_arg0 = self\<rparr>)"
    using getValueArg_absent [OF log] by simp
  ultimately show ?thesis
    using filter_configs_in_order [OF f, of self]
    by (simp add: real_main_def opt_parser_new_def parse_log_level_def)
qed

lemma starts_with_append: "starts_with (p @ s) p"
  by (simp add: starts_with_prefix)

lemma plain_selected: "starts_with config ''plain'' \<Longrightarrow> select_protocol which config = Inr ()"
  by (simp add: select_protocol_def)

section \<open>Properties\<close>

text \<open>C22: The command line of a forwarder. With an inbound option, an outbound option and then any number
  of filter options, where no configuration is a help flag and no filter configuration is empty or
  taken for the option \<open>--log\<close>, the program runs with exactly these configurations, the filters in the
  order of the command line, at the default log level. An error in a configuration ends it: on Windows
  with exit code 2, on every other system by the exception that leaves \<open>main\<close>.\<close>

theorem main_runs_configuration:
  assumes "ic \<noteq> ''--help''" "ic \<noteq> ''-h''" "oc \<noteq> ''--help''" "oc \<noteq> ''-h''" "list_all ordinary_arg fs"
  shows "program_main os hash (Some self)
      ([''-i'', ic, ''-o'', oc] @ concat (map (\<lambda>f. [''--filter'', f]) fs)) =
    (case Forwarder_new hash ic oc fs of
       Inr fwd \<Rightarrow> Runs_forever INFO fwd
     | Inl (Undefined_behaviour m) \<Rightarrow> No_meaning m
     | Inl Terminated \<Rightarrow> Aborted []
     | Inl e \<Rightarrow> if os = WINDOWS then Exit_code 2 (what_of e) else Aborted (what_of e))"
  using real_main_no_log [OF assms, of hash self]
  by (cases "Forwarder_new hash ic oc fs")
    (auto simp: program_main_def windows_main_def what_of_def split: error.split)

lemma main_runs_configuration_witness:
  "program_main LINUX (\<lambda>_. 0) (Some ''udp'')
     ([''-i'', ''x'', ''-o'', ''y''] @ concat (map (\<lambda>f. [''--filter'', f]) [''aes@p''])) =
     Aborted ''Unknown protocol in inboundConfig x''"
proof -
  have "Forwarder_new (\<lambda>_. 0) ''x'' ''y'' [''aes@p''] = Inl (Invalid_argument ''Unknown protocol in inboundConfig x'')"
    by (simp add: Forwarder_new_def select_protocol_def starts_with_prefix)
  then show ?thesis
    by (subst main_runs_configuration) (simp_all add: ordinary_arg_def match_arg_def what_of_def)
qed

text \<open>C23: The construction of the forwarder: two well-formed plain configurations and accepted
  filter options give the forwarder with these ends and the chain of these filters in order. A
  configuration of the announced protocol \<open>dynport\<close> has no defined behaviour, whatever follows.\<close>

theorem forwarder_construction:
  assumes "CHR ''@'' \<notin> set a1" "CHR ''@'' \<notin> set a2" "p1 < 2 ^ 64" "p2 < 2 ^ 64"
    and "mapR (CreateFilterFromConfig hash) configs = Inr fs"
  shows "Forwarder_new hash (''plain@'' @ a1 @ ''@'' @ to_string p1) (''plain@'' @ a2 @ ''@'' @ to_string p2) configs =
      Inr \<lparr>fwd_inbound = \<lparr>plain_addr = a1, plain_port = of_nat p1\<rparr>,
           fwd_outbound = \<lparr>plain_addr = a2, plain_port = of_nat p2\<rparr>, fwd_filter = ChainedFilters fs\<rparr> \<and>
    Forwarder_new hash (''dynport'' @ rest) oc configs =
      Inl (Undefined_behaviour ''virtual call on a null pointer'')"
proof -
  have load: "PlainInbound_loadConfig (''plain@'' @ a @ ''@'' @ to_string n) =
      Inr \<lparr>plain_addr = a, plain_port = of_nat n\<rparr>" if "CHR ''@'' \<notin> set a" "n < 2 ^ 64" for a n
    using plain_config_joined [of "''plain''" a n] that by (simp add: join_Cons)
  have out: "PlainOutbound_loadConfig c = PlainInbound_loadConfig c" for c
    by (simp add: PlainInbound_loadConfig_def PlainOutbound_loadConfig_def)
  have "starts_with (''plain@'' @ c) ''plain''" "\<not> starts_with (''dynport'' @ rest) ''plain''"
      "starts_with (''dynport'' @ rest) ''dynport''" for c
    by (simp_all add: starts_with_prefix)
  then show ?thesis
    using load [OF assms(1,3)] load [OF assms(2,4)] assms(5) unfolding Forwarder_new_def out select_protocol_def
    by simp
qed

lemma forwarder_construction_witness:
  "Forwarder_new (\<lambda>_. 7) (''plain@'' @ ''::1'' @ ''@'' @ to_string 80) (''plain@'' @ ''h'' @ ''@'' @ to_string 81) [''aes@'' @ ''p''] =
     Inr \<lparr>fwd_inbound = \<lparr>plain_addr = ''::1'', plain_port = of_nat 80\<rparr>,
          fwd_outbound = \<lparr>plain_addr = ''h'', plain_port = of_nat 81\<rparr>,
          fwd_filter = ChainedFilters [AESFilter (le_bytes 8 7 @ le_bytes 8 7)]\<rparr>"
proof -
  have "mapR (CreateFilterFromConfig (\<lambda>_. 7)) [''aes@'' @ ''p''] = Inr [AESFilter (le_bytes 8 7 @ le_bytes 8 7)]"
    using aes_key_from_hash [of "''p''" "\<lambda>_. 7"] by simp
  then show ?thesis by (intro forwarder_construction [THEN conjunct1]) simp_all
qed

end
