(* ===== verification/Sha256.thy ===== *)
theory Sha256
  imports Prelude
begin

text \<open>
  The hash library \<open>src/src/lib/picosha2.h\<close>: the compression function of SHA-256 as the code
  computes it, in words of 64 bits that are masked to 32, the class \<open>hash256_one_by_one\<close> that
  hashes a message in pieces, and the functions for a whole message and for hexadecimal output.
  Behind them stands the published definition of SHA-256 over words of 32 bits.

  \<open>word_t\<close> is \<open>unsigned long\<close>, with the 64 bits it has on the POSIX hosts of the program.
\<close>

unbundle bit_operations_syntax

section \<open>The compression function\<close>

definition mask_8bit :: "byte \<Rightarrow> byte" where
  "mask_8bit x = x AND 0xff"

definition mask_32bit :: "u64 \<Rightarrow> u64" where
  "mask_32bit x = x AND 0xffffffff"

definition add_constant :: "u64 list" where
  "add_constant = concat
  [[0x428a2f98, 0x71374491, 0xb5c0fbcf, 0xe9b5dba5, 0x3956c25b, 0x59f111f1],
   [0x923f82a4, 0xab1c5ed5, 0xd807aa98, 0x12835b01, 0x243185be, 0x550c7dc3],
   [0x72be5d74, 0x80deb1fe, 0x9bdc06a7, 0xc19bf174, 0xe49b69c1, 0xefbe4786],
   [0x0fc19dc6, 0x240ca1cc, 0x2de92c6f, 0x4a7484aa, 0x5cb0a9dc, 0x76f988da],
   [0x983e5152, 0xa831c66d, 0xb00327c8, 0xbf597fc7, 0xc6e00bf3, 0xd5a79147],
   [0x06ca6351, 0x14292967, 0x27b70a85, 0x2e1b2138, 0x4d2c6dfc, 0x53380d13],
   [0x650a7354, 0x766a0abb, 0x81c2c92e, 0x92722c85, 0xa2bfe8a1, 0xa81a664b],
   [0xc24b8b70, 0xc76c51a3, 0xd192e819, 0xd6990624, 0xf40e3585, 0x106aa070],
   [0x19a4c116, 0x1e376c08, 0x2748774c, 0x34b0bcb5, 0x391c0cb3, 0x4ed8aa4a],
   [0x5b9cca4f, 0x682e6ff3, 0x748f82ee, 0x78a5636f, 0x84c87814, 0x8cc70208],
   [0x90befffa, 0xa4506ceb, 0xbef9a3f7, 0xc67178f2]]"

definition initial_message_digest :: "u64 list" where
  "initial_message_digest =
  [0x6a09e667, 0xbb67ae85, 0x3c6ef372, 0xa54ff53a, 0x510e527f, 0x9b05688c, 0x1f83d9ab, 0x5be0cd19]"

definition ch :: "u64 \<Rightarrow> u64 \<Rightarrow> u64 \<Rightarrow> u64" where
  "ch x y z = (x AND y) XOR (NOT x AND z)"

definition maj :: "u64 \<Rightarrow> u64 \<Rightarrow> u64 \<Rightarrow> u64" where
  "maj x y z = (x AND y) XOR (x AND z) XOR (y AND z)"

text \<open>The asserted bound on the distance holds at every call: the distances are constants.\<close>

definition rotr :: "u64 \<Rightarrow> nat \<Rightarrow> u64" where
  "rotr x n = mask_32bit (drop_bit n x OR push_bit (32 - n) x)"

definition bsig0 :: "u64 \<Rightarrow> u64" where
  "bsig0 x = rotr x 2 XOR rotr x 13 XOR rotr x 22"

definition bsig1 :: "u64 \<Rightarrow> u64" where
  "bsig1 x = rotr x 6 XOR rotr x 11 XOR rotr x 25"

definition shr :: "u64 \<Rightarrow> nat \<Rightarrow> u64" where
  "shr x n = drop_bit n x"

definition ssig0 :: "u64 \<Rightarrow> u64" where
  "ssig0 x = rotr x 7 XOR rotr x 18 XOR shr x 3"

definition ssig1 :: "u64 \<Rightarrow> u64" where
  "ssig1 x = rotr x 17 XOR rotr x 19 XOR shr x 10"

text \<open>The two loops that fill the array \<open>w\<close>.\<close>

definition load_word :: "bytes \<Rightarrow> nat \<Rightarrow> u64 list \<Rightarrow> u64 list" where
  "load_word block i w =
     w[i := push_bit 24 (ucast (mask_8bit (block ! (i * 4))))
         OR push_bit 16 (ucast (mask_8bit (block ! (i * 4 + 1))))
         OR push_bit 8 (ucast (mask_8bit (block ! (i * 4 + 2))))
         OR ucast (mask_8bit (block ! (i * 4 + 3)))]"

definition extend_word :: "nat \<Rightarrow> u64 list \<Rightarrow> u64 list" where
  "extend_word i w =
     w[i := mask_32bit (ssig1 (w ! (i - 2)) + w ! (i - 7) + ssig0 (w ! (i - 15)) + w ! (i - 16))]"

definition message_words :: "bytes \<Rightarrow> u64 list" where
  "message_words block =
     fold extend_word [16..<64] (fold (load_word block) [0..<16] (replicate 64 0))"

text \<open>The working variables \<open>a\<close> to \<open>h\<close>, and one pass of the loop over the 64 rounds.\<close>

type_synonym 'w working = "'w \<times> 'w \<times> 'w \<times> 'w \<times> 'w \<times> 'w \<times> 'w \<times> 'w"

fun sha_round :: "u64 list \<Rightarrow> nat \<Rightarrow> u64 working \<Rightarrow> u64 working" where
  "sha_round w i (a, b, c, d, e, f, g, h) =
     (let temp1 = h + bsig1 e + ch e f g + add_constant ! i + w ! i;
          temp2 = bsig0 a + maj a b c
      in (mask_32bit (temp1 + temp2), a, b, c, mask_32bit (d + temp1), e, f, g))"

definition hash256_block :: "bytes \<Rightarrow> u64 list \<Rightarrow> u64 list" where
  "hash256_block block digest =
     (let w = message_words block;
          (a, b, c, d, e, f, g, h) = fold (sha_round w) [0..<64]
            (digest ! 0, digest ! 1, digest ! 2, digest ! 3, digest ! 4, digest ! 5, digest ! 6, digest ! 7)
      in map mask_32bit
          [digest ! 0 + a, digest ! 1 + b, digest ! 2 + c, digest ! 3 + d,
           digest ! 4 + e, digest ! 5 + f, digest ! 6 + g, digest ! 7 + h])"

section \<open>Hashing in pieces\<close>

record hash256_one_by_one =
  msg_buffer :: bytes
  data_length_digits :: "u64 list"
  msg_digest :: "u64 list"

definition hasher_init :: hash256_one_by_one where
  "hasher_init =
     \<lparr>msg_buffer = [], data_length_digits = replicate 4 0, msg_digest = initial_message_digest\<rparr>"

text \<open>The loop over the length digits, which stops at the first one without a carry.\<close>

fun carry_digits :: "u64 list \<Rightarrow> u64 \<Rightarrow> u64 list" where
  "carry_digits [] carry = []"
| "carry_digits (d # ds) carry =
     (let d = d + carry in
      if d \<ge> 65536 then (d AND 65535) # carry_digits ds (drop_bit 16 d) else d # ds)"

definition add_to_data_length :: "u64 \<Rightarrow> hash256_one_by_one \<Rightarrow> hash256_one_by_one" where
  "add_to_data_length n s =
     (let digits = data_length_digits s in
      s\<lparr>data_length_digits := carry_digits (digits[0 := digits ! 0 + n]) 0\<rparr>)"

function process_loop :: "nat \<Rightarrow> bytes \<Rightarrow> u64 list \<Rightarrow> u64 list \<times> nat" where
  "process_loop i buffer h =
     (if i + 64 \<le> length buffer
      then process_loop (i + 64) buffer (hash256_block (take 64 (drop i buffer)) h)
      else (h, i))"
  by pat_completeness auto

termination process_loop
  by (relation "measure (\<lambda>(i, buffer, h). length buffer - i)") auto

declare process_loop.simps [simp del]

definition hasher_process :: "bytes \<Rightarrow> hash256_one_by_one \<Rightarrow> hash256_one_by_one" where
  "hasher_process chunk s =
     (let s = add_to_data_length (of_nat (length chunk)) s;
          buffer = msg_buffer s @ chunk;
          (h, i) = process_loop 0 buffer (msg_digest s)
      in s\<lparr>msg_digest := h, msg_buffer := drop i buffer\<rparr>)"

fun shift_digits :: "u64 list \<Rightarrow> u64 \<Rightarrow> u64 list" where
  "shift_digits [] carry = []"
| "shift_digits (d # ds) carry =
     ((push_bit 3 d OR carry) AND 65535) # shift_digits ds (drop_bit (16 - 3) d AND 65535)"

definition data_bit_length :: "u64 list \<Rightarrow> bytes" where
  "data_bit_length digits =
     concat (map (\<lambda>d. [ucast (drop_bit 8 d), ucast d]) (rev (shift_digits digits 0)))"

text \<open>
  \<open>finish\<close> works in an array of 64 bytes. Copying the rest of the message into it, and setting
  the byte behind, stays inside only when fewer than 64 bytes are left.
\<close>

definition hasher_finish :: "hash256_one_by_one \<Rightarrow> hash256_one_by_one result" where
  "hasher_finish s =
     (let temp = replicate 64 0; remains = length (msg_buffer s) in
      bindR (write_at temp 0 (msg_buffer s)) (\<lambda>temp.
      bindR (write_at temp remains [0x80]) (\<lambda>temp.
      bindR
        (if remains > 55
         then bindR (write_at temp (remains + 1) (replicate (64 - (remains + 1)) 0)) (\<lambda>temp.
           let h = hash256_block temp (msg_digest s) in
           bindR (write_at temp 0 (replicate (64 - 4) 0)) (\<lambda>temp. Inr (h, temp)))
         else bindR (write_at temp (remains + 1) (replicate (64 - 4 - (remains + 1)) 0))
           (\<lambda>temp. Inr (msg_digest s, temp)))
        (\<lambda>(h, temp).
      bindR (write_at temp 56 (data_bit_length (data_length_digits s))) (\<lambda>temp.
      Inr (s\<lparr>msg_digest := hash256_block temp h\<rparr>))))))"

text \<open>The digest goes to the front of the destination, as far as there is room.\<close>

definition get_hash_bytes :: "hash256_one_by_one \<Rightarrow> bytes \<Rightarrow> bytes" where
  "get_hash_bytes s dst =
     (let out = concat (map (\<lambda>w. map (\<lambda>i. mask_8bit (ucast (drop_bit (24 - 8 * i) w))) [0..<4]) (msg_digest s))
      in take (length dst) out @ drop (length out) dst)"

section \<open>Whole messages\<close>

definition k_digest_size :: nat where
  "k_digest_size = 32"

definition hash256 :: "bytes \<Rightarrow> bytes \<Rightarrow> bytes result" where
  "hash256 src dst =
     bindR (hasher_finish (hasher_process src hasher_init)) (\<lambda>hasher. Inr (get_hash_bytes hasher dst))"

text \<open>
  The variant for input iterators reads the message in pieces of \<open>buffer_size\<close> bytes; with
  the size 0 it never returns.
\<close>

partial_function (option) hash256_pieces ::
  "nat \<Rightarrow> bytes \<Rightarrow> hash256_one_by_one \<Rightarrow> hash256_one_by_one option" where
  "hash256_pieces buffer_size src s =
     (if src = [] then Some s
      else hash256_pieces buffer_size (drop buffer_size src) (hasher_process (take buffer_size src) s))"

definition hash256_input :: "nat \<Rightarrow> bytes \<Rightarrow> bytes \<Rightarrow> bytes result option" where
  "hash256_input buffer_size src dst =
     map_option (\<lambda>s. bindR (hasher_finish s) (\<lambda>hasher. Inr (get_hash_bytes hasher dst)))
       (hash256_pieces buffer_size src hasher_init)"

definition hex_digit :: "nat \<Rightarrow> char" where
  "hex_digit n = (''0123456789abcdef'' ! n)"

text \<open>A stream in base 16, with the width 2 and the filler \<open>0\<close> set for every byte.\<close>

definition output_hex :: "bytes \<Rightarrow> string" where
  "output_hex bs = concat (map (\<lambda>b. [hex_digit (unat b div 16), hex_digit (unat b mod 16)]) bs)"

definition bytes_to_hex_string :: "bytes \<Rightarrow> string" where
  "bytes_to_hex_string bs = output_hex bs"

definition get_hash_hex_string :: "hash256_one_by_one \<Rightarrow> string" where
  "get_hash_hex_string hasher = bytes_to_hex_string (get_hash_bytes hasher (replicate k_digest_size 0))"

definition hash256_hex_string :: "bytes \<Rightarrow> string result" where
  "hash256_hex_string src =
     bindR (hash256 src (replicate k_digest_size 0)) (\<lambda>hashed. Inr (output_hex hashed))"

section \<open>The published definition\<close>

text \<open>
  The constants are the first 32 bits of the fractional parts of the cube roots of the first 64 primes
  and of the square roots of the first 8. \<open>root_digits b k n r\<close> finds the \<open>b\<close> low digits of the
  \<open>k\<close>-th root of \<open>n\<close> in base 2, from the top, behind the digits of \<open>r\<close>.
\<close>

definition is_prime :: "nat \<Rightarrow> bool" where
  "is_prime p \<longleftrightarrow> 1 < p \<and> (\<forall>d \<in> {2..<p}. \<not> d dvd p)"

fun root_digits :: "nat \<Rightarrow> nat \<Rightarrow> nat \<Rightarrow> nat \<Rightarrow> nat" where
  "root_digits 0 k n r = r"
| "root_digits (Suc b) k n r = root_digits b k n (if (r + 2 ^ b) ^ k \<le> n then r + 2 ^ b else r)"

definition root_fraction :: "nat \<Rightarrow> nat \<Rightarrow> u32" where
  "root_fraction k p = of_nat (root_digits 40 k (p * 2 ^ (32 * k)) 0)"

definition ref_K :: "u32 list" where
  "ref_K = map (root_fraction 3) (filter is_prime [2..<312])"

definition ref_H :: "u32 list" where
  "ref_H = map (root_fraction 2) (filter is_prime [2..<20])"

definition ref_Ch :: "u32 \<Rightarrow> u32 \<Rightarrow> u32 \<Rightarrow> u32" where
  "ref_Ch x y z = (x AND y) XOR (NOT x AND z)"

definition ref_Maj :: "u32 \<Rightarrow> u32 \<Rightarrow> u32 \<Rightarrow> u32" where
  "ref_Maj x y z = (x AND y) XOR (x AND z) XOR (y AND z)"

definition ref_Sigma0 :: "u32 \<Rightarrow> u32" where
  "ref_Sigma0 x = word_rotr 2 x XOR word_rotr 13 x XOR word_rotr 22 x"

definition ref_Sigma1 :: "u32 \<Rightarrow> u32" where
  "ref_Sigma1 x = word_rotr 6 x XOR word_rotr 11 x XOR word_rotr 25 x"

definition ref_sigma0 :: "u32 \<Rightarrow> u32" where
  "ref_sigma0 x = word_rotr 7 x XOR word_rotr 18 x XOR drop_bit 3 x"

definition ref_sigma1 :: "u32 \<Rightarrow> u32" where
  "ref_sigma1 x = word_rotr 17 x XOR word_rotr 19 x XOR drop_bit 10 x"

text \<open>The message schedule as a recursive function of the index.\<close>

fun ref_W :: "bytes \<Rightarrow> nat \<Rightarrow> u32" where
  "ref_W M t =
     (if t < 16
      then word_of_bytes (M ! (4 * t + 3)) (M ! (4 * t + 2)) (M ! (4 * t + 1)) (M ! (4 * t))
      else ref_sigma1 (ref_W M (t - 2)) + ref_W M (t - 7) + ref_sigma0 (ref_W M (t - 15)) + ref_W M (t - 16))"

declare ref_W.simps [simp del]

fun ref_round :: "bytes \<Rightarrow> nat \<Rightarrow> u32 working \<Rightarrow> u32 working" where
  "ref_round M t (a, b, c, d, e, f, g, h) =
     (let T1 = h + ref_Sigma1 e + ref_Ch e f g + ref_K ! t + ref_W M t;
          T2 = ref_Sigma0 a + ref_Maj a b c
      in (T1 + T2, a, b, c, d + T1, e, f, g))"

definition ref_compress :: "bytes \<Rightarrow> u32 list \<Rightarrow> u32 list" where
  "ref_compress M H =
     (let (a, b, c, d, e, f, g, h) =
        fold (ref_round M) [0..<64] (H ! 0, H ! 1, H ! 2, H ! 3, H ! 4, H ! 5, H ! 6, H ! 7)
      in [H ! 0 + a, H ! 1 + b, H ! 2 + c, H ! 3 + d, H ! 4 + e, H ! 5 + f, H ! 6 + g, H ! 7 + h])"

definition be64 :: "nat \<Rightarrow> bytes" where
  "be64 n = map (\<lambda>k. of_nat (n div 256 ^ k)) (rev [0..<8])"

definition sha_pad :: "bytes \<Rightarrow> bytes" where
  "sha_pad m = m @ [0x80] @ replicate ((119 - length m mod 64) mod 64) 0 @ be64 (8 * length m)"

fun blocks64 :: "bytes \<Rightarrow> bytes list" where
  "blocks64 [] = []"
| "blocks64 (b # bs) = take 64 (b # bs) # blocks64 (drop 64 (b # bs))"

definition sha256_ref :: "bytes \<Rightarrow> bytes" where
  "sha256_ref m =
     concat (map (\<lambda>w. [byte_at 3 w, byte_at 2 w, byte_at 1 w, byte_at 0 w])
       (fold ref_compress (blocks64 (sha_pad m)) ref_H))"

end
