(* ===== verification/Sha256_Constants.thy ===== *)
theory Sha256_Constants
  imports Sha256 Complex_Main
begin

text \<open>
  The constants of the published SHA-256 are the first 32 bits of the fractional parts of the cube
  and square roots of the first primes. Here the digit-by-digit roots of \<open>Sha256\<close> are shown to be the
  real ones, and the tables of \<open>src/src/lib/picosha2.h\<close> to be these constants.
\<close>

section \<open>Roots\<close>

lemma root_digits_floor:
  assumes "r ^ k \<le> n" "n < (r + 2 ^ b) ^ k"
  shows "root_digits b k n r ^ k \<le> n \<and> n < (root_digits b k n r + 1) ^ k"
  using assms by (induction b arbitrary: r) (auto simp: mult_2 add.assoc not_le)

lemma power_between_unique:
  assumes "x ^ k \<le> n" "n < (x + 1) ^ k" "y ^ k \<le> n" "n < (y + 1) ^ k"
  shows "x = (y :: nat)"
proof -
  have "a < b + 1" if "a ^ k \<le> n" "n < (b + 1) ^ k" for a b :: nat
    using power_less_imp_less_base [of a k "b + 1"] that by simp
  from this [OF assms(1,4)] this [OF assms(3,2)] show ?thesis by simp
qed

lemma root_fraction_eq:
  assumes "q ^ k \<le> p * 2 ^ (32 * k)" "p * 2 ^ (32 * k) < (q + 1) ^ k" "q < 2 ^ 40" "0 < k"
  shows "root_fraction k p = of_nat q"
proof -
  have "(q + 1) ^ k \<le> (2 ^ 40) ^ k" using assms(3) by (intro power_mono) simp_all
  then have "p * 2 ^ (32 * k) < (0 + 2 ^ 40) ^ k" using assms(2) by simp
  moreover have "0 ^ k \<le> p * 2 ^ (32 * k)" using zero_power [OF assms(4)] by (metis le0)
  ultimately show ?thesis
    using power_between_unique [OF _ _ assms(1,2)] root_digits_floor unfolding root_fraction_def by metis
qed

lemma root_fraction_floor:
  assumes "0 < k" "p < 2 ^ (8 * k)"
  shows "root_fraction k p = word_of_int \<lfloor>root k (real p) * 2 ^ 32\<rfloor>"
proof -
  let ?n = "p * 2 ^ (32 * k)"
  define r where "r = root_digits 40 k ?n 0"
  have "?n < 2 ^ (8 * k) * 2 ^ (32 * k)" using assms(2) by simp
  also have "\<dots> = (0 + 2 ^ 40) ^ k" by (simp only: power_add [symmetric] power_mult [symmetric] add_0) (simp only: distrib_right [symmetric] numeral_plus_numeral add_num_simps)
  finally have "?n < (0 + 2 ^ 40) ^ k" .
  then have r: "r ^ k \<le> ?n" "?n < (r + 1) ^ k"
    using root_digits_floor [of 0 k ?n 40] zero_power [OF assms(1)] unfolding r_def by (metis le0)+
  have n: "root k (real ?n) = root k (real p) * 2 ^ 32"
    using assms(1) by (simp add: real_root_mult power_mult real_root_power_cancel)
  have "real r ^ k \<le> real ?n" "real ?n < (real r + 1) ^ k"
    using r by (metis of_nat_le_iff of_nat_power, metis of_nat_less_iff of_nat_power of_nat_Suc Suc_eq_plus1 add.commute)
  then have "real r \<le> root k (real ?n)" "root k (real ?n) < real r + 1"
    using assms(1) real_root_le_mono [of k "real r ^ k" "real ?n"]
      real_root_less_mono [of k "real ?n" "(real r + 1) ^ k"]
    by (simp_all add: real_root_power_cancel)
  then have "\<lfloor>root k (real p) * 2 ^ 32\<rfloor> = int r" unfolding n [symmetric] by (simp add: floor_eq_iff)
  then show ?thesis by (simp add: root_fraction_def r_def)
qed

section \<open>Primes\<close>

text \<open>Below 324 trial division by the primes up to 17 is enough.\<close>

lemma is_prime_small:
  assumes "1 < p" "p < 324"
  shows "is_prime p \<longleftrightarrow> (\<forall>d \<in> {2, 3, 5, 7, 11, 13, 17}. d dvd p \<longrightarrow> d = p)"
proof
  show "is_prime p \<Longrightarrow> \<forall>d \<in> {2, 3, 5, 7, 11, 13, 17}. d dvd p \<longrightarrow> d = p"
    using assms(1) dvd_imp_le [of _ p] by (fastforce simp: is_prime_def)
next
  assume *: "\<forall>d \<in> {2, 3, 5, 7, 11, 13, 17}. d dvd p \<longrightarrow> d = p"
  have no: False if d: "2 \<le> d" "d < p" "d dvd p" "d < 18" for d
  proof -
    have "d \<in> set [2, 3, 4, 5, 6, 7, 8, 9, 10, 11, 12, 13, 14, 15, 16, 17]"
      using d(1,4) by (simp only: list.set insert_iff empty_iff) arith
    then have "\<exists>f \<in> {2, 3, 5, 7, 11, 13, 17}. f dvd d" by auto
    then obtain f where f: "f \<in> {2, 3, 5, 7, 11, 13, 17}" "f dvd d" by blast
    then have "f = p" using * d(3) dvd_trans by blast
    then show False using f(2) d(1,2) dvd_imp_le [of f d] by simp
  qed
  have False if d: "2 \<le> d" "d < p" "d dvd p" for d
  proof (cases "d < 18")
    case False
    obtain e where e: "p = d * e" using d(3) by blast
    have "e < 18"
    proof (rule ccontr)
      assume "\<not> e < 18"
      then have "18 * 18 \<le> d * e" using False by (intro mult_le_mono) simp_all
      then show False using e assms(2) by simp
    qed
    moreover have "2 \<le> e" using e d(2) by (cases "e = 0 \<or> e = 1") auto
    moreover have "e < p" using e d(1) calculation(2) by simp
    ultimately show False using no [of e] e by simp
  qed (use no d in blast)
  then show "is_prime p" using assms(1) by (auto simp: is_prime_def)
qed

lemma primes_312: "filter is_prime [2..<312] =
  [2, 3, 5, 7, 11, 13, 17, 19, 23, 29, 31, 37, 41, 43, 47, 53,
   59, 61, 67, 71, 73, 79, 83, 89, 97, 101, 103, 107, 109, 113, 127, 131,
   137, 139, 149, 151, 157, 163, 167, 173, 179, 181, 191, 193, 197, 199, 211, 223,
   227, 229, 233, 239, 241, 251, 257, 263, 269, 271, 277, 281, 283, 293, 307, 311]"
  by (simp add: is_prime_small)

lemma primes_20: "filter is_prime [2..<20] = [2, 3, 5, 7, 11, 13, 17, 19]"
  by (simp add: is_prime_small)

section \<open>The tables\<close>

lemma root_fractions:
  assumes "list_all2 (\<lambda>p q. q ^ k \<le> p * 2 ^ (32 * k) \<and> p * 2 ^ (32 * k) < (q + 1) ^ k) ps qs"
    "list_all (\<lambda>q. q < 2 ^ 40) qs" "0 < k"
  shows "map (root_fraction k) ps = map of_nat qs"
  using assms root_fraction_eq
  by (auto simp: list_all2_conv_all_nth list_all_length intro!: nth_equalityI)

lemma ref_H_constants: "ref_H = map ucast initial_message_digest"
proof -
  let ?qs = "[0x16a09e667, 0x1bb67ae85, 0x23c6ef372, 0x2a54ff53a, 0x3510e527f, 0x39b05688c, 0x41f83d9ab, 0x45be0cd19]"
  have "map (root_fraction 2) (filter is_prime [2..<20]) = map of_nat ?qs"
    unfolding primes_20 by (rule root_fractions) simp_all
  then show ?thesis unfolding ref_H_def by (simp only: initial_message_digest_def) simp
qed

lemma ref_K_constants: "ref_K = map ucast add_constant"
proof -
  let ?qs = "[0x1428a2f98, 0x171374491, 0x1b5c0fbcf, 0x1e9b5dba5, 0x23956c25b, 0x259f111f1, 0x2923f82a4, 0x2ab1c5ed5,
     0x2d807aa98, 0x312835b01, 0x3243185be, 0x3550c7dc3, 0x372be5d74, 0x380deb1fe, 0x39bdc06a7, 0x3c19bf174,
     0x3e49b69c1, 0x3efbe4786, 0x40fc19dc6, 0x4240ca1cc, 0x42de92c6f, 0x44a7484aa, 0x45cb0a9dc, 0x476f988da,
     0x4983e5152, 0x4a831c66d, 0x4b00327c8, 0x4bf597fc7, 0x4c6e00bf3, 0x4d5a79147, 0x506ca6351, 0x514292967,
     0x527b70a85, 0x52e1b2138, 0x54d2c6dfc, 0x553380d13, 0x5650a7354, 0x5766a0abb, 0x581c2c92e, 0x592722c85,
     0x5a2bfe8a1, 0x5a81a664b, 0x5c24b8b70, 0x5c76c51a3, 0x5d192e819, 0x5d6990624, 0x5f40e3585, 0x6106aa070,
     0x619a4c116, 0x61e376c08, 0x62748774c, 0x634b0bcb5, 0x6391c0cb3, 0x64ed8aa4a, 0x65b9cca4f, 0x6682e6ff3,
     0x6748f82ee, 0x678a5636f, 0x684c87814, 0x68cc70208, 0x690befffa, 0x6a4506ceb, 0x6bef9a3f7, 0x6c67178f2]"
  have "map (root_fraction 3) (filter is_prime [2..<312]) = map of_nat ?qs"
    unfolding primes_312 by (rule root_fractions) simp_all
  then show ?thesis unfolding ref_K_def by (simp only: add_constant_def) simp
qed

end
