(* ===== verification/Sha256_Correct.thy ===== *)
theory Sha256_Correct
  imports Sha256_Constants
begin

text \<open>
  The proof that \<open>src/src/lib/picosha2.h\<close>, as modelled in \<open>Sha256\<close>, computes SHA-256. The
  masked 64-bit words are related to 32-bit words by \<open>low\<close> on the words that are \<open>small\<close>;
  \<open>hashes\<close> is what a hasher state has seen; \<open>counter_value\<close> is the value of its length
  counter of four 16-bit digits, which the last block holds times eight.
\<close>

unbundle bit_operations_syntax

section \<open>Words of 64 bits that hold 32\<close>

definition small :: "u64 \<Rightarrow> bool" where
  "small x \<longleftrightarrow> mask_32bit x = x"

abbreviation low :: "u64 \<Rightarrow> u32" where
  "low \<equiv> ucast"

lemma bit_mask_32bit [bit_simps]: "bit (mask_32bit x) n \<longleftrightarrow> n < 32 \<and> bit x n"
proof -
  have "(0xffffffff :: u64) = mask 32" by (simp add: mask_eq_exp_minus_1)
  then have "mask_32bit x = x AND mask 32" by (simp only: mask_32bit_def)
  then show ?thesis by (auto simp: bit_and_iff bit_mask_iff dest: bit_imp_le_length)
qed

lemma small_bit: "small x \<longleftrightarrow> (\<forall>n. bit x n \<longrightarrow> n < 32)"
  unfolding small_def using bit_imp_le_length [of x] by (auto simp: bit_eq_iff bit_simps)

lemma small_mask_32bit [simp]: "small (mask_32bit x)"
  by (simp add: small_bit bit_simps)

lemma low_mask_32bit [simp]: "low (mask_32bit x) = low x"
  by (rule bit_word_eqI) (simp add: bit_simps)

lemma take_bit_sum_32: "take_bit 32 (take_bit 64 x + take_bit 64 y) = take_bit 32 (x + y :: int)"
  by (subst (1 2) take_bit_add [symmetric]) simp

lemma low_add [simp]: "low (x + y) = low x + low y"
  by transfer (simp add: take_bit_add take_bit_sum_32)

lemma low_bitwise [simp]:
  "low (x AND y) = low x AND low y" "low (x XOR y) = low x XOR low y"
  "low (x OR y) = low x OR low y" "low (NOT x) = NOT (low x)"
  by (rule bit_word_eqI; simp add: bit_simps)+

lemma low_rotr:
  assumes "small x" "0 < n" "n < 32"
  shows "low (rotr x n) = word_rotr n (low x)"
proof (rule bit_word_eqI)
  fix k assume "k < LENGTH(32)"
  then have k: "k < 32" by simp
  have "(k + n) mod 32 = (if k + n < 32 then k + n else k + n - 32)"
    using k assms(3) by (simp add: mod_if)
  then show "bit (low (rotr x n)) k \<longleftrightarrow> bit (word_rotr n (low x)) k"
    using k assms by (auto simp: rotr_def bit_simps small_bit add.commute)
qed

lemma low_shr: "small x \<Longrightarrow> low (shr x n) = drop_bit n (low x)"
  by (rule bit_word_eqI) (auto simp: shr_def bit_simps small_bit)

lemma low_functions:
  "low (ch x y z) = ref_Ch (low x) (low y) (low z)"
  "low (maj x y z) = ref_Maj (low x) (low y) (low z)"
  "small x \<Longrightarrow> low (bsig0 x) = ref_Sigma0 (low x)"
  "small x \<Longrightarrow> low (bsig1 x) = ref_Sigma1 (low x)"
  "small x \<Longrightarrow> low (ssig0 x) = ref_sigma0 (low x)"
  "small x \<Longrightarrow> low (ssig1 x) = ref_sigma1 (low x)"
  by (simp_all add: ch_def ref_Ch_def maj_def ref_Maj_def bsig0_def ref_Sigma0_def bsig1_def
      ref_Sigma1_def ssig0_def ref_sigma0_def ssig1_def ref_sigma1_def low_rotr low_shr)

section \<open>The compression functions agree\<close>

definition words_upto :: "bytes \<Rightarrow> nat \<Rightarrow> u64 list \<Rightarrow> bool" where
  "words_upto M k w \<longleftrightarrow> length w = 64 \<and> (\<forall>i < k. small (w ! i) \<and> low (w ! i) = ref_W M i)"

lemma mask_8bit [simp]: "mask_8bit x = x"
proof -
  have "(0xff :: byte) = mask 8" by (simp add: mask_eq_exp_minus_1)
  then have "mask_8bit x = x AND mask 8" by (simp only: mask_8bit_def)
  then show ?thesis using bit_imp_le_length [of x] by (auto simp: bit_eq_iff bit_and_iff bit_mask_iff)
qed

lemma loaded_word:
  fixes b0 b1 b2 b3 :: byte
  defines "x \<equiv> push_bit 24 (ucast b0) OR push_bit 16 (ucast b1) OR push_bit 8 (ucast b2) OR ucast b3 :: u64"
  shows "small x" "low x = word_of_bytes b3 b2 b1 b0"
proof -
  show "small x"
    unfolding x_def small_bit using bit_imp_le_length by (fastforce simp: bit_simps)
  show "low x = word_of_bytes b3 b2 b1 b0"
    unfolding x_def word_of_bytes_def
    by (rule bit_word_eqI) (auto simp: bit_simps)
qed

lemma words_upto_load:
  assumes "words_upto M k w" "k < 16"
  shows "words_upto M (Suc k) (load_word M k w)"
  using assms loaded_word [of "M ! (k * 4)" "M ! (k * 4 + 1)" "M ! (k * 4 + 2)" "M ! (k * 4 + 3)"]
  by (auto simp: words_upto_def load_word_def nth_list_update less_Suc_eq ref_W.simps [of M k] ac_simps)

lemma words_upto_extend:
  assumes "words_upto M k w" "16 \<le> k" "k < 64"
  shows "words_upto M (Suc k) (extend_word k w)"
proof -
  have "k - 2 < k" "k - 7 < k" "k - 15 < k" "k - 16 < k" using assms by auto
  with assms show ?thesis
    by (auto simp: words_upto_def extend_word_def nth_list_update less_Suc_eq
        ref_W.simps [of M k] low_functions)
qed

lemma fold_upt_invariant:
  assumes "P m s" "m \<le> n" "\<And>i s. m \<le> i \<Longrightarrow> i < n \<Longrightarrow> P i s \<Longrightarrow> P (Suc i) (f i s)"
  shows "P n (fold f [m..<n] s)"
  using assms(2,3)
  by (induction n rule: dec_induct) (use assms(1) in auto)

lemma message_words: "words_upto M 64 (message_words M)"
proof -
  have "words_upto M 16 (fold (load_word M) [0..<16] (replicate 64 0))"
    by (rule fold_upt_invariant) (auto simp: words_upto_load words_upto_def [of M 0])
  then show ?thesis
    unfolding message_words_def by (rule fold_upt_invariant) (auto intro: words_upto_extend)
qed

fun small8 :: "u64 working \<Rightarrow> bool" where
  "small8 (a, b, c, d, e, f, g, h) \<longleftrightarrow> list_all small [a, b, c, d, e, f, g, h]"

fun low8 :: "u64 working \<Rightarrow> u32 working" where
  "low8 (a, b, c, d, e, f, g, h) = (low a, low b, low c, low d, low e, low f, low g, low h)"

lemma length_add_constant: "length add_constant = 64"
  by (simp add: add_constant_def)

lemma sha_round_low:
  assumes "words_upto M 64 w" "i < 64" "small8 s"
  shows "low8 (sha_round w i s) = ref_round M i (low8 s)" "small8 (sha_round w i s)"
  using assms
  by (cases s; auto simp: Let_def words_upto_def low_functions ref_K_constants length_add_constant)+

lemma sha_rounds_low:
  assumes "words_upto M 64 w" "set is \<subseteq> {..<64}" "small8 s"
  shows "low8 (fold (sha_round w) is s) = fold (ref_round M) is (low8 s)"
  using assms(2,3)
  by (induction "is" arbitrary: s) (simp_all add: sha_round_low [OF assms(1)])

definition digest_ok :: "u64 list \<Rightarrow> bool" where
  "digest_ok H \<longleftrightarrow> length H = 8 \<and> list_all small H"

lemma digest_ok_initial: "digest_ok initial_message_digest"
  by (simp add: digest_ok_def initial_message_digest_def small_def mask_32bit_def)

lemma hash256_block_ref:
  assumes "digest_ok H"
  shows "map low (hash256_block M H) = ref_compress M (map low H)" "digest_ok (hash256_block M H)"
proof -
  let ?s = "(H ! 0, H ! 1, H ! 2, H ! 3, H ! 4, H ! 5, H ! 6, H ! 7)"
  obtain a b c d e f g h where
    fold: "fold (sha_round (message_words M)) [0..<64] ?s = (a, b, c, d, e, f, g, h)"
    by (rule small8.cases)
  have len: "length H = 8" using assms by (simp add: digest_ok_def)
  have "small (H ! i)" if "i < 8" for i
    using assms that by (simp add: digest_ok_def list_all_length)
  then have "small8 ?s" by simp
  moreover have "set [0..<64 :: nat] \<subseteq> {..<64}" by (simp add: atLeastLessThan_def)
  ultimately have "fold (ref_round M) [0..<64] (low8 ?s) = low8 (a, b, c, d, e, f, g, h)"
    using sha_rounds_low [OF message_words, of "[0..<64]" ?s M] by (simp only: fold)
  with len show "map low (hash256_block M H) = ref_compress M (map low H)"
    by (simp add: hash256_block_def fold ref_compress_def Let_def del: upt_Suc upt_rec_numeral One_nat_def)
  show "digest_ok (hash256_block M H)"
    by (simp add: hash256_block_def fold Let_def digest_ok_def del: One_nat_def)
qed

section \<open>Cutting the message\<close>

text \<open>The complete blocks of a message and the bytes behind them.\<close>

fun chunks :: "bytes \<Rightarrow> bytes list" where
  "chunks xs = (if length xs < 64 then [] else take 64 xs # chunks (drop 64 xs))"

declare chunks.simps [simp del]

definition rest :: "bytes \<Rightarrow> bytes" where
  "rest xs = drop (64 * (length xs div 64)) xs"

lemma length_rest [simp]: "length (rest xs) = length xs mod 64"
  by (simp add: rest_def minus_mult_div_eq_mod)

lemma chunks_short [simp]: "length xs < 64 \<Longrightarrow> chunks xs = []"
  by (simp add: chunks.simps)

lemma rest_short [simp]: "length xs < 64 \<Longrightarrow> rest xs = xs"
  by (simp add: rest_def)

lemma chunks_Cons: "64 \<le> length xs \<Longrightarrow> chunks xs = take 64 xs # chunks (drop 64 xs)"
  by (simp add: chunks.simps)

lemma rest_drop: "64 \<le> length xs \<Longrightarrow> rest (drop 64 xs) = rest xs"
  by (simp add: rest_def le_div_geq add.commute)

lemma chunks_append: "chunks (xs @ ys) = chunks xs @ chunks (rest xs @ ys)"
proof (induction xs rule: chunks.induct)
  case (1 xs)
  show ?case
  proof (cases "length xs < 64")
    case False
    then show ?thesis
      using 1 rest_drop [of xs] by (simp add: chunks_Cons [of "xs @ ys"] chunks_Cons [of xs])
  qed simp
qed

lemma rest_append: "rest (xs @ ys) = rest (rest xs @ ys)"
proof (induction xs rule: chunks.induct)
  case (1 xs)
  show ?case
  proof (cases "length xs < 64")
    case False
    then show ?thesis using 1 rest_drop [of xs] rest_drop [of "xs @ ys"] by simp
  qed simp
qed

lemma blocks64_chunks: "length xs mod 64 = 0 \<Longrightarrow> blocks64 xs = chunks xs"
proof (induction xs rule: chunks.induct)
  case (1 xs)
  show ?case
  proof (cases "length xs < 64")
    case True
    with 1(2) show ?thesis by simp
  next
    case False
    then obtain b bs where xs: "xs = b # bs" by (cases xs) auto
    have "length (drop 64 xs) mod 64 = 0" using False 1(2) by (simp add: le_mod_geq)
    with 1(1) [OF False] False show ?thesis
      using chunks_Cons [of xs] by (simp add: xs)
  qed
qed

lemma process_loop_chunks:
  "i \<le> length buffer \<Longrightarrow>
     process_loop i buffer h =
       (fold hash256_block (chunks (drop i buffer)) h, i + 64 * ((length buffer - i) div 64))"
proof (induction i buffer h rule: process_loop.induct)
  case (1 i buffer h)
  show ?case
  proof (cases "i + 64 \<le> length buffer")
    case True
    have "(length buffer - i) div 64 = Suc ((length buffer - (i + 64)) div 64)"
      using True by (simp add: le_div_geq)
    with 1 True show ?thesis
      by (simp add: process_loop.simps [of i] chunks_Cons [of "drop i buffer"] add.commute)
  qed (use 1 in \<open>simp add: process_loop.simps [of i]\<close>)
qed

section \<open>The length counter\<close>

fun counter_value :: "u64 list \<Rightarrow> nat" where
  "counter_value [] = 0"
| "counter_value (d # ds) = unat d + 65536 * counter_value ds"

definition is_digit :: "u64 \<Rightarrow> bool" where
  "is_digit d \<longleftrightarrow> unat d < 65536"

lemma counter_value_bound: "list_all is_digit ds \<Longrightarrow> counter_value ds < 65536 ^ length ds"
  by (induction ds) (auto simp: is_digit_def)

lemma unat_low_digit: "unat (d AND 65535 :: u64) = unat d mod 65536"
proof -
  have "(65535 :: u64) = mask 16" by (simp add: mask_eq_exp_minus_1)
  then have "d AND 65535 = take_bit 16 d" by (simp only: take_bit_eq_mask)
  then have "unat (d AND 65535) = take_bit 16 (unat d)" by (simp only: unsigned_take_bit_eq)
  then show ?thesis by (simp add: take_bit_eq_mod)
qed

lemma unat_drop_bit_64: "unat (drop_bit n (d :: u64)) = unat d div 2 ^ n"
  by (simp only: unat_drop_bit_eq drop_bit_eq_div [of n "unat d"])

lemma unat_add_64: "unat x + unat y < 2 ^ 64 \<Longrightarrow> unat (x + y :: u64) = unat x + unat y"
  by (simp add: unat_word_ariths)

lemma digit_mod: "r < 65536 \<Longrightarrow> r + 65536 * (x mod m) = (r + 65536 * x) mod (65536 * m)" for m :: nat
  by (simp add: mod_mult2_eq)

lemma carry_counter_value:
  assumes "ds \<noteq> [] \<Longrightarrow> unat (hd ds) + unat carry < 2 ^ 64" "list_all is_digit (tl ds)"
  shows "counter_value (carry_digits ds carry) = (counter_value ds + unat carry) mod 65536 ^ length ds"
    and "list_all is_digit (carry_digits ds carry)"
    and "length (carry_digits ds carry) = length ds"
proof -
  have "ds \<noteq> [] \<longrightarrow> unat (hd ds) + unat carry < 2 ^ 64 \<Longrightarrow> list_all is_digit (tl ds) \<Longrightarrow>
      counter_value (carry_digits ds carry) =
        (counter_value ds + (if ds = [] then 0 else unat carry)) mod 65536 ^ length ds \<and>
      list_all is_digit (carry_digits ds carry) \<and> length (carry_digits ds carry) = length ds"
  proof (induction ds carry rule: carry_digits.induct)
    case (2 d ds carry)
    let ?d = "d + carry"
    have sum: "unat ?d = unat d + unat carry" using 2(2) by (simp add: unat_add_64)
    show ?case
    proof (cases "?d \<ge> 65536")
      case True
      have carry: "unat (drop_bit 16 ?d) = unat ?d div 65536" by (simp add: unat_drop_bit_64)
      have "unat ?d < 2 ^ LENGTH(64)" by (rule unsigned_less)
      then have small: "unat (drop_bit 16 ?d) < 2 ^ 48"
        by (simp add: carry less_mult_imp_div_less)
      have hd: "ds \<noteq> [] \<Longrightarrow> unat (hd ds) < 65536"
        using 2(3) by (cases ds) (auto simp: is_digit_def)
      have IH: "counter_value (carry_digits ds (drop_bit 16 ?d)) =
          (counter_value ds + (if ds = [] then 0 else unat (drop_bit 16 ?d))) mod 65536 ^ length ds"
        "list_all is_digit (carry_digits ds (drop_bit 16 ?d))"
        "length (carry_digits ds (drop_bit 16 ?d)) = length ds"
        using 2(1) [OF refl True] 2(3) hd small by (cases ds; force)+
      have "counter_value (carry_digits (d # ds) carry) =
          (unat ?d mod 65536 + 65536 * (counter_value ds + unat ?d div 65536)) mod 65536 ^ Suc (length ds)"
        using IH True carry
        using digit_mod [of "unat ?d mod 65536" _ "65536 ^ length ds"]
        by (cases "ds = []") (simp_all add: Let_def unat_low_digit)
      moreover have "unat ?d mod 65536 + 65536 * (counter_value ds + unat ?d div 65536) =
          counter_value (d # ds) + unat carry"
        using mod_mult_div_eq [of "unat ?d" 65536]
        unfolding counter_value.simps sum distrib_left by linarith
      ultimately have "counter_value (carry_digits (d # ds) carry) =
          (counter_value (d # ds) + unat carry) mod 65536 ^ Suc (length ds)" by (simp only:)
      moreover have "is_digit (?d AND 65535)" by (simp add: is_digit_def unat_low_digit)
      ultimately show ?thesis
        using IH True by (simp add: Let_def del: counter_value.simps)
    next
      case False
      then have d: "unat ?d < 65536" by (simp add: word_le_nat_alt not_le)
      then have digit: "is_digit ?d" by (simp add: is_digit_def)
      have "counter_value (?d # ds) < 65536 ^ length (?d # ds)"
        using 2(3) digit by (intro counter_value_bound) simp
      then show ?thesis
        using False 2(3) digit sum by (simp add: Let_def ac_simps)
    qed
  qed simp
  then show "counter_value (carry_digits ds carry) = (counter_value ds + unat carry) mod 65536 ^ length ds"
    "list_all is_digit (carry_digits ds carry)" "length (carry_digits ds carry) = length ds"
    using assms by (cases "ds = []"; simp)+
qed

lemma unat_shifted_digit:
  fixes d c :: u64
  assumes "unat d < 65536" "unat c < 8"
  shows "unat (push_bit 3 d OR c) = 8 * unat d + unat c"
proof -
  have "take_bit 3 (unat c) = unat c" using assms(2) by (simp add: take_bit_nat_eq_self)
  then have c: "take_bit 3 c = c"
    by (metis unsigned_take_bit_eq unsigned_word_eqI)
  have "\<not> bit (push_bit 3 d) n \<or> \<not> bit c n" for n
    by (subst c [symmetric]) (auto simp: bit_simps)
  then have "push_bit 3 d OR c = push_bit 3 d + c" by (simp add: disjunctive_add)
  also have "\<dots> = d * 8 + c" by (simp add: push_bit_eq_mult)
  finally show ?thesis using assms by (simp add: unat_word_ariths)
qed

lemma shift_counter_value:
  "list_all is_digit ds \<Longrightarrow> unat carry < 8 \<Longrightarrow>
     counter_value (shift_digits ds carry) = (8 * counter_value ds + unat carry) mod 65536 ^ length ds \<and>
     list_all is_digit (shift_digits ds carry) \<and> length (shift_digits ds carry) = length ds"
proof (induction ds carry rule: shift_digits.induct)
  case (2 d ds carry)
  let ?c = "drop_bit (16 - 3) d AND 65535"
  have d: "unat d < 65536" using 2(2) by (simp add: is_digit_def)
  then have "unat d div 8192 < 8" by (simp add: less_mult_imp_div_less)
  then have c: "unat ?c = unat d div 8192"
    using unat_drop_bit_64 [of 13 d] by (simp only: unat_low_digit) simp
  then have "unat ?c < 8" using \<open>unat d div 8192 < 8\<close> by simp
  with 2 have IH: "counter_value (shift_digits ds ?c) = (8 * counter_value ds + unat ?c) mod 65536 ^ length ds"
    "list_all is_digit (shift_digits ds ?c)" "length (shift_digits ds ?c) = length ds"
    by (simp_all del: One_nat_def)
  let ?s = "8 * unat d + unat carry"
  have low: "unat ((push_bit 3 d OR carry) AND 65535) = ?s mod 65536"
    using unat_shifted_digit [OF d 2(3)] by (simp only: unat_low_digit)
  have "?s div 65536 = ?s div 8 div 8192" by (simp add: div_mult2_eq [symmetric])
  then have high: "?s div 65536 = unat d div 8192" using 2(3) by simp
  have "counter_value (shift_digits (d # ds) carry) =
      ?s mod 65536 + 65536 * ((8 * counter_value ds + ?s div 65536) mod 65536 ^ length ds)"
    by (simp only: shift_digits.simps counter_value.simps low IH c high)
  also have "\<dots> = (?s mod 65536 + 65536 * (8 * counter_value ds + ?s div 65536)) mod 65536 ^ length (d # ds)"
    using digit_mod [of "?s mod 65536"] by simp
  also have "?s mod 65536 + 65536 * (8 * counter_value ds + ?s div 65536) =
      8 * counter_value (d # ds) + unat carry"
    using mod_mult_div_eq [of ?s 65536] unfolding counter_value.simps distrib_left by linarith
  finally have "counter_value (shift_digits (d # ds) carry) =
      (8 * counter_value (d # ds) + unat carry) mod 65536 ^ length (d # ds)" .
  moreover have "is_digit ((push_bit 3 d OR carry) AND 65535)"
    using low by (simp add: is_digit_def)
  ultimately show ?case using IH by (simp del: counter_value.simps)
qed simp

lemma byte_of_nat_eq: "(of_nat a :: byte) = of_nat b \<longleftrightarrow> a mod 256 = b mod 256"
  by (simp add: word_of_nat_eq_iff take_bit_eq_mod)

lemma ucast_byte_of_nat: "(ucast (w :: u64) :: byte) = of_nat (unat w)"
  by simp

lemma digit_bytes:
  assumes "d < 65536"
  shows "(of_nat ((d + 65536 * x) div 256) :: byte) = of_nat (d div 256)"
    "(of_nat (d + 65536 * x) :: byte) = of_nat d" "(d + 65536 * x) div 65536 = x"
proof -
  have "(d + 65536 * x) div 256 = d div 256 + 256 * x"
    using div_mult_self1 [of 256 d "256 * x"] by (simp add: ac_simps)
  then show "(of_nat ((d + 65536 * x) div 256) :: byte) = of_nat (d div 256)"
    unfolding byte_of_nat_eq by simp
  have "(d + 65536 * x) mod 256 = d mod 256"
    using mod_mult_self1 [of d "256 * x" 256] by (simp add: ac_simps)
  then show "(of_nat (d + 65536 * x) :: byte) = of_nat d" unfolding byte_of_nat_eq .
  show "(d + 65536 * x) div 65536 = x" using assms by simp
qed

lemma be64_steps:
  "be64 n = (let p = n div 65536; q = p div 65536; r = q div 65536 in
     [of_nat (r div 256), of_nat r, of_nat (q div 256), of_nat q,
      of_nat (p div 256), of_nat p, of_nat (n div 256), of_nat n])"
  by (simp add: be64_def Let_def div_mult2_eq [symmetric] upt_conv_Cons)

lemma mod_prod_div: "0 < a \<Longrightarrow> n mod (a * b) div a = n div a mod b" for a b n :: nat
  by (simp add: mod_mult2_eq)

lemma be64_mod: "be64 (n mod 256 ^ 8) = be64 n"
proof -
  have "n mod 256 ^ 8 div 256 ^ k mod 256 = n div 256 ^ k mod 256" if "k < 8" for k
  proof -
    have "(256 :: nat) ^ 8 = 256 ^ k * 256 ^ (8 - k)"
      using that by (metis le_add_diff_inverse less_imp_le power_add)
    then have "n mod 256 ^ 8 div 256 ^ k = n div 256 ^ k mod 256 ^ (8 - k)"
      by (simp only: mod_prod_div [of "256 ^ k"] zero_less_power zero_less_numeral)
    moreover have "(256 :: nat) dvd 256 ^ (8 - k)" using that by (simp add: dvd_power)
    ultimately show ?thesis by (simp only: mod_mod_cancel)
  qed
  then show ?thesis by (simp only: be64_def map_eq_conv byte_of_nat_eq set_rev set_upt atLeastLessThan_iff) simp
qed

lemma data_bit_length_be64:
  assumes "list_all is_digit ds" "length ds = 4"
  shows "data_bit_length ds = be64 (8 * counter_value ds)"
proof -
  have v: "counter_value (shift_digits ds 0) = (8 * counter_value ds) mod 256 ^ 8"
    "list_all is_digit (shift_digits ds 0)" "length (shift_digits ds 0) = 4"
    using shift_counter_value [OF assms(1), of 0] assms(2) by simp_all
  obtain a b c d where abcd: "shift_digits ds 0 = [a, b, c, d]"
    using v(3) by (rule list_of_length_4)
  have "unat a < 65536" "unat b < 65536" "unat c < 65536" "unat d < 65536"
    using v(2) by (simp_all add: abcd is_digit_def)
  then have "data_bit_length ds = be64 (counter_value [a, b, c, d])"
    by (simp add: data_bit_length_def abcd be64_steps Let_def digit_bytes ucast_byte_of_nat
        unat_drop_bit_64 del: of_nat_unat distrib_left_numeral of_nat_add of_nat_mult)
  then show ?thesis using v(1) by (simp only: abcd be64_mod)
qed

section \<open>The state of a hasher\<close>

text \<open>\<open>hashes m s\<close>: the hasher \<open>s\<close> has been given exactly the bytes of \<open>m\<close>.\<close>

definition hashes :: "bytes \<Rightarrow> hash256_one_by_one \<Rightarrow> bool" where
  "hashes m s \<longleftrightarrow>
     msg_digest s = fold hash256_block (chunks m) initial_message_digest \<and>
     msg_buffer s = rest m \<and>
     length (data_length_digits s) = 4 \<and> list_all is_digit (data_length_digits s) \<and>
     counter_value (data_length_digits s) = length m mod 65536 ^ 4"

lemma hashes_init: "hashes [] hasher_init"
proof -
  have "replicate 4 (0 :: u64) = [0, 0, 0, 0]" by (simp add: numeral_eq_Suc)
  then show ?thesis by (simp add: hashes_def hasher_init_def is_digit_def)
qed

lemma hashes_process:
  assumes "hashes m s" "length chunk < 2 ^ 63"
  shows "hashes (m @ chunk) (hasher_process chunk s)"
proof -
  let ?digits = "data_length_digits s" and ?n = "of_nat (length chunk) :: u64"
  obtain a b c d where abcd: "?digits = [a, b, c, d]"
    using assms(1) list_of_length_4 unfolding hashes_def by metis
  have n: "unat ?n = length chunk" using assms(2) by (simp add: unat_of_nat)
  have small: "unat a < 65536" "list_all is_digit [b, c, d]"
    using assms(1) by (simp_all add: hashes_def abcd is_digit_def)
  have a: "unat (a + ?n) = unat a + length chunk"
    using small(1) assms(2) n by (simp add: unat_add_64)
  let ?ds = "[a + ?n, b, c, d]"
  have hd: "unat (a + ?n) + unat (0 :: u64) < 2 ^ 64" using a small(1) assms(2) by simp
  have carried: "counter_value (carry_digits ?ds 0) = counter_value ?ds mod 65536 ^ 4"
    "list_all is_digit (carry_digits ?ds 0)" "length (carry_digits ?ds 0) = 4"
    using carry_counter_value [of ?ds 0] hd small(2) by simp_all
  have "counter_value ?ds = counter_value ?digits + length chunk"
    by (simp add: abcd a)
  moreover have "counter_value ?digits = length m mod 65536 ^ 4"
    using assms(1) by (simp add: hashes_def)
  ultimately have total: "counter_value (carry_digits ?ds 0) = length (m @ chunk) mod 65536 ^ 4"
    unfolding carried(1) by (simp only: mod_add_left_eq length_append)
  have loop: "process_loop 0 (rest m @ chunk) h =
      (fold hash256_block (chunks (rest m @ chunk)) h, 64 * (length (rest m @ chunk) div 64))" for h
    using process_loop_chunks [of 0 "rest m @ chunk"] by simp
  show ?thesis
    using assms(1) total carried(2,3)
    by (simp add: hasher_process_def add_to_data_length_def Let_def hashes_def loop abcd
        chunks_append [of m] rest_append [of m] rest_def [of "rest m @ chunk", symmetric]
        del: length_append length_rest drop_append carry_digits.simps)
qed

lemma hashes_pieces:
  assumes "0 < k" "k < 2 ^ 63"
  shows "hashes m s \<Longrightarrow> \<exists>s'. hash256_pieces k src s = Some s' \<and> hashes (m @ src) s'"
proof (induction src arbitrary: m s rule: length_induct)
  case (1 src)
  show ?case
  proof (cases "src = []")
    case False
    have "hashes (m @ take k src) (hasher_process (take k src) s)"
      using 1(2) assms(2) by (intro hashes_process) simp_all
    moreover have "length (drop k src) < length src" using False assms(1) by simp
    ultimately obtain s' where
      "hash256_pieces k (drop k src) (hasher_process (take k src) s) = Some s'"
      "hashes ((m @ take k src) @ drop k src) s'"
      using 1(1) by blast
    then show ?thesis using False by (simp add: hash256_pieces.simps [of k src])
  qed (use 1 in \<open>simp add: hash256_pieces.simps\<close>)
qed

section \<open>The last blocks\<close>

definition padding :: "bytes \<Rightarrow> bytes" where
  "padding m = [0x80] @ replicate ((119 - length m mod 64) mod 64) 0 @ be64 (8 * length m)"

lemma length_be64 [simp]: "length (be64 n) = 8"
  by (simp add: be64_def)

lemma last_chunks_short:
  assumes "length r < 56" "length e = 8"
  shows "chunks (r @ [0x80] @ replicate ((119 - length r) mod 64) 0 @ e) =
    [r @ [0x80] @ replicate (55 - length r) 0 @ e]"
proof -
  have "(119 - length r) mod 64 = 55 - length r" using assms(1) by (simp add: mod_if)
  then show ?thesis using assms by (simp add: chunks_Cons)
qed

lemma last_chunks_long:
  assumes "56 \<le> length r" "length r < 64" "length e = 8"
  shows "chunks (r @ [0x80] @ replicate ((119 - length r) mod 64) 0 @ e) =
    [r @ [0x80] @ replicate (63 - length r) 0, replicate 56 0 @ e]"
proof -
  have "(119 - length r) mod 64 = (63 - length r) + 56" using assms(1,2) by (simp add: mod_if)
  then have split: "replicate ((119 - length r) mod 64) (0 :: byte) = replicate (63 - length r) 0 @ replicate 56 0"
    by (simp only: replicate_add)
  have "64 - length r = Suc (63 - length r)" using assms(2) by simp
  then show ?thesis using assms unfolding split by (simp add: chunks_Cons)
qed

lemma finish_padding:
  assumes "hashes m s" "length m < 2 ^ 61"
  shows "hasher_finish s = Inr (s\<lparr>msg_digest :=
    fold hash256_block (chunks (rest m @ padding m)) (msg_digest s)\<rparr>)"
proof -
  let ?r = "rest m" and ?e = "be64 (8 * length m)"
  have buffer: "msg_buffer s = ?r" using assms(1) by (simp add: hashes_def)
  have r: "length ?r < 64" by simp
  have "counter_value (data_length_digits s) = length m"
    using assms by (simp add: hashes_def)
  then have e: "data_bit_length (data_length_digits s) = ?e"
    using data_bit_length_be64 [of "data_length_digits s"] assms(1) by (simp add: hashes_def)
  have pad: "rest m @ padding m = ?r @ [0x80] @ replicate ((119 - length ?r) mod 64) 0 @ ?e"
    by (simp add: padding_def)
  show ?thesis
  proof (cases "length ?r < 56")
    case True
    define n where "n = 55 - length ?r"
    have n: "55 - length ?r = n" "56 - length ?r = Suc n" "59 - length ?r = n + 4"
      "60 - length ?r = 5 + n" "63 - length ?r = n + 8" "64 - length ?r = 9 + n" "length ?r + n = 55" "n \<le> 55"
      using True by (simp_all add: n_def)
    have tail: "drop (5 + n) (x # xs) = drop (4 + n) xs" "drop (9 + n) (x # xs) = drop (8 + n) xs"
      for x :: byte and xs
      by (simp_all add: drop_Cons')
    show ?thesis
      unfolding pad last_chunks_short [OF True length_be64]
      using True r
      by (simp add: hasher_finish_def buffer Let_def e n tail del: length_rest)
  next
    case False
    then have long: "56 \<le> length ?r" by simp
    show ?thesis
      unfolding pad last_chunks_long [OF long r length_be64]
      using long r
      by (simp add: hasher_finish_def buffer Let_def e del: length_rest)
  qed
qed

section \<open>Agreement with the published definition\<close>

lemma fold_block_ref:
  "digest_ok H \<Longrightarrow>
     map low (fold hash256_block bs H) = fold ref_compress bs (map low H) \<and>
     digest_ok (fold hash256_block bs H)"
  by (induction bs arbitrary: H) (simp_all add: hash256_block_ref)

lemma pad_count: "r < 64 \<Longrightarrow> (r + (9 + (119 - r) mod 64)) mod 64 = 0" for r :: nat
proof (cases "r < 56")
  case True
  then have "(119 - r) mod 64 = 55 - r" by (simp add: mod_if)
  then show ?thesis using True by simp
next
  case False
  assume "r < 64"
  with False have "(119 - r) mod 64 = 119 - r" by (simp add: mod_if)
  then show ?thesis using \<open>r < 64\<close> by simp
qed

lemma sha_pad_blocks: "blocks64 (sha_pad m) = chunks m @ chunks (rest m @ padding m)"
proof -
  have pad: "sha_pad m = m @ padding m" by (simp add: sha_pad_def padding_def)
  have "length (sha_pad m) = length m + (9 + (119 - length m mod 64) mod 64)"
    by (simp add: sha_pad_def)
  then have "length (sha_pad m) mod 64 = (length m mod 64 + (9 + (119 - length m mod 64) mod 64)) mod 64"
    by (simp only: mod_add_left_eq)
  also have "\<dots> = 0" by (rule pad_count) simp
  finally show ?thesis by (simp add: blocks64_chunks pad chunks_append [of m "padding m"])
qed

lemma byte_at_low: "ucast (drop_bit (8 * k) w) = byte_at k (low w)" if "k < 4" for w :: u64
  using that by (intro bit_word_eqI) (auto simp: byte_at_def bit_simps)

definition hash_out :: "u64 list \<Rightarrow> bytes" where
  "hash_out h = concat (map (\<lambda>w. [byte_at 3 w, byte_at 2 w, byte_at 1 w, byte_at 0 w]) (map low h))"

lemma get_hash_bytes_eq:
  "get_hash_bytes s dst = take (length dst) (hash_out (msg_digest s)) @ drop (length (hash_out (msg_digest s))) dst"
proof -
  have "map (\<lambda>i. mask_8bit (ucast (drop_bit (24 - 8 * i) w))) [0..<4] =
      [byte_at 3 (low w), byte_at 2 (low w), byte_at 1 (low w), byte_at 0 (low w)]" for w :: u64
    using byte_at_low [of 3 w] byte_at_low [of 2 w] byte_at_low [of 1 w] byte_at_low [of 0 w]
    by (simp add: upt_conv_Cons)
  then show ?thesis by (simp add: get_hash_bytes_def hash_out_def Let_def comp_def)
qed

lemma length_hash_out [simp]: "length (hash_out h) = 4 * length h"
  by (induction h) (simp_all add: hash_out_def)

lemma hashes_finish:
  assumes "hashes m s" "length m < 2 ^ 61"
  shows "\<exists>s'. hasher_finish s = Inr s' \<and>
    (length dst = 32 \<longrightarrow> get_hash_bytes s' dst = sha256_ref m)"
proof -
  let ?h = "fold hash256_block (blocks64 (sha_pad m)) initial_message_digest"
  have "hasher_finish s = Inr (s\<lparr>msg_digest := ?h\<rparr>)"
    using finish_padding [OF assms] assms(1) by (simp add: hashes_def sha_pad_blocks)
  moreover have "hash_out ?h = sha256_ref m" "length ?h = 8"
    using fold_block_ref [OF digest_ok_initial, of "blocks64 (sha_pad m)"]
    by (simp_all add: hash_out_def sha256_ref_def ref_H_constants digest_ok_def)
  moreover have "length (hash_out ?h) = 32" using calculation(3) by simp
  ultimately show ?thesis by (simp add: get_hash_bytes_eq)
qed

lemma hashes_pieces_fold:
  "hashes m s \<Longrightarrow> length (concat pieces) < 2 ^ 61 \<Longrightarrow>
     hashes (m @ concat pieces) (fold hasher_process pieces s)"
proof (induction pieces arbitrary: m s)
  case (Cons p pieces)
  have "hashes (m @ p) (hasher_process p s)"
    using Cons.prems by (intro hashes_process) simp_all
  from Cons.IH [OF this] show ?case using Cons.prems(2) by simp
qed simp

lemma sha256_all:
  assumes "length (concat pieces) < 2 ^ 61" "length dst = k_digest_size" "0 < k" "k < 2 ^ 31"
  shows "bindR (hasher_finish (fold hasher_process pieces hasher_init))
      (\<lambda>s. Inr (get_hash_bytes s dst)) = Inr (sha256_ref (concat pieces))"
    and "hash256 (concat pieces) dst = Inr (sha256_ref (concat pieces))"
    and "hash256_input k (concat pieces) dst = Some (Inr (sha256_ref (concat pieces)))"
    and "hash256_hex_string (concat pieces) = Inr (output_hex (sha256_ref (concat pieces)))"
proof -
  let ?m = "concat pieces"
  have dst: "length dst = 32" using assms(2) by (simp add: k_digest_size_def)
  have "hashes ?m (fold hasher_process pieces hasher_init)"
    using hashes_pieces_fold [OF hashes_init assms(1)] by simp
  from hashes_finish [OF this assms(1), of dst] dst
  show "bindR (hasher_finish (fold hasher_process pieces hasher_init))
      (\<lambda>s. Inr (get_hash_bytes s dst)) = Inr (sha256_ref ?m)" by auto
  have "length ?m < 2 ^ 63" using assms(1) by simp
  from hashes_process [OF hashes_init this] have m: "hashes ?m (hasher_process ?m hasher_init)" by simp
  have hash: "hash256 ?m d = Inr (sha256_ref ?m)" if "length d = 32" for d
    using hashes_finish [OF m assms(1), of d] that by (auto simp: hash256_def)
  from hash [OF dst] show "hash256 ?m dst = Inr (sha256_ref ?m)" .
  have "k < 2 ^ 63" using assms(4) by simp
  from hashes_pieces [OF assms(3) this hashes_init] obtain s where
    s: "hash256_pieces k ?m hasher_init = Some s" "hashes ?m s" by auto
  then show "hash256_input k ?m dst = Some (Inr (sha256_ref ?m))"
    using hashes_finish [OF s(2) assms(1), of dst] dst by (auto simp: hash256_input_def)
  show "hash256_hex_string ?m = Inr (output_hex (sha256_ref ?m))"
    by (simp add: hash256_hex_string_def hash k_digest_size_def)
qed

section \<open>Properties\<close>

text \<open>C25: The code computes SHA-256. However a message of less than \<open>2 ^ 61\<close> bytes is cut into
  the pieces that are given to a hasher, \<open>finish\<close> stays inside its block buffer and the digest is
  that of the published definition on the whole message, whose constants are the fractional parts of
  the square and cube roots of the first primes and not the tables of the code; the functions for whole messages, for
  input that can only be read once (with any positive buffer size) and for hexadecimal output
  agree with it and return.\<close>

theorem sha256_streaming:
  assumes "length (concat pieces) < 2 ^ 61" "length dst = k_digest_size" "0 < k" "k < 2 ^ 31"
  shows "bindR (hasher_finish (fold hasher_process pieces hasher_init))
      (\<lambda>s. Inr (get_hash_bytes s dst)) = Inr (sha256_ref (concat pieces)) \<and>
    hash256 (concat pieces) dst = Inr (sha256_ref (concat pieces)) \<and>
    hash256_input k (concat pieces) dst = Some (Inr (sha256_ref (concat pieces))) \<and>
    hash256_hex_string (concat pieces) = Inr (output_hex (sha256_ref (concat pieces)))"
  using sha256_all [OF assms] by blast

lemma sha256_streaming_witness:
  "hash256_input 4 [97, 98, 99] (replicate 32 0) = Some (Inr (sha256_ref [97, 98, 99]))"
  using sha256_streaming [of "[[97, 98], [99]]" "replicate 32 0" 4] by (simp add: k_digest_size_def)

end
