(* ===== verification/Traceable_List.thy ===== *)
theory Traceable_List
  imports Prelude
begin

text \<open>
  The doubly linked list of \<open>src/src/lib/rlib/impl/traceable_list.hpp\<close> on an explicit heap: a
  node is found from the address of its data, so that the object pool can go from an object to
  its flag. A null pointer is \<open>None\<close>; using a null or a freed address is undefined. The address
  that \<open>new\<close> returns is an argument of the operation that allocates.
\<close>

section \<open>Nodes and pointers\<close>

type_synonym ptr = "nat option"

record ('a, 'b) node =
  node_data :: 'a
  node_prev :: ptr
  node_next :: ptr
  extra_info :: 'b
  node_magic :: u32

definition list_magic :: u32 where
  "list_magic = 0x19990823"

record ('a, 'b) traceable_list =
  heap :: "nat \<Rightarrow> ('a, 'b) node option"
  list_head :: ptr
  list_tail :: ptr
  m_size :: nat

definition new_list :: "('a, 'b) traceable_list" where
  "new_list = \<lparr>heap = Map.empty, list_head = None, list_tail = None, m_size = 0\<rparr>"

definition deref :: "(nat \<Rightarrow> ('a, 'b) node option) \<Rightarrow> ptr \<Rightarrow> ('a, 'b) node result" where
  "deref h p = (case p of
       None \<Rightarrow> Inl (Undefined_behaviour ''null pointer'')
     | Some a \<Rightarrow> (case h a of
         None \<Rightarrow> Inl (Undefined_behaviour ''dangling pointer'')
       | Some n \<Rightarrow> Inr n))"

text \<open>A write through a pointer.\<close>

definition store ::
  "ptr \<Rightarrow> (('a, 'b) node \<Rightarrow> ('a, 'b) node) \<Rightarrow> ('a, 'b) traceable_list \<Rightarrow> ('a, 'b) traceable_list result" where
  "store p f l = bindR (deref (heap l) p) (\<lambda>n. Inr (l\<lparr>heap := (heap l)(the p \<mapsto> f n)\<rparr>))"

section \<open>Iterators\<close>

record iterator =
  it_ptr :: ptr
  it_tail :: ptr

definition begin_iter :: "('a, 'b) traceable_list \<Rightarrow> iterator" where
  "begin_iter l = \<lparr>it_ptr = list_head l, it_tail = list_tail l\<rparr>"

definition end_iter :: "('a, 'b) traceable_list \<Rightarrow> iterator" where
  "end_iter l = \<lparr>it_ptr = None, it_tail = list_tail l\<rparr>"

definition iter_of_data :: "nat \<Rightarrow> ('a, 'b) traceable_list \<Rightarrow> iterator result" where
  "iter_of_data a l = bindR (deref (heap l) (Some a)) (\<lambda>n.
     if node_magic n \<noteq> list_magic
     then Inl (Invalid_argument
       ''magic_num verification failed. invalid data_pointer passed or ruined memory?'')
     else Inr \<lparr>it_ptr = Some a, it_tail = None\<rparr>)"

definition iter_data :: "iterator \<Rightarrow> ('a, 'b) traceable_list \<Rightarrow> 'a result" where
  "iter_data it l = bindR (deref (heap l) (it_ptr it)) (\<lambda>n. Inr (node_data n))"

definition get_extra_info :: "iterator \<Rightarrow> ('a, 'b) traceable_list \<Rightarrow> 'b result" where
  "get_extra_info it l = bindR (deref (heap l) (it_ptr it)) (\<lambda>n. Inr (extra_info n))"

definition set_extra_info ::
  "iterator \<Rightarrow> 'b \<Rightarrow> ('a, 'b) traceable_list \<Rightarrow> ('a, 'b) traceable_list result" where
  "set_extra_info it e l = store (it_ptr it) (\<lambda>n. n\<lparr>extra_info := e\<rparr>) l"

definition set_data ::
  "iterator \<Rightarrow> 'a \<Rightarrow> ('a, 'b) traceable_list \<Rightarrow> ('a, 'b) traceable_list result" where
  "set_data it d l = store (it_ptr it) (\<lambda>n. n\<lparr>node_data := d\<rparr>) l"

text \<open>
  The prefix operators. The copies that the postfix ones return are made by the constructor
  without a tail.
\<close>

definition iter_incr :: "iterator \<Rightarrow> ('a, 'b) traceable_list \<Rightarrow> iterator result" where
  "iter_incr it l = bindR (deref (heap l) (it_ptr it)) (\<lambda>n. Inr (it\<lparr>it_ptr := node_next n\<rparr>))"

definition iter_decr :: "iterator \<Rightarrow> ('a, 'b) traceable_list \<Rightarrow> iterator result" where
  "iter_decr it l =
     (if it_ptr it = None \<and> it_tail it \<noteq> None then Inr (it\<lparr>it_ptr := it_tail it\<rparr>)
      else bindR (deref (heap l) (it_ptr it)) (\<lambda>n. Inr (it\<lparr>it_ptr := node_prev n\<rparr>)))"

definition iter_post_incr :: "iterator \<Rightarrow> ('a, 'b) traceable_list \<Rightarrow> (iterator \<times> iterator) result" where
  "iter_post_incr it l = bindR (iter_incr it l) (\<lambda>it'. Inr (\<lparr>it_ptr = it_ptr it, it_tail = None\<rparr>, it'))"

definition iter_post_decr :: "iterator \<Rightarrow> ('a, 'b) traceable_list \<Rightarrow> (iterator \<times> iterator) result" where
  "iter_post_decr it l = bindR (iter_decr it l) (\<lambda>it'. Inr (\<lparr>it_ptr = it_ptr it, it_tail = None\<rparr>, it'))"

definition iter_eq :: "iterator \<Rightarrow> iterator \<Rightarrow> bool" where
  "iter_eq i j \<longleftrightarrow> it_ptr i = it_ptr j"

section \<open>Operations of the list\<close>

definition emplace_one ::
  "iterator \<Rightarrow> 'b \<Rightarrow> 'a \<Rightarrow> nat \<Rightarrow> ('a, 'b) traceable_list \<Rightarrow> ('a, 'b) traceable_list result" where
  "emplace_one it e d a l =
     (let l = l\<lparr>heap := (heap l)(a \<mapsto>
            \<lparr>node_data = d, node_prev = None, node_next = it_ptr it, extra_info = e, node_magic = list_magic\<rparr>),
          m_size := m_size l + 1\<rparr>
      in if list_head l = None then Inr (l\<lparr>list_head := Some a, list_tail := Some a\<rparr>)
      else if it_ptr it = None then
        bindR (store (list_tail l) (\<lambda>n. n\<lparr>node_next := Some a\<rparr>) l) (\<lambda>l.
        bindR (store (Some a) (\<lambda>n. n\<lparr>node_prev := list_tail l\<rparr>) l) (\<lambda>l.
        Inr (l\<lparr>list_tail := Some a\<rparr>)))
      else
        bindR (deref (heap l) (it_ptr it)) (\<lambda>right.
        let left = node_prev right in
        bindR (store (Some a) (\<lambda>n. n\<lparr>node_prev := left\<rparr>) l) (\<lambda>l.
        bindR (if left \<noteq> None then store left (\<lambda>n. n\<lparr>node_next := Some a\<rparr>) l else Inr l) (\<lambda>l.
        bindR (store (it_ptr it) (\<lambda>n. n\<lparr>node_prev := Some a\<rparr>) l) (\<lambda>l.
        Inr (if list_head l = it_ptr it then l\<lparr>list_head := Some a\<rparr> else l))))))"

definition push_one ::
  "iterator \<Rightarrow> 'a \<Rightarrow> 'b \<Rightarrow> nat \<Rightarrow> ('a, 'b) traceable_list \<Rightarrow> ('a, 'b) traceable_list result" where
  "push_one it d e a l = emplace_one it e d a l"

definition push_back ::
  "'a \<Rightarrow> 'b \<Rightarrow> nat \<Rightarrow> ('a, 'b) traceable_list \<Rightarrow> ('a, 'b) traceable_list result" where
  "push_back d e a l = push_one (end_iter l) d e a l"

definition push_front ::
  "'a \<Rightarrow> 'b \<Rightarrow> nat \<Rightarrow> ('a, 'b) traceable_list \<Rightarrow> ('a, 'b) traceable_list result" where
  "push_front d e a l = push_one (begin_iter l) d e a l"

definition pop_one :: "iterator \<Rightarrow> ('a, 'b) traceable_list \<Rightarrow> ('a, 'b) traceable_list result" where
  "pop_one it l =
     (if list_head l = None then Inl (Invalid_argument ''nothing to pop.'')
      else if it_ptr it = None then Inl (Invalid_argument ''you may not pop end().'')
      else bindR (deref (heap l) (it_ptr it)) (\<lambda>n.
        let left = node_prev n; right = node_next n in
        bindR (if left \<noteq> None then store left (\<lambda>n. n\<lparr>node_next := right\<rparr>) l else Inr l) (\<lambda>l.
        bindR (if right \<noteq> None then store right (\<lambda>n. n\<lparr>node_prev := left\<rparr>) l else Inr l) (\<lambda>l.
        let l = (if list_head l = it_ptr it then l\<lparr>list_head := right\<rparr> else l);
            l = (if list_tail l = it_ptr it then l\<lparr>list_tail := left\<rparr> else l)
        in Inr (l\<lparr>m_size := m_size l - 1, heap := (heap l)(the (it_ptr it) := None)\<rparr>)))))"

definition pop_front :: "('a, 'b) traceable_list \<Rightarrow> ('a, 'b) traceable_list result" where
  "pop_front l = pop_one (begin_iter l) l"

definition pop_back :: "('a, 'b) traceable_list \<Rightarrow> ('a, 'b) traceable_list result" where
  "pop_back l = bindR (iter_decr (end_iter l) l) (\<lambda>it. pop_one it l)"

text \<open>The loop of \<open>pop_some\<close> moves on before it deletes the node it stood at.\<close>

partial_function (option) pop_some ::
  "iterator \<Rightarrow> iterator \<Rightarrow> ('a, 'b) traceable_list \<Rightarrow> ('a, 'b) traceable_list result option" where
  "pop_some it to l =
     (if iter_eq it to then Some (Inr l)
      else case iter_post_incr it l of
        Inl e \<Rightarrow> Some (Inl e)
      | Inr (to_pop, it) \<Rightarrow>
          (case pop_one to_pop l of Inl e \<Rightarrow> Some (Inl e) | Inr l \<Rightarrow> pop_some it to l))"

definition list_size :: "('a, 'b) traceable_list \<Rightarrow> nat" where
  "list_size l = m_size l"

text \<open>The destructor deletes node after node.\<close>

partial_function (option) destroy_loop ::
  "iterator \<Rightarrow> ('a, 'b) traceable_list \<Rightarrow> ('a, 'b) traceable_list result option" where
  "destroy_loop it l =
     (if iter_eq it (end_iter l) then Some (Inr l)
      else case iter_post_incr it l of
        Inl e \<Rightarrow> Some (Inl e)
      | Inr (to_release, it) \<Rightarrow>
          destroy_loop it (l\<lparr>heap := (heap l)(the (it_ptr to_release) := None)\<rparr>))"

definition destroy_list :: "('a, 'b) traceable_list \<Rightarrow> ('a, 'b) traceable_list result option" where
  "destroy_list l = destroy_loop (begin_iter l) l"

section \<open>The list that a heap represents\<close>

type_synonym ('a, 'b) entry = "nat \<times> 'a \<times> 'b"

definition first_ptr :: "('a, 'b) entry list \<Rightarrow> ptr \<Rightarrow> ptr" where
  "first_ptr xs q = (case xs of [] \<Rightarrow> q | x # _ \<Rightarrow> Some (fst x))"

definition last_ptr :: "ptr \<Rightarrow> ('a, 'b) entry list \<Rightarrow> ptr" where
  "last_ptr p xs = (if xs = [] then p else Some (fst (last xs)))"

text \<open>\<open>chain h p xs q\<close>: the nodes of \<open>xs\<close> follow each other between \<open>p\<close> and \<open>q\<close>.\<close>

fun chain :: "(nat \<Rightarrow> ('a, 'b) node option) \<Rightarrow> ptr \<Rightarrow> ('a, 'b) entry list \<Rightarrow> ptr \<Rightarrow> bool" where
  "chain h p [] q = True"
| "chain h p ((a, d, e) # xs) q =
     (h a = Some \<lparr>node_data = d, node_prev = p, node_next = first_ptr xs q, extra_info = e,
        node_magic = list_magic\<rparr> \<and> chain h (Some a) xs q)"

definition addrs :: "('a, 'b) entry list \<Rightarrow> nat list" where
  "addrs xs = map fst xs"

definition represents :: "('a, 'b) traceable_list \<Rightarrow> ('a, 'b) entry list \<Rightarrow> bool" where
  "represents l xs \<longleftrightarrow>
     chain (heap l) None xs None \<and> list_head l = first_ptr xs None \<and> list_tail l = last_ptr None xs \<and>
     distinct (addrs xs) \<and> dom (heap l) = set (addrs xs) \<and> m_size l = length xs"

lemma first_ptr_simps [simp]:
  "first_ptr [] q = q" "first_ptr (x # xs) q = Some (fst x)"
  "first_ptr (xs @ ys) q = first_ptr xs (first_ptr ys q)"
  by (auto simp: first_ptr_def split: list.splits)

lemma last_ptr_simps [simp]:
  "last_ptr p [] = p" "last_ptr p (x # xs) = last_ptr (Some (fst x)) xs"
  "last_ptr p (xs @ ys) = last_ptr (last_ptr p xs) ys"
  by (auto simp: last_ptr_def)

lemma addrs_simps [simp]:
  "addrs [] = []" "addrs (x # xs) = fst x # addrs xs" "addrs (xs @ ys) = addrs xs @ addrs ys"
  by (simp_all add: addrs_def)

lemma chain_append [simp]:
  "chain h p (xs @ ys) q \<longleftrightarrow> chain h p xs (first_ptr ys q) \<and> chain h (last_ptr p xs) ys q"
  by (induction h p xs q rule: chain.induct) auto

lemma chain_frame [simp]: "a \<notin> set (addrs xs) \<Longrightarrow> chain (h(a := n)) p xs q = chain h p xs q"
  by (induction h p xs q rule: chain.induct) auto

lemma first_ptr_not_None [simp]: "\<exists>y. first_ptr xs (Some a) = Some y"
  by (cases xs) auto

lemma last_ptr_other [simp]:
  "a \<notin> set (addrs xs) \<Longrightarrow> last_ptr p xs = Some a \<longleftrightarrow> xs = [] \<and> p = Some a"
  by (cases xs rule: rev_cases) auto

lemma first_ptr_other [simp]:
  "a \<notin> set (addrs xs) \<Longrightarrow> first_ptr xs q = Some a \<longleftrightarrow> xs = [] \<and> q = Some a"
  by (cases xs) auto

lemma remove_only: "dom h = {a} \<Longrightarrow> h(a := None) = Map.empty"
  by (auto simp: fun_eq_iff dom_def set_eq_iff)

lemmas list_ops = store_def deref_def Let_def represents_def

lemma represents_emplace:
  assumes "represents l (xs @ ys)" "it_ptr it = first_ptr ys None" "heap l a = None"
  shows "\<exists>l'. emplace_one it e d a l = Inr l' \<and> represents l' (xs @ (a, d, e) # ys)"
proof -
  have fresh: "a \<notin> set (addrs xs)" "a \<notin> set (addrs ys)"
    using assms(1) domIff [of a "heap l"] assms(3) by (auto simp: represents_def simp del: domIff)
  show ?thesis
  proof (cases ys)
    case Nil
    show ?thesis
    proof (cases xs rule: rev_cases)
      case Nil
      then show ?thesis using assms \<open>ys = []\<close>
        by (auto simp: emplace_one_def list_ops)
    next
      case (snoc zs z)
      then show ?thesis using assms \<open>ys = []\<close> fresh
        by (cases z) (auto simp: emplace_one_def list_ops)
    qed
  next
    case (Cons y ys')
    show ?thesis
    proof (cases xs rule: rev_cases)
      case Nil
      then show ?thesis using assms Cons fresh
        by (cases y) (auto simp: emplace_one_def list_ops)
    next
      case (snoc zs z)
      then show ?thesis using assms Cons fresh
        by (cases y; cases z) (auto simp: emplace_one_def list_ops)
    qed
  qed
qed

lemma represents_pop:
  assumes "represents l (xs @ z # ys)" "it_ptr it = Some (fst z)"
  shows "\<exists>l'. pop_one it l = Inr l' \<and> represents l' (xs @ ys)"
proof (cases xs rule: rev_cases)
  case Nil
  then show ?thesis using assms
    by (cases z; cases ys) (auto simp: pop_one_def list_ops remove_only)
next
  case (snoc us u)
  then show ?thesis using assms
    by (cases z; cases u; cases ys) (auto simp: pop_one_def list_ops)
qed

lemma represents_deref:
  assumes "represents l (xs @ (a, d, e) # ys)"
  shows "heap l a = Some \<lparr>node_data = d, node_prev = last_ptr None xs,
    node_next = first_ptr ys None, extra_info = e, node_magic = list_magic\<rparr>"
  using assms by (simp add: represents_def)

lemma represents_incr:
  assumes "represents l (xs @ z # ys)" "it_ptr it = Some (fst z)"
  shows "iter_incr it l = Inr (it\<lparr>it_ptr := first_ptr ys None\<rparr>)"
    "iter_post_incr it l =
       Inr (\<lparr>it_ptr = Some (fst z), it_tail = None\<rparr>, it\<lparr>it_ptr := first_ptr ys None\<rparr>)"
  using assms represents_deref [of l xs "fst z" "fst (snd z)" "snd (snd z)" ys]
  by (simp_all add: iter_post_incr_def iter_incr_def deref_def)

lemma represents_set:
  assumes "represents l (xs @ (a, d, e) # ys)" "it_ptr it = Some a"
  shows "\<exists>l'. set_extra_info it f l = Inr l' \<and> represents l' (xs @ (a, d, f) # ys)"
    "\<exists>l'. set_data it c l = Inr l' \<and> represents l' (xs @ (a, c, e) # ys)"
proof -
  have "\<exists>l'. store (Some a) g l = Inr l' \<and> represents l' (xs @ (a, d', e') # ys)"
    if "g \<lparr>node_data = d, node_prev = last_ptr None xs, node_next = first_ptr ys None,
        extra_info = e, node_magic = list_magic\<rparr> =
      \<lparr>node_data = d', node_prev = last_ptr None xs, node_next = first_ptr ys None,
        extra_info = e', node_magic = list_magic\<rparr>" for g d' e'
    using assms(1) that by (auto simp: list_ops)
  from this [of "\<lambda>n. n\<lparr>extra_info := f\<rparr>" d f] this [of "\<lambda>n. n\<lparr>node_data := c\<rparr>" c e]
  show "\<exists>l'. set_extra_info it f l = Inr l' \<and> represents l' (xs @ (a, d, f) # ys)"
    "\<exists>l'. set_data it c l = Inr l' \<and> represents l' (xs @ (a, c, e) # ys)"
    using assms(2) by (simp_all add: set_extra_info_def set_data_def)
qed

lemma represents_iter_of_data:
  assumes "represents l (xs @ (a, d, e) # ys)"
  shows "iter_of_data a l = Inr \<lparr>it_ptr = Some a, it_tail = None\<rparr>"
  using represents_deref [OF assms] by (simp add: iter_of_data_def deref_def)

lemma represents_first: "represents l (z # ys) \<Longrightarrow> it_ptr (begin_iter l) = Some (fst z)"
  by (simp add: represents_def begin_iter_def)

lemma represents_last:
  "represents l (xs @ [z]) \<Longrightarrow> iter_decr (end_iter l) l = Inr \<lparr>it_ptr = Some (fst z), it_tail = Some (fst z)\<rparr>"
  by (simp add: represents_def end_iter_def iter_decr_def)

lemma represents_pop_some:
  "represents l (xs @ ms @ ys) \<Longrightarrow> it_ptr it = first_ptr ms (first_ptr ys None) \<Longrightarrow>
     it_ptr to = first_ptr ys None \<Longrightarrow>
     \<exists>l'. pop_some it to l = Some (Inr l') \<and> represents l' (xs @ ys)"
proof (induction ms arbitrary: it l)
  case Nil
  then show ?case by (simp add: pop_some.simps iter_eq_def)
next
  case (Cons m ms)
  let ?p = "\<lparr>it_ptr = Some (fst m), it_tail = None\<rparr>"
  have rep: "represents l (xs @ m # (ms @ ys))" using Cons.prems(1) by simp
  have it: "it_ptr it = Some (fst m)" using Cons.prems(2) by simp
  have "it_ptr to \<noteq> Some (fst m)"
    using rep Cons.prems(3) by (cases ys) (auto simp: represents_def)
  then have neq: "\<not> iter_eq it to" using it by (auto simp: iter_eq_def)
  obtain l1 where pop: "pop_one ?p l = Inr l1" "represents l1 (xs @ ms @ ys)"
    using represents_pop [OF rep, of ?p] by auto
  have "\<exists>l'. pop_some (it\<lparr>it_ptr := first_ptr (ms @ ys) None\<rparr>) to l1 = Some (Inr l') \<and> represents l' (xs @ ys)"
    using Cons.IH [OF pop(2)] Cons.prems(3) by simp
  then show ?case
    using neq pop(1) represents_incr(2) [OF rep it] by (simp add: pop_some.simps [of it])
qed

lemma destroy_chain:
  "chain (heap l) p xs None \<Longrightarrow> distinct (addrs xs) \<Longrightarrow> it_ptr it = first_ptr xs None \<Longrightarrow>
     destroy_loop it l = Some (Inr (l\<lparr>heap := (\<lambda>b. if b \<in> set (addrs xs) then None else heap l b)\<rparr>))"
proof (induction xs arbitrary: p it l)
  case Nil
  then show ?case by (simp add: destroy_loop.simps iter_eq_def end_iter_def)
next
  case (Cons x xs)
  obtain a d e where x: "x = (a, d, e)" by (cases x)
  let ?l = "l\<lparr>heap := (heap l)(a := None)\<rparr>"
  have "chain (heap ?l) (Some a) xs None" using Cons.prems x by simp
  note IH = Cons.IH [OF this _, of "it\<lparr>it_ptr := first_ptr xs None\<rparr>"]
  have "iter_post_incr it l = Inr (\<lparr>it_ptr = Some a, it_tail = None\<rparr>, it\<lparr>it_ptr := first_ptr xs None\<rparr>)"
    using Cons.prems x by (simp add: iter_post_incr_def iter_incr_def deref_def)
  then have "destroy_loop it l = destroy_loop (it\<lparr>it_ptr := first_ptr xs None\<rparr>) ?l"
    using Cons.prems x by (simp add: destroy_loop.simps [of it] iter_eq_def end_iter_def)
  also have "\<dots> = Some (Inr (?l\<lparr>heap := (\<lambda>b. if b \<in> set (addrs xs) then None else heap ?l b)\<rparr>))"
    using IH Cons.prems by simp
  finally show ?case by (auto simp: x fun_eq_iff)
qed

lemma represents_destroy:
  assumes "represents l xs"
  shows "\<exists>l'. destroy_list l = Some (Inr l') \<and> heap l' = Map.empty"
proof -
  have "(\<lambda>b. if b \<in> set (addrs xs) then None else heap l b) = Map.empty"
    using assms by (auto simp: represents_def fun_eq_iff dom_def)
  then show ?thesis
    using destroy_chain [of l None xs "begin_iter l"] assms
    by (simp add: destroy_list_def represents_def begin_iter_def)
qed

section \<open>Properties\<close>

text \<open>C28: The linked list is a sequence. On a heap that represents a list, inserting before an
  iterator, pushing and popping at either end and removing a range return, follow no null or
  freed pointer, and leave a heap that represents the list with that change; the destructor
  frees every node. Popping the end or from the front of an empty list is an
  \<open>invalid_argument\<close>, popping from the back of an empty one follows a null pointer.\<close>

theorem list_refines_sequence:
  assumes "represents l (xs @ ms @ ys)" "heap l a = None"
  shows "(it_ptr it = first_ptr (ms @ ys) None \<longrightarrow>
      (\<exists>l'. emplace_one it e d a l = Inr l' \<and> represents l' (xs @ (a, d, e) # ms @ ys))) \<and>
    (\<exists>l'. push_back d e a l = Inr l' \<and> represents l' (xs @ ms @ ys @ [(a, d, e)])) \<and>
    (\<exists>l'. push_front d e a l = Inr l' \<and> represents l' ((a, d, e) # xs @ ms @ ys)) \<and>
    (it_ptr it = first_ptr (ms @ ys) None \<and> it_ptr to = first_ptr ys None \<longrightarrow>
      (\<exists>l'. pop_some it to l = Some (Inr l') \<and> represents l' (xs @ ys))) \<and>
    (xs = [] \<and> ms = [z] \<longrightarrow> (\<exists>l'. pop_front l = Inr l' \<and> represents l' ys)) \<and>
    (ms = [z] \<and> ys = [] \<longrightarrow> (\<exists>l'. pop_back l = Inr l' \<and> represents l' xs)) \<and>
    (\<exists>l'. destroy_list l = Some (Inr l') \<and> heap l' = Map.empty) \<and>
    (\<exists>m. pop_one (end_iter l) l = Inl (Invalid_argument m)) \<and>
    (xs @ ms @ ys = [] \<longrightarrow> (\<exists>m. pop_front l = Inl (Invalid_argument m)) \<and>
       pop_back l = Inl (Undefined_behaviour ''null pointer''))"
proof -
  have "\<exists>l'. push_back d e a l = Inr l' \<and> represents l' (xs @ ms @ ys @ [(a, d, e)])"
    using represents_emplace [of l "xs @ ms @ ys" "[]" "end_iter l" a e d] assms
    by (simp add: push_back_def push_one_def end_iter_def)
  moreover have "\<exists>l'. push_front d e a l = Inr l' \<and> represents l' ((a, d, e) # xs @ ms @ ys)"
    using represents_emplace [of l "[]" "xs @ ms @ ys" "begin_iter l" a e d] assms
    by (simp add: push_front_def push_one_def begin_iter_def represents_def [of l])
  moreover have "\<exists>l'. pop_front l = Inr l' \<and> represents l' ys" if "xs = []" "ms = [z]"
    using represents_pop [of l "[]" z ys "begin_iter l"] represents_first [of l z ys] assms(1) that
    by (simp add: pop_front_def)
  moreover have "\<exists>l'. pop_back l = Inr l' \<and> represents l' xs" if "ms = [z]" "ys = []"
    using represents_pop [of l xs z "[]"] represents_last [of l xs z] assms(1) that
    by (simp add: pop_back_def)
  moreover have "\<exists>m. pop_one (end_iter l) l = Inl (Invalid_argument m)"
    by (simp add: pop_one_def end_iter_def)
  moreover have "(\<exists>m. pop_front l = Inl (Invalid_argument m)) \<and>
      pop_back l = Inl (Undefined_behaviour ''null pointer'')" if "xs @ ms @ ys = []"
    using assms(1) that
    by (simp add: represents_def pop_front_def pop_back_def pop_one_def iter_decr_def end_iter_def deref_def)
  ultimately show ?thesis
    using represents_emplace [of l xs "ms @ ys" it a e d] represents_pop_some [of l xs ms ys it to]
      represents_destroy [OF assms(1)] assms by simp
qed

lemma list_refines_sequence_witness:
  "\<exists>l l'. push_back (7 :: nat) True 1 new_list = Inr l \<and> push_front 8 False 2 l = Inr l' \<and>
     represents l' [(2, 8, False), (1, 7, True)]"
proof -
  have "represents new_list ([] @ [] @ ([] :: (nat, bool) entry list))"
    by (simp add: represents_def new_list_def)
  from list_refines_sequence [OF this, of 1 _ True 7] obtain l :: "(nat, bool) traceable_list" where
    l: "push_back 7 True 1 new_list = Inr l" "represents l ([] @ [] @ [(1, 7, True)])"
    by (auto simp: new_list_def)
  have "2 \<notin> dom (heap l)" using l(2) by (simp add: represents_def)
  then have "heap l 2 = None" by (simp add: domIff)
  from list_refines_sequence [OF l(2) this, of _ False 8] l(1) show ?thesis by auto
qed

end
