(* ===== verification/Object_Pool.thy ===== *)
theory Object_Pool
  imports Traceable_List
begin

text \<open>
  The object pool of \<open>src/src/lib/rlib/pool.hpp\<close>: up to \<open>max_size\<close> objects live in a traceable
  list with a flag each, the free ones are also in a list of pointers, and a thread that finds
  none waits on a condition variable until another one releases. The operations under the
  mutex are functions on the state of the pool; \<open>pool_step\<close> interleaves the threads.

  \<open>object_store\<close> is the contract that the pool needs of the list of its objects.
\<close>

section \<open>The contract of the object list\<close>

locale object_store =
  fixes append_object :: "'o \<Rightarrow> bool \<Rightarrow> nat \<Rightarrow> 's \<Rightarrow> 's result"
    and last_object :: "'s \<Rightarrow> nat result"
    and mark_object :: "nat \<Rightarrow> bool \<Rightarrow> 's \<Rightarrow> 's result"
    and object_count :: "'s \<Rightarrow> nat"
    and content :: "'s \<Rightarrow> (nat \<times> 'o \<times> bool) list \<Rightarrow> bool"
  assumes append_content:
      "content s xs \<Longrightarrow> a \<notin> fst ` set xs \<Longrightarrow>
         \<exists>s'. append_object ob f a s = Inr s' \<and> content s' (xs @ [(a, ob, f)])"
    and last_content: "content s (xs @ [(a, ob, f)]) \<Longrightarrow> last_object s = Inr a"
    and mark_content:
      "content s (xs @ (a, ob, f) # ys) \<Longrightarrow>
         \<exists>s'. mark_object a g s = Inr s' \<and> content s' (xs @ (a, ob, g) # ys)"
    and count_content: "content s xs \<Longrightarrow> object_count s = length xs"
    and content_distinct: "content s xs \<Longrightarrow> distinct (map fst xs)"
begin

text \<open>Growing the store yields the pointer to the new object, which is marked free.\<close>

lemma grow_content:
  assumes "content s xs" "a \<notin> fst ` set xs"
  shows "\<exists>s'. append_object ob f a s = Inr s' \<and> last_object s' = Inr a \<and>
    content s' (xs @ [(a, ob, f)]) \<and> object_count s' = Suc (length xs)"
proof -
  obtain s' where "append_object ob f a s = Inr s'" "content s' (xs @ [(a, ob, f)])"
    using append_content [OF assms] by blast
  then show ?thesis using last_content [of s'] count_content [of s'] by auto
qed

text \<open>Marking an object changes its flag and nothing else.\<close>

lemma mark_any:
  assumes "content s xs" "(a, ob, f) \<in> set xs"
  shows "\<exists>s' ys. mark_object a g s = Inr s' \<and> content s' ys \<and> length ys = length xs \<and>
    set ys = insert (a, ob, g) (set xs - {(a, ob, f)})"
proof -
  obtain us vs where xs: "xs = us @ (a, ob, f) # vs" using assms(2) by (meson split_list)
  then obtain s' where "mark_object a g s = Inr s'" "content s' (us @ (a, ob, g) # vs)"
    using mark_content assms(1) by blast
  moreover have "(a, ob, f) \<notin> set us \<union> set vs"
    using content_distinct [OF assms(1)] by (auto simp: xs rev_image_eqI)
  then have "set (us @ (a, ob, g) # vs) = insert (a, ob, g) (set xs - {(a, ob, f)})"
    by (auto simp: xs)
  ultimately show ?thesis using xs by (intro exI [of _ s'] exI [of _ "us @ (a, ob, g) # vs"]) simp
qed

end

section \<open>The state of a pool\<close>

record 'o pool =
  pool_buffer :: "('o, bool) traceable_list"
  bound_object :: 'o
  max_size :: nat
  free_list :: "nat list"
  new_obj_ready :: bool

text \<open>The constructor; \<open>bound_object\<close> is what the bound arguments construct.\<close>

definition new_pool :: "nat \<Rightarrow> 'o \<Rightarrow> 'o pool" where
  "new_pool n ob = \<lparr>pool_buffer = new_list, bound_object = ob, max_size = n, free_list = [],
     new_obj_ready = False\<rparr>"

definition append_free :: "'o \<Rightarrow> bool \<Rightarrow> nat \<Rightarrow> ('o, bool) traceable_list \<Rightarrow> ('o, bool) traceable_list result" where
  "append_free ob f a l = emplace_one (end_iter l) f ob a l"

text \<open>\<open>&*--buffer.end()\<close>: the address of the data is the address of the node.\<close>

definition last_object :: "('o, bool) traceable_list \<Rightarrow> nat result" where
  "last_object l = bindR (iter_decr (end_iter l) l) (\<lambda>it.
     bindR (iter_data it l) (\<lambda>_. Inr (the (it_ptr it))))"

text \<open>From the pointer to an object to its flag.\<close>

definition mark_object :: "nat \<Rightarrow> bool \<Rightarrow> ('o, bool) traceable_list \<Rightarrow> ('o, bool) traceable_list result" where
  "mark_object a f l = bindR (iter_of_data a l) (\<lambda>it. set_extra_info it f l)"

definition new_obj_to_buffer :: "nat \<Rightarrow> 'o pool \<Rightarrow> 'o pool result" where
  "new_obj_to_buffer a p = bindR (append_free (bound_object p) True a (pool_buffer p)) (\<lambda>b.
     Inr (p\<lparr>pool_buffer := b\<rparr>))"

definition grow_pool :: "nat \<Rightarrow> 'o pool \<Rightarrow> 'o pool result" where
  "grow_pool a p = bindR (new_obj_to_buffer a p) (\<lambda>p.
     bindR (last_object (pool_buffer p)) (\<lambda>r. Inr (p\<lparr>free_list := free_list p @ [r]\<rparr>)))"

definition fill_full :: "(nat \<Rightarrow> nat) \<Rightarrow> 'o pool \<Rightarrow> 'o pool result" where
  "fill_full alloc p = loopR (\<lambda>cter p. grow_pool (alloc cter) p) [0..<max_size p] p"

section \<open>Borrowing and releasing\<close>

definition take_free :: "'o pool \<Rightarrow> (nat option \<times> 'o pool) result" where
  "take_free p = (case free_list p of
       [] \<Rightarrow> Inl (Undefined_behaviour ''begin of an empty list'')
     | r # rest \<Rightarrow> bindR (mark_object r False (pool_buffer p)) (\<lambda>b.
         Inr (Some r, p\<lparr>free_list := rest, pool_buffer := b, new_obj_ready := False\<rparr>)))"

lemma grow_pool_free: "grow_pool a p = Inr p' \<Longrightarrow> free_list p' \<noteq> []"
  by (auto simp: grow_pool_def bindR_eq_Inr_iff)

text \<open>The jump back to \<open>borrow_again\<close> is the recursive call.\<close>

function do_try_borrow_one :: "nat \<Rightarrow> 'o pool \<Rightarrow> (nat option \<times> 'o pool) result" where
  "do_try_borrow_one a p =
     (if free_list p \<noteq> [] then take_free p
      else if list_size (pool_buffer p) < max_size p
      then bindR (grow_pool a p) (\<lambda>p. do_try_borrow_one a p)
      else Inr (None, p))"
  by pat_completeness auto

termination do_try_borrow_one
  by (relation "measure (\<lambda>(a, p). if free_list p = [] then 1 else 0)") (auto dest: grow_pool_free)

declare do_try_borrow_one.simps [simp del]

definition try_borrow_one :: "nat \<Rightarrow> 'o pool \<Rightarrow> (nat option \<times> 'o pool) result" where
  "try_borrow_one a p = do_try_borrow_one a p"

text \<open>
  The part of \<open>borrow_one\<close> after the lock is taken again: \<open>None\<close> is a thread that goes (back) to
  sleep because the predicate of the wait is false.
\<close>

definition borrow_locked :: "nat \<Rightarrow> 'o pool \<Rightarrow> (nat \<times> 'o pool) option result" where
  "borrow_locked a p =
     (if \<not> new_obj_ready p then Inr None
      else bindR (do_try_borrow_one a p) (\<lambda>(r, p). case r of
        None \<Rightarrow> Inl (Logic_error ''unknown par error.'')
      | Some r \<Rightarrow> Inr (Some (r, p))))"

definition release_one :: "nat \<Rightarrow> 'o pool \<Rightarrow> 'o pool result" where
  "release_one which p =
     (let p = p\<lparr>free_list := which # free_list p\<rparr> in
      bindR (mark_object which True (pool_buffer p)) (\<lambda>b.
      Inr (p\<lparr>pool_buffer := b, new_obj_ready := True\<rparr>)))"

definition reconstruct_one :: "nat \<Rightarrow> 'o pool \<Rightarrow> 'o pool result" where
  "reconstruct_one which p =
     bindR (set_data \<lparr>it_ptr = Some which, it_tail = None\<rparr> (bound_object p) (pool_buffer p)) (\<lambda>b.
     Inr (p\<lparr>pool_buffer := b\<rparr>))"

section \<open>Threads\<close>

text \<open>
  A thread outside the pool; inside \<open>borrow_one\<close> between the failed first try and the second
  lock; asleep on the condition variable; woken but without the lock; with a borrowed object;
  in \<open>release_one\<close> between the unlock and the notification; ended by an exception.
\<close>

datatype thread = Idle | Retrying | Asleep | Woken | Holding nat | Notifying | Thrown error

record 'o pool_system =
  pool_state :: "'o pool"
  threads :: "nat \<Rightarrow> thread"

abbreviation is_fresh :: "nat \<Rightarrow> 'o pool_system \<Rightarrow> bool" where
  "is_fresh a s \<equiv> heap (pool_buffer (pool_state s)) a = None"

abbreviation moves :: "'o pool_system \<Rightarrow> 'o pool \<Rightarrow> nat \<Rightarrow> thread \<Rightarrow> 'o pool_system" where
  "moves s p t c \<equiv> s\<lparr>pool_state := p, threads := (threads s)(t := c)\<rparr>"

text \<open>
  A wait may also end without a notification. The mutex makes each of the other steps atomic.
\<close>

inductive pool_step :: "'o pool_system \<Rightarrow> 'o pool_system \<Rightarrow> bool" where
  borrow_first:
    "threads s t = Idle \<Longrightarrow> is_fresh a s \<Longrightarrow> try_borrow_one a (pool_state s) = Inr (Some r, p) \<Longrightarrow>
       pool_step s (moves s p t (Holding r))"
| borrow_starves:
    "threads s t = Idle \<Longrightarrow> is_fresh a s \<Longrightarrow> try_borrow_one a (pool_state s) = Inr (None, p) \<Longrightarrow>
       pool_step s (moves s p t Retrying)"
| borrow_first_throws:
    "threads s t = Idle \<Longrightarrow> is_fresh a s \<Longrightarrow> try_borrow_one a (pool_state s) = Inl e \<Longrightarrow>
       pool_step s (moves s (pool_state s) t (Thrown e))"
| borrow_sleeps:
    "threads s t \<in> {Retrying, Woken} \<Longrightarrow> is_fresh a s \<Longrightarrow> borrow_locked a (pool_state s) = Inr None \<Longrightarrow>
       pool_step s (moves s (pool_state s) t Asleep)"
| borrow_second:
    "threads s t \<in> {Retrying, Woken} \<Longrightarrow> is_fresh a s \<Longrightarrow>
       borrow_locked a (pool_state s) = Inr (Some (r, p)) \<Longrightarrow> pool_step s (moves s p t (Holding r))"
| borrow_throws:
    "threads s t \<in> {Retrying, Woken} \<Longrightarrow> is_fresh a s \<Longrightarrow> borrow_locked a (pool_state s) = Inl e \<Longrightarrow>
       pool_step s (moves s (pool_state s) t (Thrown e))"
| wakes: "threads s t = Asleep \<Longrightarrow> pool_step s (moves s (pool_state s) t Woken)"
| release:
    "threads s t = Holding r \<Longrightarrow> release_one r (pool_state s) = Inr p \<Longrightarrow>
       pool_step s (moves s p t Notifying)"
| release_throws:
    "threads s t = Holding r \<Longrightarrow> release_one r (pool_state s) = Inl e \<Longrightarrow>
       pool_step s (moves s (pool_state s) t (Thrown e))"
| notify_one:
    "threads s t = Notifying \<Longrightarrow> threads s u = Asleep \<Longrightarrow>
       pool_step s (s\<lparr>threads := (threads s)(t := Idle, u := Woken)\<rparr>)"
| notify_none:
    "threads s t = Notifying \<Longrightarrow> (\<And>u. threads s u \<noteq> Asleep) \<Longrightarrow>
       pool_step s (moves s (pool_state s) t Idle)"

inductive pool_reachable :: "nat \<Rightarrow> 'o \<Rightarrow> 'o pool_system \<Rightarrow> bool" for n ob where
  pool_start: "pool_reachable n ob \<lparr>pool_state = new_pool n ob, threads = (\<lambda>_. Idle)\<rparr>"
| pool_start_filled:
    "inj alloc \<Longrightarrow> fill_full alloc (new_pool n ob) = Inr p \<Longrightarrow>
       pool_reachable n ob \<lparr>pool_state = p, threads = (\<lambda>_. Idle)\<rparr>"
| pool_next: "pool_reachable n ob s \<Longrightarrow> pool_step s s' \<Longrightarrow> pool_reachable n ob s'"

section \<open>The pool on its list\<close>

interpretation pool_store: object_store append_free last_object mark_object list_size represents
proof unfold_locales
  fix s :: "('o, bool) traceable_list" and xs :: "('o, bool) entry list" and a ob f
  assume rep: "represents s xs" and new: "a \<notin> fst ` set xs"
  have "a \<notin> dom (heap s)" using rep new by (simp add: represents_def addrs_def)
  then have "heap s a = None" by (simp add: domIff)
  then show "\<exists>s'. append_free ob f a s = Inr s' \<and> represents s' (xs @ [(a, ob, f)])"
    using represents_emplace [of s xs "[]" "end_iter s" a f ob] rep
    by (simp add: append_free_def end_iter_def)
next
  fix s :: "('o, bool) traceable_list" and xs :: "('o, bool) entry list" and a ob f
  assume rep: "represents s (xs @ [(a, ob, f)])"
  show "last_object s = Inr a"
    using represents_last [OF rep] represents_deref [of s xs a ob f "[]"] rep
    by (simp add: last_object_def iter_data_def deref_def)
next
  fix s :: "('o, bool) traceable_list" and xs ys :: "('o, bool) entry list" and a ob f g
  assume rep: "represents s (xs @ (a, ob, f) # ys)"
  show "\<exists>s'. mark_object a g s = Inr s' \<and> represents s' (xs @ (a, ob, g) # ys)"
    using represents_set(1) [OF rep, of "\<lparr>it_ptr = Some a, it_tail = None\<rparr>"]
    by (simp add: mark_object_def represents_iter_of_data [OF rep])
qed (simp_all add: represents_def list_size_def addrs_def)

text \<open>
  What holds between the operations: the free list has exactly the objects whose flag says so,
  each once, there are never more objects than allowed, and the flag of the condition is only
  set when some object is free.
\<close>

definition pool_ok :: "'o pool \<Rightarrow> nat set \<Rightarrow> bool" where
  "pool_ok p busy \<longleftrightarrow> (\<exists>xs. represents (pool_buffer p) xs \<and> distinct (free_list p) \<and>
     set (free_list p) = {a. \<exists>ob. (a, ob, True) \<in> set xs} \<and>
     busy = {a. \<exists>ob. (a, ob, False) \<in> set xs} \<and>
     length xs \<le> max_size p \<and> (new_obj_ready p \<longrightarrow> free_list p \<noteq> []))"

lemma represents_functional:
  "represents l xs \<Longrightarrow> (a, u) \<in> set xs \<Longrightarrow> (a, v) \<in> set xs \<Longrightarrow> u = v"
  by (auto simp: represents_def addrs_def dest: eq_key_imp_eq_value)

lemma pool_ok_new: "pool_ok (new_pool n ob) {}"
  by (simp add: pool_ok_def new_pool_def new_list_def represents_def)

lemma pool_ok_take:
  assumes "pool_ok p busy" "free_list p \<noteq> []"
  shows "\<exists>r p'. take_free p = Inr (Some r, p') \<and> r \<notin> busy \<and> pool_ok p' (insert r busy) \<and>
    r \<in> set (free_list p)"
proof -
  obtain r rest where free: "free_list p = r # rest" using assms(2) by (cases "free_list p") auto
  obtain xs where xs: "represents (pool_buffer p) xs" "distinct (free_list p)"
    "set (free_list p) = {a. \<exists>ob. (a, ob, True) \<in> set xs}" "busy = {a. \<exists>ob. (a, ob, False) \<in> set xs}"
    "length xs \<le> max_size p" using assms(1) by (auto simp: pool_ok_def)
  then obtain ob where r: "(r, ob, True) \<in> set xs" using free by auto
  obtain b ys where b: "mark_object r False (pool_buffer p) = Inr b" "represents b ys"
    "length ys = length xs" "set ys = insert (r, ob, False) (set xs - {(r, ob, True)})"
    using pool_store.mark_any [OF xs(1) r] by blast
  have only: "(r, ob', f) \<in> set xs \<Longrightarrow> ob' = ob \<and> f" for ob' f
    using represents_functional [OF xs(1) r, of "(ob', f)"] by simp
  have "r \<notin> busy" using only xs(4) by auto
  have "set rest = {a. \<exists>ob. (a, ob, True) \<in> set ys}"
  proof -
    have "set rest = set (free_list p) - {r}" using xs(2) free by auto
    then show ?thesis unfolding xs(3) b(4) using only by auto
  qed
  moreover have "insert r busy = {a. \<exists>ob. (a, ob, False) \<in> set ys}"
    unfolding xs(4) b(4) by auto
  ultimately have "pool_ok (p\<lparr>free_list := rest, pool_buffer := b, new_obj_ready := False\<rparr>) (insert r busy)"
    using b(2,3) xs(2,5) free unfolding pool_ok_def by (intro exI [of _ ys]) auto
  then show ?thesis using b(1) free \<open>r \<notin> busy\<close> by (simp add: take_free_def)
qed

lemma pool_ok_grow:
  assumes "pool_ok p busy" "heap (pool_buffer p) a = None" "list_size (pool_buffer p) < max_size p"
  shows "\<exists>p'. grow_pool a p = Inr p' \<and> pool_ok p' busy \<and> free_list p' = free_list p @ [a]"
proof -
  obtain xs where xs: "represents (pool_buffer p) xs" "distinct (free_list p)"
    "set (free_list p) = {a. \<exists>ob. (a, ob, True) \<in> set xs}" "busy = {a. \<exists>ob. (a, ob, False) \<in> set xs}"
    "length xs \<le> max_size p" "new_obj_ready p \<longrightarrow> free_list p \<noteq> []"
    using assms(1) by (auto simp: pool_ok_def)
  have "a \<notin> dom (heap (pool_buffer p))" using assms(2) by (simp add: domIff)
  then have new: "a \<notin> fst ` set xs" using xs(1) by (simp add: represents_def addrs_def)
  obtain b where b: "append_free (bound_object p) True a (pool_buffer p) = Inr b"
    "last_object b = Inr a" "represents b (xs @ [(a, bound_object p, True)])"
    using pool_store.grow_content [OF xs(1) new] by blast
  have "a \<notin> set (free_list p)" using xs(3) new by force
  then have "pool_ok (p\<lparr>pool_buffer := b, free_list := free_list p @ [a]\<rparr>) busy"
    using xs b(3) assms(3) pool_store.count_content [OF xs(1)] unfolding pool_ok_def
    by (intro exI [of _ "xs @ [(a, bound_object p, True)]"]) auto
  then show ?thesis using b by (simp add: grow_pool_def new_obj_to_buffer_def)
qed

lemma pool_ok_borrow:
  assumes "pool_ok p busy" "heap (pool_buffer p) a = None"
  shows "(\<exists>r p'. do_try_borrow_one a p = Inr (Some r, p') \<and> r \<notin> busy \<and> pool_ok p' (insert r busy)) \<or>
    (do_try_borrow_one a p = Inr (None, p) \<and> free_list p = [] \<and> max_size p \<le> list_size (pool_buffer p))"
proof (cases "free_list p = []")
  case False
  then show ?thesis using pool_ok_take [OF assms(1) False]
    by (auto simp: do_try_borrow_one.simps [of a p])
next
  case True
  show ?thesis
  proof (cases "list_size (pool_buffer p) < max_size p")
    case small: True
    obtain p1 where p1: "grow_pool a p = Inr p1" "pool_ok p1 busy" "free_list p1 \<noteq> []"
      using pool_ok_grow [OF assms small] by auto
    then show ?thesis using pool_ok_take [OF p1(2,3)] True small
      by (auto simp: do_try_borrow_one.simps [of a p] do_try_borrow_one.simps [of a p1])
  next
    case full: False
    then show ?thesis using True by (simp add: do_try_borrow_one.simps [of a p])
  qed
qed

lemma pool_ok_release:
  assumes "pool_ok p busy" "r \<in> busy"
  shows "\<exists>p'. release_one r p = Inr p' \<and> pool_ok p' (busy - {r})"
proof -
  obtain xs where xs: "represents (pool_buffer p) xs" "distinct (free_list p)"
    "set (free_list p) = {a. \<exists>ob. (a, ob, True) \<in> set xs}" "busy = {a. \<exists>ob. (a, ob, False) \<in> set xs}"
    "length xs \<le> max_size p" using assms(1) by (auto simp: pool_ok_def)
  then obtain ob where r: "(r, ob, False) \<in> set xs" using assms(2) by auto
  obtain b ys where b: "mark_object r True (pool_buffer p) = Inr b" "represents b ys"
    "length ys = length xs" "set ys = insert (r, ob, True) (set xs - {(r, ob, False)})"
    using pool_store.mark_any [OF xs(1) r] by blast
  have only: "(r, ob', f) \<in> set xs \<Longrightarrow> ob' = ob \<and> \<not> f" for ob' f
    using represents_functional [OF xs(1) r, of "(ob', f)"] by simp
  have "r \<notin> set (free_list p)" using only xs(3) by auto
  moreover have "insert r (set (free_list p)) = {a. \<exists>ob. (a, ob, True) \<in> set ys}"
    unfolding xs(3) b(4) by auto
  moreover have "busy - {r} = {a. \<exists>ob. (a, ob, False) \<in> set ys}"
    unfolding xs(4) b(4) using only by auto
  ultimately have "pool_ok (p\<lparr>free_list := r # free_list p, pool_buffer := b, new_obj_ready := True\<rparr>) (busy - {r})"
    using b(2,3) xs(2,5) unfolding pool_ok_def by (intro exI [of _ ys]) auto
  then show ?thesis using b(1) by (simp add: release_one_def Let_def)
qed

lemma pool_ok_fill:
  assumes "inj_on alloc {..<max_size p}" "\<And>i. heap (pool_buffer p) (alloc i) = None"
    and "pool_ok p {}" "list_size (pool_buffer p) = 0"
  shows "\<exists>p'. fill_full alloc p = Inr p' \<and> pool_ok p' {} \<and> length (free_list p') = max_size p \<and>
    max_size p' = max_size p"
proof -
  have count: "list_size (pool_buffer q) = length (free_list q)" if "pool_ok q {}" for q :: "'a pool"
  proof -
    obtain xs where xs: "represents (pool_buffer q) xs" "distinct (free_list q)"
      "set (free_list q) = {a. \<exists>ob. (a, ob, True) \<in> set xs}" "{} = {a. \<exists>ob. (a, ob, False) \<in> set xs}"
      using \<open>pool_ok q {}\<close> by (auto simp: pool_ok_def)
    have "f" if "(a, ob, f) \<in> set xs" for a ob f using that xs(4) by (cases f) auto
    then have "set (free_list q) = fst ` set xs" unfolding xs(3) by (force simp: image_iff)
    moreover have "distinct (map fst xs)" using xs(1) by (simp add: represents_def addrs_def)
    ultimately show ?thesis
      using distinct_card [OF xs(2)] distinct_card [of "map fst xs"] pool_store.count_content [OF xs(1)]
      by simp
  qed
  have addresses: "heap (pool_buffer q) b = None" if "pool_ok q {}" "b \<notin> set (free_list q)" for q :: "'a pool" and b
  proof -
    obtain xs where xs: "represents (pool_buffer q) xs"
      "set (free_list q) = {a. \<exists>ob. (a, ob, True) \<in> set xs}" "{} = {a. \<exists>ob. (a, ob, False) \<in> set xs}"
      using \<open>pool_ok q {}\<close> by (auto simp: pool_ok_def)
    have "f" if "(a, ob, f) \<in> set xs" for a ob f using that xs(3) by (cases f) auto
    then have "b \<notin> fst ` set xs" using xs(2) that(2) by (force simp: image_iff)
    then have "b \<notin> dom (heap (pool_buffer q))" using xs(1) by (simp add: represents_def addrs_def)
    then show ?thesis by (simp add: domIff)
  qed
  define P where "P i q \<longleftrightarrow> pool_ok q {} \<and> free_list q = map alloc [0..<i] \<and> max_size q = max_size p"
    for i and q :: "'a pool"
  have "\<exists>p'. loopR (\<lambda>cter p. grow_pool (alloc cter) p) [0..<max_size p] p = Inr p' \<and> P (max_size p) p'"
  proof (rule loopR_upt_invariant)
    fix i and q :: "'a pool"
    assume i: "i < max_size p" and P: "P i q"
    have "alloc i \<notin> set (free_list q)"
      using P i inj_onD [OF assms(1), of i] by (fastforce simp: P_def)
    then have "heap (pool_buffer q) (alloc i) = None" using P addresses by (simp add: P_def)
    moreover have "list_size (pool_buffer q) < max_size q" using P i count by (simp add: P_def)
    ultimately obtain q' where "grow_pool (alloc i) q = Inr q'" "pool_ok q' {}"
      "free_list q' = free_list q @ [alloc i]" using P pool_ok_grow unfolding P_def by blast
    moreover from this(1) have "max_size q' = max_size q"
      by (auto simp: grow_pool_def new_obj_to_buffer_def bindR_eq_Inr_iff)
    ultimately show "\<exists>q'. grow_pool (alloc i) q = Inr q' \<and> P (Suc i) q'"
      using P by (simp add: P_def)
  next
    have "free_list p = []" using count [OF assms(3)] assms(4) by simp
    then show "P 0 p" using assms(3) by (simp add: P_def)
  qed simp
  then show ?thesis by (auto simp: fill_full_def P_def)
qed

section \<open>The threads together\<close>

definition holders :: "(nat \<Rightarrow> thread) \<Rightarrow> nat set" where
  "holders ts = {r. \<exists>t. ts t = Holding r}"

definition system_ok :: "'o pool_system \<Rightarrow> bool" where
  "system_ok s \<longleftrightarrow> pool_ok (pool_state s) (holders (threads s)) \<and>
     (\<forall>t u r. threads s t = Holding r \<and> threads s u = Holding r \<longrightarrow> t = u) \<and>
     (\<forall>t e. threads s t \<noteq> Thrown e)"

lemma in_holders_update:
  "x \<in> holders (ts(t := c)) \<longleftrightarrow> c = Holding x \<or> (\<exists>u. u \<noteq> t \<and> ts u = Holding x)"
  unfolding holders_def mem_Collect_eq fun_upd_apply by metis

lemma other_holders:
  assumes only: "\<And>q u. ts t = Holding q \<Longrightarrow> ts u = Holding q \<Longrightarrow> u = t"
  shows "(\<exists>u. u \<noteq> t \<and> ts u = Holding x) \<longleftrightarrow> x \<in> holders ts \<and> ts t \<noteq> Holding x"
proof
  assume "\<exists>u. u \<noteq> t \<and> ts u = Holding x"
  then obtain u where u: "u \<noteq> t" "ts u = Holding x" by blast
  then have "ts t \<noteq> Holding x" using only by blast
  then show "x \<in> holders ts \<and> ts t \<noteq> Holding x" using u(2) unfolding holders_def by blast
next
  assume "x \<in> holders ts \<and> ts t \<noteq> Holding x"
  then obtain u where u: "ts u = Holding x" "ts t \<noteq> Holding x" unfolding holders_def by blast
  then have "u \<noteq> t" by metis
  with u(1) show "\<exists>u. u \<noteq> t \<and> ts u = Holding x" by blast
qed

lemma holders_update:
  assumes "\<And>q u. ts t = Holding q \<Longrightarrow> ts u = Holding q \<Longrightarrow> u = t"
  shows "holders (ts(t := c)) = {q. c = Holding q} \<union> (holders ts - {q. ts t = Holding q})"
  by (intro set_eqI) (simp add: in_holders_update other_holders [of ts, OF assms])

lemma system_ok_pass:
  assumes "system_ok s" "\<And>q. threads s t \<noteq> Holding q" "\<And>q. c \<noteq> Holding q" "\<And>e. c \<noteq> Thrown e"
  shows "system_ok (moves s (pool_state s) t c)"
  using assms holders_update [of "threads s" t c] by (simp add: system_ok_def)

lemma system_ok_take:
  assumes "system_ok s" "\<And>q. threads s t \<noteq> Holding q" "r \<notin> holders (threads s)"
    and "pool_ok p (insert r (holders (threads s)))"
  shows "system_ok (moves s p t (Holding r))"
proof -
  have "holders ((threads s)(t := Holding r)) = insert r (holders (threads s))"
    using assms(2) holders_update [of "threads s" t "Holding r"] by auto
  moreover have "threads s u \<noteq> Holding r" for u using assms(3) by (auto simp: holders_def)
  ultimately show ?thesis using assms by (simp add: system_ok_def)
qed

lemma system_ok_locked:
  assumes "system_ok s" "is_fresh a s"
  shows "borrow_locked a (pool_state s) = Inr None \<or>
    (\<exists>r p. borrow_locked a (pool_state s) = Inr (Some (r, p)) \<and> r \<notin> holders (threads s) \<and>
       pool_ok p (insert r (holders (threads s))))"
proof (cases "new_obj_ready (pool_state s)")
  case True
  have ok: "pool_ok (pool_state s) (holders (threads s))" using assms(1) by (simp add: system_ok_def)
  then have "free_list (pool_state s) \<noteq> []" using True by (auto simp: pool_ok_def)
  then show ?thesis
    using pool_ok_borrow [OF ok assms(2)] True by (auto simp: borrow_locked_def)
qed (simp add: borrow_locked_def)

inductive_cases pool_stepE: "pool_step s s'"

lemma system_ok_step: "pool_step s s' \<Longrightarrow> system_ok s \<Longrightarrow> system_ok s'"
proof (induction rule: pool_step.induct)
  case (borrow_first s t a r p)
  then have "r \<notin> holders (threads s) \<and> pool_ok p (insert r (holders (threads s)))"
    using pool_ok_borrow [of "pool_state s" "holders (threads s)" a]
    by (auto simp: system_ok_def try_borrow_one_def)
  then show ?case using borrow_first by (intro system_ok_take) auto
next
  case (borrow_starves s t a p)
  then have "p = pool_state s"
    using pool_ok_borrow [of "pool_state s" "holders (threads s)" a]
    by (auto simp: system_ok_def try_borrow_one_def)
  then show ?case using borrow_starves system_ok_pass [of s t Retrying] by simp
next
  case (borrow_first_throws s t a e)
  then show ?case
    using pool_ok_borrow [of "pool_state s" "holders (threads s)" a]
    by (auto simp: system_ok_def try_borrow_one_def)
next
  case (borrow_sleeps s t a)
  then show ?case by (intro system_ok_pass) auto
next
  case (borrow_second s t a r p)
  then show ?case using system_ok_locked [of s a] by (intro system_ok_take) auto
next
  case (borrow_throws s t a e)
  then show ?case using system_ok_locked [of s a] by auto
next
  case (wakes s t)
  then show ?case by (intro system_ok_pass) auto
next
  case (release s t r p)
  then have "pool_ok p (holders (threads s) - {r})"
    using pool_ok_release [of "pool_state s" "holders (threads s)" r]
    by (auto simp: system_ok_def holders_def)
  moreover have "holders ((threads s)(t := Notifying)) = holders (threads s) - {r}"
    using release holders_update [of "threads s" t Notifying] by (auto simp: system_ok_def)
  ultimately show ?case using release by (auto simp: system_ok_def)
next
  case (release_throws s t r e)
  then show ?case
    using pool_ok_release [of "pool_state s" "holders (threads s)" r]
    by (auto simp: system_ok_def holders_def)
next
  case (notify_one s t u)
  have "system_ok (moves s (pool_state s) t Idle)"
    using notify_one by (intro system_ok_pass) auto
  then have "system_ok (moves (moves s (pool_state s) t Idle) (pool_state s) u Woken)"
    using notify_one system_ok_pass [of "moves s (pool_state s) t Idle" u Woken] by auto
  then show ?case by simp
next
  case (notify_none s t)
  then show ?case by (intro system_ok_pass) auto
qed

lemma pool_ok_new_filled:
  assumes "inj alloc" "fill_full alloc (new_pool n ob) = Inr p"
  shows "pool_ok p {}" "max_size p = n"
  using pool_ok_fill [of alloc "new_pool n ob"] pool_ok_new [of n ob] assms
  by (auto simp: new_pool_def new_list_def list_size_def intro: inj_on_subset)

lemma system_ok_reachable: "pool_reachable n ob s \<Longrightarrow> system_ok s"
proof (induction rule: pool_reachable.induct)
  case pool_start
  then show ?case using pool_ok_new [of n ob] by (simp add: system_ok_def holders_def)
next
  case (pool_start_filled alloc p)
  then show ?case using pool_ok_new_filled(1) by (simp add: system_ok_def holders_def)
qed (rule system_ok_step)

section \<open>What the operations return\<close>

lemma mark_size: "mark_object a f l = Inr l' \<Longrightarrow> list_size l' = list_size l"
  by (auto simp: mark_object_def set_extra_info_def store_def list_size_def bindR_eq_Inr_iff)

lemma append_size: "append_free ob f a l = Inr l' \<Longrightarrow> list_size l' = Suc (list_size l)"
  by (auto simp: append_free_def emplace_one_def store_def list_size_def Let_def bindR_eq_Inr_iff
      split: if_splits)

lemma take_outcome:
  "take_free p = Inr (x, p') \<Longrightarrow> x = Some (hd (free_list p)) \<and> free_list p' = tl (free_list p) \<and>
     \<not> new_obj_ready p' \<and> max_size p' = max_size p \<and>
     list_size (pool_buffer p') = list_size (pool_buffer p)"
  by (auto simp: take_free_def bindR_eq_Inr_iff mark_size split: list.splits)

lemma grow_outcome:
  "grow_pool a p = Inr p' \<Longrightarrow> (\<exists>r. free_list p' = free_list p @ [r]) \<and> max_size p' = max_size p \<and>
     list_size (pool_buffer p') = Suc (list_size (pool_buffer p))"
  by (auto simp: grow_pool_def new_obj_to_buffer_def bindR_eq_Inr_iff append_size)

lemma release_outcome:
  "release_one r p = Inr p' \<Longrightarrow> free_list p' = r # free_list p \<and> new_obj_ready p' \<and>
     max_size p' = max_size p \<and> list_size (pool_buffer p') = list_size (pool_buffer p)"
  by (auto simp: release_one_def Let_def bindR_eq_Inr_iff mark_size)

lemma borrow_outcome:
  "do_try_borrow_one a p = Inr (x, p') \<Longrightarrow> max_size p' = max_size p \<and>
     (free_list p = [] \<and> max_size p \<le> list_size (pool_buffer p) \<and> x = None \<and> p' = p \<or>
      free_list p = [] \<and> list_size (pool_buffer p) < max_size p \<and> free_list p' = [] \<and>
        \<not> new_obj_ready p' \<and> list_size (pool_buffer p') = Suc (list_size (pool_buffer p)) \<or>
      free_list p \<noteq> [] \<and> take_free p = Inr (x, p'))"
proof (induction a p rule: do_try_borrow_one.induct)
  case (1 a p)
  show ?case
  proof (cases "free_list p = [] \<and> list_size (pool_buffer p) < max_size p")
    case True
    with 1(2) obtain p1 where p1: "grow_pool a p = Inr p1" "do_try_borrow_one a p1 = Inr (x, p')"
      by (auto simp: do_try_borrow_one.simps [of a p] bindR_eq_Inr_iff)
    from grow_outcome [OF p1(1)] True obtain r where
      "free_list p1 = [r]" "list_size (pool_buffer p1) = Suc (list_size (pool_buffer p))"
      "max_size p1 = max_size p" by auto
    with p1(2) True show ?thesis
      by (auto simp: do_try_borrow_one.simps [of a p1] dest: take_outcome)
  qed (use 1(2) in \<open>auto simp: do_try_borrow_one.simps [of a p] dest: take_outcome split: if_splits\<close>)
qed

lemma locked_outcome:
  "borrow_locked a p = Inr (Some (r, p')) \<Longrightarrow> do_try_borrow_one a p = Inr (Some r, p')"
  by (auto simp: borrow_locked_def bindR_eq_Inr_iff split: if_splits option.splits)

lemma max_size_reachable: "pool_reachable n ob s \<Longrightarrow> max_size (pool_state s) = n"
proof (induction rule: pool_reachable.induct)
  case (pool_next s s')
  from pool_next(2,3) show ?case
    by (induction rule: pool_step.induct)
      (auto simp: try_borrow_one_def dest!: locked_outcome dest: borrow_outcome release_outcome)
next
  case (pool_start_filled alloc p)
  then show ?case using pool_ok_new_filled(2) by simp
qed (simp add: new_pool_def)

section \<open>A wakeup that is lost\<close>

abbreviation sys :: "'o pool \<Rightarrow> (nat \<Rightarrow> thread) \<Rightarrow> 'o pool_system" where
  "sys p ts \<equiv> \<lparr>pool_state = p, threads = ts\<rparr>"

lemma fresh_address: "pool_reachable n ob (sys p ts) \<Longrightarrow> \<exists>a. heap (pool_buffer p) a = None"
proof -
  assume "pool_reachable n ob (sys p ts)"
  then have "system_ok (sys p ts)" by (rule system_ok_reachable)
  then obtain xs where "represents (pool_buffer p) xs"
    by (auto simp: system_ok_def pool_ok_def)
  then have "finite (dom (heap (pool_buffer p)))" by (simp add: represents_def)
  then have "\<exists>a. a \<notin> dom (heap (pool_buffer p))" by (intro ex_new_if_finite) simp_all
  then show ?thesis by (simp add: domIff)
qed

lemma reach_borrow_new:
  assumes "pool_reachable n ob (sys p ts)" "ts t = Idle" "free_list p = []"
    and "list_size (pool_buffer p) < n"
  shows "\<exists>r q. pool_reachable n ob (sys q (ts(t := Holding r))) \<and> free_list q = [] \<and>
    \<not> new_obj_ready q \<and> list_size (pool_buffer q) = Suc (list_size (pool_buffer p))"
proof -
  obtain a where a: "heap (pool_buffer p) a = None" using fresh_address [OF assms(1)] by blast
  have size: "max_size p = n" using max_size_reachable [OF assms(1)] by simp
  have "pool_ok p (holders ts)" using system_ok_reachable [OF assms(1)] by (simp add: system_ok_def)
  from pool_ok_borrow [OF this a] size assms(4) obtain r q where
    q: "do_try_borrow_one a p = Inr (Some r, q)" by auto
  have "pool_reachable n ob (moves (sys p ts) q t (Holding r))"
    using assms(1,2) a q
    by (intro pool_next [OF assms(1)] borrow_first [where a = a]) (simp_all add: try_borrow_one_def)
  then show ?thesis using borrow_outcome [OF q] assms(3,4) size by auto
qed

lemma reach_sleep:
  assumes "pool_reachable n ob (sys p ts)" "ts t \<in> {Retrying, Woken}" "\<not> new_obj_ready p"
  shows "pool_reachable n ob (sys p (ts(t := Asleep)))"
proof -
  obtain a where a: "heap (pool_buffer p) a = None" using fresh_address [OF assms(1)] by blast
  have "pool_reachable n ob (moves (sys p ts) (pool_state (sys p ts)) t Asleep)"
    using assms a
    by (intro pool_next [OF assms(1)] borrow_sleeps [where a = a]) (simp_all add: borrow_locked_def)
  then show ?thesis by simp
qed

lemma reach_starve:
  assumes "pool_reachable n ob (sys p ts)" "ts t = Idle" "free_list p = []"
    and "n \<le> list_size (pool_buffer p)" "\<not> new_obj_ready p"
  shows "pool_reachable n ob (sys p (ts(t := Asleep)))"
proof -
  obtain a where a: "heap (pool_buffer p) a = None" using fresh_address [OF assms(1)] by blast
  have "max_size p = n" using max_size_reachable [OF assms(1)] by simp
  then have "try_borrow_one a p = Inr (None, p)"
    using assms(3,4) by (simp add: try_borrow_one_def do_try_borrow_one.simps)
  then have "pool_reachable n ob (moves (sys p ts) p t Retrying)"
    using assms(1,2) a by (intro pool_next [OF assms(1)] borrow_starves [where a = a]) simp_all
  then have "pool_reachable n ob (sys p (ts(t := Retrying)))" by simp
  from reach_sleep [OF this, of t] assms(5) show ?thesis by simp
qed

lemma reach_release:
  assumes "pool_reachable n ob (sys p ts)" "ts t = Holding r" "ts u = Asleep"
  shows "\<exists>q. pool_reachable n ob (sys q (ts(t := Idle, u := Woken))) \<and> free_list q = r # free_list p \<and>
    new_obj_ready q \<and> list_size (pool_buffer q) = list_size (pool_buffer p)"
proof -
  have "pool_ok p (holders ts)" using system_ok_reachable [OF assms(1)] by (simp add: system_ok_def)
  moreover have "r \<in> holders ts" using assms(2) by (auto simp: holders_def)
  ultimately obtain q where q: "release_one r p = Inr q" using pool_ok_release by blast
  have "pool_reachable n ob (moves (sys p ts) q t Notifying)"
    using assms(2) q by (intro pool_next [OF assms(1)] release) simp_all
  then have q2: "pool_reachable n ob (sys q (ts(t := Notifying)))" by simp
  have "u \<noteq> t" using assms(2,3) by auto
  then have "pool_reachable n ob ((sys q (ts(t := Notifying)))
      \<lparr>threads := (threads (sys q (ts(t := Notifying))))(t := Idle, u := Woken)\<rparr>)"
    using assms(3) by (intro pool_next [OF q2] notify_one) simp_all
  then show ?thesis using release_outcome [OF q] by auto
qed

lemma reach_wake:
  assumes "pool_reachable n ob (sys p ts)" "ts t = Woken" "new_obj_ready p"
  shows "\<exists>r q. pool_reachable n ob (sys q (ts(t := Holding r))) \<and> free_list q = tl (free_list p) \<and>
    \<not> new_obj_ready q"
proof -
  obtain a where a: "heap (pool_buffer p) a = None" using fresh_address [OF assms(1)] by blast
  have free: "free_list p \<noteq> []"
    using system_ok_reachable [OF assms(1)] assms(3) by (auto simp: system_ok_def pool_ok_def)
  have "system_ok (sys p ts)" using system_ok_reachable [OF assms(1)] .
  from system_ok_locked [OF this, of a] a assms(3) obtain r q where
    q: "borrow_locked a p = Inr (Some (r, q))"
    by (auto simp: borrow_locked_def bindR_eq_Inr_iff split: option.splits)
  have "pool_reachable n ob (moves (sys p ts) q t (Holding r))"
    using assms(2) a q by (intro pool_next [OF assms(1)] borrow_second [where a = a]) simp_all
  then show ?thesis using borrow_outcome [OF locked_outcome [OF q]] free by (auto dest: take_outcome)
qed

lemma two_lent:
  "\<exists>p r1 r2. pool_reachable 2 ob (sys p ((\<lambda>_. Idle)(1 := Holding r1, 2 := Holding r2))) \<and>
     free_list p = [] \<and> \<not> new_obj_ready p \<and> list_size (pool_buffer p) = 2"
proof -
  let ?I = "\<lambda>_. Idle"
  have s0: "pool_reachable 2 ob (sys (new_pool 2 ob) ?I)" by (rule pool_start)
  obtain r1 p1 where s1: "pool_reachable 2 ob (sys p1 (?I(1 := Holding r1)))" "free_list p1 = []"
    "\<not> new_obj_ready p1" "list_size (pool_buffer p1) = 1"
    using reach_borrow_new [OF s0, of 1] by (auto simp: new_pool_def list_size_def new_list_def)
  obtain r2 p2 where "pool_reachable 2 ob (sys p2 (?I(1 := Holding r1, 2 := Holding r2)))"
    "free_list p2 = []" "\<not> new_obj_ready p2" "list_size (pool_buffer p2) = 2"
    using reach_borrow_new [OF s1(1), of 2] s1 by auto
  then show ?thesis by blast
qed

section \<open>Properties\<close>

text \<open>C26: Under every interleaving of the threads the pool lends an object to one thread at a
  time: a borrowed object is not free, no two threads hold the same one, and there are never
  more objects than the pool may have. No call ends with an exception: the free list, the flags
  in the object list and the condition of the wait agree, so the \<open>unknown par error\<close> of
  \<open>borrow_one\<close> cannot occur and no dangling pointer is followed.\<close>

theorem pool_lends_exclusively:
  assumes "pool_reachable n ob s"
  shows "(\<forall>t u r. threads s t = Holding r \<and> threads s u = Holding r \<longrightarrow> t = u) \<and>
    (\<forall>t r. threads s t = Holding r \<longrightarrow> r \<notin> set (free_list (pool_state s))) \<and>
    distinct (free_list (pool_state s)) \<and>
    list_size (pool_buffer (pool_state s)) \<le> n \<and> (\<forall>t e. threads s t \<noteq> Thrown e)"
proof -
  have ok: "system_ok s" using system_ok_reachable [OF assms] .
  then obtain xs where xs: "represents (pool_buffer (pool_state s)) xs" "distinct (free_list (pool_state s))"
    "set (free_list (pool_state s)) = {a. \<exists>ob. (a, ob, True) \<in> set xs}"
    "holders (threads s) = {a. \<exists>ob. (a, ob, False) \<in> set xs}" "length xs \<le> max_size (pool_state s)"
    by (auto simp: system_ok_def pool_ok_def)
  have "r \<notin> set (free_list (pool_state s))" if "threads s t = Holding r" for t r
  proof -
    have "r \<in> holders (threads s)" using that by (auto simp: holders_def)
    then show ?thesis using xs(3,4) represents_functional [OF xs(1)] by fastforce
  qed
  then show ?thesis
    using ok xs(2,5) pool_store.count_content [OF xs(1)] max_size_reachable [OF assms]
    by (simp add: system_ok_def)
qed

lemma pool_lends_exclusively_witness:
  "\<exists>p r1 r2. pool_reachable 2 () (sys p ((\<lambda>_. Idle)(1 := Holding r1, 2 := Holding r2))) \<and>
     r1 \<notin> set (free_list p) \<and> list_size (pool_buffer p) \<le> 2"
proof -
  obtain p r1 r2 where s: "pool_reachable 2 () (sys p ((\<lambda>_. Idle)(1 := Holding r1, 2 := Holding r2)))"
    using two_lent [of "()"] by (elim exE conjE) (rule that)
  note lent = pool_lends_exclusively [OF s]
  have "r1 \<notin> set (free_list p)"
    using lent [THEN conjunct2, THEN conjunct1, rule_format, of 1 r1] by simp
  moreover have "list_size (pool_buffer p) \<le> 2"
    using lent [THEN conjunct2, THEN conjunct2, THEN conjunct2, THEN conjunct1] by simp
  ultimately show ?thesis using s by (intro exI conjI)
qed

text \<open>C27: A wakeup can be lost. With two objects out and two threads asleep, two releases that
  come before either sleeper runs leave two objects in the free list, but the first sleeper
  resets the flag that the wait tests: the other one goes back to sleep while an object is
  free, no notification is under way, and waking it again does not help until another release.\<close>

theorem pool_loses_wakeup:
  "\<exists>s. pool_reachable 2 ob s \<and> threads s 4 = Asleep \<and> free_list (pool_state s) \<noteq> [] \<and>
     (\<forall>t. threads s t \<notin> {Retrying, Woken, Notifying}) \<and>
     (\<forall>a. borrow_locked a (pool_state s) = Inr None)"
proof -
  let ?I = "\<lambda>_. Idle"
  obtain p2 r1 r2 where s2: "pool_reachable 2 ob (sys p2 (?I(1 := Holding r1, 2 := Holding r2)))"
    "free_list p2 = []" "\<not> new_obj_ready p2" "list_size (pool_buffer p2) = 2"
    using two_lent [of ob] by blast
  have "pool_reachable 2 ob (sys p2 (?I(1 := Holding r1, 2 := Holding r2, 3 := Asleep)))"
    using reach_starve [OF s2(1), of 3] s2 by simp
  from reach_starve [OF this, of 4] s2 have s3:
    "pool_reachable 2 ob (sys p2 (?I(1 := Holding r1, 2 := Holding r2, 3 := Asleep, 4 := Asleep)))"
    by simp
  obtain p3 where s4: "pool_reachable 2 ob (sys p3
      (?I(1 := Holding r1, 2 := Holding r2, 3 := Asleep, 4 := Asleep, 1 := Idle, 3 := Woken)))"
    "free_list p3 = [r1]"
    using reach_release [OF s3, of 1 r1 3] s2 by auto
  obtain p4 where s5: "pool_reachable 2 ob (sys p4 (?I(1 := Holding r1, 2 := Holding r2, 3 := Asleep,
      4 := Asleep, 1 := Idle, 3 := Woken, 2 := Idle, 4 := Woken)))"
    "free_list p4 = [r2, r1]" "new_obj_ready p4"
    using reach_release [OF s4(1), of 2 r2 4] s4(2) by auto
  obtain r3 p5 where s6: "pool_reachable 2 ob (sys p5 (?I(1 := Holding r1, 2 := Holding r2, 3 := Asleep,
      4 := Asleep, 1 := Idle, 3 := Woken, 2 := Idle, 4 := Woken, 3 := Holding r3)))"
    "free_list p5 = [r1]" "\<not> new_obj_ready p5"
    using reach_wake [OF s5(1), of 3] s5(2,3) by auto
  from reach_sleep [OF s6(1), of 4] s6(3) have "pool_reachable 2 ob (sys p5 (?I(1 := Holding r1,
      2 := Holding r2, 3 := Asleep, 4 := Asleep, 1 := Idle, 3 := Woken, 2 := Idle, 4 := Woken,
      3 := Holding r3, 4 := Asleep)))"
    by simp
  then show ?thesis
    using s6(2,3) by (intro exI, intro conjI) (assumption, auto simp: borrow_locked_def)
qed

end
