(* ===== verification/Wepoll_Queue.thy ===== *)
theory Wepoll_Queue
  imports Prelude
begin

text \<open>
  The intrusive queues of \<open>src/src/lib/wepoll.c\<close> (\<open>queue_init\<close> to \<open>queue_is_enqueued\<close>): a queue
  is a ring of nodes through its head, and a node that is in no queue is a ring of its own, which
  is how the code tells whether it is enqueued. Heads and nodes are addresses of one heap; a
  dereference outside it is undefined. \<open>rings\<close> relates a heap to the lists it holds: the ports
  are modelled on these lists.
\<close>

section \<open>Nodes\<close>

record queue_node =
  q_prev :: nat
  q_next :: nat

type_synonym qheap = "nat \<Rightarrow> queue_node option"

definition q_get :: "qheap \<Rightarrow> nat \<Rightarrow> queue_node result" where
  "q_get h a = (case h a of None \<Rightarrow> Inl (Undefined_behaviour ''dangling pointer'') | Some n \<Rightarrow> Inr n)"

definition set_prev :: "nat \<Rightarrow> nat \<Rightarrow> qheap \<Rightarrow> qheap result" where
  "set_prev a b h = bindR (q_get h a) (\<lambda>n. Inr (h(a \<mapsto> n\<lparr>q_prev := b\<rparr>)))"

definition set_next :: "nat \<Rightarrow> nat \<Rightarrow> qheap \<Rightarrow> qheap result" where
  "set_next a b h = bindR (q_get h a) (\<lambda>n. Inr (h(a \<mapsto> n\<lparr>q_next := b\<rparr>)))"

section \<open>Operations\<close>

definition queue_node_init :: "nat \<Rightarrow> qheap \<Rightarrow> qheap result" where
  "queue_node_init a h = bindR (set_prev a a h) (set_next a a)"

definition queue_init :: "nat \<Rightarrow> qheap \<Rightarrow> qheap result" where
  "queue_init q h = queue_node_init q h"

definition queue_detach_node :: "nat \<Rightarrow> qheap \<Rightarrow> qheap result" where
  "queue_detach_node a h =
     bindR (q_get h a) (\<lambda>n.
     bindR (set_next (q_prev n) (q_next n) h) (\<lambda>h.
     bindR (q_get h a) (\<lambda>n. set_prev (q_next n) (q_prev n) h)))"

definition queue_is_enqueued :: "nat \<Rightarrow> qheap \<Rightarrow> bool result" where
  "queue_is_enqueued a h = bindR (q_get h a) (\<lambda>n. Inr (q_prev n \<noteq> a))"

definition queue_is_empty :: "nat \<Rightarrow> qheap \<Rightarrow> bool result" where
  "queue_is_empty q h = bindR (queue_is_enqueued q h) (\<lambda>b. Inr (\<not> b))"

definition queue_first :: "nat \<Rightarrow> qheap \<Rightarrow> nat option result" where
  "queue_first q h = bindR (queue_is_empty q h) (\<lambda>e.
     if \<not> e then bindR (q_get h q) (\<lambda>n. Inr (Some (q_next n))) else Inr None)"

definition queue_last :: "nat \<Rightarrow> qheap \<Rightarrow> nat option result" where
  "queue_last q h = bindR (queue_is_empty q h) (\<lambda>e.
     if \<not> e then bindR (q_get h q) (\<lambda>n. Inr (Some (q_prev n))) else Inr None)"

definition queue_prepend :: "nat \<Rightarrow> nat \<Rightarrow> qheap \<Rightarrow> qheap result" where
  "queue_prepend q a h =
     bindR (q_get h q) (\<lambda>hd.
     bindR (set_next a (q_next hd) h) (\<lambda>h.
     bindR (set_prev a q h) (\<lambda>h.
     bindR (q_get h a) (\<lambda>n.
     bindR (set_prev (q_next n) a h) (\<lambda>h.
     set_next q a h)))))"

definition queue_append :: "nat \<Rightarrow> nat \<Rightarrow> qheap \<Rightarrow> qheap result" where
  "queue_append q a h =
     bindR (set_next a q h) (\<lambda>h.
     bindR (q_get h q) (\<lambda>hd.
     bindR (set_prev a (q_prev hd) h) (\<lambda>h.
     bindR (q_get h a) (\<lambda>n.
     bindR (set_next (q_prev n) a h) (\<lambda>h.
     set_prev q a h)))))"

definition queue_move_to_start :: "nat \<Rightarrow> nat \<Rightarrow> qheap \<Rightarrow> qheap result" where
  "queue_move_to_start q a h = bindR (queue_detach_node a h) (queue_prepend q a)"

definition queue_move_to_end :: "nat \<Rightarrow> nat \<Rightarrow> qheap \<Rightarrow> qheap result" where
  "queue_move_to_end q a h = bindR (queue_detach_node a h) (queue_append q a)"

definition queue_remove :: "nat \<Rightarrow> qheap \<Rightarrow> qheap result" where
  "queue_remove a h = bindR (queue_detach_node a h) (queue_node_init a)"

section \<open>Rings\<close>

text \<open>The two pointer fields of a heap as maps.\<close>

definition nxt :: "qheap \<Rightarrow> nat \<Rightarrow> nat option" where
  "nxt h a = map_option q_next (h a)"

definition prv :: "qheap \<Rightarrow> nat \<Rightarrow> nat option" where
  "prv h a = map_option q_prev (h a)"

fun path :: "(nat \<Rightarrow> nat option) \<Rightarrow> (nat \<Rightarrow> nat option) \<Rightarrow> nat list \<Rightarrow> bool" where
  "path n p (a # b # xs) = (n a = Some b \<and> p b = Some a \<and> path n p (b # xs))"
| "path n p _ = True"

definition ring :: "qheap \<Rightarrow> nat \<Rightarrow> nat list \<Rightarrow> bool" where
  "ring h q xs \<longleftrightarrow> distinct (q # xs) \<and> path (nxt h) (prv h) (q # xs @ [q])"

lemma path_append:
  "path n p (xs @ a # b # ys) \<longleftrightarrow> path n p (xs @ [a]) \<and> n a = Some b \<and> p b = Some a \<and> path n p (b # ys)"
  by (induction n p xs rule: path.induct) auto

lemma path_prefix: "path n p (xs @ a # ys) \<Longrightarrow> path n p (xs @ [a]) \<and> path n p (a # ys)"
  by (cases ys) (simp_all add: path_append)

lemma path_nxt: "a \<notin> set (butlast xs) \<Longrightarrow> path (n(a := v)) p xs = path n p xs"
  by (induction n p xs rule: path.induct) auto

lemma path_prv: "a \<notin> set (tl xs) \<Longrightarrow> path n (p(a := v)) xs = path n p xs"
  by (induction n p xs rule: path.induct) auto

text \<open>The effect of a write, on an allocated node.\<close>

lemma set_next_effect:
  assumes "a \<in> dom h"
  shows "\<exists>h'. set_next a b h = Inr h' \<and> nxt h' = (nxt h)(a := Some b) \<and> prv h' = prv h \<and> dom h' = dom h"
proof -
  obtain n where "h a = Some n" using assms by blast
  then show ?thesis
    by (intro exI [of _ "h(a \<mapsto> n\<lparr>q_next := b\<rparr>)"])
      (auto simp: set_next_def q_get_def nxt_def prv_def fun_eq_iff)
qed

lemma set_prev_effect:
  assumes "a \<in> dom h"
  shows "\<exists>h'. set_prev a b h = Inr h' \<and> prv h' = (prv h)(a := Some b) \<and> nxt h' = nxt h \<and> dom h' = dom h"
proof -
  obtain n where "h a = Some n" using assms by blast
  then show ?thesis
    by (intro exI [of _ "h(a \<mapsto> n\<lparr>q_prev := b\<rparr>)"])
      (auto simp: set_prev_def q_get_def nxt_def prv_def fun_eq_iff)
qed

lemma q_get_effect:
  "nxt h a = Some b \<Longrightarrow> prv h a = Some c \<Longrightarrow> \<exists>n. q_get h a = Inr n \<and> q_next n = b \<and> q_prev n = c"
  by (auto simp: q_get_def nxt_def prv_def)

lemma nxt_dom: "nxt h a = Some b \<Longrightarrow> a \<in> dom h" and prv_dom: "prv h a = Some b \<Longrightarrow> a \<in> dom h"
  by (auto simp: nxt_def prv_def)

lemma dom_nxt: "a \<in> dom h \<Longrightarrow> \<exists>b. nxt h a = Some b" and dom_prv: "a \<in> dom h \<Longrightarrow> \<exists>b. prv h a = Some b"
  by (auto simp: nxt_def prv_def)

text \<open>What the operations do to the two maps.\<close>

lemma init_effect:
  assumes "a \<in> dom h"
  shows "\<exists>h'. queue_node_init a h = Inr h' \<and> nxt h' = (nxt h)(a := Some a) \<and>
    prv h' = (prv h)(a := Some a) \<and> dom h' = dom h"
proof -
  obtain h1 where h1: "set_prev a a h = Inr h1" "prv h1 = (prv h)(a := Some a)" "nxt h1 = nxt h"
    "dom h1 = dom h" using set_prev_effect [OF assms] by blast
  then obtain h2 where "set_next a a h1 = Inr h2" "nxt h2 = (nxt h1)(a := Some a)" "prv h2 = prv h1"
    "dom h2 = dom h1" using set_next_effect assms by metis
  then show ?thesis using h1 by (simp add: queue_node_init_def)
qed

lemma detach_effect:
  assumes "nxt h a = Some b" "prv h a = Some c" "b \<in> dom h" "c \<in> dom h" "c \<noteq> a \<or> b = a"
  shows "\<exists>h'. queue_detach_node a h = Inr h' \<and> nxt h' = (nxt h)(c := Some b) \<and>
    prv h' = (prv h)(b := Some c) \<and> dom h' = dom h"
proof -
  obtain n where n: "q_get h a = Inr n" "q_next n = b" "q_prev n = c"
    using q_get_effect [OF assms(1,2)] by blast
  obtain h1 where h1: "set_next c b h = Inr h1" "nxt h1 = (nxt h)(c := Some b)" "prv h1 = prv h"
    "dom h1 = dom h" using set_next_effect [OF assms(4)] by blast
  have "nxt h1 a = Some b" using h1(2) assms(1,5) by auto
  then obtain n1 where n1: "q_get h1 a = Inr n1" "q_next n1 = b" "q_prev n1 = c"
    using q_get_effect [of h1 a b c] h1(3) assms(2) by auto
  obtain h2 where "set_prev b c h1 = Inr h2" "prv h2 = (prv h1)(b := Some c)" "nxt h2 = nxt h1"
    "dom h2 = dom h1" using set_prev_effect [of b h1 c] h1(4) assms(3) by auto
  then show ?thesis using n h1 n1 by (simp add: queue_detach_node_def)
qed

lemma append_effect:
  assumes "prv h q = Some c" "c \<in> dom h" "a \<in> dom h" "a \<noteq> q" "c \<noteq> a"
  shows "\<exists>h'. queue_append q a h = Inr h' \<and> nxt h' = (nxt h)(a := Some q, c := Some a) \<and>
    prv h' = (prv h)(a := Some c, q := Some a) \<and> dom h' = dom h"
proof -
  obtain h1 where h1: "set_next a q h = Inr h1" "nxt h1 = (nxt h)(a := Some q)" "prv h1 = prv h"
    "dom h1 = dom h" using set_next_effect [OF assms(3)] by blast
  have q: "q \<in> dom h" using assms(1) by (rule prv_dom)
  then obtain m where "nxt h1 q = Some m" using dom_nxt h1(4) by metis
  then obtain nq where nq: "q_get h1 q = Inr nq" "q_prev nq = c"
    using q_get_effect [of h1 q m c] h1(3) assms(1) by auto
  obtain h2 where h2: "set_prev a c h1 = Inr h2" "prv h2 = (prv h1)(a := Some c)" "nxt h2 = nxt h1"
    "dom h2 = dom h1" using set_prev_effect [of a h1 c] h1(4) assms(3) by auto
  obtain na where na: "q_get h2 a = Inr na" "q_prev na = c"
    using q_get_effect [of h2 a q c] h1 h2 by auto
  obtain h3 where h3: "set_next c a h2 = Inr h3" "nxt h3 = (nxt h2)(c := Some a)" "prv h3 = prv h2"
    "dom h3 = dom h2" using set_next_effect [of c h2 a] h1(4) h2(4) assms(2) by auto
  obtain h4 where "set_prev q a h3 = Inr h4" "prv h4 = (prv h3)(q := Some a)" "nxt h4 = nxt h3"
    "dom h4 = dom h3" using set_prev_effect [of q h3 a] h1(4) h2(4) h3(4) q by auto
  then show ?thesis using h1 nq h2 na h3 by (simp add: queue_append_def)
qed

lemma prepend_effect:
  assumes "nxt h q = Some b" "b \<in> dom h" "a \<in> dom h" "a \<noteq> q" "b \<noteq> a"
  shows "\<exists>h'. queue_prepend q a h = Inr h' \<and> nxt h' = (nxt h)(a := Some b, q := Some a) \<and>
    prv h' = (prv h)(a := Some q, b := Some a) \<and> dom h' = dom h"
proof -
  have q: "q \<in> dom h" using assms(1) by (rule nxt_dom)
  then obtain m where "prv h q = Some m" using dom_prv by metis
  then obtain nq where nq: "q_get h q = Inr nq" "q_next nq = b"
    using q_get_effect [OF assms(1)] by blast
  obtain h1 where h1: "set_next a b h = Inr h1" "nxt h1 = (nxt h)(a := Some b)" "prv h1 = prv h"
    "dom h1 = dom h" using set_next_effect [OF assms(3)] by blast
  obtain h2 where h2: "set_prev a q h1 = Inr h2" "prv h2 = (prv h1)(a := Some q)" "nxt h2 = nxt h1"
    "dom h2 = dom h1" using set_prev_effect [of a h1 q] h1(4) assms(3) by auto
  obtain na where na: "q_get h2 a = Inr na" "q_next na = b"
    using q_get_effect [of h2 a b q] h1 h2 by auto
  obtain h3 where h3: "set_prev b a h2 = Inr h3" "prv h3 = (prv h2)(b := Some a)" "nxt h3 = nxt h2"
    "dom h3 = dom h2" using set_prev_effect [of b h2 a] h1(4) h2(4) assms(2) by auto
  obtain h4 where "set_next q a h3 = Inr h4" "nxt h4 = (nxt h3)(q := Some a)" "prv h4 = prv h3"
    "dom h4 = dom h3" using set_next_effect [of q h3 a] h1(4) h2(4) h3(4) q by auto
  then show ?thesis using h1 nq h2 na h3 by (simp add: queue_prepend_def)
qed

section \<open>Rings and the lists they hold\<close>

text \<open>
  A heap of rings: \<open>Q q = Some xs\<close> when \<open>q\<close> is the head of a queue that holds \<open>xs\<close>, in order. A node
  in no queue is the head of an empty ring.
\<close>

definition members :: "(nat \<Rightarrow> nat list option) \<Rightarrow> nat \<Rightarrow> nat set" where
  "members Q q = (case Q q of None \<Rightarrow> {} | Some xs \<Rightarrow> set (q # xs))"

definition rings :: "qheap \<Rightarrow> (nat \<Rightarrow> nat list option) \<Rightarrow> bool" where
  "rings h Q \<longleftrightarrow> (\<forall>q xs. Q q = Some xs \<longrightarrow> ring h q xs) \<and>
     (\<forall>q r. q \<noteq> r \<longrightarrow> members Q q \<inter> members Q r = {})"

lemma path_cong: "\<forall>a\<in>set xs. n a = n' a \<and> p a = p' a \<Longrightarrow> path n p xs = path n' p' xs"
  by (induction n p xs rule: path.induct) auto

lemma ring_frame:
  assumes "ring h q xs" "\<forall>a\<in>set (q # xs). nxt h' a = nxt h a \<and> prv h' a = prv h a"
  shows "ring h' q xs"
  using assms path_cong [of "q # xs @ [q]" "nxt h" "nxt h'" "prv h" "prv h'"] by (auto simp: ring_def)

lemma path_dom: "path n p (xs @ a # b # ys) \<Longrightarrow> n a = Some b \<and> p b = Some a"
  by (simp add: path_append)

lemma path_ends:
  assumes "path n p (q # xs @ [r])"
  shows "p r = Some (last (q # xs))" "n q = Some (hd (xs @ [r]))"
proof -
  define us where "us = butlast (q # xs)"
  have "q # xs = us @ [last (q # xs)]" unfolding us_def by (simp del: last.simps butlast.simps)
  then have "q # xs @ [r] = us @ last (q # xs) # r # []"
    by (metis append.assoc append_Cons append_Nil)
  then have "path n p (us @ last (q # xs) # r # [])" using assms by metis
  then show "p r = Some (last (q # xs))" by (rule path_dom [THEN conjunct2])
  show "n q = Some (hd (xs @ [r]))" using assms by (cases xs) auto
qed

lemma path_split:
  assumes "ring h q (xs @ ys)" "ys @ [q] = b # vs"
  shows "path (nxt h) (prv h) (q # xs @ [b])" "path (nxt h) (prv h) (b # vs)"
proof -
  have "path (nxt h) (prv h) ((q # xs) @ (ys @ [q]))"
    using assms(1) by (simp add: ring_def)
  then have "path (nxt h) (prv h) ((q # xs) @ b # vs)" by (simp only: assms(2))
  then show "path (nxt h) (prv h) (q # xs @ [b])" "path (nxt h) (prv h) (b # vs)"
    using path_prefix [of _ _ "q # xs" b vs] by simp_all
qed

lemma ring_neighbours:
  assumes "ring h q (xs @ a # ys)"
  shows "prv h a = Some (last (q # xs))" "nxt h a = Some (hd (ys @ [q]))"
  using path_ends [OF path_split(1) [OF assms]] path_ends(2) [OF path_split(2) [OF assms]] by simp_all

lemma ring_head:
  assumes "ring h q xs"
  shows "prv h q = Some (last (q # xs))" "nxt h q = Some (hd (xs @ [q]))"
  using assms path_ends [of "nxt h" "prv h" q xs q] by (simp_all add: ring_def)

lemma ring_members_dom:
  assumes "ring h q xs" "a \<in> set (q # xs)"
  shows "a \<in> dom h"
proof (cases "a = q")
  case True
  then show ?thesis using ring_head(2) [OF assms(1)] nxt_dom by blast
next
  case False
  then obtain us vs where "xs = us @ a # vs" using assms(2) split_list by fastforce
  then show ?thesis using ring_neighbours(2) assms(1) nxt_dom by blast
qed

text \<open>The pointer surgery of the operations, on one ring.\<close>

lemma path_relink:
  assumes "path n p (xs @ [c])" "path n p (b # ys)" "c \<notin> set xs" "b \<notin> set ys"
    "c \<notin> set (butlast (b # ys))" "b \<notin> set (tl (xs @ [c]))"
  shows "path (n(c := Some b)) (p(b := Some c)) (xs @ c # b # ys)"
proof -
  have "path (n(c := Some b)) (p(b := Some c)) (xs @ [c])"
    using assms(1,3,6) by (simp add: path_nxt path_prv)
  moreover have "path (n(c := Some b)) (p(b := Some c)) (b # ys)"
    using assms(2,4) path_nxt [OF assms(5)] path_prv [of b "b # ys"] by simp
  ultimately show ?thesis by (simp add: path_append)
qed

lemma ring_ends:
  assumes "distinct (q # xs @ ys)" "q # xs = us @ [c]" "ys @ [q] = b # vs"
  shows "c \<notin> set us" "b \<notin> set vs" "c \<notin> set (butlast (b # vs))" "b \<notin> set (tl (us @ [c]))"
proof -
  have "distinct (us @ [c])" unfolding assms(2) [symmetric] using assms(1) by auto
  then show "c \<notin> set us" by simp
  have "distinct (b # vs)" unfolding assms(3) [symmetric] using assms(1) by auto
  then show "b \<notin> set vs" by simp
  have "set (butlast (b # vs)) = set ys" by (simp add: assms(3) [symmetric])
  moreover have "c \<in> set (q # xs)" by (simp only: assms(2)) simp
  ultimately show "c \<notin> set (butlast (b # vs))" using assms(1) by auto
  show "b \<notin> set (tl (us @ [c]))" using assms(1,3) unfolding assms(2) [symmetric] by (cases ys) auto
qed

lemma ring_unlink:
  assumes "ring h q (xs @ a # ys)"
    and "nxt h' = (nxt h)(last (q # xs) := Some (hd (ys @ [q])))"
    and "prv h' = (prv h)(hd (ys @ [q]) := Some (last (q # xs)))"
  shows "ring h' q (xs @ ys)"
proof -
  define us c where "us = butlast (q # xs)" and "c = last (q # xs)"
  have us: "q # xs = us @ [c]" unfolding us_def c_def by (simp del: last.simps butlast.simps)
  obtain b vs where vs: "ys @ [q] = b # vs" by (cases ys) auto
  have d: "distinct (q # xs @ a # ys)" using assms(1) by (simp add: ring_def)
  then have "distinct (q # xs @ ys)" by auto
  note e = ring_ends [OF this us vs]
  have "path (nxt h) (prv h) (q # xs @ [a])" using path_split(1) [OF assms(1)] by simp
  then have "path (nxt h) (prv h) (us @ c # [a])" using us by (metis append.assoc append_Cons append_Nil)
  then have p: "path (nxt h) (prv h) (us @ [c])" using path_prefix by blast
  have "path (nxt h) (prv h) (a # b # vs)" using path_split(2) [OF assms(1), of a "b # vs"] vs by simp
  then have "path (nxt h) (prv h) (b # vs)" by simp
  note path_relink [OF p this e]
  moreover have "q # (xs @ ys) @ [q] = us @ c # b # vs"
    by (metis append.assoc append_Cons append_Nil us vs)
  moreover have "nxt h' = (nxt h)(c := Some b)" "prv h' = (prv h)(b := Some c)"
    unfolding assms(2,3) c_def using vs by simp_all
  ultimately have "path (nxt h') (prv h') (q # (xs @ ys) @ [q])" by (simp only:)
  then show ?thesis using d unfolding ring_def by auto
qed

lemma ring_link:
  assumes "ring h q (xs @ ys)" "a \<notin> set (q # xs @ ys)"
    and "\<forall>u. nxt h' u = ((nxt h)(a := Some (hd (ys @ [q])), last (q # xs) := Some a)) u"
    and "\<forall>u. prv h' u = ((prv h)(a := Some (last (q # xs)), hd (ys @ [q]) := Some a)) u"
  shows "ring h' q (xs @ a # ys)"
proof -
  define us c where "us = butlast (q # xs)" and "c = last (q # xs)"
  have us: "q # xs = us @ [c]" unfolding us_def c_def by (simp del: last.simps butlast.simps)
  obtain b vs where vs: "ys @ [q] = b # vs" by (cases ys) auto
  have d: "distinct (q # xs @ ys)" using assms(1) by (simp add: ring_def)
  note e = ring_ends [OF d us vs]
  have "a \<notin> set (us @ [c])" "a \<notin> set (b # vs)"
    using assms(2) unfolding us [symmetric] vs [symmetric] by auto
  then have a: "a \<notin> set us" "a \<noteq> c" "a \<noteq> b" "a \<notin> set vs" by auto
  have "path (nxt h) (prv h) (us @ c # [b])"
    using path_split(1) [OF assms(1) vs] us by (metis append.assoc append_Cons append_Nil)
  then have p: "path (nxt h) (prv h) (us @ [c])" using path_prefix by blast
  have "nxt h' = (nxt h)(a := Some b, c := Some a)" "prv h' = (prv h)(a := Some c, b := Some a)"
    using assms(3,4) vs unfolding c_def by auto
  moreover have "path ((nxt h)(a := Some b, c := Some a)) ((prv h)(a := Some c, b := Some a)) (us @ [c])"
    using p e a by (simp add: path_nxt path_prv tl_append split: list.splits)
  moreover have "path ((nxt h)(a := Some b, c := Some a)) ((prv h)(a := Some c, b := Some a)) (b # vs)"
  proof -
    have "a \<notin> set (butlast (b # vs))" using a(3,4) by (meson in_set_butlastD set_ConsD)
    then show ?thesis using path_split(2) [OF assms(1) vs] a(4) e(2)
      by (simp only: path_nxt [OF e(3)] path_nxt path_prv list.sel not_False_eq_True)
  qed
  ultimately have "path (nxt h') (prv h') (us @ c # a # b # vs)"
    using a by (simp add: path_append)
  moreover have "q # (xs @ a # ys) @ [q] = us @ c # a # b # vs"
    by (metis append.assoc append_Cons append_Nil us vs)
  ultimately show ?thesis using d assms(2) unfolding ring_def
    by simp
qed

section \<open>The operations on a heap of rings\<close>

lemma rings_ring: "rings h Q \<Longrightarrow> Q q = Some xs \<Longrightarrow> ring h q xs"
  by (simp add: rings_def)

lemma rings_disjoint: "rings h Q \<Longrightarrow> q \<noteq> r \<Longrightarrow> members Q q \<inter> members Q r = {}"
  by (simp add: rings_def)

lemma members_upd: "members (Q(q \<mapsto> xs)) r = (if r = q then set (q # xs) else members Q r)"
  by (simp add: members_def)

lemma rings_drop: "rings h Q \<Longrightarrow> rings h (Q(a := None))"
  by (auto simp: rings_def members_def disjoint_iff)

text \<open>A ring is replaced, and nothing is written outside its nodes.\<close>

lemma rings_update:
  assumes "rings h Q" "ring h' q xs"
    and "\<forall>u. u \<notin> set (q # xs) \<longrightarrow> nxt h' u = nxt h u \<and> prv h' u = prv h u"
    and "\<And>r. r \<noteq> q \<Longrightarrow> members Q r \<inter> set (q # xs) = {}"
  shows "rings h' (Q(q \<mapsto> xs))"
  unfolding rings_def
proof (intro conjI allI impI)
  fix r ys assume r: "(Q(q \<mapsto> xs)) r = Some ys"
  show "ring h' r ys"
  proof (cases "r = q")
    case False
    then have "ring h r ys" "members Q r = set (r # ys)"
      using r assms(1) by (auto simp: rings_def members_def)
    moreover have "\<forall>u\<in>set (r # ys). nxt h' u = nxt h u \<and> prv h' u = prv h u"
      using assms(3) assms(4) [OF False] calculation(2) by (metis disjoint_iff)
    ultimately show ?thesis using ring_frame by blast
  qed (use r assms(2) in simp)
next
  fix r s :: nat assume "r \<noteq> s"
  then show "members (Q(q \<mapsto> xs)) r \<inter> members (Q(q \<mapsto> xs)) s = {}"
    using assms(4) rings_disjoint [OF assms(1), of r s] unfolding members_upd
    by (metis inf_commute)
qed

definition free_node :: "qheap \<Rightarrow> (nat \<Rightarrow> nat list option) \<Rightarrow> nat \<Rightarrow> bool" where
  "free_node h Q a \<longleftrightarrow> a \<in> dom h \<and> (\<forall>q. a \<notin> members Q q)"

lemma free_nodeD:
  assumes "free_node h Q a"
  shows "a \<in> dom h" "a \<notin> members Q q" "Q q = Some xs \<Longrightarrow> a \<notin> set (q # xs)"
proof -
  show m: "a \<in> dom h" "a \<notin> members Q q" for q using assms by (auto simp: free_node_def)
  show "Q q = Some xs \<Longrightarrow> a \<notin> set (q # xs)" using m(2) [of q] by (simp add: members_def)
qed

lemma rings_free:
  assumes "rings h Q" "Q a = Some []"
  shows "free_node h (Q(a := None)) a"
proof -
  have "a \<notin> members Q r" if "r \<noteq> a" for r
    using rings_disjoint [OF assms(1) that] assms(2) by (auto simp: members_def disjoint_iff)
  then show ?thesis
    using ring_members_dom [OF rings_ring [OF assms], of a] by (auto simp: free_node_def members_def)
qed

lemma append_rings:
  assumes "rings h Q" "Q q = Some xs" "free_node h Q a"
  shows "\<exists>h'. queue_append q a h = Inr h' \<and> rings h' (Q(q \<mapsto> xs @ [a]))"
proof -
  have r: "ring h q (xs @ [])" using rings_ring [OF assms(1,2)] by simp
  have a: "a \<in> dom h" "a \<notin> set (q # xs)" using free_nodeD [OF assms(3)] assms(2) by blast+
  have c: "last (q # xs) \<in> set (q # xs)" by (rule last_in_set) simp
  then obtain h' where h': "queue_append q a h = Inr h'"
    "nxt h' = (nxt h)(a := Some q, last (q # xs) := Some a)"
    "prv h' = (prv h)(a := Some (last (q # xs)), q := Some a)"
    using append_effect [of h q "last (q # xs)" a] ring_head(1) [of h q xs] r a ring_members_dom [of h q xs]
    by fastforce
  have "ring h' q (xs @ [a])"
    using ring_link [OF r, of a h'] a h' by simp
  moreover have "members Q s \<inter> set (q # xs @ [a]) = {}" if "s \<noteq> q" for s
    using rings_disjoint [OF assms(1) that] assms(2) free_nodeD(2) [OF assms(3), of s]
    by (auto simp: members_def [of Q q])
  ultimately show ?thesis using rings_update [OF assms(1)] h' c by fastforce
qed

lemma prepend_rings:
  assumes "rings h Q" "Q q = Some xs" "free_node h Q a"
  shows "\<exists>h'. queue_prepend q a h = Inr h' \<and> rings h' (Q(q \<mapsto> a # xs))"
proof -
  have r: "ring h q ([] @ xs)" using rings_ring [OF assms(1,2)] by simp
  have a: "a \<in> dom h" "a \<notin> set (q # xs)" using free_nodeD [OF assms(3)] assms(2) by blast+
  have b: "hd (xs @ [q]) \<in> set (q # xs)" by (cases xs) auto
  then obtain h' where h': "queue_prepend q a h = Inr h'"
    "nxt h' = (nxt h)(a := Some (hd (xs @ [q])), q := Some a)"
    "prv h' = (prv h)(a := Some q, hd (xs @ [q]) := Some a)"
    using prepend_effect [of h q "hd (xs @ [q])" a] ring_head(2) [of h q xs] r a ring_members_dom [of h q xs]
    by fastforce
  have "ring h' q (a # xs)"
    using ring_link [OF r, of a h'] a h' by simp
  moreover have "members Q s \<inter> set (q # a # xs) = {}" if "s \<noteq> q" for s
    using rings_disjoint [OF assms(1) that] assms(2) free_nodeD(2) [OF assms(3), of s]
    by (auto simp: members_def [of Q q])
  ultimately show ?thesis using rings_update [OF assms(1)] h' b by fastforce
qed

lemma detach_rings:
  assumes "rings h Q" "Q q = Some (xs @ a # ys)"
  shows "\<exists>h'. queue_detach_node a h = Inr h' \<and> rings h' (Q(q \<mapsto> xs @ ys)) \<and>
    free_node h' (Q(q \<mapsto> xs @ ys)) a"
proof -
  note r = rings_ring [OF assms]
  let ?c = "last (q # xs)" and ?b = "hd (ys @ [q])"
  have m: "?c \<in> set (q # xs @ ys)" "?b \<in> set (q # xs @ ys)"
    using last_in_set [of "q # xs"] hd_in_set [of "ys @ [q]"] by auto
  have d: "distinct (q # xs @ a # ys)" using r by (simp add: ring_def)
  then have "?c \<noteq> a" using last_in_set [of "q # xs"] by auto
  moreover have "?b \<in> dom h" "?c \<in> dom h" "a \<in> dom h" using ring_members_dom [OF r] m by auto
  ultimately obtain h' where h': "queue_detach_node a h = Inr h'"
    "nxt h' = (nxt h)(?c := Some ?b)" "prv h' = (prv h)(?b := Some ?c)" "dom h' = dom h"
    using detach_effect [OF ring_neighbours(2) [OF r] ring_neighbours(1) [OF r]] by auto
  have "ring h' q (xs @ ys)" using ring_unlink [OF r h'(2,3)] .
  moreover have dis: "members Q s \<inter> set (q # xs @ a # ys) = {}" if "s \<noteq> q" for s
    using rings_disjoint [OF assms(1) that] assms(2) by (simp add: members_def [of Q q])
  ultimately have "rings h' (Q(q \<mapsto> xs @ ys))"
    using rings_update [OF assms(1), of h' q "xs @ ys"] h' m by fastforce
  moreover have "free_node h' (Q(q \<mapsto> xs @ ys)) a"
    using dis d \<open>a \<in> dom h\<close> h'(4) by (auto simp: free_node_def members_upd disjoint_iff)
  ultimately show ?thesis using h'(1) by blast
qed

lemma node_init_rings:
  assumes "rings h Q" "free_node h Q a"
  shows "\<exists>h'. queue_node_init a h = Inr h' \<and> rings h' (Q(a \<mapsto> []))"
proof -
  obtain h' where h': "queue_node_init a h = Inr h'" "nxt h' = (nxt h)(a := Some a)"
    "prv h' = (prv h)(a := Some a)"
    using init_effect [OF free_nodeD(1) [OF assms(2)]] by blast
  then have "ring h' a []" by (simp add: ring_def)
  moreover have "members Q r \<inter> set [a] = {}" for r using assms(2) by (simp add: free_node_def)
  ultimately have "rings h' (Q(a \<mapsto> []))" using rings_update [OF assms(1)] h' by fastforce
  then show ?thesis using h'(1) by blast
qed

section \<open>Refinement of lists\<close>

datatype queue_op =
    Append nat nat
  | Prepend nat nat
  | Move_to_start nat nat
  | Move_to_end nat nat
  | Remove nat

fun run_queue_op :: "queue_op \<Rightarrow> qheap \<Rightarrow> qheap result" where
  "run_queue_op (Append q a) = queue_append q a"
| "run_queue_op (Prepend q a) = queue_prepend q a"
| "run_queue_op (Move_to_start q a) = queue_move_to_start q a"
| "run_queue_op (Move_to_end q a) = queue_move_to_end q a"
| "run_queue_op (Remove a) = queue_remove a"

fun run_queue_ops :: "queue_op list \<Rightarrow> qheap \<Rightarrow> qheap result" where
  "run_queue_ops [] h = Inr h"
| "run_queue_ops (op # ops) h = bindR (run_queue_op op h) (run_queue_ops ops)"

text \<open>
  The contract: a node is added when it is in no queue (an empty ring), and moved or removed when
  it is in one.
\<close>

inductive queue_spec ::
  "(nat \<Rightarrow> nat list option) \<Rightarrow> queue_op \<Rightarrow> (nat \<Rightarrow> nat list option) \<Rightarrow> bool" where
  spec_append: "Q q = Some xs \<Longrightarrow> Q a = Some [] \<Longrightarrow> q \<noteq> a \<Longrightarrow>
    queue_spec Q (Append q a) (Q(a := None, q \<mapsto> xs @ [a]))"
| spec_prepend: "Q q = Some xs \<Longrightarrow> Q a = Some [] \<Longrightarrow> q \<noteq> a \<Longrightarrow>
    queue_spec Q (Prepend q a) (Q(a := None, q \<mapsto> a # xs))"
| spec_to_start: "Q q = Some (xs @ a # ys) \<Longrightarrow>
    queue_spec Q (Move_to_start q a) (Q(q \<mapsto> a # xs @ ys))"
| spec_to_end: "Q q = Some (xs @ a # ys) \<Longrightarrow>
    queue_spec Q (Move_to_end q a) (Q(q \<mapsto> xs @ ys @ [a]))"
| spec_remove: "Q q = Some (xs @ a # ys) \<Longrightarrow>
    queue_spec Q (Remove a) (Q(q \<mapsto> xs @ ys, a \<mapsto> []))"

inductive queue_specs ::
  "(nat \<Rightarrow> nat list option) \<Rightarrow> queue_op list \<Rightarrow> (nat \<Rightarrow> nat list option) \<Rightarrow> bool" where
  specs_nil: "queue_specs Q [] Q"
| specs_step: "queue_spec Q op R \<Longrightarrow> queue_specs R ops S \<Longrightarrow> queue_specs Q (op # ops) S"

lemma queue_op_refines:
  assumes "queue_spec Q op Q'" "rings h Q"
  shows "\<exists>h'. run_queue_op op h = Inr h' \<and> rings h' Q'"
  using assms
proof (induction rule: queue_spec.induct)
  case (spec_append Q q xs a)
  then show ?case using append_rings [OF rings_drop [of h Q a] _ rings_free, of q xs] by (simp del: fun_upd_apply add: fun_upd_other)
next
  case (spec_prepend Q q xs a)
  then show ?case using prepend_rings [OF rings_drop [of h Q a] _ rings_free, of q xs] by (simp del: fun_upd_apply add: fun_upd_other)
next
  case (spec_to_start Q q xs a ys)
  then obtain h1 where h1: "queue_detach_node a h = Inr h1" "rings h1 (Q(q \<mapsto> xs @ ys))"
    "free_node h1 (Q(q \<mapsto> xs @ ys)) a" using detach_rings by blast
  then show ?case
    using prepend_rings [OF h1(2) fun_upd_same h1(3)]
    by (simp add: queue_move_to_start_def del: fun_upd_apply)
next
  case (spec_to_end Q q xs a ys)
  then obtain h1 where h1: "queue_detach_node a h = Inr h1" "rings h1 (Q(q \<mapsto> xs @ ys))"
    "free_node h1 (Q(q \<mapsto> xs @ ys)) a" using detach_rings by blast
  then show ?case
    using append_rings [OF h1(2) fun_upd_same h1(3)]
    by (simp add: queue_move_to_end_def del: fun_upd_apply)
next
  case (spec_remove Q q xs a ys)
  then obtain h1 where h1: "queue_detach_node a h = Inr h1" "rings h1 (Q(q \<mapsto> xs @ ys))"
    "free_node h1 (Q(q \<mapsto> xs @ ys)) a" using detach_rings by blast
  then show ?case using node_init_rings [OF h1(2,3)] by (simp add: queue_remove_def del: fun_upd_apply)
qed

lemma queue_ops_refine:
  assumes "queue_specs Q ops Q'" "rings h Q"
  shows "\<exists>h'. run_queue_ops ops h = Inr h' \<and> rings h' Q'"
  using assms
proof (induction arbitrary: h rule: queue_specs.induct)
  case (specs_step Q op R ops S)
  then obtain h1 where "run_queue_op op h = Inr h1" "rings h1 R" using queue_op_refines by blast
  then show ?case using specs_step.IH by simp
qed simp

text \<open>The observers, on a heap of rings.\<close>

lemma is_enqueued_nxt: "prv h a = Some b \<Longrightarrow> queue_is_enqueued a h = Inr (b \<noteq> a)"
  by (auto simp: queue_is_enqueued_def prv_def q_get_def)

lemma ring_observers:
  assumes "ring h q xs"
  shows "queue_is_empty q h = Inr (xs = [])"
    "queue_first q h = Inr (case xs of [] \<Rightarrow> None | x # _ \<Rightarrow> Some x)"
    "queue_last q h = Inr (if xs = [] then None else Some (last xs))"
    "a \<in> set xs \<Longrightarrow> queue_is_enqueued a h = Inr True"
proof -
  have d: "distinct (q # xs)" using assms by (simp add: ring_def)
  note e = ring_head [OF assms]
  have l: "last (q # xs) \<noteq> q \<longleftrightarrow> xs \<noteq> []" using d last_in_set [of xs] by auto
  show e': "queue_is_empty q h = Inr (xs = [])"
    using is_enqueued_nxt [OF e(1)] l by (simp add: queue_is_empty_def del: last.simps)
  obtain n where n: "q_get h q = Inr n" "q_next n = hd (xs @ [q])" "q_prev n = last (q # xs)"
    using q_get_effect [OF e(2,1)] by blast
  show "queue_first q h = Inr (case xs of [] \<Rightarrow> None | x # _ \<Rightarrow> Some x)"
    using e' n(1,2) by (cases xs) (simp_all add: queue_first_def)
  show "queue_last q h = Inr (if xs = [] then None else Some (last xs))"
    using e' n(1,3) by (simp add: queue_last_def)
  assume "a \<in> set xs"
  then obtain us vs where xs: "xs = us @ a # vs" by (meson split_list)
  have "last (q # us) \<noteq> a" using d xs last_in_set [of "q # us"] by auto
  then show "queue_is_enqueued a h = Inr True"
    using is_enqueued_nxt [OF ring_neighbours(1)] assms unfolding xs by simp
qed

text \<open>C39: The intrusive queues of the epoll emulation refine lists. From a heap of disjoint
  rings, every sequence of \<open>queue_append\<close>, \<open>queue_prepend\<close>, \<open>queue_move_to_start\<close>,
  \<open>queue_move_to_end\<close> and \<open>queue_remove\<close> that keeps their contract dereferences only live nodes, and
  leaves the rings of the lists the same operations give: \<open>queue_first\<close> and \<open>queue_last\<close> are the ends
  of the list, and \<open>queue_is_empty\<close> and \<open>queue_is_enqueued\<close> tell membership.\<close>

theorem queues_refine_lists:
  assumes "rings h Q" "queue_specs Q ops Q'"
  shows "\<exists>h'. run_queue_ops ops h = Inr h' \<and> rings h' Q' \<and>
    (\<forall>q xs. Q' q = Some xs \<longrightarrow>
       queue_is_empty q h' = Inr (xs = []) \<and>
       queue_first q h' = Inr (case xs of [] \<Rightarrow> None | x # _ \<Rightarrow> Some x) \<and>
       queue_last q h' = Inr (if xs = [] then None else Some (last xs)) \<and>
       (\<forall>a\<in>set xs. queue_is_enqueued a h' = Inr True))"
proof -
  obtain h' where h': "run_queue_ops ops h = Inr h'" "rings h' Q'"
    using queue_ops_refine [OF assms(2,1)] by blast
  then show ?thesis using ring_observers [OF rings_ring [OF h'(2)]] by blast
qed

lemma queues_refine_lists_witness:
  "\<exists>h'. run_queue_ops [Append 0 1, Prepend 0 2, Move_to_end 0 2, Remove 1]
      [0 \<mapsto> \<lparr>q_prev = 0, q_next = 0\<rparr>, 1 \<mapsto> \<lparr>q_prev = 1, q_next = 1\<rparr>, 2 \<mapsto> \<lparr>q_prev = 2, q_next = 2\<rparr>] = Inr h' \<and>
    queue_first 0 h' = Inr (Some 2) \<and> queue_is_empty 1 h' = Inr True"
proof -
  let ?h = "[0 \<mapsto> \<lparr>q_prev = 0, q_next = 0\<rparr>, 1 \<mapsto> \<lparr>q_prev = 1, q_next = 1\<rparr>,
    2 \<mapsto> \<lparr>q_prev = 2, q_next = 2\<rparr>] :: qheap"
  let ?Q = "[0 \<mapsto> [], 1 \<mapsto> [], 2 \<mapsto> []] :: nat \<Rightarrow> nat list option"
  have 0: "rings ?h ?Q" by (auto simp: rings_def ring_def nxt_def prv_def members_def split: if_splits)
  let ?R = "?Q(1 := None, 0 \<mapsto> [] @ [1])" let ?S = "?R(2 := None, 0 \<mapsto> 2 # [1])"
  let ?T = "?S(0 \<mapsto> [] @ [1] @ [2])" let ?U = "?T(0 \<mapsto> [] @ [2], 1 \<mapsto> [])"
  have 1: "queue_spec ?Q (Append 0 1) ?R" by (rule spec_append) simp_all
  have 2: "queue_spec ?R (Prepend 0 2) ?S" by (rule spec_prepend) simp_all
  have 3: "queue_spec ?S (Move_to_end 0 2) ?T" by (rule spec_to_end) simp
  have 4: "queue_spec ?T (Remove 1) ?U" by (rule spec_remove) simp
  have "queue_specs ?Q [Append 0 1, Prepend 0 2, Move_to_end 0 2, Remove 1] ?U"
    by (intro specs_step [OF 1] specs_step [OF 2] specs_step [OF 3] specs_step [OF 4] specs_nil)
  moreover have "?U 0 = Some [2]" "?U 1 = Some []" by simp_all
  ultimately show ?thesis using queues_refine_lists [OF 0] by fastforce
qed

end
