(* ===== verification/Wepoll_Tree.thy ===== *)
theory Wepoll_Tree
  imports Prelude
begin

text \<open>
  The red-black search tree of \<open>src/src/lib/wepoll.c\<close> (\<open>tree_add\<close>, \<open>tree_del\<close>, \<open>tree_find\<close>),
  that keeps the sockets of a port and the ports of the process. A node is \<open>Node red left key v
  right\<close>, with the object it is embedded in as \<open>v\<close>; the chain of \<open>parent\<close> pointers above a node is
  the list of frames that surround it, innermost first, each with the side the node is on. So
  following \<open>parent\<close> is taking the next frame, and a write to the fields of an ancestor changes
  its frame. Reading a field through a null pointer is undefined, as in C.

  The theorems: on a well-formed tree no operation dereferences a null pointer, and the operations
  are those of a finite map; the colour and black height rules are kept, so the height stays
  logarithmic.
\<close>

section \<open>Nodes and their parents\<close>

datatype 'a tree_node =
    Null
  | Node (node_red: bool) "'a tree_node" u64 'a "'a tree_node"
  where "node_red Null = False"

datatype 'a parent_frame =
    In_left bool u64 'a "'a tree_node"
  | In_right bool "'a tree_node" u64 'a

fun close_frame :: "'a tree_node \<Rightarrow> 'a parent_frame \<Rightarrow> 'a tree_node" where
  "close_frame t (In_left c k v r) = Node c t k v r"
| "close_frame t (In_right c l k v) = Node c l k v t"

text \<open>The whole tree, seen from its root.\<close>

fun plug :: "'a tree_node \<Rightarrow> 'a parent_frame list \<Rightarrow> 'a tree_node" where
  "plug t [] = t"
| "plug t (f # fs) = plug (close_frame t f) fs"

definition null_deref :: "'a result" where
  "null_deref = Inl (Undefined_behaviour ''null pointer'')"

text \<open>\<open>node->red = b\<close>, on a node that may not be null.\<close>

fun paint :: "bool \<Rightarrow> 'a tree_node \<Rightarrow> 'a tree_node result" where
  "paint b Null = null_deref"
| "paint b (Node c l k v r) = Inr (Node b l k v r)"

text \<open>\<open>if (node) node->red = false\<close>.\<close>

fun blacken :: "'a tree_node \<Rightarrow> 'a tree_node" where
  "blacken Null = Null"
| "blacken (Node c l k v r) = Node False l k v r"

section \<open>Rotation\<close>

fun rotate_left :: "'a tree_node \<Rightarrow> 'a tree_node result" where
  "rotate_left (Node pc a pk pv (Node qc b qk qv c)) = Inr (Node qc (Node pc a pk pv b) qk qv c)"
| "rotate_left _ = null_deref"

fun rotate_right :: "'a tree_node \<Rightarrow> 'a tree_node result" where
  "rotate_right (Node pc (Node qc a qk qv b) pk pv c) = Inr (Node qc a qk qv (Node pc b pk pv c))"
| "rotate_right _ = null_deref"

section \<open>Lookup\<close>

fun tree_find :: "u64 \<Rightarrow> 'a tree_node \<Rightarrow> 'a option" where
  "tree_find key Null = None"
| "tree_find key (Node c l k v r) =
     (if key < k then tree_find key l else if key > k then tree_find key r else Some v)"

fun tree_root :: "'a tree_node \<Rightarrow> (u64 \<times> 'a) option" where
  "tree_root Null = None"
| "tree_root (Node c l k v r) = Some (k, v)"

section \<open>Insertion\<close>

text \<open>The descent: the frames of the null child where the new node goes, none for a known key.\<close>

fun descend :: "u64 \<Rightarrow> 'a tree_node \<Rightarrow> 'a parent_frame list \<Rightarrow> 'a parent_frame list option" where
  "descend key Null fs = Some fs"
| "descend key (Node c l k v r) fs =
     (if key < k then descend key l (In_left c k v r # fs)
      else if key > k then descend key r (In_right c l k v # fs)
      else None)"

text \<open>
  \<open>TREE__REBALANCE_AFTER_INSERT\<close> when the uncle is not red: the parent is rotated when the node is
  on its inner side, then recoloured, and the grandparent is rotated down.
\<close>

fun rebalance_insert_left :: "'a tree_node \<Rightarrow> 'a parent_frame \<Rightarrow> u64 \<Rightarrow> 'a \<Rightarrow> 'a tree_node \<Rightarrow> 'a tree_node result" where
  "rebalance_insert_left node parent gk gv uncle =
     bindR (case parent of In_right _ _ _ _ \<Rightarrow> rotate_left (close_frame node parent)
            | In_left _ _ _ _ \<Rightarrow> Inr (close_frame node parent)) (\<lambda>p.
     bindR (paint False p) (\<lambda>p. rotate_right (Node True p gk gv uncle)))"

fun rebalance_insert_right :: "'a tree_node \<Rightarrow> 'a parent_frame \<Rightarrow> u64 \<Rightarrow> 'a \<Rightarrow> 'a tree_node \<Rightarrow> 'a tree_node result" where
  "rebalance_insert_right node parent gk gv uncle =
     bindR (case parent of In_left _ _ _ _ \<Rightarrow> rotate_right (close_frame node parent)
            | In_right _ _ _ _ \<Rightarrow> Inr (close_frame node parent)) (\<lambda>p.
     bindR (paint False p) (\<lambda>p. rotate_left (Node True uncle gk gv p)))"

fun frame_red :: "'a parent_frame \<Rightarrow> bool" where
  "frame_red (In_left c k v r) = c"
| "frame_red (In_right c l k v) = c"

text \<open>
  The loop \<open>for (; parent && parent->red; parent = node->parent)\<close>. After a rotation the parent is
  black, which ends it.
\<close>

fun insert_fixup :: "'a tree_node \<Rightarrow> 'a parent_frame list \<Rightarrow> 'a tree_node result" where
  "insert_fixup node [] = Inr node"
| "insert_fixup node [parent] = (if frame_red parent then null_deref else Inr (plug node [parent]))"
| "insert_fixup node (parent # In_left gc gk gv uncle # fs) =
     (if \<not> frame_red parent then Inr (plug node (parent # In_left gc gk gv uncle # fs))
      else if node_red uncle
        then insert_fixup (Node True (blacken (close_frame node parent)) gk gv (blacken uncle)) fs
      else bindR (rebalance_insert_left node parent gk gv uncle) (\<lambda>t. Inr (plug t fs)))"
| "insert_fixup node (parent # In_right gc uncle gk gv # fs) =
     (if \<not> frame_red parent then Inr (plug node (parent # In_right gc uncle gk gv # fs))
      else if node_red uncle
        then insert_fixup (Node True (blacken uncle) gk gv (blacken (close_frame node parent))) fs
      else bindR (rebalance_insert_right node parent gk gv uncle) (\<lambda>t. Inr (plug t fs)))"

text \<open>\<open>None\<close> is the return value -1: the key is in the tree, which is left alone.\<close>

definition tree_add :: "u64 \<Rightarrow> 'a \<Rightarrow> 'a tree_node \<Rightarrow> 'a tree_node option result" where
  "tree_add key v root =
     (case descend key root [] of
        None \<Rightarrow> Inr None
      | Some fs \<Rightarrow>
          bindR (insert_fixup (Node True Null key v Null) fs) (\<lambda>root.
          bindR (paint False root) (\<lambda>root. Inr (Some root))))"

section \<open>Removal\<close>

text \<open>
  One turn of \<open>TREE__REBALANCE_AFTER_REMOVE\<close> below a parent of colour \<open>pc\<close>, for a black sibling:
  either the tree is repaired and the loop is left, or the sibling is made red and the parent is
  next.
\<close>

datatype 'a rebalanced =
    Repaired "'a tree_node"
  | Go_up "'a tree_node"

fun remove_step_left ::
  "'a tree_node \<Rightarrow> bool \<Rightarrow> u64 \<Rightarrow> 'a \<Rightarrow> 'a tree_node \<Rightarrow> 'a rebalanced result" where
  "remove_step_left node pc pk pv Null = null_deref"
| "remove_step_left node pc pk pv (Node sc sl sk sv sr) =
     (if node_red sl \<or> node_red sr then
        bindR (if \<not> node_red sr
               then bindR (paint False sl) (\<lambda>sl. rotate_right (Node True sl sk sv sr))
               else Inr (Node sc sl sk sv sr)) (\<lambda>sibling.
        bindR (paint pc sibling) (\<lambda>sibling.
        case sibling of Null \<Rightarrow> null_deref
        | Node sc sl sk sv sr \<Rightarrow>
            bindR (paint False sr) (\<lambda>sr.
            bindR (rotate_left (Node False node pk pv (Node sc sl sk sv sr))) (\<lambda>t. Inr (Repaired t)))))
      else Inr (Go_up (Node pc node pk pv (Node True sl sk sv sr))))"

fun remove_step_right ::
  "'a tree_node \<Rightarrow> bool \<Rightarrow> 'a tree_node \<Rightarrow> u64 \<Rightarrow> 'a \<Rightarrow> 'a rebalanced result" where
  "remove_step_right node pc Null pk pv = null_deref"
| "remove_step_right node pc (Node sc sl sk sv sr) pk pv =
     (if node_red sl \<or> node_red sr then
        bindR (if \<not> node_red sl
               then bindR (paint False sr) (\<lambda>sr. rotate_left (Node True sl sk sv sr))
               else Inr (Node sc sl sk sv sr)) (\<lambda>sibling.
        bindR (paint pc sibling) (\<lambda>sibling.
        case sibling of Null \<Rightarrow> null_deref
        | Node sc sl sk sv sr \<Rightarrow>
            bindR (paint False sl) (\<lambda>sl.
            bindR (rotate_right (Node False (Node sc sl sk sv sr) pk pv node)) (\<lambda>t. Inr (Repaired t)))))
      else Inr (Go_up (Node pc (Node True sl sk sv sr) pk pv node)))"

text \<open>
  The loop, entered with a black (or null) node that is short of one black node. A red sibling is
  rotated up first: then the parent is red, so that the turn below it is the last one. When the
  node is the root nothing more is done than to make it black.
\<close>

definition finish_remove :: "'a rebalanced \<Rightarrow> 'a parent_frame list \<Rightarrow> 'a tree_node" where
  "finish_remove r fs = (case r of
     Repaired t \<Rightarrow> blacken (plug t fs)
   | Go_up t \<Rightarrow> plug (blacken t) fs)"

fun remove_fixup :: "'a tree_node \<Rightarrow> 'a parent_frame list \<Rightarrow> 'a tree_node result" where
  "remove_fixup node [] = Inr (blacken node)"
| "remove_fixup node (In_left pc pk pv sibling # fs) =
     (case sibling of
        Node True sl sk sv sr \<Rightarrow>
          bindR (remove_step_left node True pk pv sl) (\<lambda>r.
          Inr (finish_remove r (In_left False sk sv sr # fs)))
      | _ \<Rightarrow>
          bindR (remove_step_left node pc pk pv sibling) (\<lambda>r.
          case r of Go_up (Node False l k v r) \<Rightarrow> remove_fixup (Node False l k v r) fs
          | r \<Rightarrow> Inr (finish_remove r fs)))"
| "remove_fixup node (In_right pc sibling pk pv # fs) =
     (case sibling of
        Node True sl sk sv sr \<Rightarrow>
          bindR (remove_step_right node True sr pk pv) (\<lambda>r.
          Inr (finish_remove r (In_right False sl sk sv # fs)))
      | _ \<Rightarrow>
          bindR (remove_step_right node pc sibling pk pv) (\<lambda>r.
          case r of Go_up (Node False l k v r) \<Rightarrow> remove_fixup (Node False l k v r) fs
          | r \<Rightarrow> Inr (finish_remove r fs)))"

text \<open>The node's own frames: what its \<open>parent\<close> pointers lead to.\<close>

fun locate :: "u64 \<Rightarrow> 'a tree_node \<Rightarrow> 'a parent_frame list \<Rightarrow> ('a tree_node \<times> 'a parent_frame list) option" where
  "locate key Null fs = None"
| "locate key (Node c l k v r) fs =
     (if key < k then locate key l (In_left c k v r # fs)
      else if key > k then locate key r (In_right c l k v # fs)
      else Some (Node c l k v r, fs))"

text \<open>\<open>while (next->left) next = next->left\<close>.\<close>

fun leftmost :: "'a tree_node \<Rightarrow> 'a parent_frame list \<Rightarrow> 'a tree_node \<times> 'a parent_frame list" where
  "leftmost Null fs = (Null, fs)"
| "leftmost (Node c l k v r) fs =
     (if l = Null then (Node c l k v r, fs) else leftmost l (In_left c k v r # fs))"

text \<open>
  After the node is unlinked: \<open>red\<close> is the colour of the place that is lost, \<open>node\<close> what took it.
\<close>

definition after_unlink :: "bool \<Rightarrow> 'a tree_node \<Rightarrow> 'a parent_frame list \<Rightarrow> 'a tree_node result" where
  "after_unlink red node fs =
     (if red then Inr (plug node fs)
      else if node_red node then Inr (plug (blacken node) fs)
      else remove_fixup node fs)"

definition tree_del :: "u64 \<Rightarrow> 'a tree_node \<Rightarrow> 'a tree_node result" where
  "tree_del key root =
     (case locate key root [] of
        Some (Node c l k v r, fs) \<Rightarrow>
          if l = Null then after_unlink c r fs
          else if r = Null then after_unlink c l fs
          else (case leftmost r [] of
                  (Node nc _ nk nv nr, gs) \<Rightarrow> after_unlink nc nr (gs @ In_right c l nk nv # fs)
                | (Null, gs) \<Rightarrow> null_deref)
      | _ \<Rightarrow> null_deref)"

section \<open>Contents\<close>

fun inorder :: "'a tree_node \<Rightarrow> (u64 \<times> 'a) list" where
  "inorder Null = []"
| "inorder (Node c l k v r) = inorder l @ (k, v) # inorder r"

fun left_of :: "'a parent_frame list \<Rightarrow> (u64 \<times> 'a) list" where
  "left_of [] = []"
| "left_of (In_left c k v r # fs) = left_of fs"
| "left_of (In_right c l k v # fs) = left_of fs @ inorder l @ [(k, v)]"

fun right_of :: "'a parent_frame list \<Rightarrow> (u64 \<times> 'a) list" where
  "right_of [] = []"
| "right_of (In_left c k v r # fs) = (k, v) # inorder r @ right_of fs"
| "right_of (In_right c l k v # fs) = right_of fs"

definition ordered :: "(u64 \<times> 'a) list \<Rightarrow> bool" where
  "ordered xs \<longleftrightarrow> sorted_wrt (<) (map fst xs)"

definition bst :: "'a tree_node \<Rightarrow> bool" where
  "bst t \<longleftrightarrow> ordered (inorder t)"

definition tree_map :: "'a tree_node \<Rightarrow> u64 \<Rightarrow> 'a option" where
  "tree_map t = map_of (inorder t)"

lemma inorder_plug: "inorder (plug t fs) = left_of fs @ inorder t @ right_of fs"
proof (induction fs arbitrary: t)
  case (Cons f fs)
  then show ?case by (cases f) simp_all
qed simp

lemma plug_append: "plug t (fs @ gs) = plug (plug t fs) gs"
  by (induction fs arbitrary: t) auto

lemma inorder_blacken [simp]: "inorder (blacken t) = inorder t"
  by (cases t) auto

lemma inorder_paint: "paint b t = Inr t' \<Longrightarrow> inorder t' = inorder t"
  by (cases t) (auto simp: null_deref_def)

lemma inorder_rotate_left: "rotate_left t = Inr t' \<Longrightarrow> inorder t' = inorder t"
  by (induction t rule: rotate_left.induct) (auto simp: null_deref_def)

lemma inorder_rotate_right: "rotate_right t = Inr t' \<Longrightarrow> inorder t' = inorder t"
  by (induction t rule: rotate_right.induct) (auto simp: null_deref_def)

lemmas inorder_steps = inorder_paint inorder_rotate_left inorder_rotate_right

lemma inorder_close: "inorder (close_frame t f) = left_of [f] @ inorder t @ right_of [f]"
  by (cases f) auto

lemma inorder_rebalance_insert_left:
  assumes "rebalance_insert_left node parent gk gv uncle = Inr t"
  shows "inorder t = inorder (Node c (close_frame node parent) gk gv uncle)"
  using assms by (auto simp: bindR_eq_Inr_iff dest!: inorder_steps split: parent_frame.splits)

lemma inorder_rebalance_insert_right:
  assumes "rebalance_insert_right node parent gk gv uncle = Inr t"
  shows "inorder t = inorder (Node c uncle gk gv (close_frame node parent))"
  using assms by (auto simp: bindR_eq_Inr_iff dest!: inorder_steps split: parent_frame.splits)

lemma inorder_insert_fixup:
  "insert_fixup node fs = Inr t \<Longrightarrow> inorder t = inorder (plug node fs)"
proof (induction node fs arbitrary: t rule: insert_fixup.induct)
  case (3 node parent gc gk gv uncle fs)
  then show ?case
    by (auto simp: bindR_eq_Inr_iff inorder_plug inorder_close
        simp del: rebalance_insert_left.simps dest!: inorder_rebalance_insert_left split: if_splits)
next
  case (4 node parent gc uncle gk gv fs)
  then show ?case
    by (auto simp: bindR_eq_Inr_iff inorder_plug inorder_close
        simp del: rebalance_insert_right.simps dest!: inorder_rebalance_insert_right split: if_splits)
qed (auto simp: null_deref_def split: if_splits)

lemma descend_plug: "descend key t fs = Some gs \<Longrightarrow> plug Null gs = plug t fs"
  by (induction key t fs arbitrary: gs rule: descend.induct) (auto split: if_splits)

lemma ordered_append: "ordered (xs @ ys) \<longleftrightarrow> ordered xs \<and> ordered ys \<and> (\<forall>x\<in>set xs. \<forall>y\<in>set ys. fst x < fst y)"
  by (auto simp: ordered_def sorted_wrt_append)

lemma ordered_Cons: "ordered (x # xs) \<longleftrightarrow> (\<forall>y\<in>set xs. fst x < fst y) \<and> ordered xs"
  by (auto simp: ordered_def)

lemma ordered_Nil [simp]: "ordered []"
  by (simp add: ordered_def)

lemma ordered_notin: "ordered (xs @ (k, v) # ys) \<Longrightarrow> k \<notin> fst ` set xs \<and> k \<notin> fst ` set ys"
  by (fastforce simp: ordered_append ordered_Cons)

lemma ordered_split_None:
  assumes "ordered (xs @ (k, v) # ys)"
  shows "map_of xs k = None" "map_of ys k = None"
  using ordered_notin [OF assms] by (simp_all add: map_of_eq_None_iff)

lemma map_of_insert: "ordered (xs @ (k, v) # ys) \<Longrightarrow> map_of (xs @ (k, v) # ys) = (map_of (xs @ ys))(k \<mapsto> v)"
  using ordered_split_None [of xs k v ys] by (auto simp: fun_eq_iff map_add_def split: option.splits)

lemma map_of_delete: "ordered (xs @ (k, v) # ys) \<Longrightarrow> map_of (xs @ ys) = (map_of (xs @ (k, v) # ys))(k := None)"
  using ordered_split_None [of xs k v ys] by (auto simp: fun_eq_iff map_add_def split: option.splits)

lemma descend_side:
  assumes "descend key t fs = Some gs" "\<forall>x\<in>set (left_of fs). fst x < key" "\<forall>x\<in>set (right_of fs). key < fst x"
    "ordered (inorder t)"
  shows "(\<forall>x\<in>set (left_of gs). fst x < key) \<and> (\<forall>x\<in>set (right_of gs). key < fst x)"
  using assms
proof (induction key t fs arbitrary: gs rule: descend.induct)
  case (2 key c l k v r fs)
  have o: "ordered (inorder l)" "ordered (inorder r)" "\<forall>x\<in>set (inorder l). fst x < k"
    "\<forall>x\<in>set (inorder r). k < fst x" using "2.prems"(4) by (auto simp: ordered_append ordered_Cons)
  show ?case
  proof (cases "key < k")
    case True
    then have "\<forall>x\<in>set (right_of (In_left c k v r # fs)). key < fst x"
      using "2.prems"(3) o(4) less_trans by auto
    then show ?thesis using "2.IH"(1) [OF True] "2.prems"(1,2) True o(1) by simp
  next
    case False
    then have gt: "key > k" using "2.prems"(1) by (cases "key > k") auto
    then have "\<forall>x\<in>set (left_of (In_right c l k v # fs)). fst x < key"
      using "2.prems"(2) o(3) less_trans by auto
    then show ?thesis using "2.IH"(2) [OF False gt] "2.prems"(1,3) False gt o(2) by simp
  qed
qed simp

lemma descend_None: "bst t \<Longrightarrow> descend key t fs = None \<longleftrightarrow> key \<in> dom (tree_map t)"
proof (induction key t fs rule: descend.induct)
  case (2 key c l k v r fs)
  then have o: "ordered (inorder l @ (k, v) # inorder r)" by (simp add: bst_def)
  have "key \<notin> fst ` set (inorder r)" if "key \<le> k" using o that by (fastforce simp: ordered_append ordered_Cons)
  moreover have "key \<notin> fst ` set (inorder l)" if "k \<le> key" using o that by (fastforce simp: ordered_append ordered_Cons)
  moreover have "bst l" "bst r" using o by (auto simp: bst_def ordered_append ordered_Cons)
  ultimately show ?case using "2.IH" by (auto simp: tree_map_def dom_map_of_conv_image_fst)
qed (simp add: tree_map_def)

lemma tree_find_map: "bst t \<Longrightarrow> tree_find key t = tree_map t key"
proof (induction t)
  case (Node c l k v r)
  then have o: "ordered (inorder l @ (k, v) # inorder r)" by (simp add: bst_def)
  then have IH: "tree_find key l = map_of (inorder l) key" "tree_find key r = map_of (inorder r) key"
    using Node.IH by (auto simp: bst_def tree_map_def ordered_append ordered_Cons)
  have "key \<notin> fst ` set (inorder r)" if "key \<le> k" using o that by (fastforce simp: ordered_append ordered_Cons)
  moreover have "key \<notin> fst ` set (inorder l)" if "k \<le> key" using o that by (fastforce simp: ordered_append ordered_Cons)
  ultimately show ?case using IH
    unfolding map_of_eq_None_iff [symmetric]
    by (auto simp: tree_map_def map_add_def split: option.splits)
qed (simp add: tree_map_def)

section \<open>Colours and black heights\<close>

text \<open>\<open>wf_rb n t\<close>: no red node has a red child, and every path holds \<open>n\<close> black nodes.\<close>

fun wf_rb :: "nat \<Rightarrow> 'a tree_node \<Rightarrow> bool" where
  "wf_rb n Null \<longleftrightarrow> n = 0"
| "wf_rb n (Node c l k v r) \<longleftrightarrow>
     (if c then wf_rb n l \<and> wf_rb n r \<and> \<not> node_red l \<and> \<not> node_red r
      else n > 0 \<and> wf_rb (n - 1) l \<and> wf_rb (n - 1) r)"

definition rb_tree :: "'a tree_node \<Rightarrow> bool" where
  "rb_tree t \<longleftrightarrow> (\<exists>n. wf_rb n t) \<and> \<not> node_red t"

text \<open>The frames around a place for a subtree of black height \<open>n\<close>; whether it may be red.\<close>

fun red_ok :: "'a parent_frame list \<Rightarrow> bool" where
  "red_ok [] = False"
| "red_ok (f # fs) = (\<not> frame_red f)"

fun sibling_of :: "'a parent_frame \<Rightarrow> 'a tree_node" where
  "sibling_of (In_left c k v r) = r"
| "sibling_of (In_right c l k v) = l"

fun wf_frames :: "nat \<Rightarrow> 'a parent_frame list \<Rightarrow> bool" where
  "wf_frames n [] = True"
| "wf_frames n (f # fs) = (wf_rb n (sibling_of f) \<and>
     (if frame_red f then \<not> node_red (sibling_of f) \<and> red_ok fs \<and> wf_frames n fs
      else wf_frames (Suc n) fs))"

lemma node_red_close [simp]: "node_red (close_frame t f) = frame_red f"
  by (cases f) auto

lemma wf_close:
  "wf_rb n t \<Longrightarrow> wf_rb n (sibling_of f) \<Longrightarrow> (frame_red f \<longrightarrow> \<not> node_red t \<and> \<not> node_red (sibling_of f)) \<Longrightarrow>
   wf_rb (if frame_red f then n else Suc n) (close_frame t f)"
  by (cases f) auto

lemma wf_plug:
  "wf_rb n t \<Longrightarrow> wf_frames n fs \<Longrightarrow> (node_red t \<longrightarrow> red_ok fs) \<Longrightarrow> rb_tree (plug t fs)"
proof (induction fs arbitrary: n t)
  case (Cons f fs)
  then show ?case using wf_close [of n t f]
    by (cases "frame_red f") (auto intro!: Cons.IH)
qed (auto simp: rb_tree_def)

lemma wf_blacken: "wf_rb n t \<Longrightarrow> wf_rb (if node_red t then Suc n else n) (blacken t)"
  by (cases t) auto

lemma node_red_blacken [simp]: "\<not> node_red (blacken t)"
  by (cases t) auto

lemma blacken_black [simp]: "\<not> node_red t \<Longrightarrow> blacken t = t"
  by (cases t) auto

lemma rb_blacken: "rb_tree t \<Longrightarrow> rb_tree (blacken t)"
  by (auto simp: rb_tree_def)

lemma red_NodeE:
  assumes "node_red t"
  obtains l k v r where "t = Node True l k v r"
  using assms by (cases t) auto

lemma black_NodeE:
  assumes "\<not> node_red t" "t \<noteq> Null"
  obtains l k v r where "t = Node False l k v r"
  using assms by (cases t) auto

text \<open>Insertion: a red node takes a place of black height \<open>n\<close>.\<close>

lemma rebalance_insert_left_wf:
  assumes "wf_rb n node" "node_red node" "frame_red parent" "wf_rb n (sibling_of parent)"
    "\<not> node_red (sibling_of parent)" "wf_rb n uncle" "\<not> node_red uncle"
  shows "\<exists>t. rebalance_insert_left node parent gk gv uncle = Inr t \<and> wf_rb (Suc n) t \<and> \<not> node_red t"
  using assms by (cases parent; cases node) auto

lemma rebalance_insert_right_wf:
  assumes "wf_rb n node" "node_red node" "frame_red parent" "wf_rb n (sibling_of parent)"
    "\<not> node_red (sibling_of parent)" "wf_rb n uncle" "\<not> node_red uncle"
  shows "\<exists>t. rebalance_insert_right node parent gk gv uncle = Inr t \<and> wf_rb (Suc n) t \<and> \<not> node_red t"
  using assms by (cases parent; cases node) auto

lemma plug_Null [simp]: "plug t fs = Null \<longleftrightarrow> t = Null \<and> fs = []"
proof (induction fs arbitrary: t)
  case (Cons f fs)
  then show ?case by (cases f) auto
qed simp

lemma wf_blacken_close:
  "wf_rb n t \<Longrightarrow> wf_rb n (sibling_of f) \<Longrightarrow> frame_red f \<Longrightarrow> wf_rb (Suc n) (blacken (close_frame t f))"
  by (cases f) auto

lemma insert_fixup_wf:
  "wf_rb n node \<Longrightarrow> node_red node \<Longrightarrow> wf_frames n fs \<Longrightarrow>
   \<exists>t. insert_fixup node fs = Inr t \<and> t \<noteq> Null \<and> rb_tree (blacken t)"
proof (induction node fs arbitrary: n rule: insert_fixup.induct)
  case (1 node)
  then show ?case using wf_blacken [of n node] by (auto simp: rb_tree_def)
next
  case (2 node parent)
  then show ?case using wf_plug [of n node "[parent]"]
    by (cases parent) (auto simp: rb_tree_def)
next
  case (3 node parent gc gk gv uncle fs)
  show ?case
  proof (cases "frame_red parent")
    case False
    then have "rb_tree (plug node (parent # In_left gc gk gv uncle # fs))"
      using "3.prems" by (intro wf_plug) auto
    then show ?thesis using False by (auto simp: rb_blacken)
  next
    case True
    have w: "wf_rb n (sibling_of parent)" "\<not> node_red (sibling_of parent)" "wf_rb n uncle"
      "wf_frames (Suc n) fs" using "3.prems"(3) True by auto
    show ?thesis
    proof (cases "node_red uncle")
      case u: True
      have "wf_rb (Suc n) (Node True (blacken (close_frame node parent)) gk gv (blacken uncle))"
        using wf_blacken_close [OF "3.prems"(1) w(1) True] wf_blacken [OF w(3)] u by simp
      then show ?thesis using "3.IH" [OF _ u _ _ w(4)] True u by simp
    next
      case False
      then obtain t where t: "rebalance_insert_left node parent gk gv uncle = Inr t" "wf_rb (Suc n) t"
        "\<not> node_red t" using rebalance_insert_left_wf [OF "3.prems"(1,2) True w(1,2,3)] by blast
      moreover have "t \<noteq> Null" using t(2) by auto
      ultimately show ?thesis using wf_plug [OF t(2) w(4)] True False
        by (auto simp: rb_blacken simp del: rebalance_insert_left.simps)
    qed
  qed
next
  case (4 node parent gc uncle gk gv fs)
  show ?case
  proof (cases "frame_red parent")
    case False
    then have "rb_tree (plug node (parent # In_right gc uncle gk gv # fs))"
      using "4.prems" by (intro wf_plug) auto
    then show ?thesis using False by (auto simp: rb_blacken)
  next
    case True
    have w: "wf_rb n (sibling_of parent)" "\<not> node_red (sibling_of parent)" "wf_rb n uncle"
      "wf_frames (Suc n) fs" using "4.prems"(3) True by auto
    show ?thesis
    proof (cases "node_red uncle")
      case u: True
      have "wf_rb (Suc n) (Node True (blacken uncle) gk gv (blacken (close_frame node parent)))"
        using wf_blacken_close [OF "4.prems"(1) w(1) True] wf_blacken [OF w(3)] u by simp
      then show ?thesis using "4.IH" [OF _ u _ _ w(4)] True u by simp
    next
      case False
      then obtain t where t: "rebalance_insert_right node parent gk gv uncle = Inr t" "wf_rb (Suc n) t"
        "\<not> node_red t" using rebalance_insert_right_wf [OF "4.prems"(1,2) True w(1,2,3)] by blast
      moreover have "t \<noteq> Null" using t(2) by auto
      ultimately show ?thesis using wf_plug [OF t(2) w(4)] True False
        by (auto simp: rb_blacken simp del: rebalance_insert_right.simps)
    qed
  qed
qed

text \<open>Removal: a place of black height \<open>Suc n\<close> is left with a node of height \<open>n\<close>.\<close>

fun rebalanced_inorder :: "'a rebalanced \<Rightarrow> (u64 \<times> 'a) list" where
  "rebalanced_inorder (Repaired t) = inorder t"
| "rebalanced_inorder (Go_up t) = inorder t"

definition rebalanced_ok :: "nat \<Rightarrow> bool \<Rightarrow> 'a rebalanced \<Rightarrow> bool" where
  "rebalanced_ok n pc r = (case r of
     Repaired t \<Rightarrow> wf_rb (if pc then Suc n else Suc (Suc n)) t \<and> node_red t = pc
   | Go_up t \<Rightarrow> wf_rb (Suc n) (blacken t) \<and> node_red t = pc \<and> t \<noteq> Null)"

lemma remove_step_left_wf:
  assumes "wf_rb n node" "\<not> node_red node" "wf_rb (Suc n) sibling" "\<not> node_red sibling"
  shows "\<exists>r. remove_step_left node pc pk pv sibling = Inr r \<and> rebalanced_ok n pc r \<and>
    rebalanced_inorder r = inorder (Node pc node pk pv sibling)"
proof -
  obtain sl sk sv sr where s: "sibling = Node False sl sk sv sr" "wf_rb n sl" "wf_rb n sr"
    using assms(3,4) by (cases sibling) auto
  show ?thesis
  proof (cases "node_red sr")
    case True
    then obtain a k v b where "sr = Node True a k v b" by (rule red_NodeE)
    then show ?thesis using s assms by (auto simp: rebalanced_ok_def)
  next
    case far: False
    show ?thesis
    proof (cases "node_red sl")
      case True
      then obtain a k v b where "sl = Node True a k v b" by (rule red_NodeE)
      then show ?thesis using s assms far by (auto simp: rebalanced_ok_def)
    next
      case False
      then show ?thesis using far s assms by (auto simp: rebalanced_ok_def)
    qed
  qed
qed

lemma remove_step_right_wf:
  assumes "wf_rb n node" "\<not> node_red node" "wf_rb (Suc n) sibling" "\<not> node_red sibling"
  shows "\<exists>r. remove_step_right node pc sibling pk pv = Inr r \<and> rebalanced_ok n pc r \<and>
    rebalanced_inorder r = inorder (Node pc sibling pk pv node)"
proof -
  obtain sl sk sv sr where s: "sibling = Node False sl sk sv sr" "wf_rb n sl" "wf_rb n sr"
    using assms(3,4) by (cases sibling) auto
  show ?thesis
  proof (cases "node_red sl")
    case True
    then obtain a k v b where "sl = Node True a k v b" by (rule red_NodeE)
    then show ?thesis using s assms by (auto simp: rebalanced_ok_def)
  next
    case far: False
    show ?thesis
    proof (cases "node_red sr")
      case True
      then obtain a k v b where "sr = Node True a k v b" by (rule red_NodeE)
      then show ?thesis using s assms far by (auto simp: rebalanced_ok_def)
    next
      case False
      then show ?thesis using far s assms by (auto simp: rebalanced_ok_def)
    qed
  qed
qed

lemma finish_remove_inorder: "inorder (finish_remove r fs) = left_of fs @ rebalanced_inorder r @ right_of fs"
  by (cases r) (simp_all add: finish_remove_def inorder_plug)

lemma finish_remove_wf:
  assumes "rebalanced_ok n True r" "wf_frames (Suc n) fs" "red_ok fs"
  shows "rb_tree (finish_remove r fs)"
  using assms wf_plug [of "Suc n" _ fs]
  by (cases r) (auto simp: finish_remove_def rebalanced_ok_def rb_blacken)

lemma finish_remove_wf':
  assumes "rebalanced_ok n pc r" "wf_frames (if pc then Suc n else Suc (Suc n)) fs" "pc \<longrightarrow> red_ok fs"
    "pc \<or> (\<exists>t. r = Repaired t)"
  shows "rb_tree (finish_remove r fs)"
  using assms wf_plug [of "Suc n" _ fs] wf_plug [of "Suc (Suc n)" _ fs]
  by (cases r) (auto simp: finish_remove_def rebalanced_ok_def rb_blacken split: if_splits)

lemma remove_fixup_left_wf:
  assumes prems: "wf_rb n node" "\<not> node_red node" "wf_frames (Suc n) (In_left pc pk pv sibling # fs)"
    and IH: "\<And>n node. wf_rb n node \<Longrightarrow> \<not> node_red node \<Longrightarrow> wf_frames (Suc n) fs \<Longrightarrow>
      \<exists>t. remove_fixup node fs = Inr t \<and> rb_tree t \<and> inorder t = inorder (plug node fs)"
  shows "\<exists>t. remove_fixup node (In_left pc pk pv sibling # fs) = Inr t \<and> rb_tree t \<and>
    inorder t = inorder (plug node (In_left pc pk pv sibling # fs))"
proof (cases "node_red sibling")
  case True
  then obtain sl sk sv sr where s: "sibling = Node True sl sk sv sr" by (rule red_NodeE)
  then have w: "\<not> pc" "wf_rb (Suc n) sl" "\<not> node_red sl" "wf_rb (Suc n) sr" "\<not> node_red sr"
    "wf_frames (Suc (Suc n)) fs" using prems(3) by (auto split: if_splits)
  then obtain r where r: "remove_step_left node True pk pv sl = Inr r" "rebalanced_ok n True r"
    "rebalanced_inorder r = inorder (Node True node pk pv sl)"
    using remove_step_left_wf [OF prems(1,2)] by blast
  have "wf_frames (Suc n) (In_left False sk sv sr # fs)" using w by simp
  then show ?thesis using finish_remove_wf [OF r(2)] finish_remove_inorder [of r] r(1,3) s
    by (simp add: inorder_plug)
next
  case black: False
  have w: "wf_rb (Suc n) sibling" "wf_frames (if pc then Suc n else Suc (Suc n)) fs" "pc \<longrightarrow> red_ok fs"
    using prems(3) by (auto split: if_splits)
  obtain r where r: "remove_step_left node pc pk pv sibling = Inr r" "rebalanced_ok n pc r"
    "rebalanced_inorder r = inorder (Node pc node pk pv sibling)"
    using remove_step_left_wf [OF prems(1,2) w(1) black] by blast
  have e: "remove_fixup node (In_left pc pk pv sibling # fs) =
    (case r of Go_up (Node False l k v r) \<Rightarrow> remove_fixup (Node False l k v r) fs
     | r \<Rightarrow> Inr (finish_remove r fs))"
    using r(1) black w(1) by (cases sibling) (auto split: bool.splits)
  show ?thesis
  proof (cases "\<exists>l k v u. r = Go_up (Node False l k v u)")
    case True
    then obtain l k v u where t: "r = Go_up (Node False l k v u)" by blast
    then have "\<not> pc" "wf_rb (Suc n) (Node False l k v u)" using r(2) by (auto simp: rebalanced_ok_def)
    then obtain t' where "remove_fixup (Node False l k v u) fs = Inr t'" "rb_tree t'"
      "inorder t' = inorder (plug (Node False l k v u) fs)"
      using IH [of "Suc n" "Node False l k v u"] w(2) by auto
    then show ?thesis using e t r(3) by (simp add: inorder_plug)
  next
    case False
    have "remove_fixup node (In_left pc pk pv sibling # fs) = Inr (finish_remove r fs)"
      unfolding e using False by (auto split: rebalanced.splits tree_node.splits bool.splits)
    moreover have "pc \<or> (\<exists>t. r = Repaired t)" using False r(2) 
        by (cases r) (auto simp: rebalanced_ok_def elim: black_NodeE)
    ultimately show ?thesis using finish_remove_wf' [OF r(2)] finish_remove_inorder [of r fs] w(2,3) r(3)
      by (simp add: inorder_plug)
  qed
qed

lemma remove_fixup_right_wf:
  assumes prems: "wf_rb n node" "\<not> node_red node" "wf_frames (Suc n) (In_right pc sibling pk pv # fs)"
    and IH: "\<And>n node. wf_rb n node \<Longrightarrow> \<not> node_red node \<Longrightarrow> wf_frames (Suc n) fs \<Longrightarrow>
      \<exists>t. remove_fixup node fs = Inr t \<and> rb_tree t \<and> inorder t = inorder (plug node fs)"
  shows "\<exists>t. remove_fixup node (In_right pc sibling pk pv # fs) = Inr t \<and> rb_tree t \<and>
    inorder t = inorder (plug node (In_right pc sibling pk pv # fs))"
proof (cases "node_red sibling")
  case True
  then obtain sl sk sv sr where s: "sibling = Node True sl sk sv sr" by (rule red_NodeE)
  then have w: "\<not> pc" "wf_rb (Suc n) sl" "\<not> node_red sl" "wf_rb (Suc n) sr" "\<not> node_red sr"
    "wf_frames (Suc (Suc n)) fs" using prems(3) by (auto split: if_splits)
  then obtain r where r: "remove_step_right node True sr pk pv = Inr r" "rebalanced_ok n True r"
    "rebalanced_inorder r = inorder (Node True sr pk pv node)"
    using remove_step_right_wf [OF prems(1,2)] by blast
  have "wf_frames (Suc n) (In_right False sl sk sv # fs)" using w by simp
  then show ?thesis using finish_remove_wf [OF r(2)] finish_remove_inorder [of r] r(1,3) s
    by (simp add: inorder_plug)
next
  case black: False
  have w: "wf_rb (Suc n) sibling" "wf_frames (if pc then Suc n else Suc (Suc n)) fs" "pc \<longrightarrow> red_ok fs"
    using prems(3) by (auto split: if_splits)
  obtain r where r: "remove_step_right node pc sibling pk pv = Inr r" "rebalanced_ok n pc r"
    "rebalanced_inorder r = inorder (Node pc sibling pk pv node)"
    using remove_step_right_wf [OF prems(1,2) w(1) black] by blast
  have e: "remove_fixup node (In_right pc sibling pk pv # fs) =
    (case r of Go_up (Node False l k v r) \<Rightarrow> remove_fixup (Node False l k v r) fs
     | r \<Rightarrow> Inr (finish_remove r fs))"
    using r(1) black w(1) by (cases sibling) (auto split: bool.splits)
  show ?thesis
  proof (cases "\<exists>l k v u. r = Go_up (Node False l k v u)")
    case True
    then obtain l k v u where t: "r = Go_up (Node False l k v u)" by blast
    then have "\<not> pc" "wf_rb (Suc n) (Node False l k v u)" using r(2) by (auto simp: rebalanced_ok_def)
    then obtain t' where "remove_fixup (Node False l k v u) fs = Inr t'" "rb_tree t'"
      "inorder t' = inorder (plug (Node False l k v u) fs)"
      using IH [of "Suc n" "Node False l k v u"] w(2) by auto
    then show ?thesis using e t r(3) by (simp add: inorder_plug)
  next
    case False
    have "remove_fixup node (In_right pc sibling pk pv # fs) = Inr (finish_remove r fs)"
      unfolding e using False by (auto split: rebalanced.splits tree_node.splits bool.splits)
    moreover have "pc \<or> (\<exists>t. r = Repaired t)" using False r(2) 
        by (cases r) (auto simp: rebalanced_ok_def elim: black_NodeE)
    ultimately show ?thesis using finish_remove_wf' [OF r(2)] finish_remove_inorder [of r fs] w(2,3) r(3)
      by (simp add: inorder_plug)
  qed
qed

lemma remove_fixup_wf:
  "wf_rb n node \<Longrightarrow> \<not> node_red node \<Longrightarrow> wf_frames (Suc n) fs \<Longrightarrow>
   \<exists>t. remove_fixup node fs = Inr t \<and> rb_tree t \<and> inorder t = inorder (plug node fs)"
proof (induction fs arbitrary: node n)
  case (Cons f fs)
  then show ?case
    using remove_fixup_left_wf [of n node] remove_fixup_right_wf [of n node] by (cases f) blast+
qed (auto simp: rb_tree_def)

section \<open>The operations of the tree\<close>

lemma descend_wf:
  "descend key t fs = Some gs \<Longrightarrow> wf_rb n t \<Longrightarrow> wf_frames n fs \<Longrightarrow> (node_red t \<longrightarrow> red_ok fs) \<Longrightarrow>
   wf_frames 0 gs"
proof (induction key t fs arbitrary: n gs rule: descend.induct)
  case (2 key c l k v r fs)
  have "wf_frames (if c then n else n - 1) (In_left c k v r # fs)"
    "wf_frames (if c then n else n - 1) (In_right c l k v # fs)"
    "wf_rb (if c then n else n - 1) l" "wf_rb (if c then n else n - 1) r"
    "node_red l \<longrightarrow> \<not> c" "node_red r \<longrightarrow> \<not> c"
    using "2.prems" by (auto split: if_splits)
  then show ?case using "2.IH" "2.prems"(1) by (simp split: if_splits)
qed simp

lemma locate_plug:
  "locate key t fs = Some (u, gs) \<Longrightarrow> plug u gs = plug t fs \<and> (\<exists>c l v r. u = Node c l key v r)"
proof (induction key t fs rule: locate.induct)
  case (2 key c l k v r fs)
  then show ?case by (auto split: if_splits)
qed simp

lemma locate_wf:
  "locate key t fs = Some (u, gs) \<Longrightarrow> wf_rb n t \<Longrightarrow> wf_frames n fs \<Longrightarrow> (node_red t \<longrightarrow> red_ok fs) \<Longrightarrow>
   \<exists>m. wf_rb m u \<and> wf_frames m gs \<and> (node_red u \<longrightarrow> red_ok gs)"
proof (induction key t fs arbitrary: n rule: locate.induct)
  case (2 key c l k v r fs)
  have "wf_frames (if c then n else n - 1) (In_left c k v r # fs)"
    "wf_frames (if c then n else n - 1) (In_right c l k v # fs)"
    "wf_rb (if c then n else n - 1) l" "wf_rb (if c then n else n - 1) r"
    "node_red l \<longrightarrow> \<not> c" "node_red r \<longrightarrow> \<not> c"
    using "2.prems" by (auto split: if_splits)
  note w = this
  show ?case
  proof (cases key k rule: linorder_cases)
    case less
    then show ?thesis using "2.IH"(1) [OF less _ w(3,1)] "2.prems"(1) w(5) by simp
  next
    case equal
    then show ?thesis using "2.prems" by (intro exI [of _ n]) auto
  next
    case greater
    then show ?thesis using "2.IH"(2) [OF _ greater _ w(4,2)] "2.prems"(1) w(6) less_not_sym [OF greater] greater by simp
  qed
qed simp

lemma locate_Some: "bst t \<Longrightarrow> key \<in> dom (tree_map t) \<Longrightarrow> locate key t fs \<noteq> None"
proof (induction key t fs rule: locate.induct)
  case (2 key c l k v r fs)
  then have o: "ordered (inorder l @ (k, v) # inorder r)" by (simp add: bst_def)
  have "key \<notin> fst ` set (inorder r)" if "key \<le> k" using o that by (fastforce simp: ordered_append ordered_Cons)
  moreover have "key \<notin> fst ` set (inorder l)" if "k \<le> key" using o that by (fastforce simp: ordered_append ordered_Cons)
  moreover have "bst l" "bst r" using o by (auto simp: bst_def ordered_append ordered_Cons)
  moreover have "key \<in> fst ` set (inorder l) \<or> key = k \<or> key \<in> fst ` set (inorder r)"
    using "2.prems"(2) by (auto simp: tree_map_def dom_map_of_conv_image_fst)
  ultimately consider "key < k" "key \<in> dom (tree_map l)" "bst l" | "key = k"
    | "k < key" "key \<in> dom (tree_map r)" "bst r"
    by (metis (no_types) dom_map_of_conv_image_fst linorder_cases order.strict_implies_order
        order_refl tree_map_def)
  then show ?case
    using "2.IH" less_not_sym [of k key] by cases simp_all
qed (simp add: tree_map_def)

lemma leftmost_plug: "leftmost t fs = (u, gs) \<Longrightarrow> t \<noteq> Null \<Longrightarrow> plug u gs = plug t fs \<and> (\<exists>c k v r. u = Node c Null k v r)"
  by (induction t fs rule: leftmost.induct) (auto split: if_splits)

lemma leftmost_append: "leftmost t fs = (fst (leftmost t []), snd (leftmost t []) @ fs)"
proof (induction t arbitrary: fs)
  case (Node c l k v r)
  show ?case using Node(1) [of "In_left c k v r # fs"] Node(1) [of "[In_left c k v r]"] by simp
qed simp

lemma leftmost_wf:
  "leftmost t fs = (u, gs) \<Longrightarrow> wf_rb n t \<Longrightarrow> wf_frames n fs \<Longrightarrow> (node_red t \<longrightarrow> red_ok fs) \<Longrightarrow>
   \<exists>m. wf_rb m u \<and> wf_frames m gs \<and> (node_red u \<longrightarrow> red_ok gs)"
proof (induction t fs arbitrary: n rule: leftmost.induct)
  case (2 c l k v r fs)
  have "wf_frames (if c then n else n - 1) (In_left c k v r # fs)"
    "wf_rb (if c then n else n - 1) l" "node_red l \<longrightarrow> \<not> c"
    using "2.prems" by (auto split: if_splits)
  note w = this
  show ?case
  proof (cases "l = Null")
    case True
    then show ?thesis using "2.prems" by (intro exI [of _ n]) auto
  next
    case False
    then show ?thesis using "2.IH" [OF False _ w(2,1)] "2.prems"(1) w(3) by simp
  qed
qed auto

lemma leftmost_frames: "leftmost t fs = (u, gs) \<Longrightarrow> left_of gs = left_of fs"
  by (induction t fs rule: leftmost.induct) (auto split: if_splits)

text \<open>The node that is unlinked has one child at most: what is left is as deep as it was, or one less.\<close>

lemma after_unlink_wf:
  assumes "wf_rb m (Node c l k v r)" "l = Null \<and> t = r \<or> r = Null \<and> t = l" "wf_frames m fs"
    "c \<longrightarrow> red_ok fs"
  shows "\<exists>t'. after_unlink c t fs = Inr t' \<and> rb_tree t' \<and> inorder t' = inorder (plug t fs)"
proof (cases c)
  case True
  then have "wf_rb m t" "\<not> node_red t" using assms(1,2) by auto
  then show ?thesis using wf_plug [OF _ assms(3)] True by (simp add: after_unlink_def)
next
  case False
  then obtain n where n: "m = Suc n" "wf_rb n t" using assms(1,2) by (cases m) auto
  show ?thesis
  proof (cases "node_red t")
    case True
    then have "wf_rb m (blacken t)" using wf_blacken [OF n(2)] n(1) by simp
    then show ?thesis using wf_plug [OF _ assms(3)] True False by (simp add: after_unlink_def inorder_plug)
  next
    case black: False
    then show ?thesis using remove_fixup_wf [OF n(2) black] assms(3) n(1) False by (simp add: after_unlink_def)
  qed
qed

text \<open>The two-child case: the frames of the successor continue those of the node.\<close>

lemma wf_frames_key: "wf_frames n (gs @ In_right c l k v # fs) = wf_frames n (gs @ In_right c l k' v' # fs)"
  "red_ok (gs @ In_right c l k v # fs) = red_ok (gs @ In_right c l k' v' # fs)"
proof -
  show r: "red_ok (gs @ In_right c l k v # fs) = red_ok (gs @ In_right c l k' v' # fs)" for gs
    by (cases gs) auto
  show "wf_frames n (gs @ In_right c l k v # fs) = wf_frames n (gs @ In_right c l k' v' # fs)"
    using r by (induction gs arbitrary: n) auto
qed

lemma left_of_append: "left_of (gs @ fs) = left_of fs @ left_of gs"
  by (induction gs rule: left_of.induct) auto

lemma right_of_append: "right_of (gs @ fs) = right_of gs @ right_of fs"
  by (induction gs rule: right_of.induct) auto

lemma successor_unlink:
  assumes "wf_rb m (Node c l key v r)" "wf_frames m fs" "r \<noteq> Null" "c \<longrightarrow> red_ok fs"
  shows "\<exists>nc nk nv nr gs t'. leftmost r [] = (Node nc Null nk nv nr, gs) \<and>
    after_unlink nc nr (gs @ In_right c l nk nv # fs) = Inr t' \<and> rb_tree t' \<and>
    inorder t' = (left_of fs @ inorder l) @ inorder r @ right_of fs"
proof -
  define ms where "ms = (if c then m else m - 1)"
  have wr: "wf_rb ms r" "wf_frames ms (In_right c l key v # fs)" "node_red r \<longrightarrow> \<not> c"
    using assms by (auto simp: ms_def split: if_splits)
  obtain x gs where x: "leftmost r [] = (x, gs)" by fastforce
  then have lm: "leftmost r (In_right c l key v # fs) = (x, gs @ In_right c l key v # fs)"
    using leftmost_append [of r "In_right c l key v # fs"] by simp
  obtain nc nk nv nr where xN: "x = Node nc Null nk nv nr" and xp: "plug x gs = r"
    using leftmost_plug [OF x] assms(3) by auto
  obtain q where q: "wf_rb q x" "wf_frames q (gs @ In_right c l key v # fs)"
    "nc \<longrightarrow> red_ok (gs @ In_right c l key v # fs)"
    using leftmost_wf [OF lm wr(1,2)] wr(3) xN by auto
  then obtain t' where t': "after_unlink nc nr (gs @ In_right c l nk nv # fs) = Inr t'" "rb_tree t'"
    "inorder t' = inorder (plug nr (gs @ In_right c l nk nv # fs))"
    using after_unlink_wf [of q nc Null nk nv nr nr "gs @ In_right c l nk nv # fs"] xN
      wf_frames_key(1) [of q gs c l key v fs nk nv] wf_frames_key(2) [of gs c l key v fs nk nv] by auto
  have "left_of gs = []" using leftmost_frames [OF x] by simp
  then have "inorder r = (nk, nv) # inorder nr @ right_of gs"
    using inorder_plug [of x gs] xp xN by simp
  then have "inorder t' = (left_of fs @ inorder l) @ inorder r @ right_of fs"
    using t'(3) \<open>left_of gs = []\<close> by (simp add: inorder_plug left_of_append right_of_append)
  then show ?thesis using t'(1,2) x xN by blast
qed

lemma tree_del_correct:
  assumes "rb_tree t" "bst t" "key \<in> dom (tree_map t)"
  shows "\<exists>t'. tree_del key t = Inr t' \<and> rb_tree t' \<and> bst t' \<and> tree_map t' = (tree_map t)(key := None)"
proof -
  obtain n where n: "wf_rb n t" "\<not> node_red t" using assms(1) by (auto simp: rb_tree_def)
  obtain u fs where u: "locate key t [] = Some (u, fs)" using locate_Some [OF assms(2,3)] by fastforce
  obtain c l v r where uN: "u = Node c l key v r" and pl: "plug u fs = t" using locate_plug [OF u] by auto
  obtain m where w: "wf_rb m u" "wf_frames m fs" "c \<longrightarrow> red_ok fs"
    using locate_wf [OF u n(1)] n(2) uN by auto
  have io: "inorder t = (left_of fs @ inorder l) @ (key, v) # (inorder r @ right_of fs)"
    using inorder_plug [of u fs] pl uN by simp
  have "\<exists>t'. tree_del key t = Inr t' \<and> rb_tree t' \<and>
    inorder t' = (left_of fs @ inorder l) @ inorder r @ right_of fs"
  proof (cases "l = Null \<or> r = Null")
    case True
    define s where "s = (if l = Null then r else l)"
    have "l = Null \<and> s = r \<or> r = Null \<and> s = l" using True by (auto simp: s_def)
    then obtain t' where "after_unlink c s fs = Inr t'" "rb_tree t'" "inorder t' = inorder (plug s fs)"
      using after_unlink_wf [of m c l key v r s fs] w uN by blast
    moreover have "inorder s = inorder l @ inorder r" using True by (auto simp: s_def)
    ultimately show ?thesis using u uN True by (auto simp: tree_del_def s_def inorder_plug)
  next
    case False
    then obtain nc nk nv nr gs t' where x: "leftmost r [] = (Node nc Null nk nv nr, gs)"
      "after_unlink nc nr (gs @ In_right c l nk nv # fs) = Inr t'" "rb_tree t'"
      "inorder t' = (left_of fs @ inorder l) @ inorder r @ right_of fs"
      using successor_unlink [of m c l key v r fs] w uN by blast
    then show ?thesis using u uN False by (auto simp: tree_del_def)
  qed
  then obtain t' where t': "tree_del key t = Inr t'" "rb_tree t'"
    "inorder t' = (left_of fs @ inorder l) @ inorder r @ right_of fs" by blast
  have o: "ordered ((left_of fs @ inorder l) @ (key, v) # (inorder r @ right_of fs))"
    using assms(2) io by (simp add: bst_def)
  then have "bst t'" using t'(3) by (auto simp: bst_def ordered_append ordered_Cons)
  moreover have "tree_map t' = (tree_map t)(key := None)"
    unfolding tree_map_def t'(3) io using map_of_delete [OF o] by simp
  ultimately show ?thesis using t' by blast
qed

lemma tree_add_correct:
  assumes "rb_tree t" "bst t"
  shows "key \<in> dom (tree_map t) \<Longrightarrow> tree_add key v t = Inr None"
    and "key \<notin> dom (tree_map t) \<Longrightarrow> \<exists>t'. tree_add key v t = Inr (Some t') \<and> rb_tree t' \<and> bst t' \<and>
      tree_map t' = (tree_map t)(key \<mapsto> v)"
proof -
  show "tree_add key v t = Inr None" if "key \<in> dom (tree_map t)"
    using descend_None [OF assms(2), of key "[]"] that by (simp add: tree_add_def)
  assume "key \<notin> dom (tree_map t)"
  then obtain fs where fs: "descend key t [] = Some fs"
    using descend_None [OF assms(2), of key "[]"] by fastforce
  obtain n where n: "wf_rb n t" "\<not> node_red t" using assms(1) by (auto simp: rb_tree_def)
  have w: "wf_frames 0 fs" using descend_wf [OF fs n(1)] n(2) by simp
  obtain t1 where t1: "insert_fixup (Node True Null key v Null) fs = Inr t1" "t1 \<noteq> Null" "rb_tree (blacken t1)"
    using insert_fixup_wf [OF _ _ w, of "Node True Null key v Null"] by auto
  have p: "paint False t1 = Inr (blacken t1)" using t1(2) by (cases t1) auto
  have i1: "inorder t1 = left_of fs @ (key, v) # right_of fs"
    using inorder_insert_fixup [OF t1(1)] by (simp add: inorder_plug)
  have i: "inorder t = left_of fs @ right_of fs"
    using descend_plug [OF fs] inorder_plug [of Null fs] by simp
  have "(\<forall>x\<in>set (left_of fs). fst x < key) \<and> (\<forall>x\<in>set (right_of fs). key < fst x)"
    using descend_side [OF fs] assms(2) by (simp add: bst_def)
  then have o: "ordered (left_of fs @ (key, v) # right_of fs)"
    using assms(2) i by (auto simp: bst_def ordered_append ordered_Cons)
  show "\<exists>t'. tree_add key v t = Inr (Some t') \<and> rb_tree t' \<and> bst t' \<and> tree_map t' = (tree_map t)(key \<mapsto> v)"
    using fs t1 p o map_of_insert [OF o] i1 i
    by (simp add: tree_add_def bst_def tree_map_def)
qed

section \<open>The interface its clients rely on\<close>

text \<open>
  A store of objects under keys: what the ports and the handle table use of the tree. \<open>add\<close> answers
  \<open>None\<close> for a key that is taken, \<open>del\<close> is only called on a key that is present.
\<close>

datatype 'a store_op =
    Add u64 'a
  | Del u64

fun run_store_ops ::
  "(u64 \<Rightarrow> 'a \<Rightarrow> 't \<Rightarrow> 't option result) \<Rightarrow> (u64 \<Rightarrow> 't \<Rightarrow> 't result) \<Rightarrow> 'a store_op list \<Rightarrow> 't \<Rightarrow> 't result" where
  "run_store_ops add del [] t = Inr t"
| "run_store_ops add del (Add k v # ops) t =
     bindR (add k v t) (\<lambda>r. run_store_ops add del ops (case r of None \<Rightarrow> t | Some t' \<Rightarrow> t'))"
| "run_store_ops add del (Del k # ops) t = bindR (del k t) (run_store_ops add del ops)"

fun store_spec :: "'a store_op list \<Rightarrow> (u64 \<Rightarrow> 'a option) \<Rightarrow> (u64 \<Rightarrow> 'a option) option" where
  "store_spec [] m = Some m"
| "store_spec (Add k v # ops) m = store_spec ops (if m k = None then m(k \<mapsto> v) else m)"
| "store_spec (Del k # ops) m = (if m k = None then None else store_spec ops (m(k := None)))"

locale object_table =
  fixes inv :: "'t \<Rightarrow> bool"
    and contents :: "'t \<Rightarrow> u64 \<Rightarrow> 'a option"
    and add :: "u64 \<Rightarrow> 'a \<Rightarrow> 't \<Rightarrow> 't option result"
    and del :: "u64 \<Rightarrow> 't \<Rightarrow> 't result"
    and lookup :: "u64 \<Rightarrow> 't \<Rightarrow> 'a option"
    and top_of :: "'t \<Rightarrow> (u64 \<times> 'a) option"
  assumes add_taken: "inv t \<Longrightarrow> k \<in> dom (contents t) \<Longrightarrow> add k v t = Inr None"
    and add_new: "inv t \<Longrightarrow> k \<notin> dom (contents t) \<Longrightarrow>
      \<exists>t'. add k v t = Inr (Some t') \<and> inv t' \<and> contents t' = (contents t)(k \<mapsto> v)"
    and del_present: "inv t \<Longrightarrow> k \<in> dom (contents t) \<Longrightarrow>
      \<exists>t'. del k t = Inr t' \<and> inv t' \<and> contents t' = (contents t)(k := None)"
    and lookup_contents: "inv t \<Longrightarrow> lookup k t = contents t k"
    and top_none: "inv t \<Longrightarrow> top_of t = None \<longleftrightarrow> contents t = Map.empty"
    and top_some: "inv t \<Longrightarrow> top_of t = Some (k, v) \<Longrightarrow> contents t k = Some v"
    and finite_contents: "inv t \<Longrightarrow> finite (dom (contents t))"
begin

lemma run_refines:
  "inv t \<Longrightarrow> store_spec ops (contents t) = Some m \<Longrightarrow>
   \<exists>t'. run_store_ops add del ops t = Inr t' \<and> inv t' \<and> contents t' = m"
proof (induction ops arbitrary: t)
  case (Cons op ops)
  show ?case
  proof (cases op)
    case (Add k v)
    show ?thesis
    proof (cases "contents t k")
      case None
      then obtain t1 where "add k v t = Inr (Some t1)" "inv t1" "contents t1 = (contents t)(k \<mapsto> v)"
        using add_new [OF Cons.prems(1), of k v] by auto
      then show ?thesis using Cons.IH [of t1] Cons.prems(2) Add None by (simp del: fun_upd_apply)
    next
      case (Some w)
      then show ?thesis using add_taken [OF Cons.prems(1), of k v] Cons Add by (auto simp: dom_def)
    qed
  next
    case (Del k)
    then have "k \<in> dom (contents t)" using Cons.prems(2) by (auto split: if_splits)
    then obtain t1 where "del k t = Inr t1" "inv t1" "contents t1 = (contents t)(k := None)"
      using del_present [OF Cons.prems(1)] by blast
    then show ?thesis using Cons.IH [of t1] Cons.prems(2) Del
      by (auto split: if_splits simp del: fun_upd_apply)
  qed
qed simp

lemma del_top:
  assumes "inv t" "top_of t = Some (k, v)"
  shows "\<exists>t'. del k t = Inr t' \<and> inv t' \<and> contents t' = (contents t)(k := None) \<and>
    card (dom (contents t')) < card (dom (contents t))"
proof -
  have k: "k \<in> dom (contents t)" using top_some [OF assms] by blast
  then obtain t' where "del k t = Inr t'" "inv t'" "contents t' = (contents t)(k := None)"
    using del_present [OF assms(1)] by blast
  then show ?thesis
    using k finite_contents [OF assms(1)] card_Diff1_less by (metis dom_fun_upd)
qed

lemma lookup_after_run:
  "inv t \<Longrightarrow> store_spec ops (contents t) = Some m \<Longrightarrow>
   \<exists>t'. run_store_ops add del ops t = Inr t' \<and> (\<forall>k. lookup k t' = m k)"
  using run_refines lookup_contents by metis

end

definition tree_ok :: "'a tree_node \<Rightarrow> bool" where
  "tree_ok t \<longleftrightarrow> rb_tree t \<and> bst t"

lemma tree_ok_Null [simp]: "tree_ok Null"
  by (simp add: tree_ok_def rb_tree_def bst_def)

lemma tree_root_map:
  "bst t \<Longrightarrow> tree_root t = Some (k, v) \<Longrightarrow> tree_map t k = Some v"
  using tree_find_map [of t k] by (cases t) auto

interpretation rb: object_table tree_ok tree_map tree_add tree_del tree_find tree_root
proof unfold_locales
  fix t :: "'a tree_node" and k v
  assume t: "tree_ok t"
  then have t': "rb_tree t" "bst t" by (auto simp: tree_ok_def)
  show "k \<in> dom (tree_map t) \<Longrightarrow> tree_add k v t = Inr None"
    using tree_add_correct(1) [OF t'] .
  show "k \<notin> dom (tree_map t) \<Longrightarrow>
      \<exists>t'. tree_add k v t = Inr (Some t') \<and> tree_ok t' \<and> tree_map t' = (tree_map t)(k \<mapsto> v)"
    using tree_add_correct(2) [OF t'] by (simp add: tree_ok_def)
  show "k \<in> dom (tree_map t) \<Longrightarrow>
      \<exists>t'. tree_del k t = Inr t' \<and> tree_ok t' \<and> tree_map t' = (tree_map t)(k := None)"
    using tree_del_correct [OF t'] by (simp add: tree_ok_def)
  show "tree_find k t = tree_map t k" using tree_find_map [OF t'(2)] .
  show "tree_root t = None \<longleftrightarrow> tree_map t = Map.empty"
    by (cases t) (auto simp: tree_map_def)
  show "tree_root t = Some (k, v) \<Longrightarrow> tree_map t k = Some v"
    using tree_root_map [OF t'(2)] .
  show "finite (dom (tree_map t))" by (simp add: tree_map_def finite_dom_map_of)
qed

section \<open>Properties\<close>

text \<open>C38: The red-black tree of the epoll emulation is a finite map. From the empty tree, every
  sequence of \<open>tree_add\<close> and \<open>tree_del\<close> (of keys that are present) runs without a null dereference,
  in both rebalancing loops and all their mirrored cases; afterwards \<open>tree_find\<close> returns for each
  key what a map with the same history holds, and a duplicate \<open>tree_add\<close> changes nothing.\<close>

theorem search_tree_refines_map:
  assumes "store_spec ops Map.empty = Some m"
  shows "\<exists>t. run_store_ops tree_add tree_del ops Null = Inr t \<and> tree_ok t \<and> (\<forall>k. tree_find k t = m k)"
  using rb.run_refines [of Null ops m] rb.lookup_contents assms by (auto simp: tree_map_def)

lemma search_tree_refines_map_witness:
  "\<exists>t. run_store_ops tree_add tree_del [Add 5 ''a'', Add 3 ''b'', Add 4 ''c'', Add 5 ''d'', Del 4, Del 5] Null
      = Inr t \<and> tree_find 3 t = Some ''b'' \<and> tree_find 5 t = None"
proof -
  have "store_spec [Add 5 ''a'', Add 3 ''b'', Add 4 ''c'', Add 5 ''d'', Del 4, Del 5] Map.empty
    = Some [3 \<mapsto> ''b'']" by (auto simp: fun_eq_iff)
  from search_tree_refines_map [OF this] show ?thesis by auto
qed

fun tree_height :: "'a tree_node \<Rightarrow> nat" where
  "tree_height Null = 0"
| "tree_height (Node c l k v r) = Suc (max (tree_height l) (tree_height r))"

lemma wf_rb_height: "wf_rb n t \<Longrightarrow> tree_height t \<le> 2 * n + (if node_red t then 1 else 0)"
proof (induction t arbitrary: n)
  case (Node c l k v r)
  show ?case
  proof (cases c)
    case True
    then show ?thesis using Node.IH [of n] Node.prems by simp
  next
    case False
    then obtain m where m: "n = Suc m" "wf_rb m l" "wf_rb m r" using Node.prems by (cases n) auto
    have "tree_height l \<le> 2 * m + 1" "tree_height r \<le> 2 * m + 1"
      using Node.IH(1) [OF m(2)] Node.IH(2) [OF m(3)] by (auto split: if_splits)
    then show ?thesis using m(1) False by simp
  qed
qed simp

lemma wf_rb_size: "wf_rb n t \<Longrightarrow> 2 ^ n \<le> length (inorder t) + 1"
proof (induction t arbitrary: n)
  case (Node c l k v r)
  then show ?case
  proof (cases c)
    case False
    then obtain m where "n = Suc m" "wf_rb m l" "wf_rb m r" using Node.prems by (cases n) auto
    then show ?thesis using Node.IH by fastforce
  qed (use Node in fastforce)
qed simp

text \<open>The tree stays balanced: after any such sequence its height \<open>h\<close> and its number \<open>n\<close> of
  entries satisfy \<open>2 ^ ((h + 1) div 2) \<le> n + 1\<close>, so that the descents of \<open>tree_find\<close>, \<open>tree_add\<close>
  and \<open>tree_del\<close>, and the loops that climb back, take at most \<open>2 log (n + 1)\<close> steps.\<close>

theorem search_tree_balanced:
  assumes "run_store_ops tree_add tree_del ops Null = Inr t" "store_spec ops Map.empty \<noteq> None"
  shows "2 ^ ((tree_height t + 1) div 2) \<le> length (inorder t) + 1"
proof -
  obtain m where "store_spec ops Map.empty = Some m" using assms(2) by blast
  then have "tree_ok t" using rb.run_refines [of Null ops m] assms(1) by (auto simp: tree_map_def)
  then obtain n where n: "wf_rb n t" "\<not> node_red t" by (auto simp: tree_ok_def rb_tree_def)
  have "(tree_height t + 1) div 2 \<le> n" using wf_rb_height [OF n(1)] n(2) by simp
  then have "(2::nat) ^ ((tree_height t + 1) div 2) \<le> 2 ^ n" by simp
  then show ?thesis using wf_rb_size [OF n(1)] by linarith
qed

lemma search_tree_balanced_witness:
  "\<exists>t. run_store_ops tree_add tree_del [Add 1 (), Add 2 (), Add 3 ()] Null = Inr t \<and>
    2 ^ ((tree_height t + 1) div 2) \<le> length (inorder t) + 1"
proof -
  let ?ops = "[Add 1 (), Add 2 (), Add 3 ()]"
  obtain m where m: "store_spec ?ops Map.empty = Some m" by simp
  then obtain t where "run_store_ops tree_add tree_del ?ops Null = Inr t"
    using rb.run_refines [of Null ?ops m] by (auto simp: tree_map_def)
  moreover have "store_spec ?ops Map.empty \<noteq> None" using m by (simp only: option.distinct not_False_eq_True)
  ultimately show ?thesis using search_tree_balanced by blast
qed

end
