(* ===== verification/Wepoll_Win.thy ===== *)
theory Wepoll_Win
  imports Wepoll_Tree
begin

text \<open>
  The lowest layer of the epoll emulation \<open>src/src/lib/wepoll.c\<close>: the translation of Windows error
  codes to \<open>errno\<close>, the checks of handles, the once-only initialisation, and the search for the base
  socket below layered service providers. Error codes are called by their names in the Windows
  headers. What Windows answers is a parameter: \<open>ioctl s code\<close> is the outcome of \<open>WSAIoctl\<close>,
  \<open>handle_info h\<close> of \<open>GetHandleInformation\<close>.
\<close>

section \<open>Errors\<close>

text \<open>The error state of a thread.\<close>

record win_thread =
  last_error :: string
  errno :: string

definition err_errno_mappings :: "(string \<times> string) list" where
  "err_errno_mappings =
  [(''ERROR_ACCESS_DENIED'', ''EACCES''), (''ERROR_ALREADY_EXISTS'', ''EEXIST''),
   (''ERROR_BAD_COMMAND'', ''EACCES''), (''ERROR_BAD_EXE_FORMAT'', ''ENOEXEC''),
   (''ERROR_BAD_LENGTH'', ''EACCES''), (''ERROR_BAD_NETPATH'', ''ENOENT''),
   (''ERROR_BAD_NET_NAME'', ''ENOENT''), (''ERROR_BAD_NET_RESP'', ''ENETDOWN''),
   (''ERROR_BAD_PATHNAME'', ''ENOENT''), (''ERROR_BROKEN_PIPE'', ''EPIPE''),
   (''ERROR_CANNOT_MAKE'', ''EACCES''), (''ERROR_COMMITMENT_LIMIT'', ''ENOMEM''),
   (''ERROR_CONNECTION_ABORTED'', ''ECONNABORTED''), (''ERROR_CONNECTION_ACTIVE'', ''EISCONN''),
   (''ERROR_CONNECTION_REFUSED'', ''ECONNREFUSED''), (''ERROR_CRC'', ''EACCES''),
   (''ERROR_DIR_NOT_EMPTY'', ''ENOTEMPTY''), (''ERROR_DISK_FULL'', ''ENOSPC''),
   (''ERROR_DUP_NAME'', ''EADDRINUSE''), (''ERROR_FILENAME_EXCED_RANGE'', ''ENOENT''),
   (''ERROR_FILE_NOT_FOUND'', ''ENOENT''), (''ERROR_GEN_FAILURE'', ''EACCES''),
   (''ERROR_GRACEFUL_DISCONNECT'', ''EPIPE''), (''ERROR_HOST_DOWN'', ''EHOSTUNREACH''),
   (''ERROR_HOST_UNREACHABLE'', ''EHOSTUNREACH''), (''ERROR_INSUFFICIENT_BUFFER'', ''EFAULT''),
   (''ERROR_INVALID_ADDRESS'', ''EADDRNOTAVAIL''), (''ERROR_INVALID_FUNCTION'', ''EINVAL''),
   (''ERROR_INVALID_HANDLE'', ''EBADF''), (''ERROR_INVALID_NETNAME'', ''EADDRNOTAVAIL''),
   (''ERROR_INVALID_PARAMETER'', ''EINVAL''), (''ERROR_INVALID_USER_BUFFER'', ''EMSGSIZE''),
   (''ERROR_IO_PENDING'', ''EINPROGRESS''), (''ERROR_LOCK_VIOLATION'', ''EACCES''),
   (''ERROR_MORE_DATA'', ''EMSGSIZE''), (''ERROR_NETNAME_DELETED'', ''ECONNABORTED''),
   (''ERROR_NETWORK_ACCESS_DENIED'', ''EACCES''), (''ERROR_NETWORK_BUSY'', ''ENETDOWN''),
   (''ERROR_NETWORK_UNREACHABLE'', ''ENETUNREACH''), (''ERROR_NOACCESS'', ''EFAULT''),
   (''ERROR_NONPAGED_SYSTEM_RESOURCES'', ''ENOMEM''), (''ERROR_NOT_ENOUGH_MEMORY'', ''ENOMEM''),
   (''ERROR_NOT_ENOUGH_QUOTA'', ''ENOMEM''), (''ERROR_NOT_FOUND'', ''ENOENT''),
   (''ERROR_NOT_LOCKED'', ''EACCES''), (''ERROR_NOT_READY'', ''EACCES''),
   (''ERROR_NOT_SAME_DEVICE'', ''EXDEV''), (''ERROR_NOT_SUPPORTED'', ''ENOTSUP''),
   (''ERROR_NO_MORE_FILES'', ''ENOENT''), (''ERROR_NO_SYSTEM_RESOURCES'', ''ENOMEM''),
   (''ERROR_OPERATION_ABORTED'', ''EINTR''), (''ERROR_OUT_OF_PAPER'', ''EACCES''),
   (''ERROR_PAGED_SYSTEM_RESOURCES'', ''ENOMEM''), (''ERROR_PAGEFILE_QUOTA'', ''ENOMEM''),
   (''ERROR_PATH_NOT_FOUND'', ''ENOENT''), (''ERROR_PIPE_NOT_CONNECTED'', ''EPIPE''),
   (''ERROR_PORT_UNREACHABLE'', ''ECONNRESET''), (''ERROR_PROTOCOL_UNREACHABLE'', ''ENETUNREACH''),
   (''ERROR_REM_NOT_LIST'', ''ECONNREFUSED''), (''ERROR_REQUEST_ABORTED'', ''EINTR''),
   (''ERROR_REQ_NOT_ACCEP'', ''EWOULDBLOCK''), (''ERROR_SECTOR_NOT_FOUND'', ''EACCES''),
   (''ERROR_SEM_TIMEOUT'', ''ETIMEDOUT''), (''ERROR_SHARING_VIOLATION'', ''EACCES''),
   (''ERROR_TOO_MANY_NAMES'', ''ENOMEM''), (''ERROR_TOO_MANY_OPEN_FILES'', ''EMFILE''),
   (''ERROR_UNEXP_NET_ERR'', ''ECONNABORTED''), (''ERROR_WAIT_NO_CHILDREN'', ''ECHILD''),
   (''ERROR_WORKING_SET_QUOTA'', ''ENOMEM''), (''ERROR_WRITE_PROTECT'', ''EACCES''),
   (''ERROR_WRONG_DISK'', ''EACCES''), (''WSAEACCES'', ''EACCES''),
   (''WSAEADDRINUSE'', ''EADDRINUSE''), (''WSAEADDRNOTAVAIL'', ''EADDRNOTAVAIL''),
   (''WSAEAFNOSUPPORT'', ''EAFNOSUPPORT''), (''WSAECONNABORTED'', ''ECONNABORTED''),
   (''WSAECONNREFUSED'', ''ECONNREFUSED''), (''WSAECONNRESET'', ''ECONNRESET''),
   (''WSAEDISCON'', ''EPIPE''), (''WSAEFAULT'', ''EFAULT''),
   (''WSAEHOSTDOWN'', ''EHOSTUNREACH''), (''WSAEHOSTUNREACH'', ''EHOSTUNREACH''),
   (''WSAEINPROGRESS'', ''EBUSY''), (''WSAEINTR'', ''EINTR''),
   (''WSAEINVAL'', ''EINVAL''), (''WSAEISCONN'', ''EISCONN''),
   (''WSAEMSGSIZE'', ''EMSGSIZE''), (''WSAENETDOWN'', ''ENETDOWN''),
   (''WSAENETRESET'', ''EHOSTUNREACH''), (''WSAENETUNREACH'', ''ENETUNREACH''),
   (''WSAENOBUFS'', ''ENOMEM''), (''WSAENOTCONN'', ''ENOTCONN''),
   (''WSAENOTSOCK'', ''ENOTSOCK''), (''WSAEOPNOTSUPP'', ''EOPNOTSUPP''),
   (''WSAEPROCLIM'', ''ENOMEM''), (''WSAESHUTDOWN'', ''EPIPE''),
   (''WSAETIMEDOUT'', ''ETIMEDOUT''), (''WSAEWOULDBLOCK'', ''EWOULDBLOCK''),
   (''WSANOTINITIALISED'', ''ENETDOWN''), (''WSASYSNOTREADY'', ''ENETDOWN''),
   (''WSAVERNOTSUPPORTED'', ''ENOSYS'')]"

definition err_map_win_error_to_errno :: "string \<Rightarrow> string" where
  "err_map_win_error_to_errno error =
     (case map_of err_errno_mappings error of Some e \<Rightarrow> e | None \<Rightarrow> ''EINVAL'')"

definition err_map_win_error :: "'a win_thread_scheme \<Rightarrow> 'a win_thread_scheme" where
  "err_map_win_error w = w\<lparr>errno := err_map_win_error_to_errno (last_error w)\<rparr>"

definition err_set_win_error :: "string \<Rightarrow> 'a win_thread_scheme \<Rightarrow> 'a win_thread_scheme" where
  "err_set_win_error error w =
     w\<lparr>last_error := error, errno := err_map_win_error_to_errno error\<rparr>"

definition INVALID_SOCKET :: u64 where
  "INVALID_SOCKET = - 1"

definition err_check_handle ::
  "(u64 \<Rightarrow> string option) \<Rightarrow> u64 \<Rightarrow> 'a win_thread_scheme \<Rightarrow> int \<times> 'a win_thread_scheme" where
  "err_check_handle handle_info h w =
     (if h = INVALID_SOCKET then (- 1, err_set_win_error ''ERROR_INVALID_HANDLE'' w)
      else case handle_info h of
        Some e \<Rightarrow> (- 1, err_map_win_error (w\<lparr>last_error := e\<rparr>))
      | None \<Rightarrow> (0, w))"

section \<open>Initialisation\<close>

text \<open>
  What Windows answers while the library starts: the error of \<open>WSAStartup\<close>, the functions that
  \<open>ntdll.dll\<close> exports (\<open>None\<close> when it is not loaded), and the status of \<open>NtCreateKeyedEvent\<close>;
  \<open>dos_error\<close> is \<open>RtlNtStatusToDosError\<close>.
\<close>

record win_startup =
  wsa_startup :: "string option"
  ntdll_exports :: "string list option"
  keyed_event_status :: u32

text \<open>The global variables of the library: ports are called by their addresses.\<close>

record process_state = win_thread +
  init_done :: bool
  nt_functions :: "string list"
  reflock_keyed_event :: bool
  epoll_handle_tree :: "nat tree_node"

definition STATUS_SUCCESS :: u32 where
  "STATUS_SUCCESS = 0"

definition STATUS_PENDING :: u32 where
  "STATUS_PENDING = 0x103"

definition STATUS_CANCELLED :: u32 where
  "STATUS_CANCELLED = 0xC0000120"

definition STATUS_NOT_FOUND :: u32 where
  "STATUS_NOT_FOUND = 0xC0000225"

definition NT_SUCCESS :: "u32 \<Rightarrow> bool" where
  "NT_SUCCESS status \<longleftrightarrow> sint status \<ge> 0"

definition nt_import_list :: "string list" where
  "nt_import_list = [''NtCancelIoFileEx'', ''NtCreateFile'', ''NtCreateKeyedEvent'',
     ''NtDeviceIoControlFile'', ''NtReleaseKeyedEvent'', ''NtWaitForKeyedEvent'',
     ''RtlNtStatusToDosError'']"

definition ws_global_init :: "win_startup \<Rightarrow> process_state \<Rightarrow> int \<times> process_state" where
  "ws_global_init os w =
     (case wsa_startup os of Some r \<Rightarrow> (- 1, err_set_win_error r w) | None \<Rightarrow> (0, w))"

fun nt_import :: "string list \<Rightarrow> string list \<Rightarrow> process_state \<Rightarrow> int \<times> process_state" where
  "nt_import exports [] w = (0, w)"
| "nt_import exports (name # names) w =
     (if name \<notin> set exports then (- 1, w)
      else nt_import exports names (w\<lparr>nt_functions := nt_functions w @ [name]\<rparr>))"

definition nt_global_init :: "win_startup \<Rightarrow> process_state \<Rightarrow> int \<times> process_state" where
  "nt_global_init os w =
     (case ntdll_exports os of
        None \<Rightarrow> (- 1, w)
      | Some exports \<Rightarrow> nt_import exports nt_import_list (w\<lparr>nt_functions := []\<rparr>))"

definition reflock_global_init ::
  "(u32 \<Rightarrow> string) \<Rightarrow> win_startup \<Rightarrow> process_state \<Rightarrow> int \<times> process_state" where
  "reflock_global_init dos_error os w =
     (if keyed_event_status os \<noteq> STATUS_SUCCESS
      then (- 1, err_set_win_error (dos_error (keyed_event_status os)) w)
      else (0, w\<lparr>reflock_keyed_event := True\<rparr>))"

definition epoll_global_init :: "process_state \<Rightarrow> int \<times> process_state" where
  "epoll_global_init w = (0, w\<lparr>epoll_handle_tree := Null\<rparr>)"

definition init_once_callback ::
  "(u32 \<Rightarrow> string) \<Rightarrow> win_startup \<Rightarrow> process_state \<Rightarrow> bool \<times> process_state" where
  "init_once_callback dos_error os w =
     (let (r, w) = ws_global_init os w in if r < 0 then (False, w)
      else let (r, w) = nt_global_init os w in if r < 0 then (False, w)
      else let (r, w) = reflock_global_init dos_error os w in if r < 0 then (False, w)
      else let (r, w) = epoll_global_init w in if r < 0 then (False, w)
      else (True, w\<lparr>init_done := True\<rparr>))"

text \<open>\<open>InitOnceExecuteOnce\<close> runs its callback unless a run of it has succeeded.\<close>

definition init :: "(u32 \<Rightarrow> string) \<Rightarrow> win_startup \<Rightarrow> process_state \<Rightarrow> int \<times> process_state" where
  "init dos_error os w =
     (if init_done w then (0, w)
      else let (r, w) = init_once_callback dos_error os w in (if r then 0 else - 1, w))"

section \<open>Base sockets\<close>

definition SIO_BSP_HANDLE_POLL :: u32 where
  "SIO_BSP_HANDLE_POLL = 0x4800001D"

definition SIO_BASE_HANDLE :: u32 where
  "SIO_BASE_HANDLE = 0x48000022"

definition ws_ioctl_get_bsp_socket ::
  "(u64 \<Rightarrow> u32 \<Rightarrow> string + u64) \<Rightarrow> u64 \<Rightarrow> u32 \<Rightarrow> 'a win_thread_scheme \<Rightarrow> u64 \<times> 'a win_thread_scheme" where
  "ws_ioctl_get_bsp_socket ioctl s code w =
     (case ioctl s code of
        Inr bsp \<Rightarrow> (bsp, w)
      | Inl e \<Rightarrow> (INVALID_SOCKET, w\<lparr>last_error := e\<rparr>))"

text \<open>The loop may run forever: then the result is \<open>None\<close>.\<close>

partial_function (option) ws_get_base_socket ::
  "(u64 \<Rightarrow> u32 \<Rightarrow> string + u64) \<Rightarrow> u64 \<Rightarrow> 'a win_thread_scheme \<Rightarrow> (u64 \<times> 'a win_thread_scheme) option" where
  "ws_get_base_socket ioctl s w =
     (let (base, w) = ws_ioctl_get_bsp_socket ioctl s SIO_BASE_HANDLE w
      in if base \<noteq> INVALID_SOCKET then Some (base, w)
      else let error = last_error w
      in if error = ''WSAENOTSOCK'' then Some (INVALID_SOCKET, err_set_win_error error w)
      else let (base, w) = ws_ioctl_get_bsp_socket ioctl s SIO_BSP_HANDLE_POLL w
      in if base \<noteq> INVALID_SOCKET \<and> base \<noteq> s then ws_get_base_socket ioctl base w
         else Some (INVALID_SOCKET, err_set_win_error error w))"

section \<open>Properties\<close>

lemma nt_import_all:
  "set names \<subseteq> set exports \<Longrightarrow>
   nt_import exports names w = (0, w\<lparr>nt_functions := nt_functions w @ names\<rparr>)"
  by (induction names arbitrary: w) auto

lemma nt_import_missing:
  "\<not> set names \<subseteq> set exports \<Longrightarrow>
   \<exists>fs. nt_import exports names w = (- 1, w\<lparr>nt_functions := fs\<rparr>)"
proof (induction names arbitrary: w)
  case (Cons n names)
  show ?case
  proof (cases "n \<in> set exports")
    case True
    then have m: "\<not> set names \<subseteq> set exports" using Cons.prems by simp
    show ?thesis using Cons.IH [OF m, of "w\<lparr>nt_functions := nt_functions w @ [n]\<rparr>"] True by simp
  next
    case False
    then show ?thesis by (intro exI [of _ "nt_functions w"]) simp
  qed
qed simp

text \<open>The initialisation of the epoll emulation succeeds exactly when Winsock starts, every
  imported function is in \<open>ntdll.dll\<close> and the keyed event is created; then all functions are
  imported, the handle table is empty, and no later call runs it again. After a failure the next
  call tries again. A missing \<open>ntdll.dll\<close> or function leaves \<open>errno\<close> and the last error as they
  were, although the caller relies on the failing initialiser to set them.\<close>

theorem init_outcomes:
  assumes "\<not> init_done w"
  shows "case init dos_error os w of (r, w') \<Rightarrow>
    (if wsa_startup os \<noteq> None then r = - 1 \<and> \<not> init_done w' \<and> last_error w' = the (wsa_startup os)
     else if \<not> (\<exists>ex. ntdll_exports os = Some ex \<and> set nt_import_list \<subseteq> set ex)
       then r = - 1 \<and> \<not> init_done w' \<and> last_error w' = last_error w \<and> errno w' = errno w
     else if keyed_event_status os \<noteq> STATUS_SUCCESS
       then r = - 1 \<and> \<not> init_done w' \<and> last_error w' = dos_error (keyed_event_status os)
     else r = 0 \<and> nt_functions w' = nt_import_list \<and> reflock_keyed_event w' \<and>
       epoll_handle_tree w' = Null \<and> (\<forall>os'. init dos_error os' w' = (0, w')))"
proof (cases "\<exists>ex. ntdll_exports os = Some ex \<and> set nt_import_list \<subseteq> set ex")
  case True
  then obtain ex where ex: "ntdll_exports os = Some ex" "set nt_import_list \<subseteq> set ex" by blast
  then show ?thesis using assms nt_import_all [OF ex(2)]
    by (auto simp: init_def init_once_callback_def ws_global_init_def nt_global_init_def
        reflock_global_init_def epoll_global_init_def err_set_win_error_def split: option.splits)
next
  case False
  have "\<exists>fs. nt_global_init os w = (- 1, w\<lparr>nt_functions := fs\<rparr>)"
  proof (cases "ntdll_exports os")
    case None
    then show ?thesis by (intro exI [of _ "nt_functions w"]) (simp add: nt_global_init_def)
  next
    case (Some ex)
    then have "\<not> set nt_import_list \<subseteq> set ex" using False by blast
    then show ?thesis
      using nt_import_missing [of nt_import_list ex "w\<lparr>nt_functions := []\<rparr>"] Some
      by (simp add: nt_global_init_def)
  qed
  then show ?thesis using assms False
    by (auto simp: init_def init_once_callback_def ws_global_init_def err_set_win_error_def
        split: option.splits)
qed

lemma init_outcomes_witness:
  "case init (\<lambda>s. ''ERROR_GEN_FAILURE'')
     \<lparr>wsa_startup = None, ntdll_exports = Some [''NtCreateFile''], keyed_event_status = 0\<rparr>
     \<lparr>last_error = [], errno = ''EEXIST'', init_done = False, nt_functions = [],
      reflock_keyed_event = False, epoll_handle_tree = Null\<rparr> of
   (r, w') \<Rightarrow> r = - 1 \<and> errno w' = ''EEXIST''"
  using init_outcomes [where w = "\<lparr>last_error = [], errno = ''EEXIST'', init_done = False, nt_functions = [],
      reflock_keyed_event = False, epoll_handle_tree = Null\<rparr>"
      and dos_error = "\<lambda>s. ''ERROR_GEN_FAILURE''"
      and os = "\<lparr>wsa_startup = None, ntdll_exports = Some [''NtCreateFile''], keyed_event_status = 0\<rparr>"]
  by (simp add: nt_import_list_def split: prod.splits)

text \<open>A socket below finitely many layers, and the base socket at the end of its chain.\<close>

inductive layered :: "(u64 \<Rightarrow> u32 \<Rightarrow> string + u64) \<Rightarrow> u64 \<Rightarrow> u64 \<Rightarrow> bool" for ioctl where
  layered_base: "ioctl s SIO_BASE_HANDLE = Inr b \<Longrightarrow> b \<noteq> INVALID_SOCKET \<Longrightarrow> layered ioctl s b"
| layered_below: "ioctl s SIO_BASE_HANDLE = Inl e \<Longrightarrow> e \<noteq> ''WSAENOTSOCK'' \<Longrightarrow>
    ioctl s SIO_BSP_HANDLE_POLL = Inr t \<Longrightarrow> t \<noteq> INVALID_SOCKET \<Longrightarrow> t \<noteq> s \<Longrightarrow>
    layered ioctl t b \<Longrightarrow> layered ioctl s b"

definition endless :: "(u64 \<Rightarrow> u32 \<Rightarrow> string + u64) \<Rightarrow> u64 set \<Rightarrow> bool" where
  "endless ioctl C \<longleftrightarrow> (\<forall>s\<in>C. \<exists>e t. ioctl s SIO_BASE_HANDLE = Inl e \<and> e \<noteq> ''WSAENOTSOCK'' \<and>
     ioctl s SIO_BSP_HANDLE_POLL = Inr t \<and> t \<in> C \<and> t \<noteq> s \<and> t \<noteq> INVALID_SOCKET)"

lemma layered_found:
  "layered ioctl s b \<Longrightarrow> \<exists>w'. ws_get_base_socket ioctl s w = Some (b, w')"
proof (induction arbitrary: w rule: layered.induct)
  case (layered_base s b)
  then show ?case by (subst ws_get_base_socket.simps) (simp add: ws_ioctl_get_bsp_socket_def)
next
  case (layered_below s e t b)
  then show ?case by (subst ws_get_base_socket.simps) (simp add: ws_ioctl_get_bsp_socket_def)
qed

lemma endless_lost:
  fixes w :: "'a win_thread_scheme"
  assumes "endless ioctl C" "s \<in> C"
  shows "ws_get_base_socket ioctl s w = None"
proof (rule ccontr)
  assume "ws_get_base_socket ioctl s w \<noteq> None"
  then obtain r where r: "ws_get_base_socket ioctl s w = Some r" by auto
  have "ioctl = ioctl \<longrightarrow> s \<notin> C"
  proof (rule ws_get_base_socket.raw_induct [where P = "\<lambda>i s w r. i = ioctl \<longrightarrow> s \<notin> C", OF _ r])
    fix f :: "(u64 \<Rightarrow> u32 \<Rightarrow> string + u64) \<Rightarrow> u64 \<Rightarrow> 'a win_thread_scheme \<Rightarrow> (u64 \<times> 'a win_thread_scheme) option"
      and i s w r
    assume IH: "\<And>i s w r. f i s w = Some r \<Longrightarrow> i = ioctl \<longrightarrow> s \<notin> C"
      and body: "(let (base, w) = ws_ioctl_get_bsp_socket i s SIO_BASE_HANDLE w
      in if base \<noteq> INVALID_SOCKET then Some (base, w)
      else let error = last_error w
      in if error = ''WSAENOTSOCK'' then Some (INVALID_SOCKET, err_set_win_error error w)
      else let (base, w) = ws_ioctl_get_bsp_socket i s SIO_BSP_HANDLE_POLL w
      in if base \<noteq> INVALID_SOCKET \<and> base \<noteq> s then f i base w
         else Some (INVALID_SOCKET, err_set_win_error error w)) = Some r"
    show "i = ioctl \<longrightarrow> s \<notin> C"
    proof (intro impI notI)
      assume i: "i = ioctl" "s \<in> C"
      then obtain e t where "ioctl s SIO_BASE_HANDLE = Inl e" "e \<noteq> ''WSAENOTSOCK''"
        "ioctl s SIO_BSP_HANDLE_POLL = Inr t" "t \<in> C" "t \<noteq> s" "t \<noteq> INVALID_SOCKET"
        using assms unfolding endless_def by blast
      then have "f ioctl t (w\<lparr>last_error := e\<rparr>) = Some r"
        using body i(1) by (simp add: ws_ioctl_get_bsp_socket_def)
      then show False using IH \<open>t \<in> C\<close> by blast
    qed
  qed
  then show False using assms(2) by blast
qed

text \<open>C40: The search for the base socket of a layered socket returns the socket at the end of a
  finite chain of providers. It only compares each layer with the next one: a chain that comes
  back to an earlier layer is followed forever, with the lock of the port held.\<close>

theorem base_socket_search:
  "(layered ioctl s b \<longrightarrow> (\<exists>w'. ws_get_base_socket ioctl s w = Some (b, w'))) \<and>
   (endless ioctl C \<and> s \<in> C \<longrightarrow> ws_get_base_socket ioctl s w = None)"
  using layered_found [of ioctl s b w] endless_lost [of ioctl C s w] by blast

lemma base_socket_search_witness:
  "(\<exists>w'. ws_get_base_socket (\<lambda>s c. if s = 1 then (if c = SIO_BASE_HANDLE then Inl ''WSAEOPNOTSUPP'' else Inr 2)
      else Inr 7) 1 \<lparr>last_error = [], errno = []\<rparr> = Some (7, w')) \<and>
   ws_get_base_socket (\<lambda>s c. if c = SIO_BASE_HANDLE then Inl ''WSAEOPNOTSUPP'' else Inr (3 - s)) 1
      \<lparr>last_error = [], errno = []\<rparr> = None"
proof -
  let ?i = "\<lambda>s c. if s = 1 then (if c = SIO_BASE_HANDLE then Inl ''WSAEOPNOTSUPP'' else Inr 2) else Inr 7
    :: string + u64"
  let ?j = "\<lambda>(s::u64) c. if c = SIO_BASE_HANDLE then Inl ''WSAEOPNOTSUPP'' else Inr (3 - s) :: string + u64"
  have "layered ?i 2 7" by (rule layered_base) (simp_all add: INVALID_SOCKET_def)
  then have "layered ?i 1 7"
    using layered_below [of ?i 1 "''WSAEOPNOTSUPP''" 2 7]
    by (simp add: INVALID_SOCKET_def SIO_BASE_HANDLE_def SIO_BSP_HANDLE_POLL_def)
  moreover have "endless ?j {1, 2}"
    by (auto simp: endless_def INVALID_SOCKET_def SIO_BASE_HANDLE_def SIO_BSP_HANDLE_POLL_def)
  ultimately show ?thesis
    using base_socket_search [of ?i 1 7] base_socket_search [of ?j 1 _ _ "{1, 2}"] by blast
qed


end
