(* ===== verification/Wepoll_Port.thy ===== *)
theory Wepoll_Port
  imports Wepoll_Win Wepoll_Queue
begin

text \<open>
  The ports and sockets of the epoll emulation (\<open>poll_group_\<close>, \<open>port_\<close>, \<open>sock_\<close> and \<open>afd_\<close> functions
  of \<open>src/src/lib/wepoll.c\<close>), operation by operation, on a world that holds one port, the heap of its
  sockets and poll groups, and the poll requests in the kernel. The queues are the lists that
  \<open>Wepoll_Queue\<close> shows them to hold, the socket tree is the one of \<open>Wepoll_Tree\<close>. Every operation
  here runs with the lock of the port held: it is one atomic step.

  A socket or group is called by its address; using one that was freed is undefined behaviour, a
  failed \<open>assert\<close> is the end of the program. What Windows answers to the n-th call is a parameter.
\<close>

section \<open>Events\<close>

definition EPOLLIN :: u32 where "EPOLLIN = 0x1"
definition EPOLLPRI :: u32 where "EPOLLPRI = 0x2"
definition EPOLLOUT :: u32 where "EPOLLOUT = 0x4"
definition EPOLLERR :: u32 where "EPOLLERR = 0x8"
definition EPOLLHUP :: u32 where "EPOLLHUP = 0x10"
definition EPOLLRDNORM :: u32 where "EPOLLRDNORM = 0x40"
definition EPOLLRDBAND :: u32 where "EPOLLRDBAND = 0x80"
definition EPOLLWRNORM :: u32 where "EPOLLWRNORM = 0x100"
definition EPOLLWRBAND :: u32 where "EPOLLWRBAND = 0x200"
definition EPOLLMSG :: u32 where "EPOLLMSG = 0x400"
definition EPOLLRDHUP :: u32 where "EPOLLRDHUP = 0x2000"
definition EPOLLONESHOT :: u32 where "EPOLLONESHOT = 0x80000000"

definition AFD_POLL_RECEIVE :: u32 where "AFD_POLL_RECEIVE = 0x1"
definition AFD_POLL_RECEIVE_EXPEDITED :: u32 where "AFD_POLL_RECEIVE_EXPEDITED = 0x2"
definition AFD_POLL_SEND :: u32 where "AFD_POLL_SEND = 0x4"
definition AFD_POLL_DISCONNECT :: u32 where "AFD_POLL_DISCONNECT = 0x8"
definition AFD_POLL_ABORT :: u32 where "AFD_POLL_ABORT = 0x10"
definition AFD_POLL_LOCAL_CLOSE :: u32 where "AFD_POLL_LOCAL_CLOSE = 0x20"
definition AFD_POLL_ACCEPT :: u32 where "AFD_POLL_ACCEPT = 0x80"
definition AFD_POLL_CONNECT_FAIL :: u32 where "AFD_POLL_CONNECT_FAIL = 0x100"

lemmas event_defs = EPOLLIN_def EPOLLPRI_def EPOLLOUT_def EPOLLERR_def EPOLLHUP_def EPOLLRDNORM_def
  EPOLLRDBAND_def EPOLLWRNORM_def EPOLLWRBAND_def EPOLLMSG_def EPOLLRDHUP_def EPOLLONESHOT_def
  AFD_POLL_RECEIVE_def AFD_POLL_RECEIVE_EXPEDITED_def AFD_POLL_SEND_def AFD_POLL_DISCONNECT_def
  AFD_POLL_ABORT_def AFD_POLL_LOCAL_CLOSE_def AFD_POLL_ACCEPT_def AFD_POLL_CONNECT_FAIL_def

definition KNOWN_EPOLL_EVENTS :: u32 where
  "KNOWN_EPOLL_EVENTS = EPOLLIN OR EPOLLPRI OR EPOLLOUT OR EPOLLERR OR EPOLLHUP OR EPOLLRDNORM OR
     EPOLLRDBAND OR EPOLLWRNORM OR EPOLLWRBAND OR EPOLLMSG OR EPOLLRDHUP"

definition epoll_events_to_afd_events :: "u32 \<Rightarrow> u32" where
  "epoll_events_to_afd_events ev =
     AFD_POLL_LOCAL_CLOSE OR
     (if ev AND (EPOLLIN OR EPOLLRDNORM) \<noteq> 0 then AFD_POLL_RECEIVE OR AFD_POLL_ACCEPT else 0) OR
     (if ev AND (EPOLLPRI OR EPOLLRDBAND) \<noteq> 0 then AFD_POLL_RECEIVE_EXPEDITED else 0) OR
     (if ev AND (EPOLLOUT OR EPOLLWRNORM OR EPOLLWRBAND) \<noteq> 0 then AFD_POLL_SEND else 0) OR
     (if ev AND (EPOLLIN OR EPOLLRDNORM OR EPOLLRDHUP) \<noteq> 0 then AFD_POLL_DISCONNECT else 0) OR
     (if ev AND EPOLLHUP \<noteq> 0 then AFD_POLL_ABORT else 0) OR
     (if ev AND EPOLLERR \<noteq> 0 then AFD_POLL_CONNECT_FAIL else 0)"

definition afd_events_to_epoll_events :: "u32 \<Rightarrow> u32" where
  "afd_events_to_epoll_events ev =
     (if ev AND (AFD_POLL_RECEIVE OR AFD_POLL_ACCEPT) \<noteq> 0 then EPOLLIN OR EPOLLRDNORM else 0) OR
     (if ev AND AFD_POLL_RECEIVE_EXPEDITED \<noteq> 0 then EPOLLPRI OR EPOLLRDBAND else 0) OR
     (if ev AND AFD_POLL_SEND \<noteq> 0 then EPOLLOUT OR EPOLLWRNORM OR EPOLLWRBAND else 0) OR
     (if ev AND AFD_POLL_DISCONNECT \<noteq> 0 then EPOLLIN OR EPOLLRDNORM OR EPOLLRDHUP else 0) OR
     (if ev AND AFD_POLL_ABORT \<noteq> 0 then EPOLLHUP else 0) OR
     (if ev AND AFD_POLL_CONNECT_FAIL \<noteq> 0
      then EPOLLIN OR EPOLLOUT OR EPOLLERR OR EPOLLRDNORM OR EPOLLWRNORM OR EPOLLRDHUP else 0)"

section \<open>State\<close>

datatype sock_poll_status =
    SOCK_POLL_IDLE
  | SOCK_POLL_PENDING
  | SOCK_POLL_CANCELLED

text \<open>The request block, with its one handle.\<close>

record afd_poll_info =
  poll_timeout :: u64
  number_of_handles :: u32
  poll_exclusive :: u32
  poll_handle :: u64
  poll_events :: u32
  poll_handle_status :: u32

record sock_state =
  io_status :: u32
  poll_info :: afd_poll_info
  sock_key :: u64
  sock_group :: nat
  base_socket :: u64
  user_data :: u64
  user_events :: u32
  pending_events :: u32
  poll_status :: sock_poll_status
  delete_pending :: bool

record poll_group =
  afd_device_handle :: u64
  group_size :: u64

record port_state =
  iocp_handle :: u64
  sock_tree :: "nat tree_node"
  sock_update_queue :: "nat list"
  sock_deleted_queue :: "nat list"
  poll_group_queue :: "nat list"
  active_poll_count :: u64

text \<open>
  The world: the port, the heap, the count of calls to Windows so far, and, for the statements, the
  sockets whose poll request the kernel or the completion queue still holds, and the open handles.
\<close>

record epoll_world = win_thread +
  port :: port_state
  socks :: "nat \<Rightarrow> sock_state option"
  groups :: "nat \<Rightarrow> poll_group option"
  next_address :: nat
  calls :: nat
  requests :: "nat list"
  open_handles :: "u64 list"

text \<open>What Windows answers: to the n-th call where the answer may change.\<close>

record os_calls =
  malloc_ok :: "nat \<Rightarrow> bool"
  wsa_ioctl :: "u64 \<Rightarrow> u32 \<Rightarrow> string + u64"
  nt_create_file :: "nat \<Rightarrow> u32 + u64"
  associate_iocp :: "nat \<Rightarrow> string option"
  set_modes :: "nat \<Rightarrow> string option"
  nt_poll :: "nat \<Rightarrow> u32"
  nt_poll_result :: "nat \<Rightarrow> u32 \<times> u32"
  nt_cancel :: "nat \<Rightarrow> u32"
  dos_error :: "u32 \<Rightarrow> string"

section \<open>Programs\<close>

type_synonym 'a program = "epoll_world \<Rightarrow> ('a \<times> epoll_world) result"

definition bindP :: "'a program \<Rightarrow> ('a \<Rightarrow> 'b program) \<Rightarrow> 'b program" where
  "bindP f g w = bindR (f w) (\<lambda>(a, w'). g a w')"

definition returnP :: "'a \<Rightarrow> 'a program" where
  "returnP a w = Inr (a, w)"

definition modifyP :: "(epoll_world \<Rightarrow> epoll_world) \<Rightarrow> unit program" where
  "modifyP f w = Inr ((), f w)"

definition getP :: "(epoll_world \<Rightarrow> 'a) \<Rightarrow> 'a program" where
  "getP f w = Inr (f w, w)"

definition assertP :: "bool \<Rightarrow> unit program" where
  "assertP b w = (if b then Inr ((), w) else Inl (Logic_error ''assertion failed''))"

definition danglingP :: "'a program" where
  "danglingP w = Inl (Undefined_behaviour ''dangling pointer'')"

definition get_sock :: "nat \<Rightarrow> sock_state program" where
  "get_sock a w = (case socks w a of None \<Rightarrow> danglingP w | Some s \<Rightarrow> Inr (s, w))"

definition set_sock :: "nat \<Rightarrow> (sock_state \<Rightarrow> sock_state) \<Rightarrow> unit program" where
  "set_sock a f = bindP (get_sock a) (\<lambda>s. modifyP (\<lambda>w. w\<lparr>socks := (socks w)(a \<mapsto> f s)\<rparr>))"

definition get_group :: "nat \<Rightarrow> poll_group program" where
  "get_group g w = (case groups w g of None \<Rightarrow> danglingP w | Some p \<Rightarrow> Inr (p, w))"

definition set_group :: "nat \<Rightarrow> (poll_group \<Rightarrow> poll_group) \<Rightarrow> unit program" where
  "set_group g f = bindP (get_group g) (\<lambda>p. modifyP (\<lambda>w. w\<lparr>groups := (groups w)(g \<mapsto> f p)\<rparr>))"

definition get_port :: "port_state program" where
  "get_port = getP port"

definition set_port :: "(port_state \<Rightarrow> port_state) \<Rightarrow> unit program" where
  "set_port f = modifyP (\<lambda>w. w\<lparr>port := f (port w)\<rparr>)"

text \<open>The number of the next call to Windows.\<close>

definition callP :: "nat program" where
  "callP w = Inr (calls w, w\<lparr>calls := Suc (calls w)\<rparr>)"

definition new_address :: "nat program" where
  "new_address w = Inr (next_address w, w\<lparr>next_address := Suc (next_address w)\<rparr>)"

definition return_set_error :: "'a \<Rightarrow> string \<Rightarrow> 'a program" where
  "return_set_error r e = bindP (modifyP (err_set_win_error e)) (\<lambda>_. returnP r)"

definition return_map_error :: "'a \<Rightarrow> 'a program" where
  "return_map_error r = bindP (modifyP err_map_win_error) (\<lambda>_. returnP r)"

section \<open>The device driver\<close>

definition CloseHandle :: "u64 \<Rightarrow> unit program" where
  "CloseHandle h = modifyP (\<lambda>w. w\<lparr>open_handles := remove1 h (open_handles w)\<rparr>)"

definition afd_create_device_handle :: "os_calls \<Rightarrow> u64 \<Rightarrow> u64 option program" where
  "afd_create_device_handle os iocp =
     bindP callP (\<lambda>n.
     case nt_create_file os n of
       Inl status \<Rightarrow> return_set_error None (dos_error os status)
     | Inr h \<Rightarrow>
         bindP (modifyP (\<lambda>w. w\<lparr>open_handles := h # open_handles w\<rparr>)) (\<lambda>_.
         bindP callP (\<lambda>n.
         case associate_iocp os n of
           Some e \<Rightarrow>
             bindP (modifyP (\<lambda>w. w\<lparr>last_error := e\<rparr>)) (\<lambda>_.
             bindP (CloseHandle h) (\<lambda>_. return_map_error None))
         | None \<Rightarrow>
             bindP callP (\<lambda>n.
             case set_modes os n of
               Some e \<Rightarrow>
                 bindP (modifyP (\<lambda>w. w\<lparr>last_error := e\<rparr>)) (\<lambda>_.
                 bindP (CloseHandle h) (\<lambda>_. return_map_error None))
             | None \<Rightarrow> returnP (Some h)))))"

text \<open>
  A request that the driver accepts is in the kernel from then on, also when it is done at once: its
  completion is reported to the port either way. The driver writes the result when it is done.
\<close>

definition submit_request :: "nat \<Rightarrow> unit program" where
  "submit_request a = modifyP (\<lambda>w. w\<lparr>requests := a # requests w\<rparr>)"

definition write_result :: "u32 \<Rightarrow> u32 \<Rightarrow> u32 \<Rightarrow> sock_state \<Rightarrow> sock_state" where
  "write_result status count events s =
     s\<lparr>io_status := status,
       poll_info := (poll_info s)\<lparr>number_of_handles := count, poll_events := events\<rparr>\<rparr>"

definition afd_poll :: "os_calls \<Rightarrow> nat \<Rightarrow> int program" where
  "afd_poll os a =
     bindP (set_sock a (\<lambda>s. s\<lparr>io_status := STATUS_PENDING\<rparr>)) (\<lambda>_.
     bindP callP (\<lambda>n.
     if nt_poll os n = STATUS_SUCCESS
       then bindP (submit_request a) (\<lambda>_.
            bindP (set_sock a (write_result STATUS_SUCCESS (fst (nt_poll_result os n)) (snd (nt_poll_result os n))))
              (\<lambda>_. returnP 0))
     else if nt_poll os n = STATUS_PENDING
       then bindP (submit_request a) (\<lambda>_. return_set_error (- 1) ''ERROR_IO_PENDING'')
     else return_set_error (- 1) (dos_error os (nt_poll os n))))"

definition afd_cancel_poll :: "os_calls \<Rightarrow> nat \<Rightarrow> int program" where
  "afd_cancel_poll os a =
     bindP (get_sock a) (\<lambda>s.
     if io_status s \<noteq> STATUS_PENDING then returnP 0
     else
       bindP callP (\<lambda>n.
       if nt_cancel os n = STATUS_SUCCESS \<or> nt_cancel os n = STATUS_NOT_FOUND then returnP 0
       else return_set_error (- 1) (dos_error os (nt_cancel os n))))"

section \<open>Poll groups\<close>

definition POLL_GROUP_MAX_GROUP_SIZE :: u64 where
  "POLL_GROUP_MAX_GROUP_SIZE = 32"

definition port_get_iocp_handle :: "u64 program" where
  "port_get_iocp_handle =
     bindP get_port (\<lambda>p. bindP (assertP (iocp_handle p \<noteq> 0)) (\<lambda>_. returnP (iocp_handle p)))"

definition poll_group_new :: "os_calls \<Rightarrow> nat option program" where
  "poll_group_new os =
     bindP port_get_iocp_handle (\<lambda>iocp.
     bindP callP (\<lambda>n.
     if \<not> malloc_ok os n then return_set_error None ''ERROR_NOT_ENOUGH_MEMORY''
     else
       bindP new_address (\<lambda>g.
       bindP (modifyP (\<lambda>w. w\<lparr>groups := (groups w)(g \<mapsto> \<lparr>afd_device_handle = 0, group_size = 0\<rparr>)\<rparr>)) (\<lambda>_.
       bindP (afd_create_device_handle os iocp) (\<lambda>h.
       case h of
         None \<Rightarrow> bindP (modifyP (\<lambda>w. w\<lparr>groups := (groups w)(g := None)\<rparr>)) (\<lambda>_. returnP None)
       | Some h \<Rightarrow>
           bindP (set_group g (\<lambda>p. p\<lparr>afd_device_handle := h\<rparr>)) (\<lambda>_.
           bindP (set_port (\<lambda>p. p\<lparr>poll_group_queue := poll_group_queue p @ [g]\<rparr>)) (\<lambda>_.
           returnP (Some g))))))))"

definition poll_group_delete :: "nat \<Rightarrow> unit program" where
  "poll_group_delete g =
     bindP (get_group g) (\<lambda>p.
     bindP (assertP (group_size p = 0)) (\<lambda>_.
     bindP (CloseHandle (afd_device_handle p)) (\<lambda>_.
     bindP (set_port (\<lambda>p. p\<lparr>poll_group_queue := remove1 g (poll_group_queue p)\<rparr>)) (\<lambda>_.
     modifyP (\<lambda>w. w\<lparr>groups := (groups w)(g := None)\<rparr>)))))"

definition poll_group_get_afd_device_handle :: "nat \<Rightarrow> u64 program" where
  "poll_group_get_afd_device_handle g = bindP (get_group g) (\<lambda>p. returnP (afd_device_handle p))"

definition poll_group_acquire :: "os_calls \<Rightarrow> nat option program" where
  "poll_group_acquire os =
     bindP (bindP get_port (\<lambda>p.
       if poll_group_queue p = [] then poll_group_new os
       else bindP (get_group (last (poll_group_queue p))) (\<lambda>q.
            if group_size q \<ge> POLL_GROUP_MAX_GROUP_SIZE then poll_group_new os
            else returnP (Some (last (poll_group_queue p)))))) (\<lambda>r.
     case r of
       None \<Rightarrow> returnP None
     | Some g \<Rightarrow>
         bindP (set_group g (\<lambda>p. p\<lparr>group_size := group_size p + 1\<rparr>)) (\<lambda>_.
         bindP (get_group g) (\<lambda>q.
         bindP (if group_size q = POLL_GROUP_MAX_GROUP_SIZE
                then set_port (\<lambda>p. p\<lparr>poll_group_queue := g # remove1 g (poll_group_queue p)\<rparr>)
                else returnP ()) (\<lambda>_.
         returnP (Some g)))))"

definition poll_group_release :: "nat \<Rightarrow> unit program" where
  "poll_group_release g =
     bindP (set_group g (\<lambda>p. p\<lparr>group_size := group_size p - 1\<rparr>)) (\<lambda>_.
     bindP (get_group g) (\<lambda>q.
     bindP (assertP (group_size q < POLL_GROUP_MAX_GROUP_SIZE)) (\<lambda>_.
     set_port (\<lambda>p. p\<lparr>poll_group_queue := remove1 g (poll_group_queue p) @ [g]\<rparr>))))"

section \<open>The port's view of its sockets\<close>

text \<open>A socket has one queue node: it is in at most one of the two socket queues.\<close>

definition enqueued :: "nat \<Rightarrow> port_state \<Rightarrow> bool" where
  "enqueued a p \<longleftrightarrow> a \<in> set (sock_update_queue p) \<or> a \<in> set (sock_deleted_queue p)"

definition dequeue :: "nat \<Rightarrow> port_state \<Rightarrow> port_state" where
  "dequeue a p = p\<lparr>sock_update_queue := remove1 a (sock_update_queue p),
     sock_deleted_queue := remove1 a (sock_deleted_queue p)\<rparr>"

definition port_register_socket :: "nat \<Rightarrow> u64 \<Rightarrow> int program" where
  "port_register_socket a socket =
     bindP get_port (\<lambda>p.
     bindP (\<lambda>w. bindR (tree_add socket a (sock_tree p)) (\<lambda>r. Inr (r, w))) (\<lambda>r.
     case r of
       None \<Rightarrow> return_set_error (- 1) ''ERROR_ALREADY_EXISTS''
     | Some t \<Rightarrow>
         bindP (set_port (\<lambda>p. p\<lparr>sock_tree := t\<rparr>)) (\<lambda>_.
         bindP (set_sock a (\<lambda>s. s\<lparr>sock_key := socket\<rparr>)) (\<lambda>_. returnP 0))))"

definition port_unregister_socket :: "nat \<Rightarrow> unit program" where
  "port_unregister_socket a =
     bindP (get_sock a) (\<lambda>s.
     bindP get_port (\<lambda>p.
     bindP (\<lambda>w. bindR (tree_del (sock_key s) (sock_tree p)) (\<lambda>t. Inr (t, w))) (\<lambda>t.
     set_port (\<lambda>p. p\<lparr>sock_tree := t\<rparr>))))"

definition port_find_socket :: "u64 \<Rightarrow> nat option program" where
  "port_find_socket socket =
     bindP get_port (\<lambda>p.
     case tree_find socket (sock_tree p) of
       None \<Rightarrow> return_set_error None ''ERROR_NOT_FOUND''
     | Some a \<Rightarrow> returnP (Some a))"

definition port_request_socket_update :: "nat \<Rightarrow> unit program" where
  "port_request_socket_update a =
     bindP get_port (\<lambda>p.
     if enqueued a p then returnP ()
     else set_port (\<lambda>p. p\<lparr>sock_update_queue := sock_update_queue p @ [a]\<rparr>))"

definition port_cancel_socket_update :: "nat \<Rightarrow> unit program" where
  "port_cancel_socket_update a =
     bindP get_port (\<lambda>p. if \<not> enqueued a p then returnP () else set_port (dequeue a))"

definition port_add_deleted_socket :: "nat \<Rightarrow> unit program" where
  "port_add_deleted_socket a =
     bindP get_port (\<lambda>p.
     if enqueued a p then returnP ()
     else set_port (\<lambda>p. p\<lparr>sock_deleted_queue := sock_deleted_queue p @ [a]\<rparr>))"

definition port_remove_deleted_socket :: "nat \<Rightarrow> unit program" where
  "port_remove_deleted_socket a =
     bindP get_port (\<lambda>p. if \<not> enqueued a p then returnP () else set_port (dequeue a))"

section \<open>Sockets\<close>

definition empty_poll_info :: afd_poll_info where
  "empty_poll_info = \<lparr>poll_timeout = 0, number_of_handles = 0, poll_exclusive = 0, poll_handle = 0,
     poll_events = 0, poll_handle_status = 0\<rparr>"

definition sock_free :: "nat \<Rightarrow> unit program" where
  "sock_free a = bindP (get_sock a) (\<lambda>_. modifyP (\<lambda>w. w\<lparr>socks := (socks w)(a := None)\<rparr>))"

definition sock_cancel_poll :: "os_calls \<Rightarrow> nat \<Rightarrow> int program" where
  "sock_cancel_poll os a =
     bindP (get_sock a) (\<lambda>s.
     bindP (assertP (poll_status s = SOCK_POLL_PENDING)) (\<lambda>_.
     bindP (poll_group_get_afd_device_handle (sock_group s)) (\<lambda>_.
     bindP (afd_cancel_poll os a) (\<lambda>r.
     if r < 0 then returnP (- 1)
     else bindP (set_sock a (\<lambda>s. s\<lparr>poll_status := SOCK_POLL_CANCELLED, pending_events := 0\<rparr>)) (\<lambda>_.
          returnP 0)))))"

text \<open>\<open>ws_get_base_socket\<close> when it does not return has no outcome here.\<close>

definition base_socket_program :: "os_calls \<Rightarrow> u64 \<Rightarrow> u64 program" where
  "base_socket_program os socket w =
     (case ws_get_base_socket (wsa_ioctl os) socket w of
        None \<Rightarrow> Inl (Logic_error ''does not return'')
      | Some r \<Rightarrow> Inr r)"

definition sock_new :: "os_calls \<Rightarrow> u64 \<Rightarrow> nat option program" where
  "sock_new os socket =
     (if socket = 0 \<or> socket = INVALID_SOCKET then return_set_error None ''ERROR_INVALID_HANDLE''
      else
        bindP (base_socket_program os socket) (\<lambda>base.
        if base = INVALID_SOCKET then returnP None
        else
          bindP (poll_group_acquire os) (\<lambda>g.
          case g of
            None \<Rightarrow> returnP None
          | Some g \<Rightarrow>
              bindP callP (\<lambda>n.
              if \<not> malloc_ok os n then
                bindP (modifyP (err_set_win_error ''ERROR_NOT_ENOUGH_MEMORY'')) (\<lambda>_.
                bindP (poll_group_release g) (\<lambda>_. returnP None))
              else
                bindP new_address (\<lambda>a.
                bindP (modifyP (\<lambda>w. w\<lparr>socks := (socks w)(a \<mapsto>
                  \<lparr>io_status = 0, poll_info = empty_poll_info, sock_key = 0, sock_group = g,
                   base_socket = base, user_data = 0, user_events = 0, pending_events = 0,
                   poll_status = SOCK_POLL_IDLE, delete_pending = False\<rparr>)\<rparr>)) (\<lambda>_.
                bindP (port_register_socket a socket) (\<lambda>r.
                if r < 0 then
                  bindP (sock_free a) (\<lambda>_. bindP (poll_group_release g) (\<lambda>_. returnP None))
                else returnP (Some a))))))))"

definition sock_delete_force :: "os_calls \<Rightarrow> nat \<Rightarrow> bool \<Rightarrow> int program" where
  "sock_delete_force os a force =
     bindP (get_sock a) (\<lambda>s.
     bindP (if \<not> delete_pending s then
              bindP (if poll_status s = SOCK_POLL_PENDING
                     then bindP (sock_cancel_poll os a) (\<lambda>_. returnP ()) else returnP ()) (\<lambda>_.
              bindP (port_cancel_socket_update a) (\<lambda>_.
              bindP (port_unregister_socket a) (\<lambda>_.
              set_sock a (\<lambda>s. s\<lparr>delete_pending := True\<rparr>))))
            else returnP ()) (\<lambda>_.
     bindP (get_sock a) (\<lambda>s.
     if force \<or> poll_status s = SOCK_POLL_IDLE then
       bindP (port_remove_deleted_socket a) (\<lambda>_.
       bindP (poll_group_release (sock_group s)) (\<lambda>_.
       bindP (sock_free a) (\<lambda>_. returnP 0)))
     else
       bindP (port_add_deleted_socket a) (\<lambda>_. returnP 0))))"

definition sock_delete :: "os_calls \<Rightarrow> nat \<Rightarrow> unit program" where
  "sock_delete os a = bindP (sock_delete_force os a False) (\<lambda>_. returnP ())"

definition sock_force_delete :: "os_calls \<Rightarrow> nat \<Rightarrow> unit program" where
  "sock_force_delete os a = bindP (sock_delete_force os a True) (\<lambda>_. returnP ())"

text \<open>An \<open>epoll_event\<close> is its events and its data.\<close>

type_synonym epoll_event = "u32 \<times> u64"

definition sock_set_event :: "nat \<Rightarrow> epoll_event \<Rightarrow> int program" where
  "sock_set_event a ev =
     (let events = fst ev OR EPOLLERR OR EPOLLHUP in
      bindP (set_sock a (\<lambda>s. s\<lparr>user_events := events, user_data := snd ev\<rparr>)) (\<lambda>_.
      bindP (get_sock a) (\<lambda>s.
      bindP (if events AND KNOWN_EPOLL_EVENTS AND NOT (pending_events s) \<noteq> 0
             then port_request_socket_update a else returnP ()) (\<lambda>_. returnP 0))))"

definition start_poll :: "os_calls \<Rightarrow> nat \<Rightarrow> int program" where
  "start_poll os a =
     bindP (set_sock a (\<lambda>s. s\<lparr>poll_info := \<lparr>poll_timeout = 0x7FFFFFFFFFFFFFFF, number_of_handles = 1,
       poll_exclusive = 0, poll_handle = base_socket s,
       poll_events = epoll_events_to_afd_events (user_events s), poll_handle_status = 0\<rparr>\<rparr>)) (\<lambda>_.
     bindP (get_sock a) (\<lambda>s.
     bindP (poll_group_get_afd_device_handle (sock_group s)) (\<lambda>_. afd_poll os a)))"

definition sock_update :: "os_calls \<Rightarrow> nat \<Rightarrow> int program" where
  "sock_update os a =
     bindP (get_sock a) (\<lambda>s.
     bindP (assertP (\<not> delete_pending s)) (\<lambda>_.
     let finish = bindP (port_cancel_socket_update a) (\<lambda>_. returnP 0);
         submitted = bindP (set_sock a (\<lambda>s. s\<lparr>poll_status := SOCK_POLL_PENDING,
                       pending_events := user_events s\<rparr>)) (\<lambda>_. finish)
     in case poll_status s of
       SOCK_POLL_PENDING \<Rightarrow>
         if user_events s AND KNOWN_EPOLL_EVENTS AND NOT (pending_events s) = 0 then finish
         else bindP (sock_cancel_poll os a) (\<lambda>r. if r < 0 then returnP (- 1) else finish)
     | SOCK_POLL_CANCELLED \<Rightarrow> finish
     | SOCK_POLL_IDLE \<Rightarrow>
         bindP (start_poll os a) (\<lambda>r.
         if r < 0 then
           bindP (getP last_error) (\<lambda>e.
           if e = ''ERROR_IO_PENDING'' then submitted
           else if e = ''ERROR_INVALID_HANDLE'' then sock_delete_force os a False
           else return_map_error (- 1))
         else submitted)))"

text \<open>
  A completion packet arrives: the request is no longer in flight. The result is the return value
  and, when it is 1, the event that is written.
\<close>

definition take_request :: "nat \<Rightarrow> unit program" where
  "take_request a = modifyP (\<lambda>w. w\<lparr>requests := remove1 a (requests w)\<rparr>)"

definition sock_feed_event :: "os_calls \<Rightarrow> nat \<Rightarrow> epoll_event option program" where
  "sock_feed_event os a =
     bindP (take_request a) (\<lambda>_.
     bindP (set_sock a (\<lambda>s. s\<lparr>poll_status := SOCK_POLL_IDLE, pending_events := 0\<rparr>)) (\<lambda>_.
     bindP (get_sock a) (\<lambda>s.
     if delete_pending s then bindP (sock_delete_force os a False) (\<lambda>_. returnP None)
     else
       let closed = io_status s \<noteq> STATUS_CANCELLED \<and> NT_SUCCESS (io_status s) \<and>
             number_of_handles (poll_info s) \<ge> 1 \<and> poll_events (poll_info s) AND AFD_POLL_LOCAL_CLOSE \<noteq> 0;
           events = (if io_status s = STATUS_CANCELLED then 0
                     else if \<not> NT_SUCCESS (io_status s) then EPOLLERR
                     else if number_of_handles (poll_info s) < 1 then 0
                     else afd_events_to_epoll_events (poll_events (poll_info s)))
       in if closed then bindP (sock_delete_force os a False) (\<lambda>_. returnP None)
       else
         bindP (port_request_socket_update a) (\<lambda>_.
         let events = events AND user_events s in
         if events = 0 then returnP None
         else
           bindP (if user_events s AND EPOLLONESHOT \<noteq> 0
                  then set_sock a (\<lambda>s. s\<lparr>user_events := 0\<rparr>) else returnP ()) (\<lambda>_.
           returnP (Some (events, user_data s)))))))"


section \<open>Ports\<close>

text \<open>
  \<open>create_iocp\<close> is the outcome of \<open>CreateIoCompletionPort\<close>: a handle, 0 with an error. A new port
  starts a world with an empty heap; \<open>alloc\<close> tells whether \<open>malloc\<close> succeeds for it.
\<close>

definition empty_port :: "u64 \<Rightarrow> port_state" where
  "empty_port iocp = \<lparr>iocp_handle = iocp, sock_tree = Null, sock_update_queue = [],
     sock_deleted_queue = [], poll_group_queue = [], active_poll_count = 0\<rparr>"

definition new_world :: "u64 \<Rightarrow> win_thread \<Rightarrow> epoll_world" where
  "new_world iocp t = \<lparr>last_error = last_error t, errno = errno t, port = empty_port iocp,
     socks = Map.empty, groups = Map.empty, next_address = 1, calls = 0, requests = [],
     open_handles = [iocp]\<rparr>"

definition port_new :: "bool \<Rightarrow> string + u64 \<Rightarrow> win_thread \<Rightarrow> (u64 \<times> epoll_world) option \<times> win_thread" where
  "port_new alloc create_iocp t =
     (if \<not> alloc then (None, err_set_win_error ''ERROR_NOT_ENOUGH_MEMORY'' t)
      else case create_iocp of
        Inl e \<Rightarrow> (None, err_map_win_error (t\<lparr>last_error := e\<rparr>))
      | Inr iocp \<Rightarrow> (Some (iocp, new_world iocp t), t))"

text \<open>\<open>close\<close> is the outcome of \<open>CloseHandle\<close> on the completion port: \<open>None\<close> for success.\<close>

definition port_close :: "string option \<Rightarrow> int program" where
  "port_close close =
     bindP get_port (\<lambda>p.
     bindP (set_port (\<lambda>p. p\<lparr>iocp_handle := 0\<rparr>)) (\<lambda>_.
     case close of
       Some e \<Rightarrow> bindP (modifyP (\<lambda>w. w\<lparr>last_error := e\<rparr>)) (\<lambda>_. return_map_error (- 1))
     | None \<Rightarrow> bindP (CloseHandle (iocp_handle p)) (\<lambda>_. returnP 0)))"

text \<open>
  The loops take fuel, the number of turns they are allowed; they get the length of the list or tree
  they empty, and running out of it would be the fault \<open>out of turns\<close>.
\<close>

definition out_of_turns :: "'a program" where
  "out_of_turns w = Inl (Logic_error ''out of turns'')"

fun delete_tree_sockets :: "os_calls \<Rightarrow> nat \<Rightarrow> unit program" where
  "delete_tree_sockets os n = bindP get_port (\<lambda>p.
     case tree_root (sock_tree p) of
       None \<Rightarrow> returnP ()
     | Some (k, a) \<Rightarrow>
         (case n of 0 \<Rightarrow> out_of_turns
          | Suc n \<Rightarrow> bindP (sock_force_delete os a) (\<lambda>_. delete_tree_sockets os n)))"

fun delete_deleted_sockets :: "os_calls \<Rightarrow> nat \<Rightarrow> unit program" where
  "delete_deleted_sockets os n = bindP get_port (\<lambda>p.
     case sock_deleted_queue p of
       [] \<Rightarrow> returnP ()
     | a # _ \<Rightarrow>
         (case n of 0 \<Rightarrow> out_of_turns
          | Suc n \<Rightarrow> bindP (sock_force_delete os a) (\<lambda>_. delete_deleted_sockets os n)))"

fun delete_poll_groups :: "nat \<Rightarrow> unit program" where
  "delete_poll_groups n = bindP get_port (\<lambda>p.
     case poll_group_queue p of
       [] \<Rightarrow> returnP ()
     | g # _ \<Rightarrow>
         (case n of 0 \<Rightarrow> out_of_turns
          | Suc n \<Rightarrow> bindP (poll_group_delete g) (\<lambda>_. delete_poll_groups n)))"

definition port_delete :: "os_calls \<Rightarrow> int program" where
  "port_delete os =
     bindP get_port (\<lambda>p.
     bindP (assertP (iocp_handle p = 0)) (\<lambda>_.
     bindP (delete_tree_sockets os (length (inorder (sock_tree p)))) (\<lambda>_.
     bindP get_port (\<lambda>p.
     bindP (delete_deleted_sockets os (length (sock_deleted_queue p))) (\<lambda>_.
     bindP get_port (\<lambda>p.
     bindP (delete_poll_groups (length (poll_group_queue p))) (\<lambda>_.
     bindP get_port (\<lambda>p.
     bindP (assertP (sock_update_queue p = [])) (\<lambda>_. returnP 0)))))))))"

fun update_loop :: "os_calls \<Rightarrow> nat \<Rightarrow> int program" where
  "update_loop os n = bindP get_port (\<lambda>p.
     case sock_update_queue p of
       [] \<Rightarrow> returnP 0
     | a # _ \<Rightarrow>
         (case n of 0 \<Rightarrow> out_of_turns
          | Suc n \<Rightarrow> bindP (sock_update os a) (\<lambda>r. if r < 0 then returnP (- 1) else update_loop os n)))"

definition port_update_events :: "os_calls \<Rightarrow> int program" where
  "port_update_events os = bindP get_port (\<lambda>p. update_loop os (length (sock_update_queue p)))"

definition port_update_events_if_polling :: "os_calls \<Rightarrow> unit program" where
  "port_update_events_if_polling os =
     bindP get_port (\<lambda>p.
     if active_poll_count p > 0 then bindP (port_update_events os) (\<lambda>_. returnP ()) else returnP ())"

text \<open>The events that are written, in order: their number is the result of the code.\<close>

fun port_feed_events :: "os_calls \<Rightarrow> nat list \<Rightarrow> epoll_event list program" where
  "port_feed_events os [] = returnP []"
| "port_feed_events os (a # packets) =
     bindP (sock_feed_event os a) (\<lambda>ev.
     bindP (port_feed_events os packets) (\<lambda>evs.
     returnP (case ev of None \<Rightarrow> evs | Some e \<Rightarrow> e # evs)))"

text \<open>
  \<open>port__poll\<close>, up to where it leaves the lock to wait for completion packets, and from where it has
  it again. \<open>r\<close> is what \<open>GetQueuedCompletionStatusEx\<close> brought: an error or the packets.
\<close>

definition port_poll_begin :: "os_calls \<Rightarrow> int program" where
  "port_poll_begin os =
     bindP (port_update_events os) (\<lambda>r.
     if r < 0 then returnP (- 1)
     else bindP (set_port (\<lambda>p. p\<lparr>active_poll_count := active_poll_count p + 1\<rparr>)) (\<lambda>_. returnP 0))"

definition port_poll_end :: "os_calls \<Rightarrow> string + nat list \<Rightarrow> (int \<times> epoll_event list) program" where
  "port_poll_end os r =
     bindP (set_port (\<lambda>p. p\<lparr>active_poll_count := active_poll_count p - 1\<rparr>)) (\<lambda>_.
     case r of
       Inl e \<Rightarrow> bindP (modifyP (\<lambda>w. w\<lparr>last_error := e\<rparr>)) (\<lambda>_. return_map_error (- 1, []))
     | Inr packets \<Rightarrow>
         bindP (port_feed_events os packets) (\<lambda>evs. returnP (int (length evs), evs)))"

section \<open>Waiting\<close>

definition PORT_MAX_ON_STACK_COMPLETIONS :: int where
  "PORT_MAX_ON_STACK_COMPLETIONS = 256"

definition INFINITE :: u32 where
  "INFINITE = 0xFFFFFFFF"

text \<open>
  \<open>port_wait\<close> before its loop: the number of packets to ask for (\<open>alloc\<close>: the list of packets could
  be allocated), the time-out of the first wait, and when the whole wait is due. The arguments are
  \<open>int\<close>s of 32 bits, the clock counts milliseconds.
\<close>

record wait_args =
  wait_max :: int
  wait_gqcs_timeout :: u32
  wait_due :: u64

definition port_wait_start :: "bool \<Rightarrow> u64 \<Rightarrow> int \<Rightarrow> int \<Rightarrow> wait_args option" where
  "port_wait_start alloc clock maxevents timeout =
     (if maxevents \<le> 0 then None
      else Some \<lparr>wait_max = (if maxevents \<le> PORT_MAX_ON_STACK_COMPLETIONS \<or> alloc then maxevents
                             else PORT_MAX_ON_STACK_COMPLETIONS),
                 wait_gqcs_timeout = (if timeout > 0 then word_of_int timeout
                                      else if timeout = 0 then 0 else INFINITE),
                 wait_due = (if timeout > 0 then clock + word_of_int timeout else 0)\<rparr>)"

text \<open>What follows a \<open>port__poll\<close> with a result: leave the loop, or wait again.\<close>

datatype wait_turn =
    Wait_done bool
  | Wait_again u32

definition port_wait_turn :: "int \<Rightarrow> u64 \<Rightarrow> u64 \<Rightarrow> int \<Rightarrow> u32 \<Rightarrow> wait_turn" where
  "port_wait_turn timeout due now result gqcs =
     (if result < 0 \<or> result > 0 then Wait_done False
      else if timeout < 0 then Wait_again gqcs
      else if now \<ge> due then Wait_done True
      else Wait_again (ucast (due - now)))"

text \<open>
  After the loop, with the lock still held: \<open>timed_out\<close> when the time was over, which sets the last
  error.
\<close>

definition port_wait_finish :: "os_calls \<Rightarrow> bool \<Rightarrow> int \<Rightarrow> int program" where
  "port_wait_finish os timed_out result =
     bindP (if timed_out then modifyP (\<lambda>w. w\<lparr>last_error := ''WAIT_TIMEOUT''\<rparr>) else returnP ()) (\<lambda>_.
     bindP (port_update_events_if_polling os) (\<lambda>_.
     bindP (getP last_error) (\<lambda>e.
     returnP (if result \<ge> 0 then result else if e = ''WAIT_TIMEOUT'' then 0 else - 1))))"

section \<open>Control\<close>

definition port_ctl_add :: "os_calls \<Rightarrow> u64 \<Rightarrow> epoll_event \<Rightarrow> int program" where
  "port_ctl_add os sock ev =
     bindP (sock_new os sock) (\<lambda>a.
     case a of
       None \<Rightarrow> returnP (- 1)
     | Some a \<Rightarrow>
         bindP (sock_set_event a ev) (\<lambda>r.
         if r < 0 then bindP (sock_delete os a) (\<lambda>_. returnP (- 1))
         else bindP (port_update_events_if_polling os) (\<lambda>_. returnP 0)))"

definition port_ctl_mod :: "os_calls \<Rightarrow> u64 \<Rightarrow> epoll_event \<Rightarrow> int program" where
  "port_ctl_mod os sock ev =
     bindP (port_find_socket sock) (\<lambda>a.
     case a of
       None \<Rightarrow> returnP (- 1)
     | Some a \<Rightarrow>
         bindP (sock_set_event a ev) (\<lambda>r.
         if r < 0 then returnP (- 1)
         else bindP (port_update_events_if_polling os) (\<lambda>_. returnP 0)))"

definition port_ctl_del :: "os_calls \<Rightarrow> u64 \<Rightarrow> int program" where
  "port_ctl_del os sock =
     bindP (port_find_socket sock) (\<lambda>a.
     case a of
       None \<Rightarrow> returnP (- 1)
     | Some a \<Rightarrow> bindP (sock_delete os a) (\<lambda>_. returnP 0))"

definition EPOLL_CTL_ADD :: int where "EPOLL_CTL_ADD = 1"
definition EPOLL_CTL_MOD :: int where "EPOLL_CTL_MOD = 2"
definition EPOLL_CTL_DEL :: int where "EPOLL_CTL_DEL = 3"

definition port_ctl :: "os_calls \<Rightarrow> int \<Rightarrow> u64 \<Rightarrow> epoll_event \<Rightarrow> int program" where
  "port_ctl os op sock ev =
     (if op = EPOLL_CTL_ADD then port_ctl_add os sock ev
      else if op = EPOLL_CTL_MOD then port_ctl_mod os sock ev
      else if op = EPOLL_CTL_DEL then port_ctl_del os sock
      else return_set_error (- 1) ''ERROR_INVALID_PARAMETER'')"


end
