(* ===== verification/Wepoll_Port_Inv.thy ===== *)
theory Wepoll_Port_Inv
  imports Wepoll_Port "HOL-Library.Multiset"
begin

text \<open>
  The invariant of a port and the proof that every operation of \<open>Wepoll_Port\<close> keeps it without a
  fault. \<open>wp f Q w\<close> says that \<open>f\<close> returns from \<open>w\<close>, free of faults, in a world with \<open>Q\<close>: its rules
  take a program apart, one call at a time.
\<close>

section \<open>Weakest preconditions\<close>

definition wp :: "'a program \<Rightarrow> ('a \<Rightarrow> epoll_world \<Rightarrow> bool) \<Rightarrow> epoll_world \<Rightarrow> bool" where
  "wp f Q w \<longleftrightarrow> (case f w of Inl e \<Rightarrow> False | Inr (a, w') \<Rightarrow> Q a w')"

named_theorems wp_rules

lemma wp_bind [wp_rules]: "wp (bindP f g) Q w = wp f (\<lambda>a. wp (g a) Q) w"
  by (auto simp: wp_def bindP_def split: sum.splits)

lemma wp_return [wp_rules]: "wp (returnP a) Q w = Q a w"
  by (simp add: wp_def returnP_def)

lemma wp_modify [wp_rules]: "wp (modifyP f) Q w = Q () (f w)"
  by (simp add: wp_def modifyP_def)

lemma wp_get [wp_rules]: "wp (getP f) Q w = Q (f w) w"
  by (simp add: wp_def getP_def)

lemma wp_get_port [wp_rules]: "wp get_port Q w = Q (port w) w"
  by (simp add: get_port_def wp_get)

lemma wp_set_port [wp_rules]: "wp (set_port f) Q w = Q () (w\<lparr>port := f (port w)\<rparr>)"
  by (simp add: set_port_def wp_modify)

lemma wp_assert [wp_rules]: "wp (assertP b) Q w = (b \<and> Q () w)"
  by (simp add: wp_def assertP_def)

lemma wp_call [wp_rules]: "wp callP Q w = Q (calls w) (w\<lparr>calls := Suc (calls w)\<rparr>)"
  by (simp add: wp_def callP_def)

lemma wp_new_address [wp_rules]:
  "wp new_address Q w = Q (next_address w) (w\<lparr>next_address := Suc (next_address w)\<rparr>)"
  by (simp add: wp_def new_address_def)

lemma wp_get_sock [wp_rules]: "wp (get_sock a) Q w = (\<exists>s. socks w a = Some s \<and> Q s w)"
  by (auto simp: wp_def get_sock_def danglingP_def split: option.splits)

lemma wp_set_sock [wp_rules]:
  "wp (set_sock a f) Q w = (\<exists>s. socks w a = Some s \<and> Q () (w\<lparr>socks := (socks w)(a \<mapsto> f s)\<rparr>))"
  by (simp add: set_sock_def wp_rules)

lemma wp_get_group [wp_rules]: "wp (get_group g) Q w = (\<exists>p. groups w g = Some p \<and> Q p w)"
  by (auto simp: wp_def get_group_def danglingP_def split: option.splits)

lemma wp_set_group [wp_rules]:
  "wp (set_group g f) Q w = (\<exists>p. groups w g = Some p \<and> Q () (w\<lparr>groups := (groups w)(g \<mapsto> f p)\<rparr>))"
  by (simp add: set_group_def wp_rules)

lemma wp_set_error [wp_rules]: "wp (return_set_error r e) Q w = Q r (err_set_win_error e w)"
  by (simp add: return_set_error_def wp_rules)

lemma wp_map_error [wp_rules]: "wp (return_map_error r) Q w = Q r (err_map_win_error w)"
  by (simp add: return_map_error_def wp_rules)

lemma wp_lift [wp_rules]:
  "wp (\<lambda>w. bindR r (\<lambda>x. Inr (f x, w))) Q w = (\<exists>x. r = Inr x \<and> Q (f x) w)"
  by (auto simp: wp_def bindR_def split: sum.splits)

lemma wp_if [wp_rules]: "wp (if b then f else g) Q w = (if b then wp f Q w else wp g Q w)"
  by simp

lemma wp_mono: "wp f Q w \<Longrightarrow> (\<And>a w'. Q a w' \<Longrightarrow> R a w') \<Longrightarrow> wp f R w"
  by (auto simp: wp_def split: sum.splits)

lemma wp_returns: "wp f Q w \<longleftrightarrow> (\<exists>a w'. f w = Inr (a, w') \<and> Q a w')"
  by (auto simp: wp_def split: sum.splits)

text \<open>Errors do not touch the port.\<close>

lemma error_fields [simp]:
  "port (err_set_win_error e w) = port w" "socks (err_set_win_error e w) = socks w"
  "groups (err_set_win_error e w) = groups w" "next_address (err_set_win_error e w) = next_address w"
  "requests (err_set_win_error e w) = requests w" "open_handles (err_set_win_error e w) = open_handles w"
  "port (err_map_win_error w) = port w" "socks (err_map_win_error w) = socks w"
  "groups (err_map_win_error w) = groups w" "next_address (err_map_win_error w) = next_address w"
  "requests (err_map_win_error w) = requests w" "open_handles (err_map_win_error w) = open_handles w"
  by (simp_all add: err_set_win_error_def err_map_win_error_def)

section \<open>The invariant\<close>

abbreviation upd_q :: "epoll_world \<Rightarrow> nat list" where
  "upd_q w \<equiv> sock_update_queue (port w)"

abbreviation del_q :: "epoll_world \<Rightarrow> nat list" where
  "del_q w \<equiv> sock_deleted_queue (port w)"

abbreviation registered :: "epoll_world \<Rightarrow> u64 \<Rightarrow> nat option" where
  "registered w \<equiv> tree_map (sock_tree (port w))"

text \<open>How the queues and the tree refer to a socket.\<close>

definition sock_links :: "epoll_world \<Rightarrow> nat \<Rightarrow> sock_state \<Rightarrow> bool" where
  "sock_links w a s \<longleftrightarrow>
     (if delete_pending s then a \<in> set (del_q w) \<and> a \<notin> set (upd_q w)
      else registered w (sock_key s) = Some a \<and> a \<notin> set (del_q w))"

text \<open>Every event the user asked for is asked of the kernel, or will be.\<close>

definition sock_served :: "epoll_world \<Rightarrow> nat \<Rightarrow> sock_state \<Rightarrow> bool" where
  "sock_served w a s \<longleftrightarrow>
     (if delete_pending s then poll_status s \<noteq> SOCK_POLL_IDLE
      else (poll_status s \<noteq> SOCK_POLL_PENDING \<longrightarrow> pending_events s = 0) \<and>
        (a \<in> set (upd_q w) \<or> poll_status s = SOCK_POLL_CANCELLED \<or>
         poll_status s = SOCK_POLL_PENDING \<and>
           user_events s AND KNOWN_EPOLL_EVENTS AND NOT (pending_events s) = 0))"

definition structure_ok :: "epoll_world \<Rightarrow> bool" where
  "structure_ok w \<longleftrightarrow>
     tree_ok (sock_tree (port w)) \<and> distinct (upd_q w) \<and> distinct (del_q w) \<and>
     set (upd_q w) \<subseteq> dom (socks w) \<and> set (del_q w) \<subseteq> dom (socks w) \<and>
     dom (socks w) \<subseteq> {..<next_address w} \<and>
     (\<forall>k a. registered w k = Some a \<longrightarrow>
        (\<exists>s. socks w a = Some s \<and> sock_key s = k \<and> \<not> delete_pending s))"

text \<open>The sockets with a request in flight are those that wait for one.\<close>

definition requests_ok :: "epoll_world \<Rightarrow> bool" where
  "requests_ok w \<longleftrightarrow> distinct (requests w) \<and>
     set (requests w) = {a. \<exists>s. socks w a = Some s \<and> poll_status s \<noteq> SOCK_POLL_IDLE}"

text \<open>
  The poll groups, with \<open>c g\<close> for the number of sockets of group \<open>g\<close> and the handles \<open>B\<close> that are
  open besides theirs: the full groups are in front.
\<close>

definition group_handles :: "epoll_world \<Rightarrow> u64 multiset" where
  "group_handles w = mset (map (\<lambda>g. afd_device_handle (the (groups w g))) (poll_group_queue (port w)))"

definition groups_sized :: "u64 multiset \<Rightarrow> (nat \<Rightarrow> nat) \<Rightarrow> epoll_world \<Rightarrow> bool" where
  "groups_sized B c w \<longleftrightarrow>
     distinct (poll_group_queue (port w)) \<and> set (poll_group_queue (port w)) = dom (groups w) \<and>
     dom (groups w) \<subseteq> {..<next_address w} \<and>
     (\<forall>g p. groups w g = Some p \<longrightarrow> unat (group_size p) = c g \<and> c g \<le> 32) \<and>
     (\<exists>F N. poll_group_queue (port w) = F @ N \<and> (\<forall>g\<in>set F. c g = 32) \<and> (\<forall>g\<in>set N. c g < 32)) \<and>
     mset (open_handles w) = B + group_handles w"

definition members_of :: "epoll_world \<Rightarrow> nat \<Rightarrow> nat set" where
  "members_of w g = {a. \<exists>s. socks w a = Some s \<and> sock_group s = g}"

definition groups_ok :: "u64 multiset \<Rightarrow> epoll_world \<Rightarrow> bool" where
  "groups_ok B w \<longleftrightarrow> groups_sized B (\<lambda>g. card (members_of w g)) w \<and>
     (\<forall>a s. socks w a = Some s \<longrightarrow> sock_group s \<in> dom (groups w))"

definition core_ok :: "u64 multiset \<Rightarrow> epoll_world \<Rightarrow> bool" where
  "core_ok B w \<longleftrightarrow> structure_ok w \<and> groups_ok B w \<and>
     (\<forall>a s. socks w a = Some s \<longrightarrow> sock_links w a s)"

text \<open>All of it, but for the service of the sockets in \<open>A\<close>.\<close>

definition inv_but :: "u64 multiset \<Rightarrow> nat set \<Rightarrow> epoll_world \<Rightarrow> bool" where
  "inv_but B A w \<longleftrightarrow> core_ok B w \<and> requests_ok w \<and>
     (\<forall>a s. socks w a = Some s \<longrightarrow> a \<notin> A \<longrightarrow> sock_served w a s)"

definition port_inv :: "u64 multiset \<Rightarrow> epoll_world \<Rightarrow> bool" where
  "port_inv B w \<longleftrightarrow> inv_but B {} w"

section \<open>Poll groups\<close>

text \<open>What the operations on groups leave alone.\<close>

definition sock_view :: "epoll_world \<Rightarrow> port_state \<times> (nat \<Rightarrow> sock_state option) \<times> nat list" where
  "sock_view w = ((port w)\<lparr>poll_group_queue := []\<rparr>, socks w, requests w)"

definition group_frame :: "epoll_world \<Rightarrow> epoll_world \<Rightarrow> bool" where
  "group_frame w w' \<longleftrightarrow> sock_view w' = sock_view w \<and> next_address w \<le> next_address w'"

lemma group_frame_refl [simp]: "group_frame w w"
  by (simp add: group_frame_def)

lemma group_frame_trans: "group_frame u v \<Longrightarrow> group_frame v w \<Longrightarrow> group_frame u w"
  by (auto simp: group_frame_def)

lemma group_frame_fields:
  assumes "group_frame w w'"
  shows "socks w' = socks w" "requests w' = requests w" "sock_tree (port w') = sock_tree (port w)"
    "sock_update_queue (port w') = sock_update_queue (port w)"
    "sock_deleted_queue (port w') = sock_deleted_queue (port w)"
    "iocp_handle (port w') = iocp_handle (port w)"
    "active_poll_count (port w') = active_poll_count (port w)" "next_address w \<le> next_address w'"
  using assms unfolding group_frame_def sock_view_def
  by (auto dest: arg_cong [where f = sock_tree] arg_cong [where f = sock_update_queue]
      arg_cong [where f = sock_deleted_queue] arg_cong [where f = iocp_handle]
      arg_cong [where f = active_poll_count])

lemma unat_inc: "unat (x::u64) < 32 \<Longrightarrow> unat (x + 1) = Suc (unat x)"
  by (simp add: unat_word_ariths)

lemma unat_dec: "0 < unat (x::u64) \<Longrightarrow> unat (x - 1) = unat x - 1"
  by (metis One_nat_def unat_gt_0 unat_minus_one)

lemma size_limits:
  "group_size p \<ge> POLL_GROUP_MAX_GROUP_SIZE \<longleftrightarrow> unat (group_size p) \<ge> 32"
  "group_size p < POLL_GROUP_MAX_GROUP_SIZE \<longleftrightarrow> unat (group_size p) < 32"
  "group_size p = POLL_GROUP_MAX_GROUP_SIZE \<longleftrightarrow> unat (group_size p) = 32"
  by (auto simp: POLL_GROUP_MAX_GROUP_SIZE_def word_le_nat_alt word_less_nat_alt word_unat_eq_iff)

text \<open>Worlds that differ in the error state, the call count and the open handles at most.\<close>

definition quiet :: "epoll_world \<Rightarrow> epoll_world \<Rightarrow> bool" where
  "quiet w w' \<longleftrightarrow> port w' = port w \<and> socks w' = socks w \<and> groups w' = groups w \<and>
     next_address w' = next_address w \<and> requests w' = requests w"

lemma groups_sized_cong:
  assumes "poll_group_queue (port w') = poll_group_queue (port w)" "groups w' = groups w"
    "next_address w \<le> next_address w'" "open_handles w' = open_handles w"
  shows "groups_sized B c w \<Longrightarrow> groups_sized B c w'"
  using assms by (auto simp: groups_sized_def group_handles_def)

lemma afd_create_device_handle_wp:
  "wp (afd_create_device_handle os iocp) (\<lambda>r w'. quiet w w' \<and>
     open_handles w' = (case r of None \<Rightarrow> open_handles w | Some h \<Rightarrow> h # open_handles w)) w"
  by (auto simp: afd_create_device_handle_def CloseHandle_def wp_rules quiet_def
      err_set_win_error_def err_map_win_error_def split: sum.split option.split)

lemma wp_bind_mono:
  assumes "wp f R w" "\<And>a w'. R a w' \<Longrightarrow> wp (g a) Q w'"
  shows "wp (bindP f g) Q w"
  unfolding wp_bind using assms(1) by (rule wp_mono) (rule assms(2))

lemma groups_sized_new:
  assumes "groups_sized B c w" "groups w g = None" "c g = 0" "\<forall>g\<in>dom (groups w). c g = 32"
    and "poll_group_queue (port w') = poll_group_queue (port w) @ [g]"
    and "groups w' = (groups w)(g \<mapsto> p)" "group_size p = 0" "next_address w \<le> next_address w'"
    and "g < next_address w'" "open_handles w' = afd_device_handle p # open_handles w"
  shows "groups_sized B c w'"
proof -
  have q: "g \<notin> set (poll_group_queue (port w))" "\<forall>g\<in>set (poll_group_queue (port w)). c g = 32"
    using assms(1,2,4) by (auto simp: groups_sized_def)
  then have "map (\<lambda>g. afd_device_handle (the (groups w' g))) (poll_group_queue (port w)) =
    map (\<lambda>g. afd_device_handle (the (groups w g))) (poll_group_queue (port w))"
    using assms(6) by (intro map_cong) auto
  then have "group_handles w' = add_mset (afd_device_handle p) (group_handles w)"
    by (simp only: group_handles_def assms(5,6) map_append mset_append) simp
  moreover have "\<exists>F N. poll_group_queue (port w') = F @ N \<and> (\<forall>g\<in>set F. c g = 32) \<and> (\<forall>g\<in>set N. c g < 32)"
    using assms(3,5) q(2) by (intro exI [of _ "poll_group_queue (port w)"] exI [of _ "[g]"]) simp
  ultimately show ?thesis using assms q(1) unfolding groups_sized_def by (auto simp: less_le_trans)
qed

lemma poll_group_new_wp:
  assumes "groups_sized B c w" "iocp_handle (port w) \<noteq> 0" "\<forall>g. g \<notin> dom (groups w) \<longrightarrow> c g = 0"
    "\<forall>g\<in>dom (groups w). c g = 32"
  shows "wp (poll_group_new os) (\<lambda>r w'. group_frame w w' \<and> groups_sized B c w' \<and>
    (case r of None \<Rightarrow> groups w' = groups w
     | Some g \<Rightarrow> g \<notin> dom (groups w) \<and> dom (groups w') = insert g (dom (groups w)) \<and>
         poll_group_queue (port w') = poll_group_queue (port w) @ [g])) w"
    (is "wp _ ?Q w")
proof -
  let ?g = "next_address w" and ?z = "\<lparr>afd_device_handle = 0, group_size = 0\<rparr>"
  have g: "groups w ?g = None" using assms(1) by (auto simp: groups_sized_def)
  define w1 where "w1 = w\<lparr>calls := Suc (calls w), next_address := Suc ?g, groups := (groups w)(?g \<mapsto> ?z)\<rparr>"
  have 1: "?Q None (w'\<lparr>groups := (groups w')(?g := None)\<rparr>)"
    if "quiet w1 w'" "open_handles w' = open_handles w1" for w'
  proof -
    have "(groups w')(?g := None) = groups w" using that(1) g by (auto simp: quiet_def w1_def)
    then show ?thesis
      using that assms(1) by (auto simp: group_frame_def sock_view_def quiet_def w1_def
          intro: groups_sized_cong [OF _ _ _ _ assms(1)])
  qed
  have 2: "?Q (Some ?g) (w'\<lparr>groups := (groups w')(?g \<mapsto> ?z\<lparr>afd_device_handle := h\<rparr>),
      port := (port w')\<lparr>poll_group_queue := poll_group_queue (port w') @ [?g]\<rparr>\<rparr>)"
    if "quiet w1 w'" "open_handles w' = h # open_handles w1" for w' h
  proof -
    have "groups_sized B c (w'\<lparr>groups := (groups w')(?g \<mapsto> ?z\<lparr>afd_device_handle := h\<rparr>),
      port := (port w')\<lparr>poll_group_queue := poll_group_queue (port w') @ [?g]\<rparr>\<rparr>)"
      using that assms g
      by (intro groups_sized_new [OF assms(1) g, where p = "?z\<lparr>afd_device_handle := h\<rparr>"])
        (auto simp: quiet_def w1_def)
    then show ?thesis using that g by (auto simp: quiet_def w1_def group_frame_def sock_view_def)
  qed
  have 3: "?Q None (err_set_win_error ''ERROR_NOT_ENOUGH_MEMORY'' (w\<lparr>calls := Suc (calls w)\<rparr>))"
    using assms(1) by (auto simp: group_frame_def sock_view_def intro: groups_sized_cong [OF _ _ _ _ assms(1)])
  have 4: "groups w' ?g = Some ?z" if "quiet w1 w'" for w' using that by (simp add: quiet_def w1_def)
  have 5: "wp (case h of
        None \<Rightarrow> bindP (modifyP (\<lambda>w. w\<lparr>groups := (groups w)(?g := None)\<rparr>)) (\<lambda>_. returnP None)
      | Some h \<Rightarrow>
          bindP (set_group ?g (\<lambda>p. p\<lparr>afd_device_handle := h\<rparr>)) (\<lambda>_.
          bindP (set_port (\<lambda>p. p\<lparr>poll_group_queue := poll_group_queue p @ [?g]\<rparr>)) (\<lambda>_.
          returnP (Some ?g)))) ?Q w'"
    if "quiet w1 w' \<and> open_handles w' = (case h of None \<Rightarrow> open_handles w1 | Some h \<Rightarrow> h # open_handles w1)"
    for h w'
  proof (cases h)
    case None
    then show ?thesis using 1 [of w'] that by (simp only: wp_rules option.case)
  next
    case (Some v)
    then show ?thesis using 2 [of w' v] 4 [of w'] that by (auto simp: wp_rules simp del: fun_upd_apply)
  qed
  show ?thesis
    unfolding poll_group_new_def port_get_iocp_handle_def
    using 3 assms(2) wp_mono [OF afd_create_device_handle_wp, where w = w1, OF 5]
    by (simp add: wp_rules del: fun_upd_apply flip: w1_def)
qed

lemma group_handles_cong:
  assumes "mset (poll_group_queue (port w')) = mset (poll_group_queue (port w))"
    "\<forall>g\<in>set (poll_group_queue (port w)). afd_device_handle (the (groups w' g)) = afd_device_handle (the (groups w g))"
  shows "group_handles w' = group_handles w"
  unfolding group_handles_def mset_map assms(1) using assms(2) by (intro image_mset_cong) auto

lemma groups_sized_inc:
  assumes "groups_sized B c w" "groups w g = Some p" "c g < 32" "poll_group_queue (port w) = qs @ [g]"
    and "groups w' = (groups w)(g \<mapsto> p\<lparr>group_size := group_size p + 1\<rparr>)"
    and "poll_group_queue (port w') = (if c g = 31 then g # qs else qs @ [g])"
    and "next_address w' = next_address w" "open_handles w' = open_handles w"
  shows "groups_sized B (c(g := Suc (c g))) w'"
proof -
  obtain F N where FN: "qs @ [g] = F @ N" "\<forall>g\<in>set F. c g = 32" "\<forall>g\<in>set N. c g < 32"
    using assms(1,4) unfolding groups_sized_def by metis
  have d: "distinct (qs @ [g])" using assms(1,4) unfolding groups_sized_def by metis
  have "N \<noteq> []" using FN assms(3) by (metis append.right_neutral in_set_conv_decomp less_irrefl)
  then obtain M where M: "N = M @ [g]" "qs = F @ M" using FN(1) by (cases N rule: rev_cases) auto
  have "\<exists>F N. poll_group_queue (port w') = F @ N \<and> (\<forall>u\<in>set F. (c(g := Suc (c g))) u = 32) \<and>
    (\<forall>u\<in>set N. (c(g := Suc (c g))) u < 32)"
  proof (cases "c g = 31")
    case True
    then show ?thesis using FN M d assms(6)
      by (intro exI [of _ "g # F"] exI [of _ M]) auto
  next
    case False
    then show ?thesis using FN M d assms(3,6)
      by (intro exI [of _ F] exI [of _ N]) auto
  qed
  moreover have "group_handles w' = group_handles w"
    using assms(2,4,5,6) by (intro group_handles_cong) auto
  moreover have "unat (group_size p + 1) = Suc (c g)"
    using unat_inc [of "group_size p"] assms(1,2,3) by (auto simp: groups_sized_def)
  ultimately show ?thesis using assms d unfolding groups_sized_def by (auto split: if_splits)
qed

lemma remove1_disjoint: "distinct (xs @ ys) \<Longrightarrow> remove1 x (xs @ ys) = remove1 x xs @ remove1 x ys"
  by (auto simp: remove1_append disjoint_iff remove1_idem)

lemma groups_sized_dec:
  assumes "groups_sized B c w" "groups w g = Some p" "c g > 0"
    and "groups w' = (groups w)(g \<mapsto> p\<lparr>group_size := group_size p - 1\<rparr>)"
    and "poll_group_queue (port w') = remove1 g (poll_group_queue (port w)) @ [g]"
    and "next_address w' = next_address w" "open_handles w' = open_handles w"
  shows "groups_sized B (c(g := c g - 1)) w'"
proof -
  obtain F N where FN: "poll_group_queue (port w) = F @ N" "\<forall>g\<in>set F. c g = 32" "\<forall>g\<in>set N. c g < 32"
    using assms(1) unfolding groups_sized_def by metis
  have d: "distinct (poll_group_queue (port w))" and g: "g \<in> set (poll_group_queue (port w))" and
    u: "unat (group_size p) = c g" "c g \<le> 32"
    using assms(1,2) unfolding groups_sized_def by auto
  have "remove1 g (F @ N) = remove1 g F @ remove1 g N"
    using d FN(1) remove1_disjoint by metis
  then have "\<exists>F N. poll_group_queue (port w') = F @ N \<and> (\<forall>u\<in>set F. (c(g := c g - 1)) u = 32) \<and>
    (\<forall>u\<in>set N. (c(g := c g - 1)) u < 32)"
    using FN d assms(3,5) u(2)
    by (intro exI [of _ "remove1 g F"] exI [of _ "remove1 g N @ [g]"]) auto
  moreover have "group_handles w' = group_handles w"
    using assms(2,4,5) g by (intro group_handles_cong) auto
  moreover have "unat (group_size p - 1) = c g - 1"
    using unat_dec [of "group_size p"] assms(3) u(1) by simp
  moreover have "c g - Suc 0 \<le> 32" using u(2) by linarith
  ultimately show ?thesis using assms d g unfolding groups_sized_def by (auto simp: insert_absorb)
qed

lemma groups_sized_del:
  assumes "groups_sized B c w" "groups w g = Some p"
    and "groups w' = (groups w)(g := None)"
    and "poll_group_queue (port w') = remove1 g (poll_group_queue (port w))"
    and "next_address w' = next_address w"
    and "open_handles w' = remove1 (afd_device_handle p) (open_handles w)"
  shows "groups_sized B c w'"
proof -
  obtain F N where FN: "poll_group_queue (port w) = F @ N" "\<forall>g\<in>set F. c g = 32" "\<forall>g\<in>set N. c g < 32"
    using assms(1) unfolding groups_sized_def by metis
  have d: "distinct (poll_group_queue (port w))" and g: "g \<in> set (poll_group_queue (port w))"
    using assms(1,2) unfolding groups_sized_def by auto
  have "remove1 g (F @ N) = remove1 g F @ remove1 g N"
    using d FN(1) remove1_disjoint by metis
  then have "\<exists>F N. poll_group_queue (port w') = F @ N \<and> (\<forall>u\<in>set F. c u = 32) \<and> (\<forall>u\<in>set N. c u < 32)"
    using FN d assms(4) by (intro exI [of _ "remove1 g F"] exI [of _ "remove1 g N"]) auto
  moreover have "group_handles w = add_mset (afd_device_handle p) (group_handles w')"
  proof -
    have ng: "g \<notin> set (poll_group_queue (port w'))" using d assms(4) by simp
    have "mset (poll_group_queue (port w)) = add_mset g (mset (poll_group_queue (port w')))"
      using g assms(4) by simp
    moreover have "image_mset (\<lambda>g. afd_device_handle (the (groups w' g))) (mset (poll_group_queue (port w'))) =
      image_mset (\<lambda>g. afd_device_handle (the (groups w g))) (mset (poll_group_queue (port w')))"
      using ng assms(3) by (intro image_mset_cong) auto
    ultimately show ?thesis using assms(2) by (simp add: group_handles_def)
  qed
  ultimately show ?thesis using assms d g unfolding groups_sized_def by auto
qed

definition use_group :: "nat \<Rightarrow> nat option program" where
  "use_group g =
     bindP (set_group g (\<lambda>p. p\<lparr>group_size := group_size p + 1\<rparr>)) (\<lambda>_.
     bindP (get_group g) (\<lambda>q.
     bindP (if group_size q = POLL_GROUP_MAX_GROUP_SIZE
            then set_port (\<lambda>p. p\<lparr>poll_group_queue := g # remove1 g (poll_group_queue p)\<rparr>)
            else returnP ()) (\<lambda>_.
     returnP (Some g))))"

lemma use_group_wp:
  assumes "groups_sized B c w" "c g < 32" "poll_group_queue (port w) = qs @ [g]"
  shows "wp (use_group g) (\<lambda>r w'. r = Some g \<and> group_frame w w' \<and>
    groups_sized B (c(g := Suc (c g))) w' \<and> dom (groups w') = dom (groups w)) w"
proof -
  have g: "g \<in> dom (groups w)" using assms(1,3) by (metis groups_sized_def in_set_conv_decomp)
  then obtain p where p: "groups w g = Some p" by blast
  then have u: "unat (group_size p) = c g" "unat (group_size p + 1) = Suc (c g)"
    using assms(1,2) unat_inc [of "group_size p"] by (auto simp: groups_sized_def)
  have d: "distinct (qs @ [g])" using assms(1,3) by (metis groups_sized_def)
  define w1 where "w1 = w\<lparr>groups := (groups w)(g \<mapsto> p\<lparr>group_size := group_size p + 1\<rparr>)\<rparr>"
  define w2 where "w2 = (if c g = 31 then w1\<lparr>port := (port w1)\<lparr>poll_group_queue := g # qs\<rparr>\<rparr> else w1)"
  have "groups_sized B (c(g := Suc (c g))) w2"
    by (rule groups_sized_inc [OF assms(1) p assms(2,3)]) (simp_all add: w1_def w2_def assms(3))
  moreover have "group_frame w w2" by (auto simp: group_frame_def sock_view_def w1_def w2_def)
  moreover have "dom (groups w2) = dom (groups w)" using g by (auto simp: w1_def w2_def)
  moreover have "remove1 g (qs @ [g]) = qs" using d by (simp add: remove1_append)
  ultimately show ?thesis using p u assms(3)
    by (auto simp: wp_rules size_limits w1_def w2_def use_group_def split: if_splits)
qed

lemma poll_group_acquire_eq:
  "poll_group_acquire os = bindP (bindP get_port (\<lambda>p.
       if poll_group_queue p = [] then poll_group_new os
       else bindP (get_group (last (poll_group_queue p))) (\<lambda>q.
            if group_size q \<ge> POLL_GROUP_MAX_GROUP_SIZE then poll_group_new os
            else returnP (Some (last (poll_group_queue p)))))) (\<lambda>r.
     case r of None \<Rightarrow> returnP None | Some g \<Rightarrow> use_group g)"
  unfolding poll_group_acquire_def use_group_def by (rule refl)

text \<open>A group with room is at the end of the queue, if there is one.\<close>

definition group_has_room :: "epoll_world \<Rightarrow> bool" where
  "group_has_room w \<longleftrightarrow> poll_group_queue (port w) \<noteq> [] \<and>
     (case groups w (last (poll_group_queue (port w))) of
        None \<Rightarrow> False
      | Some p \<Rightarrow> group_size p < POLL_GROUP_MAX_GROUP_SIZE)"

lemma full_no_room:
  assumes "groups_sized B c w" "\<forall>g\<in>dom (groups w). c g = 32"
  shows "\<not> group_has_room w"
proof
  assume room: "group_has_room w"
  then obtain p where p: "groups w (last (poll_group_queue (port w))) = Some p"
    "group_size p < POLL_GROUP_MAX_GROUP_SIZE" by (auto simp: group_has_room_def split: option.splits)
  then have "unat (group_size p) = 32" using assms by (auto simp: groups_sized_def)
  then show False using p(2) by (simp add: size_limits)
qed

lemma poll_group_acquire_wp:
  assumes "groups_sized B c w" "iocp_handle (port w) \<noteq> 0 \<or> group_has_room w" "\<forall>g. g \<notin> dom (groups w) \<longrightarrow> c g = 0"
  shows "wp (poll_group_acquire os) (\<lambda>r w'. group_frame w w' \<and>
    (case r of None \<Rightarrow> groups_sized B c w' \<and> groups w' = groups w
     | Some g \<Rightarrow> groups_sized B (c(g := Suc (c g))) w' \<and>
         dom (groups w') = insert g (dom (groups w)) \<and>
         (g \<in> dom (groups w) \<or> (\<forall>u\<in>dom (groups w). c u = 32)))) w" (is "wp _ ?Q w")
proof -
  have new: "wp (bindP (poll_group_new os) (\<lambda>r. case r of None \<Rightarrow> returnP None | Some g \<Rightarrow> use_group g)) ?Q w"
    if full: "\<forall>g\<in>dom (groups w). c g = 32"
  proof (rule wp_bind_mono [OF poll_group_new_wp [OF assms(1) _ assms(3) full]])
    show "iocp_handle (port w) \<noteq> 0" using assms(2) full_no_room [OF assms(1) full] by blast
  next
    fix r w1
    assume *: "group_frame w w1 \<and> groups_sized B c w1 \<and> (case r of None \<Rightarrow> groups w1 = groups w
      | Some g \<Rightarrow> g \<notin> dom (groups w) \<and> dom (groups w1) = insert g (dom (groups w)) \<and>
         poll_group_queue (port w1) = poll_group_queue (port w) @ [g])"
    show "wp (case r of None \<Rightarrow> returnP None | Some g \<Rightarrow> use_group g) ?Q w1"
    proof (cases r)
      case None
      then show ?thesis using * by (simp add: wp_return)
    next
      case (Some g)
      then have "c g < 32" "poll_group_queue (port w1) = poll_group_queue (port w) @ [g]" using * assms(3) by auto
      then have "wp (use_group g) (\<lambda>r w'. r = Some g \<and> group_frame w1 w' \<and>
        groups_sized B (c(g := Suc (c g))) w' \<and> dom (groups w') = dom (groups w1)) w1"
        using * by (intro use_group_wp) auto
      then have "wp (use_group g) ?Q w1"
      proof (rule wp_mono)
        fix r w'
        assume u: "r = Some g \<and> group_frame w1 w' \<and> groups_sized B (c(g := Suc (c g))) w' \<and>
          dom (groups w') = dom (groups w1)"
        then have "group_frame w w'" using * group_frame_trans by blast
        then show "?Q r w'" using u * Some full by simp
      qed
      then show ?thesis using Some by simp
    qed
  qed
  show ?thesis
  proof (cases "\<exists>qs g. poll_group_queue (port w) = qs @ [g] \<and> c g < 32")
    case True
    then obtain qs g where q: "poll_group_queue (port w) = qs @ [g]" "c g < 32" by blast
    have "g \<in> dom (groups w)" using assms(1) q(1) by (metis groups_sized_def in_set_conv_decomp)
    then obtain p where p: "groups w g = Some p" by blast
    then have "\<not> 32 \<le> unat (group_size p)" using assms(1) q(2) by (simp add: groups_sized_def)
    moreover have "wp (use_group g) ?Q w"
      by (rule wp_mono [OF use_group_wp [OF assms(1) q(2,1)]])
        (use \<open>g \<in> dom (groups w)\<close> in \<open>simp add: insert_absorb\<close>)
    ultimately show ?thesis using q p
      by (simp add: poll_group_acquire_eq wp_rules size_limits)
  next
    case False
    obtain F N where FN: "poll_group_queue (port w) = F @ N" "\<forall>g\<in>set F. c g = 32" "\<forall>g\<in>set N. c g < 32"
      and s: "set (poll_group_queue (port w)) = dom (groups w)"
      using assms(1) unfolding groups_sized_def by blast
    have "N = []"
    proof (rule ccontr)
      assume "N \<noteq> []"
      then have "N = butlast N @ [last N]" by simp
      then have "poll_group_queue (port w) = (F @ butlast N) @ [last N] \<and> c (last N) < 32"
        using FN(1,3) \<open>N \<noteq> []\<close> by simp
      then show False using False by blast
    qed
    then have full: "\<forall>g\<in>dom (groups w). c g = 32" using FN s by auto
    show ?thesis
    proof (cases "poll_group_queue (port w) = []")
      case True
      then show ?thesis using new [OF full] by (simp add: poll_group_acquire_eq wp_rules)
    next
      case ne: False
      then have "last (poll_group_queue (port w)) \<in> dom (groups w)" using s last_in_set by blast
      then obtain p where p: "groups w (last (poll_group_queue (port w))) = Some p" by blast
      then have "unat (group_size p) = c (last (poll_group_queue (port w)))"
        using assms(1) unfolding groups_sized_def by blast
      then have "32 \<le> unat (group_size p)" using full p by (simp add: domI)
      note p this
      then show ?thesis using new [OF full] ne by (simp add: poll_group_acquire_eq wp_rules size_limits)
    qed
  qed
qed

lemma poll_group_release_wp:
  assumes "groups_sized B c w" "g \<in> dom (groups w)" "c g > 0"
  shows "wp (poll_group_release g) (\<lambda>_ w'. group_frame w w' \<and> next_address w' = next_address w \<and>
    groups_sized B (c(g := c g - 1)) w' \<and> dom (groups w') = dom (groups w)) w"
proof -
  obtain p where p: "groups w g = Some p" using assms(2) by blast
  then have "unat (group_size p) = c g" "c g \<le> 32" using assms(1) by (auto simp: groups_sized_def)
  then have u: "unat (group_size p - 1) < 32" using assms(3) unat_dec [of "group_size p"] by linarith
  define w1 where "w1 = w\<lparr>groups := (groups w)(g \<mapsto> p\<lparr>group_size := group_size p - 1\<rparr>),
    port := (port w)\<lparr>poll_group_queue := remove1 g (poll_group_queue (port w)) @ [g]\<rparr>\<rparr>"
  have "groups_sized B (c(g := c g - 1)) w1"
    by (rule groups_sized_dec [OF assms(1) p assms(3)]) (simp_all add: w1_def)
  moreover have "group_frame w w1" by (simp add: group_frame_def sock_view_def w1_def)
  moreover have "dom (groups w1) = dom (groups w)" using assms(2) by (auto simp: w1_def)
  ultimately show ?thesis using p u
    by (simp add: poll_group_release_def wp_rules size_limits w1_def)
qed

end
