(* ===== verification/Wepoll_Port_Safe.thy ===== *)
theory Wepoll_Port_Safe
  imports Wepoll_Port_Inv
begin

text \<open>
  The operations on sockets and ports keep the invariant of \<open>Wepoll_Port_Inv\<close> and return.
\<close>

lemma wp_eta:
  "wp (bindP f g) Q = wp f (\<lambda>a. wp (g a) Q)" "wp (returnP a) Q = Q a"
  by (auto simp: fun_eq_iff wp_rules)

section \<open>Calls that leave the port alone\<close>

definition calm :: "epoll_world \<Rightarrow> epoll_world \<Rightarrow> bool" where
  "calm w w' \<longleftrightarrow> quiet w w' \<and> open_handles w' = open_handles w"

lemma calm_refl [simp]: "calm w w"
  by (simp add: calm_def quiet_def)

lemma calm_fields:
  assumes "calm w w'"
  shows "port w' = port w" "socks w' = socks w" "groups w' = groups w" "next_address w' = next_address w"
    "requests w' = requests w" "open_handles w' = open_handles w"
  using assms by (simp_all add: calm_def quiet_def)

lemma core_ok_calm: "calm w w' \<Longrightarrow> core_ok B w \<Longrightarrow> core_ok B w'"
  by (simp add: core_ok_def structure_ok_def groups_ok_def groups_sized_def group_handles_def
      members_of_def sock_links_def calm_fields)

lemma inv_but_calm: "calm w w' \<Longrightarrow> inv_but B A w \<Longrightarrow> inv_but B A w'"
  by (simp add: inv_but_def core_ok_calm requests_ok_def sock_served_def calm_fields)

lemma calm_call [simp]: "calm w (w\<lparr>calls := n\<rparr>)" "calm w (err_set_win_error e w)" "calm w (err_map_win_error w)"
  "calm w (w\<lparr>last_error := e\<rparr>)"
  by (simp_all add: calm_def quiet_def)

lemma calm_trans: "calm u v \<Longrightarrow> calm v w \<Longrightarrow> calm u w"
  by (simp add: calm_def quiet_def)

text \<open>
  What the operations rely on: only a pending request is reported as \<open>ERROR_IO_PENDING\<close>, and the
  chain of service providers below a socket ends.
\<close>

definition os_ok :: "os_calls \<Rightarrow> bool" where
  "os_ok os \<longleftrightarrow> (\<forall>st. dos_error os st = ''ERROR_IO_PENDING'' \<longrightarrow> st = STATUS_PENDING) \<and>
     (\<forall>s (t :: epoll_world). ws_get_base_socket (wsa_ioctl os) s t \<noteq> None)"

text \<open>The kernel takes every request and every cancellation.\<close>

definition os_accepts :: "os_calls \<Rightarrow> bool" where
  "os_accepts os \<longleftrightarrow> (\<forall>n. nt_poll os n = STATUS_SUCCESS \<or> nt_poll os n = STATUS_PENDING \<or>
       dos_error os (nt_poll os n) = ''ERROR_INVALID_HANDLE'') \<and>
     (\<forall>n. nt_cancel os n = STATUS_SUCCESS \<or> nt_cancel os n = STATUS_NOT_FOUND)"

lemma calm_socks: "calm w v \<Longrightarrow> calm (w\<lparr>socks := S\<rparr>) (v\<lparr>socks := S\<rparr>)"
  by (simp add: calm_def quiet_def)

lemma afd_cancel_poll_accepted:
  assumes "socks w a = Some s"
  shows "wp (afd_cancel_poll os a) (\<lambda>r w'. calm w w' \<and> (os_accepts os \<longrightarrow> r = 0)) w"
  using assms by (auto simp: afd_cancel_poll_def wp_rules os_accepts_def calm_def quiet_def)

lemma sock_cancel_poll_wp:
  assumes "socks w a = Some s" "poll_status s = SOCK_POLL_PENDING" "sock_group s \<in> dom (groups w)"
  shows "wp (sock_cancel_poll os a) (\<lambda>r w'.
    r < 0 \<and> calm w w' \<and> \<not> os_accepts os \<or> r = 0 \<and>
      calm (w\<lparr>socks := (socks w)(a \<mapsto> s\<lparr>poll_status := SOCK_POLL_CANCELLED, pending_events := 0\<rparr>)\<rparr>) w') w"
proof -
  have more: "wp (if r < 0 then returnP (- 1)
      else bindP (set_sock a (\<lambda>s. s\<lparr>poll_status := SOCK_POLL_CANCELLED, pending_events := 0\<rparr>)) (\<lambda>_. returnP 0))
    (\<lambda>(r :: int) w'. r < 0 \<and> calm w w' \<and> \<not> os_accepts os \<or> r = 0 \<and>
      calm (w\<lparr>socks := (socks w)(a \<mapsto> s\<lparr>poll_status := SOCK_POLL_CANCELLED, pending_events := 0\<rparr>)\<rparr>) w') v"
    if r: "calm w v \<and> (os_accepts os \<longrightarrow> r = 0)" for r :: int and v
  proof (cases "r < 0")
    case True
    then show ?thesis using r by (auto simp: wp_rules)
  next
    case False
    have "socks v = socks w" using r calm_fields by blast
    then show ?thesis using False r calm_socks [of w v] assms(1) by (simp add: wp_rules)
  qed
  obtain p where "groups w (sock_group s) = Some p" using assms(3) by blast
  moreover note wp_bind_mono [OF afd_cancel_poll_accepted [OF assms(1)] more]
  ultimately show ?thesis
    unfolding sock_cancel_poll_def poll_group_get_afd_device_handle_def wp_bind [of "get_sock a"] wp_get_sock
      wp_bind [of "assertP b" for b] wp_assert wp_bind [of "bindP f g" for f g] wp_bind [of "get_group g" for g]
      wp_get_group wp_bind [of "returnP x" for x] wp_return
    using assms(1,2) by simp
qed

section \<open>The queues\<close>

lemma dequeue_idle: "\<not> enqueued a p \<Longrightarrow> dequeue a p = p"
  by (simp add: enqueued_def dequeue_def remove1_idem)

lemma cancel_socket_update_wp [wp_rules]:
  "wp (port_cancel_socket_update a) Q w = Q () (w\<lparr>port := dequeue a (port w)\<rparr>)"
  using dequeue_idle [of a "port w"] by (auto simp: port_cancel_socket_update_def wp_rules)

lemma remove_deleted_socket_wp [wp_rules]:
  "wp (port_remove_deleted_socket a) Q w = Q () (w\<lparr>port := dequeue a (port w)\<rparr>)"
  using dequeue_idle [of a "port w"] by (auto simp: port_remove_deleted_socket_def wp_rules)

lemma dequeue_fields [simp]:
  "sock_update_queue (dequeue a p) = remove1 a (sock_update_queue p)"
  "sock_deleted_queue (dequeue a p) = remove1 a (sock_deleted_queue p)"
  "sock_tree (dequeue a p) = sock_tree p" "poll_group_queue (dequeue a p) = poll_group_queue p"
  "iocp_handle (dequeue a p) = iocp_handle p" "active_poll_count (dequeue a p) = active_poll_count p"
  by (simp_all add: dequeue_def)

section \<open>Members of groups\<close>

lemma structure_finite: "structure_ok w \<Longrightarrow> finite (dom (socks w))"
  unfolding structure_ok_def using finite_subset [OF _ finite_lessThan] by blast

lemma finite_members: "finite (dom (socks w)) \<Longrightarrow> finite (members_of w g)"
  by (rule finite_subset [of _ "dom (socks w)"]) (auto simp: members_of_def)

lemma members_remove:
  assumes "socks w a = Some s" "socks w' = (socks w)(a := None)" "finite (dom (socks w))"
  shows "(\<lambda>g. card (members_of w' g)) =
    (\<lambda>g. card (members_of w g))(sock_group s := card (members_of w (sock_group s)) - 1)"
proof
  fix g
  have "members_of w' g = members_of w g - {a}" using assms(2) by (auto simp: members_of_def)
  moreover have "a \<in> members_of w g \<longleftrightarrow> g = sock_group s" using assms(1) by (auto simp: members_of_def)
  ultimately show "card (members_of w' g) =
    ((\<lambda>g. card (members_of w g))(sock_group s := card (members_of w (sock_group s)) - 1)) g"
    by (cases "g = sock_group s") (auto simp: card_Diff_singleton)
qed

lemma members_add:
  assumes "socks w a = None" "socks w' = (socks w)(a \<mapsto> s)" "finite (dom (socks w))"
  shows "(\<lambda>g. card (members_of w' g)) =
    (\<lambda>g. card (members_of w g))(sock_group s := Suc (card (members_of w (sock_group s))))"
proof
  fix g
  have "members_of w' g = (if g = sock_group s then insert a (members_of w g) else members_of w g)"
    "a \<notin> members_of w g" using assms(1,2) by (auto simp: members_of_def)
  then show "card (members_of w' g) =
    ((\<lambda>g. card (members_of w g))(sock_group s := Suc (card (members_of w (sock_group s))))) g"
    using finite_members [OF assms(3)] by auto
qed

lemma members_same:
  assumes "\<And>b. map_option sock_group (socks w' b) = map_option sock_group (socks w b)"
  shows "members_of w' g = members_of w g"
proof -
  have "(\<exists>s. socks v b = Some s \<and> sock_group s = g) = (map_option sock_group (socks v b) = Some g)"
    for v :: epoll_world and b
    by (cases "socks v b") auto
  then show ?thesis unfolding members_of_def using assms by (auto simp only:)
qed

lemma groups_sized_socks [simp]:
  "groups_sized B c (w\<lparr>socks := S\<rparr>) = groups_sized B c w"
  "groups_sized B c (w\<lparr>requests := R\<rparr>) = groups_sized B c w"
  by (simp_all add: groups_sized_def group_handles_def)

lemma release_free_wp:
  assumes "groups_ok B w" "socks w a = Some s" "finite (dom (socks w))"
  shows "wp (bindP (poll_group_release (sock_group s)) (\<lambda>_. sock_free a)) (\<lambda>_ w'.
    socks w' = (socks w)(a := None) \<and> requests w' = requests w \<and> next_address w' = next_address w \<and>
    (port w')\<lparr>poll_group_queue := []\<rparr> = (port w)\<lparr>poll_group_queue := []\<rparr> \<and>
    groups_ok B w' \<and> dom (groups w') = dom (groups w)) w"
proof (rule wp_bind_mono)
  let ?c = "\<lambda>g. card (members_of w g)"
  have "a \<in> members_of w (sock_group s)" using assms(2) by (simp add: members_of_def)
  then have "?c (sock_group s) > 0" using finite_members [OF assms(3)] by (auto simp: card_gt_0_iff)
  then show "wp (poll_group_release (sock_group s)) (\<lambda>_ w'. group_frame w w' \<and> next_address w' = next_address w \<and>
    groups_sized B (?c(sock_group s := ?c (sock_group s) - 1)) w' \<and> dom (groups w') = dom (groups w)) w"
    using assms(1,2) by (intro poll_group_release_wp) (auto simp: groups_ok_def)
next
  fix u w1
  let ?c = "\<lambda>g. card (members_of w g)"
  assume *: "group_frame w w1 \<and> next_address w1 = next_address w \<and>
    groups_sized B (?c(sock_group s := ?c (sock_group s) - 1)) w1 \<and> dom (groups w1) = dom (groups w)"
  define w2 where "w2 = w1\<lparr>socks := (socks w1)(a := None)\<rparr>"
  have f: "socks w1 = socks w" "requests w1 = requests w"
    using * group_frame_fields by blast+
  have "(\<lambda>g. card (members_of w2 g)) = ?c(sock_group s := ?c (sock_group s) - 1)"
    by (rule members_remove [OF assms(2) _ assms(3)]) (simp add: w2_def f)
  then have "groups_ok B w2" using * assms(1) f by (auto simp: groups_ok_def w2_def split: if_splits)
  then show "wp (sock_free a) (\<lambda>_ w'.
    socks w' = (socks w)(a := None) \<and> requests w' = requests w \<and> next_address w' = next_address w \<and>
    (port w')\<lparr>poll_group_queue := []\<rparr> = (port w)\<lparr>poll_group_queue := []\<rparr> \<and>
    groups_ok B w' \<and> dom (groups w') = dom (groups w)) w1"
    using * f assms(2) by (simp add: sock_free_def wp_rules w2_def group_frame_def sock_view_def)
qed


section \<open>Deleting a socket\<close>

text \<open>Marked as deleted, and in no queue and not in the tree any more.\<close>

definition unlinked :: "u64 multiset \<Rightarrow> nat \<Rightarrow> epoll_world \<Rightarrow> bool" where
  "unlinked B a w \<longleftrightarrow> structure_ok w \<and> groups_ok B w \<and>
     (\<forall>b s. b \<noteq> a \<longrightarrow> socks w b = Some s \<longrightarrow> sock_links w b s) \<and>
     (\<exists>s. socks w a = Some s \<and> delete_pending s) \<and> a \<notin> set (upd_q w) \<and> a \<notin> set (del_q w)"

definition delete_frame :: "nat \<Rightarrow> sock_state \<Rightarrow> epoll_world \<Rightarrow> epoll_world \<Rightarrow> bool" where
  "delete_frame a s w w' \<longleftrightarrow> next_address w' = next_address w \<and> requests w' = requests w \<and>
     iocp_handle (port w') = iocp_handle (port w) \<and> active_poll_count (port w') = active_poll_count (port w) \<and>
     dom (groups w') = dom (groups w) \<and>
     upd_q w' = remove1 a (upd_q w) \<and> remove1 a (del_q w') = remove1 a (del_q w) \<and>
     registered w' = (if delete_pending s then registered w else (registered w)(sock_key s := None)) \<and>
     (\<forall>b. b \<noteq> a \<longrightarrow> socks w' b = socks w b)"

lemma core_okD:
  assumes "core_ok B w"
  shows "structure_ok w" "groups_ok B w" "socks w a = Some s \<Longrightarrow> sock_links w a s"
    "socks w a = Some s \<Longrightarrow> sock_group s \<in> dom (groups w)" "finite (dom (socks w))"
  using assms structure_finite by (auto simp: core_ok_def groups_ok_def)

lemma groups_ok_socks:
  assumes "groups_ok B w" "\<And>b. map_option sock_group (S b) = map_option sock_group (socks w b)"
  shows "groups_ok B (w\<lparr>socks := S\<rparr>)"
proof -
  have "members_of (w\<lparr>socks := S\<rparr>) g = members_of w g" for g by (rule members_same) (simp add: assms(2))
  moreover have "sock_group s \<in> dom (groups w)" if S: "S a = Some s" for a s
  proof -
    obtain u where "socks w a = Some u" "sock_group u = sock_group s"
      using assms(2) [of a] S by (cases "socks w a") auto
    then show ?thesis using assms(1) unfolding groups_ok_def by metis
  qed
  ultimately show ?thesis using assms(1) by (auto simp: groups_ok_def)
qed

lemma groups_ok_port:
  "groups_ok B w \<Longrightarrow> poll_group_queue p = poll_group_queue (port w) \<Longrightarrow> groups_ok B (w\<lparr>port := p\<rparr>)"
  by (simp add: groups_ok_def groups_sized_def group_handles_def members_of_def)

lemma structure_registered:
  "structure_ok w \<Longrightarrow> registered w k = Some b \<Longrightarrow>
   \<exists>s. socks w b = Some s \<and> sock_key s = k \<and> \<not> delete_pending s"
  by (simp add: structure_ok_def)

lemma unlink_wp:
  assumes "core_ok B w" "socks w a = Some s" "\<not> delete_pending s"
  shows "wp (bindP (port_cancel_socket_update a) (\<lambda>_.
    bindP (port_unregister_socket a) (\<lambda>_. set_sock a (\<lambda>s. s\<lparr>delete_pending := True\<rparr>))))
    (\<lambda>_ w'. unlinked B a w' \<and> delete_frame a s w w' \<and> del_q w' = del_q w \<and>
      socks w' = (socks w)(a \<mapsto> s\<lparr>delete_pending := True\<rparr>)) w"
proof -
  note c = core_okD [OF assms(1)]
  have l: "registered w (sock_key s) = Some a" "a \<notin> set (del_q w)"
    using c(3) [OF assms(2)] assms(3) by (auto simp: sock_links_def)
  have t: "tree_ok (sock_tree (port w))" using c(1) by (simp add: structure_ok_def)
  obtain t' where t': "tree_del (sock_key s) (sock_tree (port w)) = Inr t'" "tree_ok t'"
    "tree_map t' = (registered w)(sock_key s := None)"
    using rb.del_present [OF t, of "sock_key s"] l(1) by (auto simp del: fun_upd_apply)
  define w' where "w' = w\<lparr>port := (dequeue a (port w))\<lparr>sock_tree := t'\<rparr>,
    socks := (socks w)(a \<mapsto> s\<lparr>delete_pending := True\<rparr>)\<rparr>"
  have "structure_ok w'"
    unfolding structure_ok_def
  proof (intro conjI allI impI)
    fix k b assume "registered w' k = Some b"
    then have k: "k \<noteq> sock_key s" "registered w k = Some b" using t'(3) by (auto simp: w'_def split: if_splits)
    then obtain u where u: "socks w b = Some u" "sock_key u = k" "\<not> delete_pending u"
      using structure_registered [OF c(1)] by blast
    then have "b \<noteq> a" using k(1) assms(2) by auto
    then show "\<exists>s. socks w' b = Some s \<and> sock_key s = k \<and> \<not> delete_pending s" using u by (simp add: w'_def)
  qed (use c(1) t'(2) l(2) assms(2) in \<open>auto simp: structure_ok_def w'_def remove1_idem dest: notin_set_remove1 in_mono\<close>)
  moreover have "groups_ok B w'"
    unfolding w'_def by (intro groups_ok_socks groups_ok_port c(2)) (simp_all add: assms(2))
  moreover have "sock_links w' b u" if "b \<noteq> a" "socks w' b = Some u" for b u
  proof -
    have u: "socks w b = Some u" using that by (simp add: w'_def)
    then have "sock_links w b u" by (rule c(3))
    moreover have "sock_key u \<noteq> sock_key s" if "\<not> delete_pending u"
      using calculation that \<open>b \<noteq> a\<close> l(1) by (auto simp: sock_links_def)
    ultimately show ?thesis using that(1) t'(3) by (auto simp: sock_links_def w'_def)
  qed
  moreover have "a \<notin> set (upd_q w')" "a \<notin> set (del_q w')"
    using c(1) l(2) by (auto simp: w'_def structure_ok_def remove1_idem)
  ultimately have "unlinked B a w'" by (auto simp: unlinked_def w'_def)
  moreover have "delete_frame a s w w'" using t'(3) assms(3) l(2)
    by (simp add: delete_frame_def w'_def remove1_idem)
  moreover have "del_q w' = del_q w" using l(2) by (simp add: w'_def remove1_idem)
  ultimately show ?thesis using t'(1) assms(2)
    by (simp add: wp_rules port_unregister_socket_def w'_def)
qed


lemma port_queues_eq:
  assumes "p\<lparr>poll_group_queue := []\<rparr> = q\<lparr>poll_group_queue := []\<rparr>"
  shows "sock_tree p = sock_tree q" "sock_update_queue p = sock_update_queue q"
    "sock_deleted_queue p = sock_deleted_queue q" "iocp_handle p = iocp_handle q"
    "active_poll_count p = active_poll_count q"
  using arg_cong [OF assms, of sock_tree] arg_cong [OF assms, of sock_update_queue]
    arg_cong [OF assms, of sock_deleted_queue] arg_cong [OF assms, of iocp_handle]
    arg_cong [OF assms, of active_poll_count] by simp_all

lemma free_unlinked_wp:
  assumes "unlinked B a w" "socks w a = Some s"
  shows "wp (bindP (poll_group_release (sock_group s)) (\<lambda>_. sock_free a)) (\<lambda>_ w'.
    core_ok B w' \<and> socks w' = (socks w)(a := None) \<and> upd_q w' = upd_q w \<and> del_q w' = del_q w \<and>
    registered w' = registered w \<and> next_address w' = next_address w \<and> requests w' = requests w \<and>
    iocp_handle (port w') = iocp_handle (port w) \<and> active_poll_count (port w') = active_poll_count (port w) \<and>
    dom (groups w') = dom (groups w)) w"
proof (rule wp_mono [OF release_free_wp])
  show "groups_ok B w" "socks w a = Some s" "finite (dom (socks w))"
    using assms structure_finite by (auto simp: unlinked_def)
  fix r w'
  assume *: "socks w' = (socks w)(a := None) \<and> requests w' = requests w \<and> next_address w' = next_address w \<and>
    (port w')\<lparr>poll_group_queue := []\<rparr> = (port w)\<lparr>poll_group_queue := []\<rparr> \<and>
    groups_ok B w' \<and> dom (groups w') = dom (groups w)"
  then have f: "sock_tree (port w') = sock_tree (port w)" "upd_q w' = upd_q w" "del_q w' = del_q w"
    "iocp_handle (port w') = iocp_handle (port w)" "active_poll_count (port w') = active_poll_count (port w)"
    using port_queues_eq by blast+
  have st: "structure_ok w" "delete_pending s" "a \<notin> set (upd_q w)" "a \<notin> set (del_q w)"
    using assms by (auto simp: unlinked_def)
  have "structure_ok w'"
    unfolding structure_ok_def
  proof (intro conjI allI impI)
    fix k b assume "registered w' k = Some b"
    then obtain u where u: "socks w b = Some u" "sock_key u = k" "\<not> delete_pending u"
      using structure_registered [OF st(1)] f(1) by auto
    then have "b \<noteq> a" using st(2) assms(2) by auto
    then show "\<exists>s. socks w' b = Some s \<and> sock_key s = k \<and> \<not> delete_pending s" using u * by simp
  qed (use st * f in \<open>auto simp: structure_ok_def\<close>)
  moreover have "sock_links w' b u" if "socks w' b = Some u" for b u
    using that assms(1) * f by (auto simp: unlinked_def sock_links_def split: if_splits)
  ultimately show "core_ok B w' \<and> socks w' = (socks w)(a := None) \<and> upd_q w' = upd_q w \<and> del_q w' = del_q w \<and>
    registered w' = registered w \<and> next_address w' = next_address w \<and> requests w' = requests w \<and>
    iocp_handle (port w') = iocp_handle (port w) \<and> active_poll_count (port w') = active_poll_count (port w) \<and>
    dom (groups w') = dom (groups w)"
    using * f by (simp add: core_ok_def)
qed

lemma queue_unlinked_ok:
  assumes "unlinked B a w"
  shows "core_ok B (w\<lparr>port := (port w)\<lparr>sock_deleted_queue := del_q w @ [a]\<rparr>\<rparr>)" (is "core_ok B ?w")
proof -
  have "structure_ok ?w" using assms by (auto simp: unlinked_def structure_ok_def)
  moreover have "groups_ok B ?w" using assms groups_ok_port by (auto simp: unlinked_def)
  moreover have "sock_links ?w b u" if "socks ?w b = Some u" for b u
    using that assms by (cases "b = a") (auto simp: unlinked_def sock_links_def split: if_splits)
  ultimately show ?thesis by (simp add: core_ok_def)
qed

text \<open>A socket that is deleted already leaves its queue.\<close>

lemma dequeue_unlinked:
  assumes "core_ok B w" "socks w a = Some s" "delete_pending s"
  shows "unlinked B a (w\<lparr>port := dequeue a (port w)\<rparr>)" (is "unlinked B a ?w")
proof -
  note c = core_okD [OF assms(1)]
  have "structure_ok ?w"
    using c(1) by (auto simp: structure_ok_def dest: notin_set_remove1 in_mono)
  moreover have "groups_ok B ?w" using c(2) by (rule groups_ok_port) simp
  moreover have "sock_links ?w b u" if "b \<noteq> a" "socks ?w b = Some u" for b u
    using c(3) [of b u] that by (auto simp: sock_links_def)
  ultimately show ?thesis using assms(2,3) c(1) by (auto simp: unlinked_def structure_ok_def)
qed

definition delete_done :: "u64 multiset \<Rightarrow> nat \<Rightarrow> sock_state \<Rightarrow> bool \<Rightarrow> epoll_world \<Rightarrow> epoll_world \<Rightarrow> bool" where
  "delete_done B a s force w w' \<longleftrightarrow> core_ok B w' \<and> delete_frame a s w w' \<and>
     (if force \<or> poll_status s = SOCK_POLL_IDLE then socks w' a = None
      else \<exists>s'. socks w' a = Some s' \<and> delete_pending s' \<and> poll_status s' \<noteq> SOCK_POLL_IDLE)"

lemma delete_tail_wp:
  assumes "unlinked B a v" "socks v a = Some s'" "delete_frame a s w v"
    and "poll_status s' = SOCK_POLL_IDLE \<longleftrightarrow> poll_status s = SOCK_POLL_IDLE"
  shows "wp (bindP (get_sock a) (\<lambda>s.
     if force \<or> poll_status s = SOCK_POLL_IDLE then
       bindP (port_remove_deleted_socket a) (\<lambda>_.
       bindP (poll_group_release (sock_group s)) (\<lambda>_.
       bindP (sock_free a) (\<lambda>_. returnP 0)))
     else
       bindP (port_add_deleted_socket a) (\<lambda>_. returnP 0))) (\<lambda>r w'. r = 0 \<and> delete_done B a s force w w') v"
proof (cases "force \<or> poll_status s = SOCK_POLL_IDLE")
  case True
  have u: "\<not> enqueued a (port v)" using assms(1) by (simp add: unlinked_def enqueued_def)
  have "wp (bindP (poll_group_release (sock_group s')) (\<lambda>_. sock_free a))
    (\<lambda>_ w'. delete_done B a s force w w') v"
    by (rule wp_mono [OF free_unlinked_wp [OF assms(1,2)]])
      (use assms(3) True in \<open>simp add: delete_done_def delete_frame_def\<close>)
  then show ?thesis using assms(2,4) True dequeue_idle [OF u] by (simp add: wp_rules wp_eta)
next
  case False
  have u: "\<not> enqueued a (port v)" using assms(1) by (simp add: unlinked_def enqueued_def)
  have "a \<notin> set (del_q v)" using assms(1) by (simp add: unlinked_def)
  then have "delete_frame a s w (v\<lparr>port := (port v)\<lparr>sock_deleted_queue := del_q v @ [a]\<rparr>\<rparr>)"
    using assms(3) by (simp add: delete_frame_def remove1_append remove1_idem)
  moreover have "delete_pending s'" using assms(1,2) by (auto simp: unlinked_def)
  ultimately show ?thesis using assms(2,4) False u queue_unlinked_ok [OF assms(1)]
    by (simp add: wp_rules port_add_deleted_socket_def delete_done_def)
qed

text \<open>A socket changes, but not its group, its key and whether it is deleted.\<close>

definition same_place :: "sock_state \<Rightarrow> sock_state \<Rightarrow> bool" where
  "same_place s s' \<longleftrightarrow> sock_group s' = sock_group s \<and> sock_key s' = sock_key s \<and>
     delete_pending s' = delete_pending s"

lemma core_ok_sock:
  assumes "core_ok B w" "socks w a = Some s" "same_place s s'"
  shows "core_ok B (w\<lparr>socks := (socks w)(a \<mapsto> s')\<rparr>)" (is "core_ok B ?w")
proof -
  note c = core_okD [OF assms(1)]
  have "structure_ok ?w"
  proof -
    have "\<exists>u. ((socks w)(a \<mapsto> s')) b = Some u \<and> sock_key u = k \<and> \<not> delete_pending u"
      if "registered w k = Some b" for k b
      using structure_registered [OF c(1) that] assms(2,3) by (auto simp: same_place_def)
    then show ?thesis using c(1) assms(2) by (auto simp: structure_ok_def)
  qed
  moreover have "groups_ok B ?w"
    by (rule groups_ok_socks [OF c(2)]) (use assms in \<open>simp add: same_place_def\<close>)
  moreover have "sock_links ?w b u" if "((socks w)(a \<mapsto> s')) b = Some u" for b u
    using that c(3) [of b] c(3) [OF assms(2)] assms(3)
    by (auto simp: sock_links_def same_place_def split: if_splits)
  ultimately show ?thesis by (simp add: core_ok_def)
qed

lemma sock_cancel_delete_wp:
  assumes "core_ok B w" "socks w a = Some s"
  shows "wp (if poll_status s = SOCK_POLL_PENDING then bindP (sock_cancel_poll os a) (\<lambda>_. returnP ()) else returnP ())
    (\<lambda>_ v. core_ok B v \<and> (\<exists>s'. calm (w\<lparr>socks := (socks w)(a \<mapsto> s')\<rparr>) v \<and>
      delete_pending s' = delete_pending s \<and> sock_key s' = sock_key s \<and>
      (poll_status s' = SOCK_POLL_IDLE \<longleftrightarrow> poll_status s = SOCK_POLL_IDLE))) w" (is "wp _ ?Q w")
proof (cases "poll_status s = SOCK_POLL_PENDING")
  case True
  let ?s = "s\<lparr>poll_status := SOCK_POLL_CANCELLED, pending_events := 0\<rparr>"
  note c = core_okD [OF assms(1)]
  have same: "w\<lparr>socks := (socks w)(a \<mapsto> s)\<rparr> = w" using assms(2) by (simp add: fun_upd_idem)
  have ok: "core_ok B (w\<lparr>socks := (socks w)(a \<mapsto> ?s)\<rparr>)"
    by (rule core_ok_sock [OF assms]) (simp add: same_place_def)
  have "wp (sock_cancel_poll os a) (\<lambda>_. ?Q ()) w"
  proof (rule wp_mono [OF sock_cancel_poll_wp [OF assms(2) True c(4) [OF assms(2)]]])
    fix r v
    assume "r < 0 \<and> calm w v \<and> \<not> os_accepts os \<or> r = 0 \<and> calm (w\<lparr>socks := (socks w)(a \<mapsto> ?s)\<rparr>) v"
    then show "?Q () v"
    proof
      assume "r < 0 \<and> calm w v \<and> \<not> os_accepts os"
      then show ?thesis using core_ok_calm [OF _ assms(1)] same by (intro conjI exI [of _ s]) simp_all
    next
      assume "r = 0 \<and> calm (w\<lparr>socks := (socks w)(a \<mapsto> ?s)\<rparr>) v"
      then show ?thesis using core_ok_calm [OF _ ok] True by (intro conjI exI [of _ ?s]) simp_all
    qed
  qed
  then show ?thesis using True by (simp add: wp_eta)
next
  case False
  have "w\<lparr>socks := (socks w)(a \<mapsto> s)\<rparr> = w" using assms(2) by (simp add: fun_upd_idem)
  then show ?thesis using False assms(1) by (auto simp: wp_rules intro!: exI [of _ s])
qed

lemma sock_delete_force_wp:
  assumes "core_ok B w" "socks w a = Some s"
  shows "wp (sock_delete_force os a force) (\<lambda>r w'. r = 0 \<and> delete_done B a s force w w') w"
proof (cases "delete_pending s")
  case True
  let ?v = "w\<lparr>port := dequeue a (port w)\<rparr>"
  note c = core_okD [OF assms(1)]
  have l: "a \<in> set (del_q w)" "a \<notin> set (upd_q w)" using c(3) [OF assms(2)] True by (auto simp: sock_links_def)
  show ?thesis
  proof (cases "force \<or> poll_status s = SOCK_POLL_IDLE")
    case f: True
    have "delete_frame a s w ?v" using True c(1) by (simp add: delete_frame_def structure_ok_def remove1_idem)
    then have "wp (bindP (poll_group_release (sock_group s)) (\<lambda>_. sock_free a))
      (\<lambda>_ w'. delete_done B a s force w w') ?v"
      using f by (intro wp_mono [OF free_unlinked_wp [OF dequeue_unlinked [OF assms True]]])
        (auto simp: delete_done_def delete_frame_def assms(2))
    then show ?thesis using assms(2) True f
      by (simp add: sock_delete_force_def wp_rules wp_eta)
  next
    case f: False
    have "enqueued a (port w)" using l by (simp add: enqueued_def)
    moreover have "delete_frame a s w w" using True l by (simp add: delete_frame_def remove1_idem)
    ultimately show ?thesis using assms True f
      by (simp add: sock_delete_force_def wp_rules port_add_deleted_socket_def delete_done_def)
  qed
next
  case False
  note tail = delete_tail_wp [of B a _ _ s w force]
  have "wp (bindP (if poll_status s = SOCK_POLL_PENDING then bindP (sock_cancel_poll os a) (\<lambda>_. returnP ()) else returnP ())
    (\<lambda>_. bindP (port_cancel_socket_update a) (\<lambda>_.
    bindP (port_unregister_socket a) (\<lambda>_. set_sock a (\<lambda>s. s\<lparr>delete_pending := True\<rparr>)))))
    (\<lambda>_ v. unlinked B a v \<and> delete_frame a s w v \<and> (\<exists>s'. socks v a = Some s' \<and>
      (poll_status s' = SOCK_POLL_IDLE \<longleftrightarrow> poll_status s = SOCK_POLL_IDLE))) w"
  proof (rule wp_bind_mono [OF sock_cancel_delete_wp [OF assms]])
    fix u :: unit and v
    assume "core_ok B v \<and> (\<exists>s'. calm (w\<lparr>socks := (socks w)(a \<mapsto> s')\<rparr>) v \<and>
      delete_pending s' = delete_pending s \<and> sock_key s' = sock_key s \<and>
      (poll_status s' = SOCK_POLL_IDLE \<longleftrightarrow> poll_status s = SOCK_POLL_IDLE))"
    then obtain s' where s': "core_ok B v" "calm (w\<lparr>socks := (socks w)(a \<mapsto> s')\<rparr>) v" "\<not> delete_pending s'"
      "sock_key s' = sock_key s" "poll_status s' = SOCK_POLL_IDLE \<longleftrightarrow> poll_status s = SOCK_POLL_IDLE"
      using False by auto
    note f = calm_fields [OF s'(2), simplified]
    show "wp (bindP (port_cancel_socket_update a) (\<lambda>_.
      bindP (port_unregister_socket a) (\<lambda>_. set_sock a (\<lambda>s. s\<lparr>delete_pending := True\<rparr>))))
      (\<lambda>_ v. unlinked B a v \<and> delete_frame a s w v \<and> (\<exists>s'. socks v a = Some s' \<and>
      (poll_status s' = SOCK_POLL_IDLE \<longleftrightarrow> poll_status s = SOCK_POLL_IDLE))) v"
      by (rule wp_mono [OF unlink_wp [OF s'(1) _ s'(3)]])
        (use f s'(3-5) False in \<open>auto simp: delete_frame_def\<close>)
  qed
  then have "wp (bindP (bindP (if poll_status s = SOCK_POLL_PENDING
      then bindP (sock_cancel_poll os a) (\<lambda>_. returnP ()) else returnP ())
    (\<lambda>_. bindP (port_cancel_socket_update a) (\<lambda>_.
    bindP (port_unregister_socket a) (\<lambda>_. set_sock a (\<lambda>s. s\<lparr>delete_pending := True\<rparr>)))))
    (\<lambda>_. bindP (get_sock a) (\<lambda>s.
     if force \<or> poll_status s = SOCK_POLL_IDLE then
       bindP (port_remove_deleted_socket a) (\<lambda>_.
       bindP (poll_group_release (sock_group s)) (\<lambda>_.
       bindP (sock_free a) (\<lambda>_. returnP 0)))
     else
       bindP (port_add_deleted_socket a) (\<lambda>_. returnP 0)))) (\<lambda>r w'. r = 0 \<and> delete_done B a s force w w') w"
    using tail by (elim wp_bind_mono) blast
  then show ?thesis
    unfolding sock_delete_force_def wp_bind [of "get_sock a"] wp_get_sock
    using assms(2) False by simp
qed

section \<open>The invariant through the life of a socket\<close>

definition port_kept :: "epoll_world \<Rightarrow> epoll_world \<Rightarrow> bool" where
  "port_kept w w' \<longleftrightarrow> iocp_handle (port w') = iocp_handle (port w) \<and>
     active_poll_count (port w') = active_poll_count (port w)"

lemma port_kept_refl [simp]: "port_kept w w"
  by (simp add: port_kept_def)

lemma port_kept_trans: "port_kept u v \<Longrightarrow> port_kept v w \<Longrightarrow> port_kept u w"
  by (simp add: port_kept_def)

lemma sock_delete_wp:
  assumes "inv_but B {a} w" "socks w a = Some s"
  shows "wp (sock_delete_force os a False) (\<lambda>r w'. r = 0 \<and> port_inv B w' \<and> delete_frame a s w w') w"
proof (rule wp_mono [OF sock_delete_force_wp [OF _ assms(2)]])
  show c: "core_ok B w" using assms(1) by (simp add: inv_but_def)
  fix r :: int and w'
  assume *: "r = 0 \<and> delete_done B a s False w w'"
  then have d: "core_ok B w'" "delete_frame a s w w'" "poll_status s = SOCK_POLL_IDLE \<Longrightarrow> socks w' a = None"
    "poll_status s \<noteq> SOCK_POLL_IDLE \<Longrightarrow> \<exists>s'. socks w' a = Some s' \<and> delete_pending s' \<and> poll_status s' \<noteq> SOCK_POLL_IDLE"
    by (auto simp: delete_done_def)
  have o: "socks w' b = socks w b" "b \<in> set (upd_q w') \<longleftrightarrow> b \<in> set (upd_q w)" if "b \<noteq> a" for b
    using d(2) that by (auto simp: delete_frame_def)
  have rq: "distinct (requests w)" "set (requests w) = {a. \<exists>s. socks w a = Some s \<and> poll_status s \<noteq> SOCK_POLL_IDLE}"
    using assms(1) by (auto simp: inv_but_def requests_ok_def)
  have "(\<exists>u. socks w' b = Some u \<and> poll_status u \<noteq> SOCK_POLL_IDLE) =
    (\<exists>u. socks w b = Some u \<and> poll_status u \<noteq> SOCK_POLL_IDLE)" for b
    using o(1) [of b] d(3,4) assms(2) by (cases "b = a"; cases "poll_status s = SOCK_POLL_IDLE") auto
  then have "requests_ok w'" using rq d(2) by (simp add: requests_ok_def delete_frame_def)
  moreover have "sock_served w' b u" if b: "socks w' b = Some u" for b u
  proof (cases "b = a")
    case True
    then have "delete_pending u \<and> poll_status u \<noteq> SOCK_POLL_IDLE"
      using b d(3,4) by (cases "poll_status s = SOCK_POLL_IDLE") auto
    then show ?thesis by (simp add: sock_served_def)
  next
    case False
    then have "sock_served w b u" using b o assms(1) by (auto simp: inv_but_def)
    then show ?thesis using o(2) [OF False] by (simp add: sock_served_def)
  qed
  ultimately show "r = 0 \<and> port_inv B w' \<and> delete_frame a s w w'"
    using * d by (simp add: port_inv_def inv_but_def)
qed

lemma core_ok_dequeue:
  assumes "core_ok B w" "socks w a = Some s" "\<not> delete_pending s"
  shows "core_ok B (w\<lparr>port := dequeue a (port w)\<rparr>)" (is "core_ok B ?w")
proof -
  note c = core_okD [OF assms(1)]
  have l: "a \<notin> set (del_q w)" using c(3) [OF assms(2)] assms(3) by (simp add: sock_links_def)
  have "structure_ok ?w"
    using c(1) by (auto simp: structure_ok_def dest: notin_set_remove1 in_mono)
  moreover have "groups_ok B ?w" using c(2) by (rule groups_ok_port) simp
  moreover have "sock_links ?w b u" if "socks ?w b = Some u" for b u
    using c(3) [of b u] that l by (auto simp: sock_links_def remove1_idem dest: notin_set_remove1)
  ultimately show ?thesis by (simp add: core_ok_def)
qed

lemma core_ok_requests [simp]: "core_ok B (w\<lparr>requests := R\<rparr>) = core_ok B w"
  by (simp add: core_ok_def structure_ok_def groups_ok_def members_of_def sock_links_def)

text \<open>The socket of an update leaves the update queue, served by a request or waiting for one.\<close>

lemma settle_inv:
  assumes "inv_but B A w" "A \<subseteq> {a}" "socks w a = Some s" "same_place s s'" "\<not> delete_pending s"
    and "R = requests w \<and> poll_status s \<noteq> SOCK_POLL_IDLE \<or> R = a # requests w \<and> poll_status s = SOCK_POLL_IDLE"
    and "poll_status s' = SOCK_POLL_CANCELLED \<and> pending_events s' = 0 \<or> poll_status s' = SOCK_POLL_PENDING \<and>
      user_events s' AND KNOWN_EPOLL_EVENTS AND NOT (pending_events s') = 0"
  shows "port_inv B (w\<lparr>socks := (socks w)(a \<mapsto> s'), requests := R, port := dequeue a (port w)\<rparr>)"
    (is "port_inv B ?w")
proof -
  let ?v = "w\<lparr>socks := (socks w)(a \<mapsto> s')\<rparr>"
  have "core_ok B ?v" using assms(1,3,4) core_ok_sock by (simp add: inv_but_def)
  then have "core_ok B (?v\<lparr>requests := R\<rparr>)" by simp
  then have "core_ok B ((?v\<lparr>requests := R\<rparr>)\<lparr>port := dequeue a (port (?v\<lparr>requests := R\<rparr>))\<rparr>)"
    by (rule core_ok_dequeue [where s = s']) (use assms(4,5) in \<open>simp_all add: same_place_def\<close>)
  then have "core_ok B ?w" by simp
  moreover have "requests_ok ?w"
    using assms(1,3,6,7) by (auto simp: inv_but_def requests_ok_def)
  moreover have "sock_served ?w b u" if b: "socks ?w b = Some u" for b u
  proof (cases "b = a")
    case True
    then show ?thesis using b assms(7) by (auto simp: sock_served_def)
  next
    case False
    then have "sock_served w b u" using b assms(1,2) by (auto simp: inv_but_def)
    then show ?thesis using False by (simp add: sock_served_def)
  qed
  ultimately show ?thesis by (simp add: port_inv_def inv_but_def)
qed


section \<open>Updating a socket\<close>

text \<open>The start of a request: the socket is submitted, or the request is refused with an error.\<close>

definition submitted_sock :: "sock_state \<Rightarrow> sock_state \<Rightarrow> bool" where
  "submitted_sock s s' \<longleftrightarrow> same_place s s' \<and> poll_status s' = poll_status s \<and>
     user_events s' = user_events s \<and> pending_events s' = pending_events s"

lemma status_distinct: "STATUS_PENDING \<noteq> STATUS_SUCCESS"
  by (simp add: STATUS_PENDING_def STATUS_SUCCESS_def)

lemma start_poll_wp:
  assumes "socks w a = Some s" "sock_group s \<in> dom (groups w)" "os_ok os"
  shows "wp (start_poll os a) (\<lambda>r w'. \<exists>s'. submitted_sock s s' \<and>
     (if r < 0 \<and> last_error w' \<noteq> ''ERROR_IO_PENDING''
      then calm (w\<lparr>socks := (socks w)(a \<mapsto> s')\<rparr>) w' \<and> (os_accepts os \<longrightarrow> last_error w' = ''ERROR_INVALID_HANDLE'')
      else calm (w\<lparr>socks := (socks w)(a \<mapsto> s'), requests := a # requests w\<rparr>) w')) w"
proof -
  obtain p where p: "groups w (sock_group s) = Some p" using assms(2) by blast
  let ?i = "\<lparr>poll_timeout = 0x7FFFFFFFFFFFFFFF, number_of_handles = 1,
       poll_exclusive = 0, poll_handle = base_socket s,
       poll_events = epoll_events_to_afd_events (user_events s), poll_handle_status = 0\<rparr>"
  let ?s = "s\<lparr>poll_info := ?i, io_status := STATUS_PENDING\<rparr>"
  have sub: "submitted_sock s ?s" "submitted_sock s (write_result st c e ?s)" for st c e
    by (simp_all add: submitted_sock_def same_place_def write_result_def)
  show ?thesis
    unfolding start_poll_def afd_poll_def poll_group_get_afd_device_handle_def submit_request_def
    using assms(1,3) p sub status_distinct
    by (auto simp: wp_rules calm_def quiet_def os_ok_def os_accepts_def err_set_win_error_def)
qed

definition update_done :: "u64 multiset \<Rightarrow> os_calls \<Rightarrow> nat \<Rightarrow> epoll_world \<Rightarrow> int \<Rightarrow> epoll_world \<Rightarrow> bool" where
  "update_done B os a w r w' \<longleftrightarrow> port_inv B w' \<and> port_kept w w' \<and>
     (r = 0 \<and> upd_q w' = remove1 a (upd_q w) \<or> r = - 1 \<and> upd_q w' = upd_q w \<and> \<not> os_accepts os)"

lemma settle_wp:
  assumes "port_inv B w" "socks w a = Some s" "same_place s s'" "\<not> delete_pending s"
    and "R = requests w \<and> poll_status s \<noteq> SOCK_POLL_IDLE \<or> R = a # requests w \<and> poll_status s = SOCK_POLL_IDLE"
    and "poll_status s' = SOCK_POLL_CANCELLED \<and> pending_events s' = 0 \<or> poll_status s' = SOCK_POLL_PENDING \<and>
      user_events s' AND KNOWN_EPOLL_EVENTS AND NOT (pending_events s') = 0"
    and "calm (w\<lparr>socks := (socks w)(a \<mapsto> s'), requests := R\<rparr>) v"
  shows "update_done B os a w 0 (v\<lparr>port := dequeue a (port v)\<rparr>)"
proof -
  let ?w = "w\<lparr>socks := (socks w)(a \<mapsto> s'), requests := R, port := dequeue a (port w)\<rparr>"
  have "port_inv B ?w"
    using assms(1) unfolding port_inv_def by (intro settle_inv [OF _ _ assms(2-6), unfolded port_inv_def, of _ "{}"]) simp_all
  moreover have "calm ?w (v\<lparr>port := dequeue a (port v)\<rparr>)"
    using calm_fields [OF assms(7)] by (simp add: calm_def quiet_def)
  ultimately have "port_inv B (v\<lparr>port := dequeue a (port v)\<rparr>)"
    using inv_but_calm by (simp add: port_inv_def)
  then show ?thesis using calm_fields(1) [OF assms(7)] by (simp add: update_done_def port_kept_def)
qed

lemma served_in_place:
  assumes "port_inv B w" "socks w a = Some s" "\<not> delete_pending s"
  shows "poll_status s \<noteq> SOCK_POLL_PENDING \<Longrightarrow> pending_events s = 0" "sock_group s \<in> dom (groups w)"
  using assms core_okD(4) [of B w a s] by (auto simp: port_inv_def inv_but_def sock_served_def split: if_splits)

lemma covered_self [simp]: "(x::u32) AND y AND NOT x = 0"
  by (rule bit_word_eqI) (auto simp: bit_simps)

lemma inv_submitted:
  assumes "port_inv B w" "socks w a = Some s" "submitted_sock s s'"
  shows "port_inv B (w\<lparr>socks := (socks w)(a \<mapsto> s')\<rparr>)"
proof -
  have "core_ok B (w\<lparr>socks := (socks w)(a \<mapsto> s')\<rparr>)"
    using assms by (intro core_ok_sock) (auto simp: port_inv_def inv_but_def submitted_sock_def)
  then show ?thesis using assms
    by (auto simp: port_inv_def inv_but_def requests_ok_def sock_served_def submitted_sock_def same_place_def)
qed

lemma sock_update_wp:
  assumes "port_inv B w" "a \<in> set (upd_q w)" "os_ok os"
  shows "wp (sock_update os a) (update_done B os a w) w"
proof -
  have c: "core_ok B w" using assms(1) by (simp add: port_inv_def inv_but_def)
  obtain s where s: "socks w a = Some s"
    using core_okD(1) [OF c] assms(2) by (auto simp: structure_ok_def)
  have dp: "\<not> delete_pending s" using core_okD(3) [OF c s] assms(2) by (auto simp: sock_links_def)
  note pl = served_in_place [OF assms(1) s dp]
  have same: "same_place s s" "w\<lparr>socks := (socks w)(a \<mapsto> s), requests := requests w\<rparr> = w"
    using s by (simp_all add: same_place_def fun_upd_idem)
  show ?thesis
  proof (cases "poll_status s")
    case SOCK_POLL_IDLE
    have go: "wp (if r < 0 then bindP (getP last_error) (\<lambda>e.
           if e = ''ERROR_IO_PENDING''
           then bindP (set_sock a (\<lambda>s. s\<lparr>poll_status := SOCK_POLL_PENDING, pending_events := user_events s\<rparr>))
                  (\<lambda>_. bindP (port_cancel_socket_update a) (\<lambda>_. returnP 0))
           else if e = ''ERROR_INVALID_HANDLE'' then sock_delete_force os a False
           else return_map_error (- 1))
         else bindP (set_sock a (\<lambda>s. s\<lparr>poll_status := SOCK_POLL_PENDING, pending_events := user_events s\<rparr>))
                  (\<lambda>_. bindP (port_cancel_socket_update a) (\<lambda>_. returnP 0))) (update_done B os a w) v"
      if st: "\<exists>s'. submitted_sock s s' \<and> (if r < 0 \<and> last_error v \<noteq> ''ERROR_IO_PENDING''
      then calm (w\<lparr>socks := (socks w)(a \<mapsto> s')\<rparr>) v \<and> (os_accepts os \<longrightarrow> last_error v = ''ERROR_INVALID_HANDLE'')
      else calm (w\<lparr>socks := (socks w)(a \<mapsto> s'), requests := a # requests w\<rparr>) v)" for r :: int and v
    proof (cases "r < 0 \<and> last_error v \<noteq> ''ERROR_IO_PENDING''")
      case True
      then obtain s' where s': "submitted_sock s s'" "calm (w\<lparr>socks := (socks w)(a \<mapsto> s')\<rparr>) v"
        "os_accepts os \<longrightarrow> last_error v = ''ERROR_INVALID_HANDLE''" using st by auto
      have v: "port_inv B v" using inv_but_calm [OF s'(2)] inv_submitted [OF assms(1) s s'(1)]
        by (simp add: port_inv_def)
      then have i: "inv_but B {a} v" by (simp add: port_inv_def inv_but_def)
      note f = calm_fields [OF s'(2), simplified]
      have "socks v a = Some s'" using f by simp
      note del = sock_delete_wp [OF i this, of os]
      have "wp (sock_delete_force os a False) (update_done B os a w) v"
        by (rule wp_mono [OF del])
          (use f in \<open>auto simp: update_done_def port_kept_def delete_frame_def\<close>)
      moreover have "update_done B os a w (- 1) (err_map_win_error v)" if "\<not> os_accepts os"
        using inv_but_calm [of v "err_map_win_error v"] v f that
        by (simp add: update_done_def port_inv_def port_kept_def)
      ultimately show ?thesis using True s'(3) by (auto simp: wp_rules)
    next
      case False
      then obtain s' where s': "submitted_sock s s'"
        "calm (w\<lparr>socks := (socks w)(a \<mapsto> s'), requests := a # requests w\<rparr>) v" using st by auto
      let ?s = "s'\<lparr>poll_status := SOCK_POLL_PENDING, pending_events := user_events s'\<rparr>"
      let ?v = "v\<lparr>socks := (socks v)(a \<mapsto> ?s)\<rparr>"
      have "update_done B os a w 0 (?v\<lparr>port := dequeue a (port ?v)\<rparr>)"
        using s' SOCK_POLL_IDLE calm_fields [OF s'(2)]
        by (intro settle_wp [OF assms(1) s _ dp, where R = "a # requests w" and s' = ?s])
          (auto simp: submitted_sock_def same_place_def calm_def quiet_def)
      then show ?thesis using False calm_fields [OF s'(2)] by (auto simp: wp_rules)
    qed
    note wp_bind_mono [OF start_poll_wp [OF s pl(2) assms(3)] go]
    then show ?thesis
      unfolding sock_update_def Let_def wp_bind [of "get_sock a"] wp_get_sock wp_bind [of "assertP b" for b] wp_assert
      using s dp SOCK_POLL_IDLE by simp
  next
    case SOCK_POLL_PENDING
    show ?thesis
    proof (cases "user_events s AND KNOWN_EPOLL_EVENTS AND NOT (pending_events s) = 0")
      case True
      then have "update_done B os a w 0 (w\<lparr>port := dequeue a (port w)\<rparr>)"
        using settle_wp [OF assms(1) s same(1) dp, of "requests w" w] same(2) SOCK_POLL_PENDING by simp
      then show ?thesis using s dp SOCK_POLL_PENDING True by (simp add: sock_update_def wp_rules)
    next
      case False
      let ?s = "s\<lparr>poll_status := SOCK_POLL_CANCELLED, pending_events := 0\<rparr>"
      have more: "wp (if r < 0 then returnP (- 1) else bindP (port_cancel_socket_update a) (\<lambda>_. returnP 0))
        (update_done B os a w) v"
        if r: "r < 0 \<and> calm w v \<and> \<not> os_accepts os \<or>
          r = 0 \<and> calm (w\<lparr>socks := (socks w)(a \<mapsto> ?s)\<rparr>) v" for r :: int and v
      proof (cases "r < 0")
        case True
        then have v: "calm w v" "\<not> os_accepts os" using r by auto
        then have "update_done B os a w (- 1) v"
          using inv_but_calm [OF v(1)] assms(1) calm_fields(1) [OF v(1)]
          by (simp add: update_done_def port_inv_def port_kept_def)
        then show ?thesis using True by (simp add: wp_rules)
      next
        case False
        then have "calm (w\<lparr>socks := (socks w)(a \<mapsto> ?s), requests := requests w\<rparr>) v" using r by simp
        then have "update_done B os a w 0 (v\<lparr>port := dequeue a (port v)\<rparr>)"
          using SOCK_POLL_PENDING
          by (intro settle_wp [OF assms(1) s _ dp, where s' = ?s and R = "requests w"])
            (auto simp: same_place_def)
        then show ?thesis using False by (simp add: wp_rules)
      qed
      note wp_bind_mono [OF sock_cancel_poll_wp [OF s SOCK_POLL_PENDING pl(2)] more]
      then show ?thesis
        unfolding sock_update_def Let_def wp_bind [of "get_sock a"] wp_get_sock wp_bind [of "assertP b" for b] wp_assert
        using s dp SOCK_POLL_PENDING False by simp
    qed
  next
    case SOCK_POLL_CANCELLED
    then have "update_done B os a w 0 (w\<lparr>port := dequeue a (port w)\<rparr>)"
      using settle_wp [OF assms(1) s same(1) dp, of "requests w" w] same(2) pl(1) by simp
    then show ?thesis using s dp SOCK_POLL_CANCELLED by (simp add: sock_update_def wp_rules)
  qed
qed


section \<open>Completions\<close>

lemma inv_but_close:
  assumes "inv_but B {a} w" "socks w a = Some s" "sock_served w a s"
  shows "port_inv B w"
proof -
  have "sock_served w b u" if "socks w b = Some u" for b u
    using that assms by (cases "b = a") (auto simp: inv_but_def)
  then show ?thesis using assms(1) by (simp add: port_inv_def inv_but_def)
qed

lemma request_update_wp:
  assumes "inv_but B {a} w" "socks w a = Some s" "\<not> delete_pending s"
    and "poll_status s \<noteq> SOCK_POLL_PENDING \<Longrightarrow> pending_events s = 0"
  shows "wp (port_request_socket_update a) (\<lambda>_ w'. port_inv B w' \<and> port_kept w w' \<and>
    socks w' = socks w \<and> requests w' = requests w \<and> a \<in> set (upd_q w') \<and> registered w' = registered w) w"
proof -
  have c: "core_ok B w" using assms(1) by (simp add: inv_but_def)
  have l: "a \<notin> set (del_q w)" using core_okD(3) [OF c assms(2)] assms(3) by (simp add: sock_links_def)
  have sv: "sock_served w b u" if "b \<noteq> a" "socks w b = Some u" for b u
    using that assms(1) by (auto simp: inv_but_def)
  show ?thesis
  proof (cases "enqueued a (port w)")
    case True
    then have "a \<in> set (upd_q w)" using l by (simp add: enqueued_def)
    then have "sock_served w a s" using assms(3,4) by (auto simp: sock_served_def)
    then have "port_inv B w" by (rule inv_but_close [OF assms(1,2)])
    then show ?thesis using True \<open>a \<in> set (upd_q w)\<close> by (simp add: port_request_socket_update_def wp_rules)
  next
    case False
    let ?w = "w\<lparr>port := (port w)\<lparr>sock_update_queue := upd_q w @ [a]\<rparr>\<rparr>"
    have "structure_ok ?w"
      using core_okD(1) [OF c] assms(2) False by (auto simp: structure_ok_def enqueued_def)
    moreover have "groups_ok B ?w" using core_okD(2) [OF c] groups_ok_port by simp
    moreover have "sock_links ?w b u" if "socks w b = Some u" for b u
      using core_okD(3) [OF c that] that assms(2,3) by (auto simp: sock_links_def)
    ultimately have "core_ok B ?w" by (simp add: core_ok_def)
    moreover have "requests_ok ?w" using assms(1) by (simp add: inv_but_def requests_ok_def)
    moreover have "sock_served ?w b u" if "socks w b = Some u" for b u
      using sv [of b u] that assms(2-4) by (cases "b = a") (auto simp: sock_served_def)
    ultimately have "port_inv B ?w" by (simp add: port_inv_def inv_but_def)
    then show ?thesis using False by (simp add: port_request_socket_update_def wp_rules port_kept_def)
  qed
qed

text \<open>A socket that is queued for an update may change what it asks for.\<close>

lemma set_user_events:
  assumes "port_inv B w" "socks w a = Some s" "a \<in> set (upd_q w)"
  shows "port_inv B (w\<lparr>socks := (socks w)(a \<mapsto> s\<lparr>user_events := e\<rparr>)\<rparr>)"
proof -
  have "core_ok B (w\<lparr>socks := (socks w)(a \<mapsto> s\<lparr>user_events := e\<rparr>)\<rparr>)"
    using assms by (intro core_ok_sock) (auto simp: port_inv_def inv_but_def same_place_def)
  then show ?thesis using assms
    by (auto simp: port_inv_def inv_but_def requests_ok_def sock_served_def)
qed

definition feed_done :: "u64 multiset \<Rightarrow> nat \<Rightarrow> epoll_world \<Rightarrow> epoll_event option \<Rightarrow> epoll_world \<Rightarrow> bool" where
  "feed_done B a w r w' \<longleftrightarrow> port_inv B w' \<and> port_kept w w' \<and> requests w' = remove1 a (requests w) \<and>
     (\<forall>ev data. r = Some (ev, data) \<longrightarrow> (\<exists>s s'. socks w a = Some s \<and> socks w' a = Some s' \<and>
        ev \<noteq> 0 \<and> ev AND NOT (user_events s) = 0 \<and> data = user_data s \<and>
        user_events s' = (if user_events s AND EPOLLONESHOT \<noteq> 0 then 0 else user_events s)))"

lemma taken_inv:
  assumes "port_inv B w" "a \<in> set (requests w)" "socks w a = Some s"
  shows "inv_but B {a} (w\<lparr>requests := remove1 a (requests w),
    socks := (socks w)(a \<mapsto> s\<lparr>poll_status := SOCK_POLL_IDLE, pending_events := 0\<rparr>)\<rparr>)" (is "inv_but B {a} ?w")
proof -
  have "core_ok B (w\<lparr>requests := remove1 a (requests w)\<rparr>)" using assms(1) by (simp add: port_inv_def inv_but_def)
  from core_ok_sock [OF this, of a s] have "core_ok B ?w" using assms(3) by (simp add: same_place_def)
  moreover have "requests_ok ?w"
    using assms by (auto simp: port_inv_def inv_but_def requests_ok_def)
  ultimately show ?thesis using assms by (auto simp: port_inv_def inv_but_def sock_served_def)
qed

lemma and_subset: "(x AND y) AND NOT y = (0::u32)"
  by (rule bit_word_eqI) (auto simp: bit_simps)

lemma sock_feed_event_wp:
  assumes "port_inv B w" "a \<in> set (requests w)"
  shows "wp (sock_feed_event os a) (feed_done B a w) w"
proof -
  obtain s where s: "socks w a = Some s"
    using assms by (auto simp: port_inv_def inv_but_def requests_ok_def)
  let ?s = "s\<lparr>poll_status := SOCK_POLL_IDLE, pending_events := 0\<rparr>"
  define v where "v = w\<lparr>requests := remove1 a (requests w), socks := (socks w)(a \<mapsto> ?s)\<rparr>"
  have v: "inv_but B {a} v" "socks v a = Some ?s" "requests v = remove1 a (requests w)" "port v = port w"
    using taken_inv [OF assms s] by (simp_all add: v_def)
  have del: "wp (bindP (sock_delete_force os a False) (\<lambda>_. returnP None)) (feed_done B a w) v"
    by (rule wp_bind_mono [OF sock_delete_wp [OF v(1,2)]])
      (simp add: wp_rules feed_done_def port_kept_def delete_frame_def v(3,4))
  show ?thesis
  proof (cases "delete_pending s")
    case True
    then show ?thesis using del s by (simp add: sock_feed_event_def take_request_def wp_modify wp_bind wp_set_sock wp_get_sock wp_eta v_def)
  next
    case False
    have upd: "wp (bindP (port_request_socket_update a) (\<lambda>_.
         let events = e AND user_events ?s in
         if events = 0 then returnP None
         else
           bindP (if user_events ?s AND EPOLLONESHOT \<noteq> 0
                  then set_sock a (\<lambda>s. s\<lparr>user_events := 0\<rparr>) else returnP ()) (\<lambda>_.
           returnP (Some (events, user_data ?s))))) (feed_done B a w) v" for e
    proof (rule wp_bind_mono [OF request_update_wp [OF v(1,2)]])
      show "\<not> delete_pending ?s" "poll_status ?s \<noteq> SOCK_POLL_PENDING \<Longrightarrow> pending_events ?s = 0"
        using False by simp_all
      fix u :: unit and x
      assume x: "port_inv B x \<and> port_kept v x \<and> socks x = socks v \<and> requests x = requests v \<and>
        a \<in> set (upd_q x) \<and> registered x = registered v"
      have "port_inv B (x\<lparr>socks := (socks x)(a \<mapsto> ?s\<lparr>user_events := 0\<rparr>)\<rparr>)"
        using x v(2) by (intro set_user_events) auto
      then show "wp (let events = e AND user_events ?s in
         if events = 0 then returnP None
         else
           bindP (if user_events ?s AND EPOLLONESHOT \<noteq> 0
                  then set_sock a (\<lambda>s. s\<lparr>user_events := 0\<rparr>) else returnP ()) (\<lambda>_.
           returnP (Some (events, user_data ?s)))) (feed_done B a w) x"
        using x v s and_subset by (auto simp: wp_rules Let_def feed_done_def port_kept_def)
    qed
    show ?thesis
      using del upd s False
      by (simp add: sock_feed_event_def take_request_def wp_modify wp_bind wp_set_sock wp_get_sock
          wp_eta Let_def flip: v_def)
  qed
qed


lemma port_feed_events_wp:
  "port_inv B w \<Longrightarrow> distinct packets \<Longrightarrow> set packets \<subseteq> set (requests w) \<Longrightarrow>
   wp (port_feed_events os packets) (\<lambda>evs w'. port_inv B w' \<and> port_kept w w' \<and>
     length evs \<le> length packets) w"
proof (induction packets arbitrary: w)
  case Nil
  then show ?case by (simp add: wp_rules)
next
  case (Cons a packets)
  have "wp (bindP (sock_feed_event os a) (\<lambda>ev. bindP (port_feed_events os packets) (\<lambda>evs.
     returnP (case ev of None \<Rightarrow> evs | Some e \<Rightarrow> e # evs))))
    (\<lambda>evs w'. port_inv B w' \<and> port_kept w w' \<and> length evs \<le> length (a # packets)) w"
  proof (rule wp_bind_mono [OF sock_feed_event_wp])
    show "port_inv B w" "a \<in> set (requests w)" using Cons.prems by auto
    fix ev v assume v: "feed_done B a w ev v"
    have "b \<in> set (remove1 a (requests w))" if "b \<in> set packets" for b
      using that Cons.prems(2,3) by (subst in_set_remove1) auto
    then have "port_inv B v" "port_kept w v" "set packets \<subseteq> set (requests v)"
      using v by (auto simp: feed_done_def)
    then have "wp (port_feed_events os packets) (\<lambda>evs w'. port_inv B w' \<and> port_kept v w' \<and>
      length evs \<le> length packets) v" using Cons.IH Cons.prems(2) by simp
    then show "wp (bindP (port_feed_events os packets) (\<lambda>evs.
     returnP (case ev of None \<Rightarrow> evs | Some e \<Rightarrow> e # evs)))
    (\<lambda>evs w'. port_inv B w' \<and> port_kept w w' \<and> length evs \<le> length (a # packets)) v"
      by (rule wp_bind_mono) (use \<open>port_kept w v\<close> port_kept_trans in \<open>auto simp: wp_rules split: option.splits\<close>)
  qed
  then show ?case by simp
qed

section \<open>Requests of the user\<close>

lemma word_and_or_nonzero: "(y::u32) AND z \<noteq> 0 \<Longrightarrow> (x OR y) AND z \<noteq> 0"
proof
  assume "y AND z \<noteq> 0" "(x OR y) AND z = 0"
  moreover have "y AND z = (y AND z) AND ((x OR y) AND z)" by (rule bit_word_eqI) (auto simp: bit_simps)
  ultimately show False by simp
qed

lemma sock_set_event_wp:
  assumes "inv_but B {a} w" "socks w a = Some s" "\<not> delete_pending s"
    and "poll_status s \<noteq> SOCK_POLL_PENDING \<Longrightarrow> pending_events s = 0"
  shows "wp (sock_set_event a ev) (\<lambda>r w'. r = 0 \<and> port_inv B w' \<and> port_kept w w' \<and>
    registered w' = registered w \<and> (\<exists>s'. socks w' = (socks w)(a \<mapsto> s') \<and> same_place s s' \<and>
      user_events s' = fst ev OR EPOLLERR OR EPOLLHUP \<and> user_data s' = snd ev)) w"
proof -
  let ?e = "fst ev OR EPOLLERR OR EPOLLHUP"
  let ?s = "s\<lparr>user_events := ?e, user_data := snd ev\<rparr>"
  let ?v = "w\<lparr>socks := (socks w)(a \<mapsto> ?s)\<rparr>"
  have "core_ok B ?v"
    using assms by (intro core_ok_sock) (auto simp: inv_but_def same_place_def)
  then have v: "inv_but B {a} ?v"
    using assms(1,2) by (auto simp: inv_but_def requests_ok_def sock_served_def)
  show ?thesis
  proof (cases "?e AND KNOWN_EPOLL_EVENTS AND NOT (pending_events s) \<noteq> 0")
    case True
    have "wp (port_request_socket_update a) (\<lambda>_ w'. port_inv B w' \<and> port_kept ?v w' \<and>
      socks w' = socks ?v \<and> requests w' = requests ?v \<and> a \<in> set (upd_q w') \<and> registered w' = registered ?v) ?v"
      using assms by (intro request_update_wp [OF v, where s = ?s]) auto
    then have "wp (port_request_socket_update a) (\<lambda>_ w'. port_inv B w' \<and> port_kept w w' \<and>
      registered w' = registered w \<and> (\<exists>s'. socks w' = (socks w)(a \<mapsto> s') \<and> same_place s s' \<and>
      user_events s' = ?e \<and> user_data s' = snd ev)) ?v"
      by (rule wp_mono) (auto simp: same_place_def port_kept_def intro!: exI [of _ ?s])
    then show ?thesis using True assms(2)
      by (simp add: sock_set_event_def wp_rules wp_eta Let_def)
  next
    case False
    have "poll_status s = SOCK_POLL_PENDING"
    proof (rule ccontr)
      assume "poll_status s \<noteq> SOCK_POLL_PENDING"
      then have "?e AND KNOWN_EPOLL_EVENTS = 0" using assms(4) False by simp
      moreover have "(EPOLLERR OR EPOLLHUP) AND KNOWN_EPOLL_EVENTS \<noteq> 0"
        by (simp add: KNOWN_EPOLL_EVENTS_def event_defs)
      ultimately show False using word_and_or_nonzero by (metis or.assoc)
    qed
    then have "sock_served ?v a ?s" using False assms(3) by (simp add: sock_served_def)
    then have "port_inv B ?v" by (intro inv_but_close [OF v]) simp_all
    then show ?thesis using False assms(2)
      by (auto simp: sock_set_event_def wp_rules same_place_def port_kept_def Let_def intro!: exI [of _ ?s])
  qed
qed


text \<open>The search for the base socket changes the error state and nothing else.\<close>

definition only_errors :: "epoll_world \<Rightarrow> epoll_world \<Rightarrow> bool" where
  "only_errors w w' \<longleftrightarrow> calm w w' \<and> calls w' = calls w"

lemma errors_trans: "only_errors u v \<Longrightarrow> only_errors v w \<Longrightarrow> only_errors u w"
  using calm_trans by (auto simp: only_errors_def)

lemma errors_set: "only_errors w (err_set_win_error e w)"
  using calm_call(2) by (simp add: only_errors_def err_set_win_error_def)

lemma base_socket_errors:
  "ws_get_base_socket ioctl s (t :: epoll_world) = Some (b, t') \<Longrightarrow> only_errors t t'"
proof -
  assume r: "ws_get_base_socket ioctl s t = Some (b, t')"
  have "case (b, t') of (b, t') \<Rightarrow> only_errors t t'"
  proof (rule ws_get_base_socket.raw_induct [where P = "\<lambda>i s t r. case r of (b, t') \<Rightarrow> only_errors t t'", OF _ r])
    fix f :: "(u64 \<Rightarrow> u32 \<Rightarrow> string + u64) \<Rightarrow> u64 \<Rightarrow> epoll_world \<Rightarrow> (u64 \<times> epoll_world) option"
      and ioctl s w y
    assume IH: "\<And>i s w r. f i s w = Some r \<Longrightarrow> case r of (b, t') \<Rightarrow> only_errors w t'"
      and body: "(let (base, w) = ws_ioctl_get_bsp_socket ioctl s SIO_BASE_HANDLE w
      in if base \<noteq> INVALID_SOCKET then Some (base, w)
      else let error = last_error w
      in if error = ''WSAENOTSOCK'' then Some (INVALID_SOCKET, err_set_win_error error w)
      else let (base, w) = ws_ioctl_get_bsp_socket ioctl s SIO_BSP_HANDLE_POLL w
      in if base \<noteq> INVALID_SOCKET \<and> base \<noteq> s then f ioctl base w
         else Some (INVALID_SOCKET, err_set_win_error error w)) = Some y"
    have io: "only_errors w (snd (ws_ioctl_get_bsp_socket ioctl s c w))" for c w
      by (simp add: ws_ioctl_get_bsp_socket_def only_errors_def split: sum.split)
    let ?w1 = "snd (ws_ioctl_get_bsp_socket ioctl s SIO_BASE_HANDLE w)"
    let ?w2 = "snd (ws_ioctl_get_bsp_socket ioctl s SIO_BSP_HANDLE_POLL ?w1)"
    have c: "only_errors w ?w1" "only_errors w ?w2" using io errors_trans by blast+
    have e: "only_errors w (err_set_win_error x ?w1)" "only_errors w (err_set_win_error x ?w2)" for x
      using c errors_trans errors_set by blast+
    have rec: "only_errors w (snd y)" if "f ioctl b ?w2 = Some y" for b
      using IH [OF that] errors_trans [OF c(2)] by (simp add: case_prod_beta)
    have "only_errors w (snd y)"
      using body c e rec by (auto simp: Let_def case_prod_beta split: if_splits)
    then show "case y of (b, t') \<Rightarrow> only_errors w t'" by (simp add: case_prod_beta)
  qed
  then show ?thesis by simp
qed

lemma base_socket_calm:
  "ws_get_base_socket ioctl s (t :: epoll_world) = Some (b, t') \<Longrightarrow> calm t t'"
  using base_socket_errors by (simp add: only_errors_def)


section \<open>New sockets\<close>

lemma inv_groups:
  assumes "port_inv B w" "group_frame w w'" "groups_sized B (\<lambda>g. card (members_of w g)) w'"
    "dom (groups w) \<subseteq> dom (groups w')"
  shows "port_inv B w'"
proof -
  note f = group_frame_fields [OF assms(2)]
  have c: "core_ok B w" using assms(1) by (simp add: port_inv_def inv_but_def)
  have "structure_ok w'" using core_okD(1) [OF c] f by (auto simp: structure_ok_def)
  moreover have "members_of w' = members_of w" using f by (simp add: members_of_def fun_eq_iff)
  moreover have "sock_group s \<in> dom (groups w')" if "socks w a = Some s" for a s
    using core_okD(4) [OF c that] assms(4) by blast
  ultimately have "groups_ok B w'"
    using assms(3) f(1) by (simp add: groups_ok_def)
  moreover note \<open>structure_ok w'\<close>
  ultimately show ?thesis using assms(1) f
    by (simp add: port_inv_def inv_but_def core_ok_def sock_links_def sock_served_def requests_ok_def)
qed

lemma register_inv:
  assumes "port_inv B w" "group_frame w v" "groups_sized B ((\<lambda>u. card (members_of w u))(g := Suc (card (members_of w g)))) v"
    "g \<in> dom (groups v)" "dom (groups w) \<subseteq> dom (groups v)" "next_address v \<le> a"
    and "tree_ok t" "tree_map t = (registered w)(socket \<mapsto> a)" "socket \<notin> dom (registered w)"
    and "sock_key s = socket" "sock_group s = g" "\<not> delete_pending s" "poll_status s = SOCK_POLL_IDLE"
    and "calm (v\<lparr>next_address := Suc a, socks := (socks v)(a \<mapsto> s), port := (port v)\<lparr>sock_tree := t\<rparr>\<rparr>) w'"
  shows "inv_but B {a} w'"
proof -
  let ?x = "v\<lparr>next_address := Suc a, socks := (socks v)(a \<mapsto> s), port := (port v)\<lparr>sock_tree := t\<rparr>\<rparr>"
  note f = group_frame_fields [OF assms(2)]
  have c: "core_ok B w" using assms(1) by (simp add: port_inv_def inv_but_def)
  have dom: "dom (socks w) \<subseteq> {..<next_address w}" using core_okD(1) [OF c] by (simp add: structure_ok_def)
  then have a: "socks w a = None" "next_address w \<le> a" using f(8) assms(6) by fastforce+
  have nr: "a \<notin> set (upd_q w)" "a \<notin> set (del_q w)" "a \<notin> set (requests w)"
    using core_okD(1) [OF c] a(1) assms(1)
    by (auto simp: structure_ok_def port_inv_def inv_but_def requests_ok_def)
  have "structure_ok ?x"
    unfolding structure_ok_def
  proof (intro conjI allI impI)
    fix k b assume k: "registered ?x k = Some b"
    show "\<exists>s. socks ?x b = Some s \<and> sock_key s = k \<and> \<not> delete_pending s"
    proof (cases "k = socket")
      case True
      then show ?thesis using k assms(8,10,12) by simp
    next
      case False
      then obtain u where "socks w b = Some u" "sock_key u = k" "\<not> delete_pending u"
        using structure_registered [OF core_okD(1) [OF c], of k b] k assms(8) by auto
      then show ?thesis using f(1) a(1) by auto
    qed
  qed (use core_okD(1) [OF c] assms(7) f a dom in \<open>auto simp: structure_ok_def\<close>)
  moreover have "groups_ok B ?x"
  proof -
    have "members_of v = members_of w" using f(1) by (simp add: members_of_def fun_eq_iff)
    then have "(\<lambda>u. card (members_of ?x u)) = (\<lambda>u. card (members_of w u))(g := Suc (card (members_of w g)))"
      using members_add [of v a ?x s] a(1) f(1) core_okD(5) [OF c] assms(11) by simp
    moreover have "groups_sized B c ?x" if "groups_sized B c v" for c
      using that assms(6) by (intro groups_sized_cong [OF _ _ _ _ that]) auto
    moreover have "sock_group u \<in> dom (groups v)" if "socks w b = Some u" for b u
      using core_okD(4) [OF c that] assms(5) by blast
    ultimately show ?thesis using assms(3,4,11) f(1)
      by (simp add: groups_ok_def)
  qed
  moreover have "sock_links ?x b u" if "socks ?x b = Some u" for b u
  proof (cases "b = a")
    case True
    then show ?thesis using that assms(8,10,12) nr f by (simp add: sock_links_def)
  next
    case False
    then have "sock_links w b u" using that f(1) core_okD(3) [OF c] by simp
    then show ?thesis using assms(8,9) f by (auto simp: sock_links_def split: if_splits)
  qed
  moreover have "requests_ok ?x"
    using assms(1,13) f a(1) by (auto simp: port_inv_def inv_but_def requests_ok_def)
  moreover have "sock_served ?x b u" if "socks ?x b = Some u" "b \<noteq> a" for b u
    using that assms(1) f by (simp add: port_inv_def inv_but_def sock_served_def)
  ultimately have "inv_but B {a} ?x" by (simp add: inv_but_def core_ok_def)
  then show ?thesis by (rule inv_but_calm [OF assms(14)])
qed


end
