(* ===== verification/Wepoll_Port_Ops.thy ===== *)
theory Wepoll_Port_Ops
  imports Wepoll_Port_Safe
begin

text \<open>
  New sockets, the update queue, polling, control and the end of a port: each operation keeps the
  invariant of \<open>Wepoll_Port_Inv\<close>, returns, and does to the map of registered sockets what it promises.
\<close>

section \<open>New sockets\<close>

lemma wp_pure [wp_rules]: "wp (\<lambda>w. Inr (x, w)) Q w = Q x w"
  by (simp add: wp_def)

definition fresh_sock :: "u64 \<Rightarrow> sock_state \<Rightarrow> bool" where
  "fresh_sock socket s \<longleftrightarrow> sock_key s = socket \<and> \<not> delete_pending s \<and> poll_status s = SOCK_POLL_IDLE \<and>
     pending_events s = 0 \<and> user_events s = 0"

definition new_done :: "u64 multiset \<Rightarrow> u64 \<Rightarrow> epoll_world \<Rightarrow> nat option \<Rightarrow> epoll_world \<Rightarrow> bool" where
  "new_done B socket w r w' \<longleftrightarrow> port_kept w w' \<and> upd_q w' = upd_q w \<and> requests w' = requests w \<and>
     (case r of
        None \<Rightarrow> port_inv B w' \<and> registered w' = registered w \<and> socks w' = socks w
      | Some a \<Rightarrow> inv_but B {a} w' \<and> registered w socket = None \<and>
          registered w' = (registered w)(socket \<mapsto> a) \<and> socks w a = None \<and>
          (\<exists>s. socks w' = (socks w)(a \<mapsto> s) \<and> fresh_sock socket s))"

lemma frame_unchanged:
  assumes "group_frame w w'" "port_inv B w'"
  shows "new_done B socket w None w'"
  using assms(2) group_frame_fields [OF assms(1)] by (simp add: new_done_def port_kept_def)

lemma members_absent: "core_ok B w \<Longrightarrow> g \<notin> dom (groups w) \<Longrightarrow> card (members_of w g) = 0"
  by (auto simp: members_of_def card_eq_0_iff dest: core_okD(4))

lemma give_back_wp:
  assumes "port_inv B w" "group_frame w v" "dom (groups w) \<subseteq> dom (groups v)" "g \<in> dom (groups v)"
    and "groups_sized B ((\<lambda>u. card (members_of w u))(g := Suc (card (members_of w g)))) v"
  shows "wp (bindP (poll_group_release g) (\<lambda>_. returnP None)) (new_done B socket w) v"
proof (rule wp_bind_mono [OF poll_group_release_wp [OF assms(5,4)]])
  show "0 < ((\<lambda>u. card (members_of w u))(g := Suc (card (members_of w g)))) g" by simp
  fix x :: unit and w'
  let ?c = "(\<lambda>u. card (members_of w u))(g := Suc (card (members_of w g)))"
  assume *: "group_frame v w' \<and> next_address w' = next_address v \<and>
    groups_sized B (?c(g := ?c g - 1)) w' \<and> dom (groups w') = dom (groups v)"
  have "?c(g := ?c g - 1) = (\<lambda>u. card (members_of w u))" by auto
  then have "groups_sized B (\<lambda>u. card (members_of w u)) w'" using * by metis
  moreover have "group_frame w w'" using * assms(2) group_frame_trans by blast
  ultimately show "wp (returnP None) (new_done B socket w) w'"
    unfolding wp_return using * assms(1,3) by (intro frame_unchanged inv_groups [OF assms(1)]) auto
qed

lemma group_frame_calm: "group_frame u v \<Longrightarrow> calm v w \<Longrightarrow> group_frame u w"
  by (simp add: group_frame_def sock_view_def calm_fields)

lemma calm_group_frame: "calm u v \<Longrightarrow> group_frame v w \<Longrightarrow> group_frame u w"
  by (simp add: group_frame_def sock_view_def calm_fields)


lemma base_socket_program_wp:
  assumes "os_ok os"
  shows "wp (base_socket_program os socket) (\<lambda>b w'. calm w w' \<and>
    ws_get_base_socket (wsa_ioctl os) socket w = Some (b, w')) w"
proof -
  obtain r where r: "ws_get_base_socket (wsa_ioctl os) socket w = Some r"
    using assms unfolding os_ok_def by blast
  then show ?thesis using base_socket_calm [of "wsa_ioctl os" socket w "fst r" "snd r"]
    by (cases r) (simp add: wp_def base_socket_program_def)
qed

lemma groups_sized_calm: "calm u v \<Longrightarrow> groups_sized B c u \<Longrightarrow> groups_sized B c v"
  by (rule groups_sized_cong [of v u]) (simp_all add: calm_fields)

text \<open>The socket is allocated and registered, in a group that has room for it.\<close>

definition sock_with_group :: "os_calls \<Rightarrow> u64 \<Rightarrow> u64 \<Rightarrow> nat \<Rightarrow> nat option program" where
  "sock_with_group os socket base g =
     bindP callP (\<lambda>n.
     if \<not> malloc_ok os n then
       bindP (modifyP (err_set_win_error ''ERROR_NOT_ENOUGH_MEMORY'')) (\<lambda>_.
       bindP (poll_group_release g) (\<lambda>_. returnP None))
     else
       bindP new_address (\<lambda>a.
       bindP (modifyP (\<lambda>w. w\<lparr>socks := (socks w)(a \<mapsto>
         \<lparr>io_status = 0, poll_info = empty_poll_info, sock_key = 0, sock_group = g,
          base_socket = base, user_data = 0, user_events = 0, pending_events = 0,
          poll_status = SOCK_POLL_IDLE, delete_pending = False\<rparr>)\<rparr>)) (\<lambda>_.
       bindP (port_register_socket a socket) (\<lambda>r.
       if r < 0 then
         bindP (sock_free a) (\<lambda>_. bindP (poll_group_release g) (\<lambda>_. returnP None))
       else returnP (Some a)))))"

lemma sock_with_group_wp:
  assumes "port_inv B w" "group_frame w v" "dom (groups w) \<subseteq> dom (groups v)" "g \<in> dom (groups v)"
    and "groups_sized B ((\<lambda>u. card (members_of w u))(g := Suc (card (members_of w g)))) v"
  shows "wp (sock_with_group os socket base g) (new_done B socket w) v"
proof -
  let ?c = "(\<lambda>u. card (members_of w u))(g := Suc (card (members_of w g)))"
  let ?a = "next_address v"
  define s where "s = \<lparr>io_status = 0, poll_info = empty_poll_info, sock_key = 0, sock_group = g,
    base_socket = base, user_data = 0, user_events = 0, pending_events = 0,
    poll_status = SOCK_POLL_IDLE, delete_pending = False\<rparr>"
  define v1 where "v1 = v\<lparr>calls := Suc (calls v)\<rparr>"
  define v2 where "v2 = v1\<lparr>next_address := Suc ?a, socks := (socks v)(?a \<mapsto> s)\<rparr>"
  note f = group_frame_fields [OF assms(2)]
  have c: "core_ok B w" using assms(1) by (simp add: port_inv_def inv_but_def)
  have t: "tree_ok (sock_tree (port w))" using core_okD(1) [OF c] by (simp add: structure_ok_def)
  have a: "socks v ?a = None"
    using core_okD(1) [OF c] f(1,8) by (fastforce simp: structure_ok_def)
  have giveb: "wp (bindP (poll_group_release g) (\<lambda>_. returnP None)) (new_done B socket w) x"
    if "socks x = socks v" "port x = port v" "groups x = groups v" "requests x = requests v"
      "next_address v \<le> next_address x" "open_handles x = open_handles v" for x
  proof (rule give_back_wp [OF assms(1)])
    show "group_frame w x" using that assms(2) by (auto simp: group_frame_def sock_view_def)
    show "groups_sized B ?c x" using that by (intro groups_sized_cong [OF _ _ _ _ assms(5)]) auto
  qed (use that assms in auto)
  have reg: "wp (port_register_socket ?a socket) (\<lambda>r x.
      if r < 0 then x = err_set_win_error ''ERROR_ALREADY_EXISTS'' v2
      else new_done B socket w (Some ?a) x) v2"
  proof (cases "registered w socket")
    case None
    then obtain t' where t': "tree_add socket ?a (sock_tree (port w)) = Inr (Some t')" "tree_ok t'"
      "tree_map t' = (registered w)(socket \<mapsto> ?a)" using rb.add_new [OF t, of socket ?a] by auto
    let ?s = "s\<lparr>sock_key := socket\<rparr>"
    define v3 where "v3 = v1\<lparr>next_address := Suc ?a, port := (port v)\<lparr>sock_tree := t'\<rparr>,
      socks := (socks v)(?a \<mapsto> ?s)\<rparr>"
    have "inv_but B {?a} v3"
      by (rule register_inv [OF assms(1,2,5,4,3) order_refl t'(2,3), of ?s])
        (simp_all add: None s_def v3_def v1_def calm_def quiet_def dom_def)
    then have "new_done B socket w (Some ?a) v3"
      using None t'(3) f a
      by (auto simp: new_done_def port_kept_def v3_def v1_def fresh_sock_def s_def intro!: exI [of _ ?s])
    then show ?thesis using t'(1) f(3)
      by (simp add: port_register_socket_def wp_rules v2_def v3_def v1_def)
  next
    case (Some b)
    then have "tree_add socket ?a (sock_tree (port w)) = Inr None" using rb.add_taken [OF t] by blast
    then show ?thesis using f(3) by (simp add: port_register_socket_def wp_rules v2_def v1_def)
  qed
  have rest: "wp (bindP (port_register_socket ?a socket) (\<lambda>r.
       if r < 0 then bindP (sock_free ?a) (\<lambda>_. bindP (poll_group_release g) (\<lambda>_. returnP None))
       else returnP (Some ?a))) (new_done B socket w) v2"
  proof (rule wp_bind_mono [OF reg])
    fix r :: int and x
    assume x: "if r < 0 then x = err_set_win_error ''ERROR_ALREADY_EXISTS'' v2
      else new_done B socket w (Some ?a) x"
    have "wp (bindP (poll_group_release g) (\<lambda>_. returnP None)) (new_done B socket w)
      ((err_set_win_error ''ERROR_ALREADY_EXISTS'' v2)\<lparr>socks := (socks v2)(?a := None)\<rparr>)"
      using a by (intro giveb) (auto simp: v2_def v1_def err_set_win_error_def fun_upd_idem)
    then have "wp (bindP (sock_free ?a) (\<lambda>_. bindP (poll_group_release g) (\<lambda>_. returnP None)))
      (new_done B socket w) (err_set_win_error ''ERROR_ALREADY_EXISTS'' v2)"
      by (simp add: sock_free_def wp_bind wp_get_sock wp_modify) (simp add: v2_def)
    then show "wp (if r < 0 then bindP (sock_free ?a) (\<lambda>_. bindP (poll_group_release g) (\<lambda>_. returnP None))
       else returnP (Some ?a)) (new_done B socket w) x"
      using x by (simp add: wp_return split: if_splits)
  qed
  have "wp (bindP (poll_group_release g) (\<lambda>_. returnP None)) (new_done B socket w)
    (err_set_win_error ''ERROR_NOT_ENOUGH_MEMORY'' v1)"
    by (rule giveb) (simp_all add: v1_def err_set_win_error_def)
  then show ?thesis using rest
    by (simp add: sock_with_group_def wp_bind [of callP] wp_call wp_bind [of "modifyP f" for f] wp_modify
        wp_bind [of new_address] wp_new_address v2_def v1_def cong: if_cong flip: s_def)
qed


lemma sock_new_eq:
  "sock_new os socket =
     (if socket = 0 \<or> socket = INVALID_SOCKET then return_set_error None ''ERROR_INVALID_HANDLE''
      else
        bindP (base_socket_program os socket) (\<lambda>base.
        if base = INVALID_SOCKET then returnP None
        else
          bindP (poll_group_acquire os) (\<lambda>g.
          case g of None \<Rightarrow> returnP None | Some g \<Rightarrow> sock_with_group os socket base g)))"
  unfolding sock_new_def sock_with_group_def by (rule refl)

lemma new_done_calm:
  assumes "calm w v" "new_done B socket v r x"
  shows "new_done B socket w r x"
  using assms(2) calm_fields(1,2,5) [OF assms(1)] unfolding new_done_def port_kept_def by (simp only:)

lemma port_inv_calm: "calm w v \<Longrightarrow> port_inv B w \<Longrightarrow> port_inv B v"
  unfolding port_inv_def by (rule inv_but_calm)

lemma calm_none: "port_inv B w \<Longrightarrow> calm w v \<Longrightarrow> new_done B socket w None v"
  using port_inv_calm calm_fields [of w v] by (simp add: new_done_def port_kept_def)

text \<open>
  Adding a socket asks for the completion port when it has to open a device handle for a new group.
  That is what must not happen once the port is closed.
\<close>

definition add_without_port :: "os_calls \<Rightarrow> u64 \<Rightarrow> epoll_world \<Rightarrow> bool" where
  "add_without_port os socket w \<longleftrightarrow> iocp_handle (port w) = 0 \<and> \<not> group_has_room w \<and>
     socket \<noteq> 0 \<and> socket \<noteq> INVALID_SOCKET \<and>
     (case ws_get_base_socket (wsa_ioctl os) socket w of
        None \<Rightarrow> False
      | Some (base, _) \<Rightarrow> base \<noteq> INVALID_SOCKET)"

lemma open_port_adds [simp]: "iocp_handle (port w) \<noteq> 0 \<Longrightarrow> \<not> add_without_port os socket w"
  by (simp add: add_without_port_def)

lemma calm_room: "calm w v \<Longrightarrow> group_has_room v \<longleftrightarrow> group_has_room w"
  by (simp add: group_has_room_def calm_fields)

lemma sock_new_wp:
  assumes "port_inv B w" "os_ok os" "\<not> add_without_port os socket w"
  shows "wp (sock_new os socket) (new_done B socket w) w"
proof (cases "socket = 0 \<or> socket = INVALID_SOCKET")
  case True
  then show ?thesis using calm_none [OF assms(1) calm_call(2)] by (simp add: sock_new_def wp_set_error)
next
  case False
  have "wp (if base = INVALID_SOCKET then returnP None
        else bindP (poll_group_acquire os) (\<lambda>g.
          case g of None \<Rightarrow> returnP None | Some g \<Rightarrow> sock_with_group os socket base g))
      (new_done B socket w) v"
    if b: "calm w v \<and> ws_get_base_socket (wsa_ioctl os) socket w = Some (base, v)" for base v
  proof (cases "base = INVALID_SOCKET")
    case True
    then show ?thesis using calm_none [OF assms(1)] b by (simp add: wp_return)
  next
    case base: False
    have v: "calm w v" using b by blast
    have "iocp_handle (port w) \<noteq> 0 \<or> group_has_room w"
      using assms(3) b base False by (simp add: add_without_port_def)
    then have iv: "port_inv B v" "iocp_handle (port v) \<noteq> 0 \<or> group_has_room v"
      using v assms(1) port_inv_calm calm_fields calm_room by auto
    then have c: "core_ok B v" by (simp add: port_inv_def inv_but_def)
    then have sized: "groups_sized B (\<lambda>g. card (members_of v g)) v"
      by (simp add: core_ok_def groups_ok_def)
    have "\<forall>g. g \<notin> dom (groups v) \<longrightarrow> card (members_of v g) = 0" using members_absent [OF c] by blast
    note acq = poll_group_acquire_wp [OF sized iv(2) this, where os = os]
    have "wp (bindP (poll_group_acquire os) (\<lambda>g.
          case g of None \<Rightarrow> returnP None | Some g \<Rightarrow> sock_with_group os socket base g))
      (new_done B socket v) v"
    proof (rule wp_bind_mono [OF acq])
      fix g x
      assume x: "group_frame v x \<and> (case g of
          None \<Rightarrow> groups_sized B (\<lambda>g. card (members_of v g)) x \<and> groups x = groups v
        | Some g \<Rightarrow> groups_sized B ((\<lambda>u. card (members_of v u))(g := Suc (card (members_of v g)))) x \<and>
            dom (groups x) = insert g (dom (groups v)) \<and>
            (g \<in> dom (groups v) \<or> (\<forall>u\<in>dom (groups v). card (members_of v u) = 32)))"
      show "wp (case g of None \<Rightarrow> returnP None | Some g \<Rightarrow> sock_with_group os socket base g) (new_done B socket v) x"
      proof (cases g)
        case None
        then have "port_inv B x" using x by (intro inv_groups [OF iv(1)]) auto
        then show ?thesis using x None frame_unchanged by (simp add: wp_return)
      next
        case (Some h)
        have "wp (sock_with_group os socket base h) (new_done B socket v) x"
          by (rule sock_with_group_wp [OF iv(1)]) (use x Some in auto)
        then show ?thesis using Some by simp
      qed
    qed
    then have "wp (bindP (poll_group_acquire os) (\<lambda>g.
          case g of None \<Rightarrow> returnP None | Some g \<Rightarrow> sock_with_group os socket base g))
      (new_done B socket w) v" by (rule wp_mono) (rule new_done_calm [OF v])
    then show ?thesis using base by simp
  qed
  then have "wp (bindP (base_socket_program os socket) (\<lambda>base. if base = INVALID_SOCKET then returnP None
        else bindP (poll_group_acquire os) (\<lambda>g.
          case g of None \<Rightarrow> returnP None | Some g \<Rightarrow> sock_with_group os socket base g)))
      (new_done B socket w) w"
    by (rule wp_bind_mono [OF base_socket_program_wp [OF assms(2)]])
  then show ?thesis using False by (simp add: sock_new_eq)
qed


section \<open>The update queue\<close>

definition updates_done :: "u64 multiset \<Rightarrow> os_calls \<Rightarrow> epoll_world \<Rightarrow> int \<Rightarrow> epoll_world \<Rightarrow> bool" where
  "updates_done B os w r w' \<longleftrightarrow> port_inv B w' \<and> port_kept w w' \<and>
     (r = 0 \<and> upd_q w' = [] \<or> r = - 1 \<and> \<not> os_accepts os)"

text \<open>One turn per queued socket is enough: every turn that goes on takes one from the queue.\<close>

lemma update_loop_wp:
  assumes "os_ok os"
  shows "port_inv B w \<Longrightarrow> length (upd_q w) \<le> n \<Longrightarrow> wp (update_loop os n) (updates_done B os w) w"
proof (induction n arbitrary: w)
  case 0
  then show ?case by (simp add: wp_rules updates_done_def)
next
  case (Suc n)
  show ?case
  proof (cases "upd_q w")
    case Nil
    then show ?thesis using Suc.prems(1) by (simp add: wp_rules updates_done_def)
  next
    case (Cons a as)
    have "wp (bindP (sock_update os a) (\<lambda>r. if r < 0 then returnP (- 1) else update_loop os n))
      (updates_done B os w) w"
    proof (rule wp_bind_mono [OF sock_update_wp [OF Suc.prems(1) _ assms]])
      show "a \<in> set (upd_q w)" using Cons by simp
      fix r :: int and x
      assume x: "update_done B os a w r x"
      show "wp (if r < 0 then returnP (- 1) else update_loop os n) (updates_done B os w) x"
      proof (cases "r < 0")
        case True
        then show ?thesis using x by (auto simp: wp_return update_done_def updates_done_def)
      next
        case False
        then have "wp (update_loop os n) (updates_done B os x) x"
          using x Cons Suc.prems(2) by (intro Suc.IH) (auto simp: update_done_def)
        then have "wp (update_loop os n) (updates_done B os w) x"
          by (rule wp_mono) (use x port_kept_trans in \<open>auto simp: update_done_def updates_done_def\<close>)
        then show ?thesis using False by simp
      qed
    qed
    then show ?thesis using Cons by (simp add: wp_bind wp_get_port)
  qed
qed

lemma port_update_events_wp:
  "port_inv B w \<Longrightarrow> os_ok os \<Longrightarrow> wp (port_update_events os) (updates_done B os w) w"
  by (simp add: port_update_events_def wp_bind wp_get_port update_loop_wp del: update_loop.simps)

definition if_polling_done :: "u64 multiset \<Rightarrow> os_calls \<Rightarrow> epoll_world \<Rightarrow> epoll_world \<Rightarrow> bool" where
  "if_polling_done B os w w' \<longleftrightarrow> port_inv B w' \<and> port_kept w w' \<and>
     (if active_poll_count (port w) > 0 then os_accepts os \<longrightarrow> upd_q w' = [] else w' = w)"

lemma if_polling_wp:
  assumes "port_inv B w" "os_ok os"
  shows "wp (port_update_events_if_polling os) (\<lambda>_. if_polling_done B os w) w"
proof (cases "active_poll_count (port w) > 0")
  case True
  have "wp (bindP (port_update_events os) (\<lambda>_. returnP ())) (\<lambda>_. if_polling_done B os w) w"
    by (rule wp_bind_mono [OF port_update_events_wp [OF assms]])
      (use True in \<open>auto simp: wp_return if_polling_done_def updates_done_def\<close>)
  then show ?thesis using True by (simp add: port_update_events_if_polling_def wp_bind wp_get_port)
next
  case False
  then show ?thesis using assms(1)
    by (simp add: port_update_events_if_polling_def wp_bind wp_get_port wp_return if_polling_done_def)
qed

section \<open>Polling\<close>

lemma port_inv_count:
  "port_inv B (w\<lparr>port := (port w)\<lparr>active_poll_count := n\<rparr>\<rparr>) = port_inv B w"
  by (simp add: port_inv_def inv_but_def core_ok_def structure_ok_def groups_ok_def groups_sized_def
      group_handles_def members_of_def sock_links_def sock_served_def requests_ok_def)

definition polling_kept :: "epoll_world \<Rightarrow> epoll_world \<Rightarrow> u64 \<Rightarrow> bool" where
  "polling_kept w w' d \<longleftrightarrow> iocp_handle (port w') = iocp_handle (port w) \<and>
     active_poll_count (port w') = active_poll_count (port w) + d"

lemma port_poll_begin_wp:
  assumes "port_inv B w" "os_ok os"
  shows "wp (port_poll_begin os) (\<lambda>r w'. port_inv B w' \<and>
    (r = 0 \<and> upd_q w' = [] \<and> polling_kept w w' 1 \<or> r = - 1 \<and> \<not> os_accepts os \<and> polling_kept w w' 0)) w"
  unfolding port_poll_begin_def
  by (rule wp_bind_mono [OF port_update_events_wp [OF assms]])
    (auto simp: wp_rules updates_done_def port_kept_def polling_kept_def port_inv_count)

lemma port_poll_end_wp:
  assumes "port_inv B w" "\<And>packets. r = Inr packets \<Longrightarrow> distinct packets \<and> set packets \<subseteq> set (requests w)"
  shows "wp (port_poll_end os r) (\<lambda>(n, evs) w'. port_inv B w' \<and> polling_kept w w' (- 1) \<and>
    (case r of Inl e \<Rightarrow> n = - 1 \<and> evs = [] \<and> last_error w' = e
     | Inr packets \<Rightarrow> n = int (length evs) \<and> length evs \<le> length packets)) w"
proof (cases r)
  case (Inl e)
  let ?w = "w\<lparr>port := (port w)\<lparr>active_poll_count := active_poll_count (port w) - 1\<rparr>\<rparr>"
  have "port_inv B ?w" using assms(1) by (simp only: port_inv_count)
  then have "port_inv B (err_map_win_error (?w\<lparr>last_error := e\<rparr>))"
    by (rule port_inv_calm [rotated]) (simp add: calm_def quiet_def)
  then show ?thesis using Inl by (simp add: port_poll_end_def wp_rules polling_kept_def err_map_win_error_def)
next
  case (Inr ps)
  let ?w = "w\<lparr>port := (port w)\<lparr>active_poll_count := active_poll_count (port w) - 1\<rparr>\<rparr>"
  have "port_inv B ?w" using assms(1) by (simp only: port_inv_count)
  then have "wp (port_feed_events os ps) (\<lambda>evs w'. port_inv B w' \<and> port_kept ?w w' \<and>
     length evs \<le> length ps) ?w"
    using assms(2) Inr by (intro port_feed_events_wp) (auto split: if_splits)
  then have "wp (bindP (port_feed_events os ps) (\<lambda>evs. returnP (int (length evs), evs)))
    (\<lambda>(n, evs) w'. port_inv B w' \<and> polling_kept w w' (- 1) \<and>
    (case r of Inl e \<Rightarrow> n = - 1 \<and> evs = [] \<and> last_error w' = e
     | Inr packets \<Rightarrow> n = int (length evs) \<and> length evs \<le> length packets)) ?w"
    by (rule wp_bind_mono) (use Inr in \<open>simp add: wp_return port_kept_def polling_kept_def\<close>)
  then show ?thesis using Inr by (simp add: port_poll_end_def wp_bind wp_set_port)
qed


lemma port_wait_finish_wp:
  assumes "port_inv B w" "os_ok os"
  shows "wp (port_wait_finish os timed_out result) (\<lambda>r w'. port_inv B w' \<and> port_kept w w' \<and>
    (os_accepts os \<longrightarrow> active_poll_count (port w) > 0 \<longrightarrow> upd_q w' = []) \<and>
    (result \<ge> 0 \<longrightarrow> r = result) \<and>
    (result < 0 \<longrightarrow> r = (if last_error w' = ''WAIT_TIMEOUT'' then 0 else - 1)) \<and>
    (timed_out \<longrightarrow> result < 0 \<longrightarrow> active_poll_count (port w) = 0 \<longrightarrow> r = 0)) w"
proof -
  let ?w = "if timed_out then w\<lparr>last_error := ''WAIT_TIMEOUT''\<rparr> else w"
  have c: "calm w ?w" by simp
  have "wp (bindP (port_update_events_if_polling os) (\<lambda>_.
     bindP (getP last_error) (\<lambda>e.
     returnP (if result \<ge> 0 then result else if e = ''WAIT_TIMEOUT'' then 0 else - 1))))
    (\<lambda>r w'. port_inv B w' \<and> port_kept w w' \<and>
    (os_accepts os \<longrightarrow> active_poll_count (port w) > 0 \<longrightarrow> upd_q w' = []) \<and>
    (result \<ge> 0 \<longrightarrow> r = result) \<and>
    (result < 0 \<longrightarrow> r = (if last_error w' = ''WAIT_TIMEOUT'' then 0 else - 1)) \<and>
    (timed_out \<longrightarrow> result < 0 \<longrightarrow> active_poll_count (port w) = 0 \<longrightarrow> r = 0)) ?w"
    by (rule wp_bind_mono [OF if_polling_wp [OF port_inv_calm [OF c assms(1)] assms(2)]])
      (use calm_fields(1) [OF c] in \<open>auto simp: wp_rules if_polling_done_def port_kept_def split: if_splits\<close>)
  then show ?thesis
    unfolding port_wait_finish_def wp_bind [of "if b then f else g" for b f g] wp_if wp_modify wp_return
    by (cases timed_out) (simp_all only: if_True if_False)
qed

section \<open>Control\<close>

lemma find_registered: "port_inv B w \<Longrightarrow> tree_find k (sock_tree (port w)) = registered w k"
  by (intro rb.lookup_contents) (simp add: port_inv_def inv_but_def core_ok_def structure_ok_def)

lemma registered_sock:
  assumes "port_inv B w" "registered w k = Some a"
  obtains s where "socks w a = Some s" "sock_key s = k" "\<not> delete_pending s"
    "poll_status s \<noteq> SOCK_POLL_PENDING \<Longrightarrow> pending_events s = 0"
proof -
  have "structure_ok w" using assms(1) by (simp add: port_inv_def inv_but_def core_ok_def)
  then obtain s where "socks w a = Some s" "sock_key s = k" "\<not> delete_pending s"
    using structure_registered assms(2) by blast
  then show thesis using that served_in_place(1) [OF assms(1)] by blast
qed

text \<open>After an event is set: updates, if somebody polls.\<close>

definition set_done :: "u64 multiset \<Rightarrow> os_calls \<Rightarrow> (u64 \<Rightarrow> nat option) \<Rightarrow> nat \<Rightarrow> epoll_event \<Rightarrow>
    epoll_world \<Rightarrow> epoll_world \<Rightarrow> bool" where
  "set_done B os reg a ev w w' \<longleftrightarrow> port_inv B w' \<and> port_kept w w' \<and>
     (if active_poll_count (port w) > 0 then os_accepts os \<longrightarrow> upd_q w' = []
      else registered w' = reg \<and> (\<forall>b. b \<noteq> a \<longrightarrow> socks w' b = socks w b) \<and> (\<exists>s. socks w' a = Some s \<and> user_data s = snd ev \<and>
        user_events s = fst ev OR EPOLLERR OR EPOLLHUP))"

lemma set_update_wp:
  assumes "inv_but B {a} w" "socks w a = Some s" "\<not> delete_pending s" "os_ok os"
    and "poll_status s \<noteq> SOCK_POLL_PENDING \<Longrightarrow> pending_events s = 0"
  shows "wp (bindP (sock_set_event a ev) (\<lambda>r. if r < 0 then f
      else bindP (port_update_events_if_polling os) (\<lambda>_. returnP 0)))
    (\<lambda>r w'. r = 0 \<and> set_done B os (registered w) a ev w w') w"
proof (rule wp_bind_mono [OF sock_set_event_wp [OF assms(1,2,3,5)]])
  fix r :: int and x
  assume x: "r = 0 \<and> port_inv B x \<and> port_kept w x \<and>
    registered x = registered w \<and> (\<exists>s'. socks x = (socks w)(a \<mapsto> s') \<and> same_place s s' \<and>
      user_events s' = fst ev OR EPOLLERR OR EPOLLHUP \<and> user_data s' = snd ev)"
  then have "wp (bindP (port_update_events_if_polling os) (\<lambda>_. returnP 0))
    (\<lambda>r w'. r = 0 \<and> set_done B os (registered w) a ev w w') x"
    by (intro wp_bind_mono [OF if_polling_wp [OF _ assms(4)]])
      (auto simp: wp_return if_polling_done_def set_done_def port_kept_def split: if_splits)
  then show "wp (if r < 0 then f else bindP (port_update_events_if_polling os) (\<lambda>_. returnP 0))
    (\<lambda>r w'. r = 0 \<and> set_done B os (registered w) a ev w w') x" using x by simp
qed

definition add_done :: "u64 multiset \<Rightarrow> os_calls \<Rightarrow> u64 \<Rightarrow> epoll_event \<Rightarrow> epoll_world \<Rightarrow> int \<Rightarrow> epoll_world \<Rightarrow> bool" where
  "add_done B os sock ev w r w' \<longleftrightarrow> port_inv B w' \<and> port_kept w w' \<and>
     (r = - 1 \<and> registered w' = registered w \<and> socks w' = socks w \<and> upd_q w' = upd_q w \<or>
      r = 0 \<and> registered w sock = None \<and>
        (\<exists>a. socks w a = None \<and> set_done B os ((registered w)(sock \<mapsto> a)) a ev w w'))"

lemma port_ctl_add_wp:
  assumes "port_inv B w" "os_ok os" "\<not> add_without_port os sock w"
  shows "wp (port_ctl_add os sock ev) (add_done B os sock ev w) w"
  unfolding port_ctl_add_def
proof (rule wp_bind_mono [OF sock_new_wp [OF assms]])
  fix r x
  assume x: "new_done B sock w r x"
  show "wp (case r of None \<Rightarrow> returnP (- 1)
     | Some a \<Rightarrow>
         bindP (sock_set_event a ev) (\<lambda>r.
         if r < 0 then bindP (sock_delete os a) (\<lambda>_. returnP (- 1))
         else bindP (port_update_events_if_polling os) (\<lambda>_. returnP 0))) (add_done B os sock ev w) x"
  proof (cases r)
    case None
    then show ?thesis using x by (simp add: wp_return new_done_def add_done_def)
  next
    case (Some a)
    then obtain s where s: "inv_but B {a} x" "registered w sock = None" "port_kept w x" "socks w a = None"
      "registered x = (registered w)(sock \<mapsto> a)" "socks x a = Some s" "fresh_sock sock s"
      "\<forall>b. b \<noteq> a \<longrightarrow> socks x b = socks w b"
      using x unfolding new_done_def by fastforce
    have "wp (bindP (sock_set_event a ev) (\<lambda>r.
         if r < 0 then bindP (sock_delete os a) (\<lambda>_. returnP (- 1))
         else bindP (port_update_events_if_polling os) (\<lambda>_. returnP 0))) (add_done B os sock ev w) x"
      by (rule wp_mono [OF set_update_wp [OF s(1,6) _ assms(2)]])
        (use s in \<open>auto simp: fresh_sock_def add_done_def set_done_def port_kept_def split: if_splits\<close>)
    then show ?thesis using Some by simp
  qed
qed

definition mod_done :: "u64 multiset \<Rightarrow> os_calls \<Rightarrow> u64 \<Rightarrow> epoll_event \<Rightarrow> epoll_world \<Rightarrow> int \<Rightarrow> epoll_world \<Rightarrow> bool" where
  "mod_done B os sock ev w r w' \<longleftrightarrow> (case registered w sock of
     None \<Rightarrow> r = - 1 \<and> w' = err_set_win_error ''ERROR_NOT_FOUND'' w
   | Some a \<Rightarrow> r = 0 \<and> set_done B os (registered w) a ev w w')"

lemma port_ctl_mod_wp:
  assumes "port_inv B w" "os_ok os"
  shows "wp (port_ctl_mod os sock ev) (\<lambda>r w'. mod_done B os sock ev w r w' \<and> port_inv B w' \<and> port_kept w w') w"
proof (cases "registered w sock")
  case None
  have "port_inv B (err_set_win_error ''ERROR_NOT_FOUND'' w)"
    using port_inv_calm [OF calm_call(2) assms(1)] .
  then show ?thesis using None find_registered [OF assms(1)]
    by (simp add: port_ctl_mod_def port_find_socket_def wp_rules mod_done_def port_kept_def)
next
  case (Some a)
  obtain s where s: "socks w a = Some s" "\<not> delete_pending s"
    "poll_status s \<noteq> SOCK_POLL_PENDING \<Longrightarrow> pending_events s = 0"
    using registered_sock [OF assms(1) Some] by metis
  have "inv_but B {a} w" using assms(1) by (simp add: port_inv_def inv_but_def)
  from set_update_wp [OF this s(1,2) assms(2) s(3), of ev "returnP (- 1)"]
  have "wp (bindP (sock_set_event a ev) (\<lambda>r. if r < 0 then returnP (- 1)
      else bindP (port_update_events_if_polling os) (\<lambda>_. returnP 0)))
    (\<lambda>r w'. mod_done B os sock ev w r w' \<and> port_inv B w' \<and> port_kept w w') w"
    by (rule wp_mono) (use Some in \<open>auto simp: mod_done_def set_done_def\<close>)
  then show ?thesis using Some find_registered [OF assms(1)]
    by (simp add: port_ctl_mod_def port_find_socket_def wp_bind [of "bindP f g" for f g] wp_bind [of get_port]
        wp_get_port wp_eta)
qed

definition del_done :: "u64 \<Rightarrow> epoll_world \<Rightarrow> int \<Rightarrow> epoll_world \<Rightarrow> bool" where
  "del_done sock w r w' \<longleftrightarrow> (case registered w sock of
     None \<Rightarrow> r = - 1 \<and> w' = err_set_win_error ''ERROR_NOT_FOUND'' w
   | Some a \<Rightarrow> r = 0 \<and> registered w' = (registered w)(sock := None) \<and> requests w' = requests w \<and>
       upd_q w' = remove1 a (upd_q w) \<and> (\<forall>b. b \<noteq> a \<longrightarrow> socks w' b = socks w b))"

lemma port_ctl_del_wp:
  assumes "port_inv B w"
  shows "wp (port_ctl_del os sock) (\<lambda>r w'. del_done sock w r w' \<and> port_inv B w' \<and> port_kept w w') w"
proof (cases "registered w sock")
  case None
  have "port_inv B (err_set_win_error ''ERROR_NOT_FOUND'' w)"
    using port_inv_calm [OF calm_call(2) assms] .
  then show ?thesis using None find_registered [OF assms]
    by (simp add: port_ctl_del_def port_find_socket_def wp_rules del_done_def port_kept_def)
next
  case (Some a)
  obtain s where s: "socks w a = Some s" "sock_key s = sock" "\<not> delete_pending s"
    using registered_sock [OF assms Some] by metis
  have "inv_but B {a} w" using assms by (simp add: port_inv_def inv_but_def)
  from sock_delete_wp [OF this s(1), of os]
  have "wp (bindP (sock_delete_force os a False) (\<lambda>_. returnP 0))
    (\<lambda>r w'. del_done sock w r w' \<and> port_inv B w' \<and> port_kept w w') w"
    by (rule wp_bind_mono)
      (use Some s in \<open>auto simp: wp_return del_done_def delete_frame_def port_kept_def\<close>)
  then show ?thesis using Some find_registered [OF assms]
    by (simp add: port_ctl_del_def sock_delete_def port_find_socket_def wp_bind wp_get_port wp_eta)
qed


section \<open>The end of a port\<close>

definition released :: "epoll_world \<Rightarrow> epoll_world \<Rightarrow> bool" where
  "released w w' \<longleftrightarrow> iocp_handle (port w') = iocp_handle (port w)"

lemma force_delete_wp:
  assumes "core_ok B w" "socks w a = Some s"
  shows "wp (sock_force_delete os a) (\<lambda>_ w'. core_ok B w' \<and> socks w' a = None \<and> delete_frame a s w w') w"
  unfolding sock_force_delete_def
  by (rule wp_bind_mono [OF sock_delete_force_wp [OF assms]]) (simp add: wp_return delete_done_def)

lemma delete_tree_sockets_wp:
  "core_ok B w \<Longrightarrow> card (dom (registered w)) \<le> n \<Longrightarrow>
   wp (delete_tree_sockets os n) (\<lambda>_ w'. core_ok B w' \<and> released w w' \<and> registered w' = Map.empty) w"
proof (induction n arbitrary: w)
  case 0
  have t: "tree_ok (sock_tree (port w))" using 0 by (simp add: core_ok_def structure_ok_def)
  then have "registered w = Map.empty" using 0 rb.finite_contents by (auto simp: dom_eq_empty_conv)
  then show ?case using 0 rb.top_none [OF t] by (simp add: wp_bind wp_get_port wp_return released_def)
next
  case (Suc n)
  have t: "tree_ok (sock_tree (port w))" using Suc by (simp add: core_ok_def structure_ok_def)
  show ?case
  proof (cases "tree_root (sock_tree (port w))")
    case None
    then show ?thesis using Suc rb.top_none [OF t] by (simp add: wp_bind wp_get_port wp_return released_def)
  next
    case (Some e)
    then obtain k a where e: "tree_root (sock_tree (port w)) = Some (k, a)" by (cases e) auto
    then have k: "registered w k = Some a" by (rule rb.top_some [OF t])
    then obtain s where s: "socks w a = Some s" "sock_key s = k" "\<not> delete_pending s"
      using structure_registered [OF core_okD(1) [OF Suc.prems(1)] k] by blast
    have "wp (bindP (sock_force_delete os a) (\<lambda>_. delete_tree_sockets os n))
      (\<lambda>_ w'. core_ok B w' \<and> released w w' \<and> registered w' = Map.empty) w"
    proof (rule wp_bind_mono [OF force_delete_wp [OF Suc.prems(1) s(1)]])
      fix u :: unit and x
      assume x: "core_ok B x \<and> socks x a = None \<and> delete_frame a s w x"
      then have "registered x = (registered w)(k := None)" using s by (simp add: delete_frame_def)
      then have "card (dom (registered x)) < card (dom (registered w))"
        using k rb.finite_contents [OF t] card_Diff1_less by (metis domI dom_fun_upd)
      then have "wp (delete_tree_sockets os n)
        (\<lambda>_ w'. core_ok B w' \<and> released x w' \<and> registered w' = Map.empty) x"
        using x Suc.prems(2) by (intro Suc.IH) auto
      then show "wp (delete_tree_sockets os n)
        (\<lambda>_ w'. core_ok B w' \<and> released w w' \<and> registered w' = Map.empty) x"
        by (rule wp_mono) (use x in \<open>simp add: released_def delete_frame_def\<close>)
    qed
    then show ?thesis using e by (simp add: wp_bind wp_get_port)
  qed
qed

lemma delete_deleted_sockets_wp:
  "core_ok B w \<Longrightarrow> registered w = Map.empty \<Longrightarrow> length (del_q w) \<le> n \<Longrightarrow>
   wp (delete_deleted_sockets os n) (\<lambda>_ w'. core_ok B w' \<and> released w w' \<and> registered w' = Map.empty \<and>
     del_q w' = []) w"
proof (induction n arbitrary: w)
  case 0
  then show ?case by (simp add: wp_bind wp_get_port wp_return released_def)
next
  case (Suc n)
  show ?case
  proof (cases "del_q w")
    case Nil
    then show ?thesis using Suc by (simp add: wp_bind wp_get_port wp_return released_def)
  next
    case (Cons a as)
    have st: "structure_ok w" using Suc.prems(1) by (simp add: core_ok_def)
    then obtain s where s: "socks w a = Some s" using Cons by (auto simp: structure_ok_def)
    have dp: "delete_pending s"
      using core_okD(3) [OF Suc.prems(1) s] Suc.prems(2) by (auto simp: sock_links_def split: if_splits)
    have "wp (bindP (sock_force_delete os a) (\<lambda>_. delete_deleted_sockets os n))
      (\<lambda>_ w'. core_ok B w' \<and> released w w' \<and> registered w' = Map.empty \<and> del_q w' = []) w"
    proof (rule wp_bind_mono [OF force_delete_wp [OF Suc.prems(1) s]])
      fix u :: unit and x
      assume x: "core_ok B x \<and> socks x a = None \<and> delete_frame a s w x"
      then have "a \<notin> set (del_q x)" by (auto simp: core_ok_def structure_ok_def)
      then have "del_q x = as" using x Cons by (simp add: delete_frame_def remove1_idem)
      then have "wp (delete_deleted_sockets os n)
        (\<lambda>_ w'. core_ok B w' \<and> released x w' \<and> registered w' = Map.empty \<and> del_q w' = []) x"
        using x Suc.prems Cons dp by (intro Suc.IH) (auto simp: delete_frame_def)
      then show "wp (delete_deleted_sockets os n)
        (\<lambda>_ w'. core_ok B w' \<and> released w w' \<and> registered w' = Map.empty \<and> del_q w' = []) x"
        by (rule wp_mono) (use x in \<open>simp add: released_def delete_frame_def\<close>)
    qed
    then show ?thesis using Cons by (simp add: wp_bind wp_get_port)
  qed
qed

lemma no_sockets_left:
  assumes "core_ok B w" "registered w = Map.empty" "del_q w = []"
  shows "socks w = Map.empty" "upd_q w = []"
proof -
  have "socks w a = None" for a
  proof (cases "socks w a")
    case (Some s)
    then show ?thesis using core_okD(3) [OF assms(1) Some] assms(2,3)
      by (auto simp: sock_links_def split: if_splits)
  qed
  then show "socks w = Map.empty" by auto
  then show "upd_q w = []" using core_okD(1) [OF assms(1)] by (auto simp: structure_ok_def)
qed

lemma poll_group_delete_wp:
  assumes "groups_sized B (\<lambda>_. 0) w" "g \<in> set (poll_group_queue (port w))"
  shows "wp (poll_group_delete g) (\<lambda>_ w'. groups_sized B (\<lambda>_. 0) w' \<and> socks w' = socks w \<and>
    (port w')\<lparr>poll_group_queue := []\<rparr> = (port w)\<lparr>poll_group_queue := []\<rparr> \<and>
    poll_group_queue (port w') = remove1 g (poll_group_queue (port w))) w"
proof -
  obtain p where p: "groups w g = Some p" using assms by (auto simp: groups_sized_def)
  then have "unat (group_size p) = 0" using assms(1) by (auto simp: groups_sized_def)
  then have z: "group_size p = 0" by (simp add: unat_eq_0)
  let ?w = "w\<lparr>open_handles := remove1 (afd_device_handle p) (open_handles w),
    port := (port w)\<lparr>poll_group_queue := remove1 g (poll_group_queue (port w))\<rparr>, groups := (groups w)(g := None)\<rparr>"
  have "groups_sized B (\<lambda>_. 0) ?w" by (rule groups_sized_del [OF assms(1) p]) simp_all
  then show ?thesis using p z by (simp add: poll_group_delete_def CloseHandle_def wp_rules del: fun_upd_apply)
qed

lemma delete_poll_groups_wp:
  "groups_sized B (\<lambda>_. 0) w \<Longrightarrow> length (poll_group_queue (port w)) \<le> n \<Longrightarrow>
   wp (delete_poll_groups n) (\<lambda>_ w'. groups w' = Map.empty \<and> mset (open_handles w') = B \<and>
     socks w' = socks w \<and> port w' = (port w)\<lparr>poll_group_queue := []\<rparr>) w"
proof (induction n arbitrary: w)
  case 0
  then show ?case by (auto simp: wp_bind wp_get_port wp_return groups_sized_def group_handles_def)
next
  case (Suc n)
  show ?case
  proof (cases "poll_group_queue (port w)")
    case Nil
    then show ?thesis using Suc.prems(1)
      by (auto simp: wp_bind wp_get_port wp_return groups_sized_def group_handles_def)
  next
    case (Cons g gs)
    have "wp (bindP (poll_group_delete g) (\<lambda>_. delete_poll_groups n))
      (\<lambda>_ w'. groups w' = Map.empty \<and> mset (open_handles w') = B \<and>
        socks w' = socks w \<and> port w' = (port w)\<lparr>poll_group_queue := []\<rparr>) w"
    proof (rule wp_bind_mono [OF poll_group_delete_wp [OF Suc.prems(1)]])
      show "g \<in> set (poll_group_queue (port w))" using Cons by simp
      fix u :: unit and x
      assume x: "groups_sized B (\<lambda>_. 0) x \<and> socks x = socks w \<and>
        (port x)\<lparr>poll_group_queue := []\<rparr> = (port w)\<lparr>poll_group_queue := []\<rparr> \<and>
        poll_group_queue (port x) = remove1 g (poll_group_queue (port w))"
      then have "wp (delete_poll_groups n) (\<lambda>_ w'. groups w' = Map.empty \<and> mset (open_handles w') = B \<and>
        socks w' = socks x \<and> port w' = (port x)\<lparr>poll_group_queue := []\<rparr>) x"
        using Suc.prems(2) Cons by (intro Suc.IH) auto
      then show "wp (delete_poll_groups n) (\<lambda>_ w'. groups w' = Map.empty \<and> mset (open_handles w') = B \<and>
        socks w' = socks w \<and> port w' = (port w)\<lparr>poll_group_queue := []\<rparr>) x"
        by (rule wp_mono) (use x in simp)
    qed
    then show ?thesis using Cons by (simp add: wp_bind wp_get_port)
  qed
qed

lemma card_dom_tree: "card (dom (tree_map t)) \<le> length (inorder t)"
proof -
  have "card (dom (tree_map t)) \<le> card (set (inorder t))"
    unfolding tree_map_def dom_map_of_conv_image_fst by (rule card_image_le) simp
  then show ?thesis using card_length [of "inorder t"] by linarith
qed

definition port_gone :: "u64 multiset \<Rightarrow> epoll_world \<Rightarrow> bool" where
  "port_gone B w \<longleftrightarrow> socks w = Map.empty \<and> groups w = Map.empty \<and> mset (open_handles w) = B \<and>
     registered w = Map.empty \<and> upd_q w = [] \<and> del_q w = [] \<and> poll_group_queue (port w) = []"

lemma port_delete_wp:
  assumes "core_ok B w" "iocp_handle (port w) = 0"
  shows "wp (port_delete os) (\<lambda>r w'. r = 0 \<and> port_gone B w') w"
proof -
  have 3: "wp (bindP (delete_poll_groups (length (poll_group_queue (port x)))) (\<lambda>_.
     bindP get_port (\<lambda>p. bindP (assertP (sock_update_queue p = [])) (\<lambda>_. returnP 0))))
    (\<lambda>r w'. r = 0 \<and> port_gone B w') x"
    if x: "core_ok B x" "registered x = Map.empty" "del_q x = []" for x
  proof -
    note no = no_sockets_left [OF x]
    have "groups_sized B (\<lambda>_. 0) x"
      using core_okD(2) [OF x(1)] no(1) by (simp add: groups_ok_def members_of_def)
    from delete_poll_groups_wp [OF this order_refl] show ?thesis
      by (rule wp_bind_mono) (use no x in \<open>simp add: wp_rules port_gone_def\<close>)
  qed
  have 2: "wp (bindP (delete_deleted_sockets os (length (del_q x))) (\<lambda>_.
     bindP get_port (\<lambda>p.
     bindP (delete_poll_groups (length (poll_group_queue p))) (\<lambda>_.
     bindP get_port (\<lambda>p. bindP (assertP (sock_update_queue p = [])) (\<lambda>_. returnP 0))))))
    (\<lambda>r w'. r = 0 \<and> port_gone B w') x"
    if x: "core_ok B x" "registered x = Map.empty" for x
    by (rule wp_bind_mono [OF delete_deleted_sockets_wp [OF x order_refl]])
      (simp only: wp_bind [of get_port] wp_get_port, rule 3, simp_all)
  have "wp (bindP (delete_tree_sockets os (length (inorder (sock_tree (port w))))) (\<lambda>_.
     bindP get_port (\<lambda>p.
     bindP (delete_deleted_sockets os (length (sock_deleted_queue p))) (\<lambda>_.
     bindP get_port (\<lambda>p.
     bindP (delete_poll_groups (length (poll_group_queue p))) (\<lambda>_.
     bindP get_port (\<lambda>p. bindP (assertP (sock_update_queue p = [])) (\<lambda>_. returnP 0))))))))
    (\<lambda>r w'. r = 0 \<and> port_gone B w') w"
    by (rule wp_bind_mono [OF delete_tree_sockets_wp [OF assms(1) card_dom_tree]])
      (simp only: wp_bind [of get_port] wp_get_port, rule 2, simp_all)
  then show ?thesis using assms(2)
    by (simp add: port_delete_def wp_bind [of get_port] wp_get_port wp_bind [of "assertP b" for b] wp_assert
        del: delete_tree_sockets.simps)
qed

end
