(* ===== verification/Wepoll_System.thy ===== *)
theory Wepoll_System
  imports Wepoll_Port_Ops
begin

text \<open>
  A port and the threads that use it (\<open>port_wait\<close>, \<open>port_ctl\<close>, \<open>port_close\<close>, \<open>port_delete\<close> of
  \<open>src/src/lib/wepoll.c\<close>), with the kernel, as a state machine. Each event is what one thread does
  between taking the lock of the port and leaving it, or a result that the kernel writes; the events
  come in any order. A thread that waits has left the lock inside \<open>port__poll\<close>.
\<close>

section \<open>Waiting\<close>

text \<open>
  \<open>port_wait\<close> from the top of its loop: it goes to wait (\<open>None\<close>), or returns.
\<close>

definition port_wait_poll :: "os_calls \<Rightarrow> int option program" where
  "port_wait_poll os =
     bindP (port_poll_begin os) (\<lambda>r.
     if r < 0 then bindP (port_wait_finish os False r) (\<lambda>r. returnP (Some r))
     else returnP None)"

text \<open>
  From where it has the lock again: with the events that it has written when it returns.
\<close>

definition port_wait_wake ::
    "os_calls \<Rightarrow> int \<Rightarrow> u64 \<Rightarrow> u64 \<Rightarrow> string + nat list \<Rightarrow> (int \<times> epoll_event list) option program" where
  "port_wait_wake os timeout due now r =
     bindP (port_poll_end os r) (\<lambda>(result, evs).
     case port_wait_turn timeout due now result 0 of
       Wait_done timed_out \<Rightarrow>
         bindP (port_wait_finish os timed_out result) (\<lambda>r. returnP (Some (r, evs)))
     | Wait_again _ \<Rightarrow>
         bindP (port_wait_poll os) (\<lambda>x. returnP (map_option (\<lambda>r. (r, [])) x)))"

section \<open>The state machine\<close>

text \<open>A thread in \<open>port_wait\<close>: how many packets it asks for, its time-out and when it is due.\<close>

record waiter =
  waiter_max :: int
  waiter_timeout :: int
  waiter_due :: u64

record port_system =
  sys_world :: epoll_world
  waiters :: "waiter list"

text \<open>
  \<open>Ctl op socket event\<close>, \<open>Enter alloc clock maxevents timeout\<close>, \<open>Wake i packets clock\<close> (the i-th
  waiting thread), \<open>Complete socket status count events\<close> (the kernel) and \<open>Close\<close>.
\<close>

datatype port_event =
    Ctl int u64 epoll_event
  | Enter bool u64 int int
  | Wake nat "string + nat list" u64
  | Complete nat u32 u32 u32
  | Close "string option"

text \<open>What a call returns when it returns: its result and the events it has written.\<close>

type_synonym answer = "(int \<times> epoll_event list) option"

definition remove_nth :: "nat \<Rightarrow> 'a list \<Rightarrow> 'a list" where
  "remove_nth i xs = take i xs @ drop (Suc i) xs"

fun run_event :: "os_calls \<Rightarrow> port_event \<Rightarrow> port_system \<Rightarrow> (answer \<times> port_system) result" where
  "run_event os (Ctl op sock ev) s =
     bindR (port_ctl os op sock ev (sys_world s)) (\<lambda>(r, w). Inr (Some (r, []), s\<lparr>sys_world := w\<rparr>))"
| "run_event os (Enter alloc clock maxevents timeout) s =
     (case port_wait_start alloc clock maxevents timeout of
        None \<Rightarrow>
          bindR (return_set_error (- 1) ''ERROR_INVALID_PARAMETER'' (sys_world s)) (\<lambda>(r, w).
          Inr (Some (r, []), s\<lparr>sys_world := w\<rparr>))
      | Some a \<Rightarrow>
          bindR (port_wait_poll os (sys_world s)) (\<lambda>(x, w).
          case x of
            Some r \<Rightarrow> Inr (Some (r, []), s\<lparr>sys_world := w\<rparr>)
          | None \<Rightarrow> Inr (None, s\<lparr>sys_world := w, waiters := waiters s @
              [\<lparr>waiter_max = wait_max a, waiter_timeout = timeout, waiter_due = wait_due a\<rparr>]\<rparr>)))"
| "run_event os (Wake i r now) s =
     bindR (port_wait_wake os (waiter_timeout (waiters s ! i)) (waiter_due (waiters s ! i)) now r (sys_world s))
       (\<lambda>(x, w).
     case x of
       None \<Rightarrow> Inr (None, s\<lparr>sys_world := w\<rparr>)
     | Some a \<Rightarrow> Inr (Some a, s\<lparr>sys_world := w, waiters := remove_nth i (waiters s)\<rparr>))"
| "run_event os (Complete a status n events) s =
     bindR (set_sock a (write_result status n events) (sys_world s)) (\<lambda>(_, w).
     Inr (None, s\<lparr>sys_world := w\<rparr>))"
| "run_event os (Close c) s =
     bindR (port_close c (sys_world s)) (\<lambda>(r, w). Inr (Some (r, []), s\<lparr>sys_world := w\<rparr>))"

text \<open>
  What may happen. A completion packet belongs to a request in flight, a wait gets no more packets
  than it asked for; the port is closed once. It may still be controlled by a thread that has found it
  before; what is left out is adding a socket that needs the completion port when it is closed.
\<close>

fun may_happen :: "os_calls \<Rightarrow> port_event \<Rightarrow> port_system \<Rightarrow> bool" where
  "may_happen os (Ctl op sock ev) s \<longleftrightarrow>
     (op = EPOLL_CTL_ADD \<longrightarrow> \<not> add_without_port os sock (sys_world s))"
| "may_happen os (Enter alloc clock maxevents timeout) s \<longleftrightarrow> length (waiters s) < 2 ^ 64 - 1"
| "may_happen os (Wake i r now) s \<longleftrightarrow> i < length (waiters s) \<and>
     (case r of
        Inl e \<Rightarrow> True
      | Inr packets \<Rightarrow> distinct packets \<and> set packets \<subseteq> set (requests (sys_world s)) \<and>
          int (length packets) \<le> waiter_max (waiters s ! i))"
| "may_happen os (Complete a status n events) s \<longleftrightarrow> a \<in> set (requests (sys_world s))"
| "may_happen os (Close c) s \<longleftrightarrow> iocp_handle (port (sys_world s)) \<noteq> 0"

inductive reachable :: "os_calls \<Rightarrow> u64 \<Rightarrow> port_system \<Rightarrow> bool" for os iocp where
  created: "port_new alloc create t = (Some (iocp, w), t') \<Longrightarrow> iocp \<noteq> 0 \<Longrightarrow>
    reachable os iocp \<lparr>sys_world = w, waiters = []\<rparr>"
| step: "reachable os iocp s \<Longrightarrow> may_happen os e s \<Longrightarrow> run_event os e s = Inr (a, s') \<Longrightarrow> reachable os iocp s'"


section \<open>The invariant of the machine\<close>

definition sys_at :: "os_calls \<Rightarrow> u64 \<Rightarrow> u64 multiset \<Rightarrow> port_system \<Rightarrow> bool" where
  "sys_at os iocp B s \<longleftrightarrow> port_inv B (sys_world s) \<and>
     (iocp_handle (port (sys_world s)) = iocp \<and> B = {#iocp#} \<or>
      iocp_handle (port (sys_world s)) = 0 \<and> B \<subseteq># {#iocp#}) \<and>
     unat (active_poll_count (port (sys_world s))) = length (waiters s) \<and>
     (os_accepts os \<longrightarrow> waiters s \<noteq> [] \<longrightarrow> upd_q (sys_world s) = [])"

definition sys_inv :: "os_calls \<Rightarrow> u64 \<Rightarrow> port_system \<Rightarrow> bool" where
  "sys_inv os iocp s \<longleftrightarrow> (\<exists>B. sys_at os iocp B s)"

lemma new_world_inv: "port_inv {#iocp#} (new_world iocp t)"
  by (simp add: new_world_def empty_port_def port_inv_def inv_but_def core_ok_def structure_ok_def groups_ok_def
      groups_sized_def group_handles_def members_of_def requests_ok_def tree_map_def)

lemma sys_inv_created:
  assumes "port_new alloc create t = (Some (iocp, w), t')"
  shows "sys_inv os iocp \<lparr>sys_world = w, waiters = []\<rparr>"
proof -
  have "w = new_world iocp t" using assms by (auto simp: port_new_def split: if_splits sum.splits)
  then show ?thesis using new_world_inv
    by (auto simp: sys_inv_def sys_at_def new_world_def empty_port_def)
qed

subsection \<open>Waiting\<close>

lemma wait_poll_wp:
  assumes "port_inv B w" "os_ok os"
  shows "wp (port_wait_poll os) (\<lambda>r w'. port_inv B w' \<and> (case r of
      None \<Rightarrow> polling_kept w w' 1 \<and> upd_q w' = []
    | Some v \<Rightarrow> polling_kept w w' 0 \<and> \<not> os_accepts os \<and> (v = 0 \<or> v = - 1))) w"
  unfolding port_wait_poll_def
proof (rule wp_bind_mono [OF port_poll_begin_wp [OF assms]])
  fix r :: int and x
  assume x: "port_inv B x \<and> (r = 0 \<and> upd_q x = [] \<and> polling_kept w x 1 \<or>
    r = - 1 \<and> \<not> os_accepts os \<and> polling_kept w x 0)"
  let ?Q = "\<lambda>r w'. port_inv B w' \<and> (case r of
      None \<Rightarrow> polling_kept w w' 1 \<and> upd_q w' = []
    | Some v \<Rightarrow> polling_kept w w' 0 \<and> \<not> os_accepts os \<and> (v = 0 \<or> v = - 1))"
  show "wp (if r < 0 then bindP (port_wait_finish os False r) (\<lambda>r. returnP (Some r)) else returnP None) ?Q x"
  proof (cases "r < 0")
    case True
    have "port_inv B x" using x by blast
    then have "wp (bindP (port_wait_finish os False r) (\<lambda>r. returnP (Some r))) ?Q x"
      by (rule wp_bind_mono [OF port_wait_finish_wp [OF _ assms(2)]])
        (use x True in \<open>auto simp: wp_return polling_kept_def port_kept_def\<close>)
    then show ?thesis using True by simp
  next
    case False
    then show ?thesis using x by (auto simp: wp_return)
  qed
qed

text \<open>With nothing to update, nothing happens: the last error stays.\<close>

lemma nothing_to_update: "upd_q w = [] \<Longrightarrow> port_update_events_if_polling os w = Inr ((), w)"
  by (simp add: port_update_events_if_polling_def port_update_events_def bindP_def get_port_def getP_def
      returnP_def)

lemma finish_idle:
  assumes "upd_q w = [] \<or> active_poll_count (port w) = 0" "\<not> timed_out"
  shows "port_wait_finish os timed_out result w =
    Inr (if result \<ge> 0 then result else if last_error w = ''WAIT_TIMEOUT'' then 0 else - 1, w)"
proof -
  have "port_update_events_if_polling os w = Inr ((), w)"
  proof (cases "upd_q w = []")
    case False
    then show ?thesis using assms(1)
      by (simp add: port_update_events_if_polling_def bindP_def get_port_def getP_def returnP_def)
  qed (rule nothing_to_update)
  then show ?thesis using assms(2) by (simp add: port_wait_finish_def bindP_def getP_def returnP_def)
qed

definition wake_done :: "u64 multiset \<Rightarrow> os_calls \<Rightarrow> string + nat list \<Rightarrow> epoll_world \<Rightarrow> answer \<Rightarrow> epoll_world \<Rightarrow> bool" where
  "wake_done B os r w x w' \<longleftrightarrow> port_inv B w' \<and> (case x of
      None \<Rightarrow> polling_kept w w' 0 \<and> upd_q w' = [] \<and> (\<exists>ps. r = Inr ps)
    | Some (v, evs) \<Rightarrow> (polling_kept w w' (- 1) \<and>
        (os_accepts os \<longrightarrow> active_poll_count (port w') > 0 \<longrightarrow> upd_q w' = [])) \<and>
        (case r of Inl e \<Rightarrow> evs = [] \<and> v \<le> 0
         | Inr ps \<Rightarrow> length evs \<le> length ps \<and> (v = int (length evs) \<or> v = - 1 \<and> evs = [] \<and> \<not> os_accepts os \<or> v = 0 \<and> evs = [] \<and> \<not> os_accepts os)))"

lemma wake_finish_wp:
  assumes "port_inv B x" "os_ok os" "polling_kept w x (- 1)"
    and "case r of Inl e \<Rightarrow> result = - 1 \<and> evs = [] | Inr ps \<Rightarrow> result = int (length evs) \<and> length evs \<le> length ps"
  shows "wp (bindP (port_wait_finish os timed_out result) (\<lambda>r. returnP (Some (r, evs)))) (wake_done B os r w) x"
  by (rule wp_bind_mono [OF port_wait_finish_wp [OF assms(1,2)]])
    (use assms(3,4) in \<open>auto simp: wp_return wake_done_def polling_kept_def port_kept_def split: sum.splits\<close>)

lemma port_wait_wake_wp:
  assumes "port_inv B w" "os_ok os"
    and "\<And>packets. r = Inr packets \<Longrightarrow> distinct packets \<and> set packets \<subseteq> set (requests w)"
  shows "wp (port_wait_wake os timeout due now r) (wake_done B os r w) w"
  unfolding port_wait_wake_def
proof (rule wp_bind_mono [OF port_poll_end_wp [OF assms(1,3)]])
  fix re :: "int \<times> epoll_event list" and x
  assume *: "(case re of (n, evs) \<Rightarrow> \<lambda>w'. port_inv B w' \<and> polling_kept w w' (- 1) \<and>
    (case r of Inl e \<Rightarrow> n = - 1 \<and> evs = [] \<and> last_error w' = e
     | Inr packets \<Rightarrow> n = int (length evs) \<and> length evs \<le> length packets)) x"
  obtain result evs where re: "re = (result, evs)" by (cases re)
  have x: "port_inv B x" "polling_kept w x (- 1)"
    "case r of Inl e \<Rightarrow> result = - 1 \<and> evs = [] | Inr ps \<Rightarrow> result = int (length evs) \<and> length evs \<le> length ps"
    using * re by (auto split: sum.splits)
  show "wp (case re of (result, evs) \<Rightarrow> case port_wait_turn timeout due now result 0 of
       Wait_done timed_out \<Rightarrow>
         bindP (port_wait_finish os timed_out result) (\<lambda>r. returnP (Some (r, evs)))
     | Wait_again _ \<Rightarrow>
         bindP (port_wait_poll os) (\<lambda>x. returnP (map_option (\<lambda>r. (r, [])) x))) (wake_done B os r w) x"
  proof (cases "port_wait_turn timeout due now result 0")
    case (Wait_done t)
    then show ?thesis using wake_finish_wp [OF x(1) assms(2) x(2,3)] re by simp
  next
    case (Wait_again g)
    then have "result = 0" by (simp add: port_wait_turn_def split: if_splits)
    then obtain ps where "r = Inr ps" "evs = []" using x(3) by (cases r) auto
    then have "wp (bindP (port_wait_poll os) (\<lambda>x. returnP (map_option (\<lambda>r. (r, [])) x))) (wake_done B os r w) x"
      by (intro wp_bind_mono [OF wait_poll_wp [OF x(1) assms(2)]])
        (use x(2) in \<open>auto simp: wp_return wake_done_def polling_kept_def split: option.splits\<close>)
    then show ?thesis using Wait_again re by simp
  qed
qed


subsection \<open>Control\<close>

lemma port_ctl_wp:
  assumes "port_inv B w" "os_ok os" "op = EPOLL_CTL_ADD \<Longrightarrow> \<not> add_without_port os sock w"
  shows "wp (port_ctl os op sock ev) (\<lambda>r w'. port_inv B w' \<and> port_kept w w' \<and> (r = 0 \<or> r = - 1) \<and>
    (os_accepts os \<longrightarrow> active_poll_count (port w) > 0 \<longrightarrow> upd_q w = [] \<longrightarrow> upd_q w' = [])) w"
    (is "wp _ ?Q w")
proof -
  have "wp (port_ctl_add os sock ev) ?Q w" if "op = EPOLL_CTL_ADD"
    by (rule wp_mono [OF port_ctl_add_wp [OF assms(1,2) assms(3) [OF that]]]) (auto simp: add_done_def set_done_def)
  moreover have "wp (port_ctl_mod os sock ev) ?Q w"
    by (rule wp_mono [OF port_ctl_mod_wp [OF assms(1,2)]])
      (auto simp: mod_done_def set_done_def split: option.splits)
  moreover have "wp (port_ctl_del os sock) ?Q w"
    by (rule wp_mono [OF port_ctl_del_wp [OF assms(1)]]) (auto simp: del_done_def split: option.splits)
  moreover have "?Q (- 1) (err_set_win_error ''ERROR_INVALID_PARAMETER'' w)"
    using port_inv_calm [OF calm_call(2) assms(1)] by (simp add: port_kept_def)
  ultimately show ?thesis by (simp add: port_ctl_def wp_set_error)
qed

subsection \<open>Completions and the end\<close>

lemma written_inv:
  assumes "port_inv B w" "a \<in> set (requests w)"
  shows "\<exists>v. set_sock a (write_result status n events) w = Inr ((), v) \<and> port_inv B v \<and> port_kept w v \<and>
    upd_q v = upd_q w"
proof -
  obtain s where s: "socks w a = Some s"
    using assms by (auto simp: port_inv_def inv_but_def requests_ok_def)
  let ?s = "write_result status n events s"
  let ?v = "w\<lparr>socks := (socks w)(a \<mapsto> ?s)\<rparr>"
  have p: "same_place s ?s" "poll_status ?s = poll_status s" "pending_events ?s = pending_events s"
    "user_events ?s = user_events s" "delete_pending ?s = delete_pending s"
    by (simp_all add: same_place_def write_result_def)
  have "core_ok B ?v" using assms(1) p(1) s by (intro core_ok_sock) (auto simp: port_inv_def inv_but_def)
  then have "port_inv B ?v" using assms(1) s p
    by (auto simp: port_inv_def inv_but_def requests_ok_def sock_served_def)
  then show ?thesis using s
    by (simp add: set_sock_def bindP_def get_sock_def modifyP_def port_kept_def)
qed

lemma groups_sized_close:
  "groups_sized {#h#} c w \<Longrightarrow> port w' = (port w)\<lparr>iocp_handle := i\<rparr> \<Longrightarrow> groups w' = groups w \<Longrightarrow>
   next_address w' = next_address w \<Longrightarrow> open_handles w' = remove1 h (open_handles w) \<Longrightarrow> groups_sized {#} c w'"
  by (simp add: groups_sized_def group_handles_def)

lemma port_inv_close:
  assumes "port_inv B w" "port w' = (port w)\<lparr>iocp_handle := i\<rparr>" "socks w' = socks w" "requests w' = requests w"
    "next_address w' = next_address w" "groups_sized B' (\<lambda>g. card (members_of w g)) w'" "groups w' = groups w"
  shows "port_inv B' w'"
proof -
  have "groups_ok B' w'" using assms by (auto simp: port_inv_def inv_but_def core_ok_def groups_ok_def members_of_def)
  then show ?thesis using assms(1-5)
    by (simp add: port_inv_def inv_but_def core_ok_def structure_ok_def sock_links_def sock_served_def requests_ok_def)
qed

lemma port_close_wp:
  assumes "port_inv {#iocp#} w" "iocp_handle (port w) = iocp"
  shows "wp (port_close c) (\<lambda>r w'. r = (if c = None then 0 else - 1) \<and>
    port_inv (if c = None then {#} else {#iocp#}) w' \<and> iocp_handle (port w') = 0 \<and>
    active_poll_count (port w') = active_poll_count (port w) \<and> upd_q w' = upd_q w) w"
proof -
  have g: "groups_sized {#iocp#} (\<lambda>g. card (members_of w g)) w"
    using assms(1) by (simp add: port_inv_def inv_but_def core_ok_def groups_ok_def)
  show ?thesis
  proof (cases c)
    case None
    let ?w = "w\<lparr>port := (port w)\<lparr>iocp_handle := 0\<rparr>, open_handles := remove1 iocp (open_handles w)\<rparr>"
    have "port_inv {#} ?w"
      by (rule port_inv_close [OF assms(1)]) (simp_all add: groups_sized_close [OF g])
    then show ?thesis using None assms(2) by (simp add: port_close_def CloseHandle_def wp_rules)
  next
    case (Some e)
    let ?w = "w\<lparr>port := (port w)\<lparr>iocp_handle := 0\<rparr>\<rparr>"
    have "port_inv {#iocp#} ?w"
      by (rule port_inv_close [OF assms(1)]) (use g in \<open>simp_all add: groups_sized_def group_handles_def\<close>)
    then have "port_inv {#iocp#} (err_map_win_error (?w\<lparr>last_error := e\<rparr>))"
      by (rule port_inv_calm [rotated]) (simp add: calm_def quiet_def)
    then show ?thesis using Some by (simp add: port_close_def wp_rules)
  qed
qed

subsection \<open>All events\<close>

definition event_safe :: "os_calls \<Rightarrow> u64 \<Rightarrow> port_event \<Rightarrow> port_system \<Rightarrow> bool" where
  "event_safe os iocp e s \<longleftrightarrow> (\<exists>a s'. run_event os e s = Inr (a, s') \<and> sys_inv os iocp s' \<and>
     iocp_handle (port (sys_world s')) = (case e of Close c \<Rightarrow> 0 | _ \<Rightarrow> iocp_handle (port (sys_world s))))"

lemma wp_elim: "wp f Q w \<Longrightarrow> (\<And>a w'. f w = Inr (a, w') \<Longrightarrow> Q a w' \<Longrightarrow> thesis) \<Longrightarrow> thesis"
  by (auto simp: wp_returns)

lemma sys_atD:
  assumes "sys_at os iocp B s"
  shows "port_inv B (sys_world s)"
    "iocp_handle (port (sys_world s)) = iocp \<and> B = {#iocp#} \<or> iocp_handle (port (sys_world s)) = 0 \<and> B \<subseteq># {#iocp#}"
    "unat (active_poll_count (port (sys_world s))) = length (waiters s)"
    "os_accepts os \<Longrightarrow> waiters s \<noteq> [] \<Longrightarrow> upd_q (sys_world s) = []"
  using assms by (simp_all add: sys_at_def)

lemma sys_invI:
  assumes "port_inv B w" "iocp_handle (port w) = iocp \<and> B = {#iocp#} \<or> iocp_handle (port w) = 0 \<and> B \<subseteq># {#iocp#}"
    "unat (active_poll_count (port w)) = length ws" "os_accepts os \<Longrightarrow> ws \<noteq> [] \<Longrightarrow> upd_q w = []"
  shows "sys_inv os iocp \<lparr>sys_world = w, waiters = ws\<rparr>"
  using assms unfolding sys_inv_def sys_at_def by auto

lemma polls_waiting: "unat (n :: u64) = length ws \<Longrightarrow> n > 0 \<longleftrightarrow> ws \<noteq> []"
  by (cases ws) (auto simp: word_gt_0 unat_eq_0)

lemma ctl_safe:
  assumes "sys_inv os iocp s" "os_ok os" "op = EPOLL_CTL_ADD \<Longrightarrow> \<not> add_without_port os sock (sys_world s)"
  shows "event_safe os iocp (Ctl op sock ev) s"
proof -
  obtain B where "sys_at os iocp B s" using assms(1) by (auto simp: sys_inv_def)
  note B = sys_atD [OF this]
  from port_ctl_wp [OF B(1) assms(2), of op sock ev, OF assms(3)] obtain r w' where
    r: "port_ctl os op sock ev (sys_world s) = Inr (r, w')" "port_inv B w'" "port_kept (sys_world s) w'"
      "os_accepts os \<longrightarrow> active_poll_count (port (sys_world s)) > 0 \<longrightarrow> upd_q (sys_world s) = [] \<longrightarrow> upd_q w' = []"
    by (auto elim: wp_elim)
  have "sys_inv os iocp \<lparr>sys_world = w', waiters = waiters s\<rparr>"
    using r B polls_waiting [OF B(3)] by (intro sys_invI [of B]) (auto simp: port_kept_def)
  then show ?thesis using r(1,3) by (cases s) (simp add: event_safe_def port_kept_def)
qed

lemma complete_safe:
  assumes "sys_inv os iocp s" "may_happen os (Complete a status n events) s"
  shows "event_safe os iocp (Complete a status n events) s"
proof -
  obtain B where "sys_at os iocp B s" using assms(1) by (auto simp: sys_inv_def)
  note B = sys_atD [OF this]
  obtain v where v: "set_sock a (write_result status n events) (sys_world s) = Inr ((), v)" "port_inv B v"
    "port_kept (sys_world s) v" "upd_q v = upd_q (sys_world s)"
    using written_inv [OF B(1)] assms(2) by fastforce
  have "sys_inv os iocp \<lparr>sys_world = v, waiters = waiters s\<rparr>"
    using v B by (intro sys_invI [of B]) (auto simp: port_kept_def)
  then show ?thesis using v(1,3) by (cases s) (simp add: event_safe_def port_kept_def)
qed

lemma close_safe:
  assumes "sys_inv os iocp s" "may_happen os (Close c) s"
  shows "event_safe os iocp (Close c) s"
proof -
  obtain B where "sys_at os iocp B s" using assms(1) by (auto simp: sys_inv_def)
  note B = sys_atD [OF this]
  have "port_inv {#iocp#} (sys_world s)" "iocp_handle (port (sys_world s)) = iocp" using B(1,2) assms(2) by auto
  from port_close_wp [OF this, of c] obtain r w' where
    r: "port_close c (sys_world s) = Inr (r, w')" "port_inv (if c = None then {#} else {#iocp#}) w'"
      "iocp_handle (port w') = 0" "active_poll_count (port w') = active_poll_count (port (sys_world s))"
      "upd_q w' = upd_q (sys_world s)"
    by (auto elim: wp_elim)
  have "sys_inv os iocp \<lparr>sys_world = w', waiters = waiters s\<rparr>"
    using r B by (intro sys_invI [OF r(2)]) auto
  then show ?thesis using r(1,3) by (cases s) (simp add: event_safe_def)
qed


lemma unat_count_inc:
  assumes "unat (n :: u64) < 2 ^ 64 - 1"
  shows "unat (n + 1) = Suc (unat n)"
proof -
  have "unat n + 1 < 2 ^ LENGTH(64)" using assms by simp
  then show ?thesis by (simp add: unat_word_ariths)
qed

lemma enter_safe:
  assumes "sys_inv os iocp s" "os_ok os" "may_happen os (Enter alloc clock maxevents timeout) s"
  shows "event_safe os iocp (Enter alloc clock maxevents timeout) s"
proof -
  obtain B where "sys_at os iocp B s" using assms(1) by (auto simp: sys_inv_def)
  note B = sys_atD [OF this]
  show ?thesis
  proof (cases "port_wait_start alloc clock maxevents timeout")
    case None
    let ?w = "err_set_win_error ''ERROR_INVALID_PARAMETER'' (sys_world s)"
    have "sys_inv os iocp \<lparr>sys_world = ?w, waiters = waiters s\<rparr>"
      using B port_inv_calm [OF calm_call(2) B(1)] by (intro sys_invI [of B]) auto
    then show ?thesis using None
      by (cases s) (simp add: event_safe_def return_set_error_def bindP_def modifyP_def returnP_def)
  next
    case (Some a)
    from wait_poll_wp [OF B(1) assms(2)] obtain x w' where
      r: "port_wait_poll os (sys_world s) = Inr (x, w')" "port_inv B w'"
      "case x of None \<Rightarrow> polling_kept (sys_world s) w' 1 \<and> upd_q w' = []
        | Some v \<Rightarrow> polling_kept (sys_world s) w' 0 \<and> \<not> os_accepts os \<and> (v = 0 \<or> v = - 1)"
      by (auto elim: wp_elim)
    show ?thesis
    proof (cases x)
      case None
      let ?ws = "waiters s @ [\<lparr>waiter_max = wait_max a, waiter_timeout = timeout, waiter_due = wait_due a\<rparr>]"
      have "unat (active_poll_count (port (sys_world s)) + 1) = length ?ws"
        using assms(3) B(3) unat_count_inc [of "active_poll_count (port (sys_world s))"] by simp
      then have "sys_inv os iocp \<lparr>sys_world = w', waiters = ?ws\<rparr>"
        using r None B(2) by (intro sys_invI [OF r(2)]) (auto simp: polling_kept_def)
      then show ?thesis using Some None r(1,3) by (cases s) (simp add: event_safe_def polling_kept_def)
    next
      case (Some v)
      then have "sys_inv os iocp \<lparr>sys_world = w', waiters = waiters s\<rparr>"
        using r B(2,3) by (intro sys_invI [OF r(2)]) (auto simp: polling_kept_def)
      then show ?thesis using \<open>port_wait_start alloc clock maxevents timeout = Some a\<close> Some r(1,3)
        by (cases s) (simp add: event_safe_def polling_kept_def)
    qed
  qed
qed

lemma remove_nth_length: "i < length xs \<Longrightarrow> length (remove_nth i xs) = length xs - 1"
  by (simp add: remove_nth_def)

lemma wake_runs:
  assumes "sys_at os iocp B s" "os_ok os" "may_happen os (Wake i r now) s"
  obtains x w' where
    "port_wait_wake os (waiter_timeout (waiters s ! i)) (waiter_due (waiters s ! i)) now r (sys_world s) = Inr (x, w')"
    "wake_done B os r (sys_world s) x w'"
proof -
  have "distinct ps \<and> set ps \<subseteq> set (requests (sys_world s))" if "r = Inr ps" for ps
    using assms(3) that by simp
  from wp_elim [OF port_wait_wake_wp [OF sys_atD(1) [OF assms(1)] assms(2) this]] that show thesis by metis
qed

lemma wake_safe:
  assumes "sys_inv os iocp s" "os_ok os" "may_happen os (Wake i r now) s"
  shows "event_safe os iocp (Wake i r now) s"
proof -
  obtain B where at: "sys_at os iocp B s" using assms(1) by (auto simp: sys_inv_def)
  note B = sys_atD [OF at]
  obtain x w' where x: "port_wait_wake os (waiter_timeout (waiters s ! i)) (waiter_due (waiters s ! i)) now r
      (sys_world s) = Inr (x, w')" "wake_done B os r (sys_world s) x w'"
    by (rule wake_runs [OF at assms(2,3)])
  have i: "i < length (waiters s)" using assms(3) by simp
  show ?thesis
  proof (cases x)
    case None
    then have "sys_inv os iocp \<lparr>sys_world = w', waiters = waiters s\<rparr>"
      using x(2) B(2,3) by (intro sys_invI [of B]) (auto simp: wake_done_def polling_kept_def)
    then show ?thesis using None x by (cases s) (simp add: event_safe_def wake_done_def polling_kept_def)
  next
    case (Some a)
    let ?n = "active_poll_count (port (sys_world s))"
    have k: "polling_kept (sys_world s) w' (- 1)" "port_inv B w'"
      "os_accepts os \<Longrightarrow> active_poll_count (port w') > 0 \<Longrightarrow> upd_q w' = []"
      using x(2) Some by (auto simp: wake_done_def split: prod.splits)
    have "0 < unat ?n" using B(3) i by linarith
    then have u: "unat (active_poll_count (port w')) = length (remove_nth i (waiters s))"
      using B(3) i k(1) unat_dec [of ?n] by (simp add: polling_kept_def remove_nth_length)
    have "sys_inv os iocp \<lparr>sys_world = w', waiters = remove_nth i (waiters s)\<rparr>"
      using k(1) B(2) k(3) polls_waiting [OF u] u
      by (intro sys_invI [OF k(2)]) (auto simp: polling_kept_def)
    then show ?thesis using Some x(1) k(1) by (cases s) (simp add: event_safe_def polling_kept_def)
  qed
qed

lemma every_event_safe:
  assumes "sys_inv os iocp s" "os_ok os" "may_happen os e s"
  shows "event_safe os iocp e s"
  using assms by (cases e) (simp_all add: ctl_safe del: run_event.simps may_happen.simps(2-), simp_all only: enter_safe wake_safe complete_safe close_safe)

lemma reachable_inv: "reachable os iocp s \<Longrightarrow> os_ok os \<Longrightarrow> sys_inv os iocp s"
proof (induction rule: reachable.induct)
  case (created alloc create t w t')
  then show ?case by (intro sys_inv_created)
next
  case (step s e a s')
  then show ?case using every_event_safe [of os iocp s e] by (auto simp: event_safe_def)
qed

lemma reachable_at:
  assumes "reachable os iocp s" "os_ok os"
  obtains B where "sys_at os iocp B s"
  using reachable_inv [OF assms] by (auto simp: sys_inv_def)


section \<open>A machine to try it on\<close>

text \<open>
  Answers of Windows for the instances below: memory never runs out, sockets are their own base, the
  driver takes every request and completes none at once.
\<close>

definition willing_os :: os_calls where
  "willing_os = \<lparr>malloc_ok = (\<lambda>_. True), wsa_ioctl = (\<lambda>s _. Inr (if s = INVALID_SOCKET then 0 else s)),
     nt_create_file = (\<lambda>n. Inr (of_nat n + 100)), associate_iocp = (\<lambda>_. None), set_modes = (\<lambda>_. None),
     nt_poll = (\<lambda>_. STATUS_PENDING), nt_poll_result = (\<lambda>_. (0, 0)), nt_cancel = (\<lambda>_. STATUS_SUCCESS),
     dos_error = (\<lambda>st. if st = STATUS_PENDING then ''ERROR_IO_PENDING'' else ''ERROR_INVALID_HANDLE'')\<rparr>"

lemma willing_os_ok: "os_ok willing_os" "os_accepts willing_os"
proof -
  have "ws_get_base_socket (wsa_ioctl willing_os) s (t :: epoll_world) \<noteq> None" for s t
    by (subst ws_get_base_socket.simps)
      (simp add: willing_os_def ws_ioctl_get_bsp_socket_def INVALID_SOCKET_def)
  then show "os_ok willing_os" by (simp add: os_ok_def willing_os_def)
  show "os_accepts willing_os" by (simp add: os_accepts_def willing_os_def)
qed

definition start_system :: port_system where
  "start_system = \<lparr>sys_world = new_world 9 \<lparr>last_error = '''', errno = ''''\<rparr>, waiters = []\<rparr>"

lemma start_reachable: "reachable os 9 start_system"
  unfolding start_system_def
  by (rule reachable.created [where alloc = True and create = "Inr 9" and t = "\<lparr>last_error = '''', errno = ''''\<rparr>"
        and t' = "\<lparr>last_error = '''', errno = ''''\<rparr>"]) (simp_all add: port_new_def)

text \<open>A sequence of events, run from the start.\<close>

fun run_events :: "os_calls \<Rightarrow> port_event list \<Rightarrow> port_system \<Rightarrow> port_system option" where
  "run_events os [] s = Some s"
| "run_events os (e # es) s =
     (if may_happen os e s then
        case run_event os e s of Inl _ \<Rightarrow> None | Inr (a, s') \<Rightarrow> run_events os es s'
      else None)"

lemma run_events_reachable:
  "reachable os iocp s \<Longrightarrow> run_events os es s = Some s' \<Longrightarrow> reachable os iocp s'"
  by (induction es arbitrary: s) (auto split: if_splits sum.splits intro: reachable.step)

lemma ready_base:
  "ws_get_base_socket (wsa_ioctl willing_os) 7 t = Some (7, t)"
  by (subst ws_get_base_socket.simps)
    (simp add: willing_os_def ws_ioctl_get_bsp_socket_def INVALID_SOCKET_def)

lemmas program_defs = bindP_def returnP_def modifyP_def getP_def assertP_def get_sock_def set_sock_def
  get_group_def set_group_def get_port_def set_port_def callP_def new_address_def return_set_error_def
  return_map_error_def

definition one_socket :: port_system where
  "one_socket = the (run_events willing_os [Ctl EPOLL_CTL_ADD 7 (EPOLLIN, 42)] start_system)"

definition one_waiting :: port_system where
  "one_waiting = the (run_events willing_os [Ctl EPOLL_CTL_ADD 7 (EPOLLIN, 42), Enter True 0 10 (- 1)] start_system)"


lemma ready_base_program: "base_socket_program willing_os 7 = returnP 7"
  by (simp add: base_socket_program_def ready_base returnP_def fun_eq_iff)

lemma willing_os_answers [simp]:
  "malloc_ok willing_os n" "nt_create_file willing_os n = Inr (of_nat n + 100)"
  "associate_iocp willing_os n = None" "set_modes willing_os n = None"
  "nt_poll willing_os n = STATUS_PENDING" "nt_cancel willing_os n = STATUS_SUCCESS"
  by (simp_all add: willing_os_def)

lemmas socket_defs = sock_new_def poll_group_acquire_def poll_group_new_def port_get_iocp_handle_def
  afd_create_device_handle_def port_register_socket_def sock_set_event_def port_request_socket_update_def
  port_update_events_if_polling_def port_update_events_def enqueued_def EPOLL_CTL_ADD_def
  port_ctl_def port_ctl_add_def INVALID_SOCKET_def POLL_GROUP_MAX_GROUP_SIZE_def

lemma tree_add_first: "tree_add k v Null = Inr (Some (Node False Null k v Null))"
  by (simp add: tree_add_def)

lemmas poll_defs = port_wait_start_def port_wait_poll_def port_poll_begin_def sock_update_def start_poll_def
  afd_poll_def submit_request_def poll_group_get_afd_device_handle_def port_cancel_socket_update_def
  dequeue_def Let_def epoll_events_to_afd_events_def STATUS_PENDING_def STATUS_SUCCESS_def err_set_win_error_def

lemmas run_defs = start_system_def new_world_def empty_port_def socket_defs poll_defs ready_base_program
  program_defs event_defs KNOWN_EPOLL_EVENTS_def tree_map_def tree_add_first

lemma one_socket_steps:
  "\<exists>s. run_events willing_os [Ctl EPOLL_CTL_ADD 7 (EPOLLIN, 42)] start_system = Some s \<and>
    registered (sys_world s) 7 = Some 2 \<and> waiters s = [] \<and> iocp_handle (port (sys_world s)) = 9 \<and>
    requests (sys_world s) = [] \<and> upd_q (sys_world s) = [2]"
  by (simp add: run_defs)

lemma one_waiting_steps:
  "\<exists>s. run_events willing_os [Ctl EPOLL_CTL_ADD 7 (EPOLLIN, 42), Enter True 0 10 (- 1)] start_system = Some s \<and>
    registered (sys_world s) 7 = Some 2 \<and>
    waiters s = [\<lparr>waiter_max = 10, waiter_timeout = - 1, waiter_due = 0\<rparr>] \<and>
    iocp_handle (port (sys_world s)) = 9 \<and> requests (sys_world s) = [2]"
  by (simp add: run_defs)


lemma one_socket_reachable:
  obtains s where "reachable willing_os 9 s" "registered (sys_world s) 7 = Some 2" "waiters s = []"
    "iocp_handle (port (sys_world s)) = 9"
  using one_socket_steps run_events_reachable [OF start_reachable] by metis

lemma one_waiting_reachable:
  obtains s where "reachable willing_os 9 s" "registered (sys_world s) 7 = Some 2"
    "waiters s = [\<lparr>waiter_max = 10, waiter_timeout = - 1, waiter_due = 0\<rparr>]"
    "iocp_handle (port (sys_world s)) = 9" "requests (sys_world s) = [2]"
  using one_waiting_steps run_events_reachable [OF start_reachable] by metis

lemmas feed_defs = port_wait_wake_def port_poll_end_def sock_feed_event_def take_request_def write_result_def
  port_wait_turn_def port_wait_finish_def afd_events_to_epoll_events_def STATUS_CANCELLED_def NT_SUCCESS_def
  remove_nth_def

lemma one_ready_steps:
  "\<exists>s. run_events willing_os [Ctl EPOLL_CTL_ADD 7 (EPOLLIN, 42), Enter True 0 10 (- 1),
      Complete 2 STATUS_SUCCESS 1 AFD_POLL_RECEIVE] start_system = Some s \<and>
    waiters s = [\<lparr>waiter_max = 10, waiter_timeout = - 1, waiter_due = 0\<rparr>] \<and> requests (sys_world s) = [2] \<and>
    (\<exists>s'. run_event willing_os (Wake 0 (Inr [2]) 5) s = Inr (Some (1, [(EPOLLIN, 42)]), s'))"
  by (simp add: run_defs feed_defs)

lemma one_ready_reachable:
  obtains s s' where "reachable willing_os 9 s" "requests (sys_world s) = [2]"
    "waiters s = [\<lparr>waiter_max = 10, waiter_timeout = - 1, waiter_due = 0\<rparr>]"
    "run_event willing_os (Wake 0 (Inr [2]) 5) s = Inr (Some (1, [(EPOLLIN, 42)]), s')"
  using one_ready_steps run_events_reachable [OF start_reachable] by metis

lemma one_closed_steps:
  "\<exists>s. run_events willing_os [Ctl EPOLL_CTL_ADD 7 (EPOLLIN, 42), Enter True 0 10 (- 1), Close None]
      start_system = Some s \<and> iocp_handle (port (sys_world s)) = 0 \<and> socks (sys_world s) 2 \<noteq> None"
  by (simp add: run_defs port_close_def CloseHandle_def)

section \<open>Event masks\<close>

lemma and_or_zero: "(x :: u32) AND (y OR z) = 0 \<longleftrightarrow> x AND y = 0 \<and> x AND z = 0"
  by (simp add: bit.conj_disj_distrib or_eq_0_iff)

lemma mask_bits:
  "(x :: u32) AND 1 = 0 \<longleftrightarrow> \<not> bit x 0" "x AND 2 = 0 \<longleftrightarrow> \<not> bit x 1" "x AND 4 = 0 \<longleftrightarrow> \<not> bit x 2"
  "x AND 8 = 0 \<longleftrightarrow> \<not> bit x 3" "x AND 16 = 0 \<longleftrightarrow> \<not> bit x 4" "x AND 64 = 0 \<longleftrightarrow> \<not> bit x 6"
  "x AND 128 = 0 \<longleftrightarrow> \<not> bit x 7" "x AND 256 = 0 \<longleftrightarrow> \<not> bit x 8" "x AND 512 = 0 \<longleftrightarrow> \<not> bit x 9"
  "x AND 8192 = 0 \<longleftrightarrow> \<not> bit x 13"
  using and_exp_eq_0_iff_not_bit [of x 0] and_exp_eq_0_iff_not_bit [of x 1] and_exp_eq_0_iff_not_bit [of x 2]
    and_exp_eq_0_iff_not_bit [of x 3] and_exp_eq_0_iff_not_bit [of x 4] and_exp_eq_0_iff_not_bit [of x 6]
    and_exp_eq_0_iff_not_bit [of x 7] and_exp_eq_0_iff_not_bit [of x 8] and_exp_eq_0_iff_not_bit [of x 9]
    and_exp_eq_0_iff_not_bit [of x 13]
  by simp_all

lemma group_bits:
  "(x :: u32) AND 65 = 0 \<longleftrightarrow> \<not> bit x 0 \<and> \<not> bit x 6" "x AND 130 = 0 \<longleftrightarrow> \<not> bit x 1 \<and> \<not> bit x 7"
  "x AND 772 = 0 \<longleftrightarrow> \<not> bit x 2 \<and> \<not> bit x 8 \<and> \<not> bit x 9"
  "x AND 8257 = 0 \<longleftrightarrow> \<not> bit x 0 \<and> \<not> bit x 6 \<and> \<not> bit x 13"
  "x AND 129 = 0 \<longleftrightarrow> \<not> bit x 0 \<and> \<not> bit x 7"
  using and_or_zero [of x 1 64] and_or_zero [of x 2 128] and_or_zero [of x 4 768] and_or_zero [of x 256 512]
    and_or_zero [of x 1 8256] and_or_zero [of x 64 8192] and_or_zero [of x 1 128]
  by (simp_all add: mask_bits)

lemma bit_choose: "bit (if b then x else (0 :: u32)) n \<longleftrightarrow> b \<and> bit x n"
  by simp

lemma afd_event_bits:
  "bit (epoll_events_to_afd_events ev) 0 \<longleftrightarrow> bit ev 0 \<or> bit ev 6"
  "bit (epoll_events_to_afd_events ev) 1 \<longleftrightarrow> bit ev 1 \<or> bit ev 7"
  "bit (epoll_events_to_afd_events ev) 2 \<longleftrightarrow> bit ev 2 \<or> bit ev 8 \<or> bit ev 9"
  "bit (epoll_events_to_afd_events ev) 3 \<longleftrightarrow> bit ev 0 \<or> bit ev 6 \<or> bit ev 13"
  "bit (epoll_events_to_afd_events ev) 4 \<longleftrightarrow> bit ev 4"
  "bit (epoll_events_to_afd_events ev) 5"
  "bit (epoll_events_to_afd_events ev) 7 \<longleftrightarrow> bit ev 0 \<or> bit ev 6"
  "bit (epoll_events_to_afd_events ev) 8 \<longleftrightarrow> bit ev 3"
  by (auto simp: epoll_events_to_afd_events_def event_defs bit_or_iff bit_choose group_bits mask_bits)

lemma epoll_event_bits:
  "bit (afd_events_to_epoll_events ev) 0 \<longleftrightarrow> bit ev 0 \<or> bit ev 7 \<or> bit ev 3 \<or> bit ev 8"
  "bit (afd_events_to_epoll_events ev) 1 \<longleftrightarrow> bit ev 1"
  "bit (afd_events_to_epoll_events ev) 2 \<longleftrightarrow> bit ev 2 \<or> bit ev 8"
  "bit (afd_events_to_epoll_events ev) 3 \<longleftrightarrow> bit ev 8"
  "bit (afd_events_to_epoll_events ev) 4 \<longleftrightarrow> bit ev 4"
  "bit (afd_events_to_epoll_events ev) 6 \<longleftrightarrow> bit ev 0 \<or> bit ev 7 \<or> bit ev 3 \<or> bit ev 8"
  "bit (afd_events_to_epoll_events ev) 7 \<longleftrightarrow> bit ev 1"
  "bit (afd_events_to_epoll_events ev) 8 \<longleftrightarrow> bit ev 2 \<or> bit ev 8"
  "bit (afd_events_to_epoll_events ev) 9 \<longleftrightarrow> bit ev 2"
  "bit (afd_events_to_epoll_events ev) 13 \<longleftrightarrow> bit ev 3 \<or> bit ev 8"
  by (auto simp: afd_events_to_epoll_events_def event_defs bit_or_iff bit_choose group_bits mask_bits)

section \<open>Properties\<close>

text \<open>C29: Nothing that a thread does to a port faults. In every reachable state, whatever the threads
  and the kernel do next (control, starting a wait, waking with any completion packets of requests
  in flight, the kernel writing a result into a socket, closing; a closed port may still be used by
  threads that have found it) the code returns: no socket or poll group is used after it was freed, no
  assertion fails, and the loops end. Left out is only the addition of a socket to a closed port that
  needs the completion port (\<open>add_without_port\<close>). Windows may fail any call; it does not call an error
  pending, and its chains of service providers end.\<close>

theorem port_never_faults:
  assumes "reachable os iocp s" "os_ok os" "may_happen os e s"
  shows "\<exists>a s'. run_event os e s = Inr (a, s')"
  using every_event_safe [OF reachable_inv [OF assms(1,2)] assms(2,3)] by (auto simp: event_safe_def)

lemma port_never_faults_witness:
  "\<exists>(s :: port_system) a s'. waiters s \<noteq> [] \<and> run_event willing_os (Ctl EPOLL_CTL_DEL 7 (0, 0)) s = Inr (a, s')"
proof -
  obtain s where s: "reachable willing_os 9 s"
    "waiters s = [\<lparr>waiter_max = 10, waiter_timeout = - 1, waiter_due = 0\<rparr>]"
    "iocp_handle (port (sys_world s)) = 9" by (rule one_waiting_reachable)
  have "may_happen willing_os (Ctl EPOLL_CTL_DEL 7 (0, 0)) s" using s(3) by (cases s) simp
  from port_never_faults [OF s(1) willing_os_ok(1) this] s(2) show ?thesis by - (rule exI [of _ s], simp)
qed

text \<open>C30: No interest is lost. Every registered socket is alive under its key, and it is queued for
  an update, or the kernel has a request of it that is cancelled or that asks for every event the
  user wants. While somebody waits and the driver takes the requests, it is the kernel that has one.\<close>

theorem no_interest_is_lost:
  assumes "reachable os iocp s" "os_ok os" "registered (sys_world s) k = Some a"
  shows "\<exists>u. socks (sys_world s) a = Some u \<and> sock_key u = k \<and> \<not> delete_pending u \<and>
    (a \<in> set (sock_update_queue (port (sys_world s))) \<or>
     a \<in> set (requests (sys_world s)) \<and>
       (poll_status u = SOCK_POLL_CANCELLED \<or>
        user_events u AND KNOWN_EPOLL_EVENTS AND NOT (pending_events u) = 0)) \<and>
    (os_accepts os \<longrightarrow> waiters s \<noteq> [] \<longrightarrow> a \<in> set (requests (sys_world s)))"
proof -
  obtain B where "sys_at os iocp B s" by (rule reachable_at [OF assms(1,2)])
  note B = sys_atD [OF this]
  obtain u where u: "socks (sys_world s) a = Some u" "sock_key u = k" "\<not> delete_pending u"
    using registered_sock [OF B(1) assms(3)] by metis
  then have "sock_served (sys_world s) a u" using B(1) by (simp add: port_inv_def inv_but_def)
  moreover have "a \<in> set (requests (sys_world s)) \<longleftrightarrow> poll_status u \<noteq> SOCK_POLL_IDLE"
    using B(1) u(1) by (auto simp: port_inv_def inv_but_def requests_ok_def)
  ultimately show ?thesis using u B(4) by (auto simp: sock_served_def)
qed

lemma no_interest_is_lost_witness:
  "\<exists>(s :: port_system) u. registered (sys_world s) 7 = Some 2 \<and> waiters s \<noteq> [] \<and> socks (sys_world s) 2 = Some u \<and>
    2 \<in> set (requests (sys_world s))"
proof -
  obtain s where s: "reachable willing_os 9 s" "registered (sys_world s) 7 = Some 2"
    "waiters s = [\<lparr>waiter_max = 10, waiter_timeout = - 1, waiter_due = 0\<rparr>]" by (rule one_waiting_reachable)
  from no_interest_is_lost [OF s(1) willing_os_ok(1) s(2)] s(2,3) willing_os_ok(2) show ?thesis
    by - (rule exI [of _ s], auto simp del: run_event.simps)
qed

text \<open>A wait that returns with events returns their number, which is at most the number of
  packets it asked for: the events fit the array of the caller.\<close>

theorem wait_returns_what_fits:
  assumes "reachable os iocp s" "os_ok os" "may_happen os (Wake i r now) s"
    and "run_event os (Wake i r now) s = Inr (Some (v, evs), s')"
  shows "evs = [] \<or> int (length evs) \<le> waiter_max (waiters s ! i) \<and> v = int (length evs)"
proof -
  obtain B where at: "sys_at os iocp B s" by (rule reachable_at [OF assms(1,2)])
  obtain x w' where x: "port_wait_wake os (waiter_timeout (waiters s ! i)) (waiter_due (waiters s ! i)) now r
      (sys_world s) = Inr (x, w')" "wake_done B os r (sys_world s) x w'"
    by (rule wake_runs [OF at assms(2,3)])
  then have "x = Some (v, evs)" using assms(4) by (auto split: option.splits)
  then show ?thesis using x(2) assms(3) by (auto simp: wake_done_def split: sum.splits)
qed

lemma wait_returns_what_fits_witness:
  "\<exists>(s :: port_system) s'. run_event willing_os (Wake 0 (Inr [2]) 5) s = Inr (Some (1, [(EPOLLIN, 42)]), s') \<and>
    int (length [(EPOLLIN, 42)]) \<le> waiter_max (waiters s ! 0)"
proof -
  obtain s s' where s: "reachable willing_os 9 s" "requests (sys_world s) = [2]"
    "waiters s = [\<lparr>waiter_max = 10, waiter_timeout = - 1, waiter_due = 0\<rparr>]"
    "run_event willing_os (Wake 0 (Inr [2]) 5) s = Inr (Some (1, [(EPOLLIN, 42)]), s')"
    by (rule one_ready_reachable)
  have "may_happen willing_os (Wake 0 (Inr [2]) 5) s" using s(2,3) by simp
  from wait_returns_what_fits [OF s(1) willing_os_ok(1) this s(4)] s(4) show ?thesis
    by - (rule exI [of _ s], auto simp del: run_event.simps)
qed

text \<open>A time-out of the wait for packets is reported as no events and not as an error, also
  when other threads wait on the same port, although the last error is read only after the updates
  for them; any other error is reported as such, with its \<open>errno\<close>.\<close>

theorem time_out_is_no_error:
  assumes "reachable os iocp s" "os_ok os" "os_accepts os" "may_happen os (Wake i (Inl e) now) s"
  shows "\<exists>s'. run_event os (Wake i (Inl e) now) s =
    Inr (Some (if e = ''WAIT_TIMEOUT'' then 0 else - 1, []), s') \<and>
    errno (sys_world s') = err_map_win_error_to_errno e"
proof -
  obtain B where at: "sys_at os iocp B s" by (rule reachable_at [OF assms(1,2)])
  have i: "i < length (waiters s)" using assms(4) by simp
  let ?w = "err_map_win_error ((sys_world s)\<lparr>port := (port (sys_world s))\<lparr>active_poll_count :=
    active_poll_count (port (sys_world s)) - 1\<rparr>, last_error := e\<rparr>)"
  have q: "upd_q ?w = []" using sys_atD(4) [OF at assms(3)] i by (cases "waiters s") (auto simp: err_map_win_error_def)
  have "port_poll_end os (Inl e) (sys_world s) = Inr ((- 1, []), ?w)"
    by (simp add: port_poll_end_def program_defs err_map_win_error_def)
  moreover have "last_error ?w = e" by (simp add: err_map_win_error_def)
  ultimately have "port_wait_wake os (waiter_timeout (waiters s ! i)) (waiter_due (waiters s ! i)) now (Inl e)
      (sys_world s) = Inr (Some (if e = ''WAIT_TIMEOUT'' then 0 else - 1, []), ?w)"
    using finish_idle [of ?w False os "- 1"] q
    by (simp add: port_wait_wake_def bindP_def port_wait_turn_def returnP_def)
  then show ?thesis by (simp add: err_map_win_error_def)
qed

lemma time_out_is_no_error_witness:
  "\<exists>(s :: port_system) s'. waiters s \<noteq> [] \<and> run_event willing_os (Wake 0 (Inl ''WAIT_TIMEOUT'') 5) s = Inr (Some (0, []), s')"
proof -
  obtain s where s: "reachable willing_os 9 s"
    "waiters s = [\<lparr>waiter_max = 10, waiter_timeout = - 1, waiter_due = 0\<rparr>]" by (rule one_waiting_reachable)
  have "may_happen willing_os (Wake 0 (Inl ''WAIT_TIMEOUT'') 5) s" using s(2) by simp
  from time_out_is_no_error [OF s(1) willing_os_ok this] s(2) show ?thesis by - (rule exI [of _ s], auto simp del: run_event.simps)
qed

text \<open>For every completed request, an event is reported only if it has bits, all of which the user
  asked for, with the data the user gave; with \<open>EPOLLONESHOT\<close> the socket is disarmed then.\<close>

theorem reported_events_were_asked_for:
  assumes "reachable os iocp s" "os_ok os" "a \<in> set (requests (sys_world s))"
  shows "\<exists>r w' u. sock_feed_event os a (sys_world s) = Inr (r, w') \<and> socks (sys_world s) a = Some u \<and>
    (\<forall>ev data. r = Some (ev, data) \<longrightarrow> ev \<noteq> 0 \<and> ev AND NOT (user_events u) = 0 \<and> data = user_data u \<and>
       (\<exists>u'. socks w' a = Some u' \<and>
          user_events u' = (if user_events u AND EPOLLONESHOT \<noteq> 0 then 0 else user_events u)))"
proof -
  obtain B where at: "sys_at os iocp B s" by (rule reachable_at [OF assms(1,2)])
  obtain u where u: "socks (sys_world s) a = Some u"
    using sys_atD(1) [OF at] assms(3) by (auto simp: port_inv_def inv_but_def requests_ok_def)
  from sock_feed_event_wp [OF sys_atD(1) [OF at] assms(3), of os] u show ?thesis
    by (auto simp: wp_returns feed_done_def)
qed

lemma reported_events_were_asked_for_witness:
  "\<exists>(s :: port_system) r w'. requests (sys_world s) = [2] \<and> sock_feed_event willing_os 2 (sys_world s) = Inr (r, w')"
proof -
  obtain s where s: "reachable willing_os 9 s" "requests (sys_world s) = [2]" by (rule one_waiting_reachable)
  have "2 \<in> set (requests (sys_world s))" using s(2) by simp
  from reported_events_were_asked_for [OF s(1) willing_os_ok(1) this] s(2) show ?thesis by blast
qed

text \<open>C37: \<open>port_delete\<close> on a closed port returns, in whatever state the sockets are, with every socket
  and poll group freed and every handle closed, but for the completion port if closing it failed.\<close>

theorem closed_port_is_freed:
  assumes "reachable os iocp s" "os_ok os" "iocp_handle (port (sys_world s)) = 0"
  shows "\<exists>w'. port_delete os (sys_world s) = Inr (0, w') \<and> socks w' = Map.empty \<and> groups w' = Map.empty \<and>
    set (open_handles w') \<subseteq> {iocp} \<and> sock_tree (port w') = Null \<and> sock_update_queue (port w') = [] \<and>
    sock_deleted_queue (port w') = [] \<and> poll_group_queue (port w') = []"
proof -
  obtain B where at: "sys_at os iocp B s" by (rule reachable_at [OF assms(1,2)])
  then have "core_ok B (sys_world s)" using sys_atD(1) by (simp add: port_inv_def inv_but_def)
  from port_delete_wp [OF this assms(3)] obtain w' where w':
    "port_delete os (sys_world s) = Inr (0, w')" "port_gone B w'" by (auto simp: wp_returns)
  have "B \<subseteq># {#iocp#}" using sys_atD(2) [OF at] by auto
  then have "set_mset B \<subseteq> {iocp}" using set_mset_mono by fastforce
  moreover have "set (open_handles w') = set_mset B" using w'(2) by (metis port_gone_def set_mset_mset)
  moreover have "sock_tree (port w') = Null"
    using w'(2) by (cases "sock_tree (port w')") (auto simp: port_gone_def tree_map_def dest: fun_cong)
  ultimately show ?thesis using w' by (auto simp: port_gone_def)
qed

lemma closed_port_is_freed_witness:
  "\<exists>(s :: port_system) w'. socks (sys_world s) 2 \<noteq> None \<and> port_delete willing_os (sys_world s) = Inr (0, w') \<and>
    socks w' = Map.empty"
proof -
  obtain s where s: "reachable willing_os 9 s" "iocp_handle (port (sys_world s)) = 0" "socks (sys_world s) 2 \<noteq> None"
    using one_closed_steps run_events_reachable [OF start_reachable] by metis
  from closed_port_is_freed [OF s(1) willing_os_ok(1) s(2)] s(3) show ?thesis by blast
qed

text \<open>
  What the user sees of a port: the sockets that are registered, each with its events and its data.
\<close>

definition wanted :: "epoll_world \<Rightarrow> u64 \<Rightarrow> epoll_event option" where
  "wanted w sock =
     (case registered w sock of
        None \<Rightarrow> None
      | Some a \<Rightarrow> map_option (\<lambda>u. (user_events u, user_data u)) (socks w a))"

text \<open>
  Why Windows may refuse to watch a socket, as an \<open>errno\<close>: no device handle for a new group, from the
  \<open>n\<close>-th call on, or no memory, an invalid socket, or a socket without a base.
\<close>

definition device_refused :: "os_calls \<Rightarrow> nat \<Rightarrow> string option" where
  "device_refused os n =
     (case nt_create_file os n of
        Inl status \<Rightarrow> Some (err_map_win_error_to_errno (dos_error os status))
      | Inr _ \<Rightarrow>
          (case associate_iocp os (n + 1) of
             Some e \<Rightarrow> Some (err_map_win_error_to_errno e)
           | None \<Rightarrow> map_option err_map_win_error_to_errno (set_modes os (n + 2))))"

definition group_refused :: "os_calls \<Rightarrow> epoll_world \<Rightarrow> string option" where
  "group_refused os w =
     (if group_has_room w then None
      else if \<not> malloc_ok os (calls w) then Some ''ENOMEM''
      else device_refused os (calls w + 1))"

definition add_refused :: "os_calls \<Rightarrow> u64 \<Rightarrow> epoll_world \<Rightarrow> string option" where
  "add_refused os sock w =
     (if sock = 0 \<or> sock = INVALID_SOCKET then Some ''EBADF''
      else
        case ws_get_base_socket (wsa_ioctl os) sock w of
          None \<Rightarrow> None
        | Some (base, v) \<Rightarrow>
            if base = INVALID_SOCKET then Some (errno v)
            else if group_refused os w \<noteq> None then group_refused os w
            else if \<not> malloc_ok os (calls w + (if group_has_room w then 0 else 4)) then Some ''ENOMEM''
            else None)"

text \<open>
  The map that \<open>epoll_ctl\<close> keeps, as its manual page has it: the new map, and the error if there is one.
\<close>

definition map_ctl :: "int \<Rightarrow> u64 \<Rightarrow> epoll_event \<Rightarrow> string option \<Rightarrow> (u64 \<Rightarrow> epoll_event option) \<Rightarrow>
    string option \<times> (u64 \<Rightarrow> epoll_event option)" where
  "map_ctl op sock ev refused m =
     (let entry = (fst ev OR EPOLLERR OR EPOLLHUP, snd ev) in
      if op = EPOLL_CTL_ADD then
        (if refused \<noteq> None then (refused, m)
         else if sock \<in> dom m then (Some ''EEXIST'', m)
         else (None, m(sock \<mapsto> entry)))
      else if op = EPOLL_CTL_MOD then
        (if sock \<in> dom m then (None, m(sock \<mapsto> entry)) else (Some ''ENOENT'', m))
      else if op = EPOLL_CTL_DEL then
        (if sock \<in> dom m then (None, m(sock := None)) else (Some ''ENOENT'', m))
      else (Some ''EINVAL'', m))"

lemma set_error_errno [simp]:
  "errno (err_set_win_error ''ERROR_NOT_FOUND'' w) = ''ENOENT''"
  "errno (err_set_win_error ''ERROR_INVALID_PARAMETER'' w) = ''EINVAL''"
  "errno (err_set_win_error ''ERROR_NOT_ENOUGH_MEMORY'' w) = ''ENOMEM''"
  "errno (err_set_win_error ''ERROR_ALREADY_EXISTS'' w) = ''EEXIST''"
  "errno (err_set_win_error ''ERROR_INVALID_HANDLE'' w) = ''EBADF''"
  by (simp_all add: err_set_win_error_def err_map_win_error_to_errno_def err_errno_mappings_def)

subsection \<open>The error of a refused socket\<close>

text \<open>What a call gives, by the error it ends with if there is one.\<close>

definition fails_exactly :: "string option \<Rightarrow> 'a option \<Rightarrow> epoll_world \<Rightarrow> bool" where
  "fails_exactly refused r v \<longleftrightarrow> (case refused of None \<Rightarrow> r \<noteq> None | Some e \<Rightarrow> r = None \<and> errno v = e)"

lemma device_outcome:
  assumes "afd_create_device_handle os iocp w = Inr (r, v)"
  shows "fails_exactly (device_refused os (calls w)) r v" "r \<noteq> None \<Longrightarrow> calls v = calls w + 3"
  using assms
  by (auto simp: fails_exactly_def device_refused_def afd_create_device_handle_def CloseHandle_def program_defs
      err_set_win_error_def err_map_win_error_def split: sum.splits option.splits)

lemma bind_InrE:
  assumes "bindP f g w = Inr (r, v)"
  obtains a u where "f w = Inr (a, u)" "g a u = Inr (r, v)"
  using assms by (auto simp: bindP_def bindR_def split: sum.splits)

lemma bind_assoc: "bindP (bindP f g) h w = bindP f (\<lambda>a. bindP (g a) h) w"
  by (auto simp: bindP_def bindR_def split: sum.splits)

lemma bind_run:
  "bindP (returnP x) f1 w = f1 x w" "bindP (modifyP m) f2 w = f2 () (m w)" "bindP (getP q) f3 w = f3 (q w) w"
  "bindP callP f4 w = f4 (calls w) (w\<lparr>calls := Suc (calls w)\<rparr>)"
  "bindP new_address f5 w = f5 (next_address w) (w\<lparr>next_address := Suc (next_address w)\<rparr>)"
  "bindP (assertP b) f6 w = (if b then f6 () w else Inl (Logic_error ''assertion failed''))"
  "bindP (\<lambda>w. bindR e (\<lambda>r. Inr (r, w))) f7 w = bindR e (\<lambda>r. f7 r w)"
  "bindP (get_group g) f8 w = (case groups w g of None \<Rightarrow> Inl (Undefined_behaviour ''dangling pointer'') | Some y \<Rightarrow> f8 y w)"
  "bindP (get_sock a) f9 w = (case socks w a of None \<Rightarrow> Inl (Undefined_behaviour ''dangling pointer'') | Some y \<Rightarrow> f9 y w)"
  "bindP (\<lambda>w. Inr (y, w)) f10 w = f10 y w"
  "bindP (if c then p1 else p2) h w = (if c then bindP p1 h w else bindP p2 h w)"
  by (auto simp: program_defs danglingP_def bindR_def split: option.splits sum.splits)

lemmas run_rules = bind_assoc bind_run get_port_def set_port_def return_set_error_def

lemma new_group_outcome:
  assumes "poll_group_new os w = Inr (r, v)" "\<not> group_has_room w"
  shows "fails_exactly (group_refused os w) r v \<and> (r \<noteq> None \<longrightarrow> calls v = calls w + 4)"
proof (cases "malloc_ok os (calls w)")
  case False
  then show ?thesis using assms
    by (auto simp: fails_exactly_def group_refused_def poll_group_new_def port_get_iocp_handle_def program_defs
        split: if_splits)
next
  case True
  define x where "x = w\<lparr>calls := Suc (calls w), next_address := Suc (next_address w),
    groups := (groups w)(next_address w \<mapsto> \<lparr>afd_device_handle = 0, group_size = 0\<rparr>)\<rparr>"
  define k where "k = (\<lambda>h. case h of
      None \<Rightarrow> bindP (modifyP (\<lambda>u. u\<lparr>groups := (groups u)(next_address w := None)\<rparr>)) (\<lambda>_. returnP None)
    | Some h \<Rightarrow>
        bindP (set_group (next_address w) (\<lambda>p. p\<lparr>afd_device_handle := h\<rparr>)) (\<lambda>_.
        bindP (set_port (\<lambda>p. p\<lparr>poll_group_queue := poll_group_queue p @ [next_address w]\<rparr>)) (\<lambda>_.
        returnP (Some (next_address w)))))"
  have "iocp_handle (port w) \<noteq> 0" using assms(1)
    by (auto simp: poll_group_new_def port_get_iocp_handle_def run_rules)
  then have "poll_group_new os w = bindP (afd_create_device_handle os (iocp_handle (port w))) k x"
    unfolding poll_group_new_def port_get_iocp_handle_def get_port_def bind_assoc bind_run k_def x_def
    using True by (simp add: bind_run)
  then have "bindP (afd_create_device_handle os (iocp_handle (port w))) k x = Inr (r, v)" using assms(1) by simp
  then obtain h u where h: "afd_create_device_handle os (iocp_handle (port w)) x = Inr (h, u)" "k h u = Inr (r, v)"
    by (rule bind_InrE)
  have "r \<noteq> None \<longleftrightarrow> h \<noteq> None" "errno v = errno u" "calls v = calls u"
    using h(2) by (auto simp: k_def program_defs danglingP_def split: option.splits)
  moreover have "calls x = Suc (calls w)" by (simp add: x_def)
  ultimately show ?thesis using device_outcome [OF h(1)] True assms(2)
    by (auto simp: fails_exactly_def group_refused_def split: option.splits)
qed

lemma acquire_outcome:
  assumes "poll_group_acquire os w = Inr (r, v)"
  shows "fails_exactly (group_refused os w) r v \<and>
    (r \<noteq> None \<longrightarrow> calls v = calls w + (if group_has_room w then 0 else 4))"
proof -
  have use: "r = Some g \<and> calls v = calls u" if "use_group g u = Inr (r, v)" for g u
    using that by (auto simp: use_group_def program_defs danglingP_def split: option.splits if_splits)
  have new: "fails_exactly (group_refused os w) r v \<and> (r \<noteq> None \<longrightarrow> calls v = calls w + 4)"
    if "bindP (poll_group_new os) (\<lambda>r. case r of None \<Rightarrow> returnP None | Some g \<Rightarrow> use_group g) w = Inr (r, v)"
      "\<not> group_has_room w"
    using that(1)
  proof (rule bind_InrE)
    fix q u
    assume q: "poll_group_new os w = Inr (q, u)"
      "(case q of None \<Rightarrow> returnP None | Some g \<Rightarrow> use_group g) u = Inr (r, v)"
    show ?thesis using new_group_outcome [OF q(1) that(2)] q(2) use
      by (cases q) (auto simp: fails_exactly_def returnP_def split: option.splits)
  qed
  show ?thesis
  proof (cases "group_has_room w")
    case True
    then have "use_group (last (poll_group_queue (port w))) w = Inr (r, v)" using assms
      by (auto simp: group_has_room_def poll_group_acquire_eq run_rules not_le [symmetric] split: option.splits)
    from use [OF this] True show ?thesis by (simp add: fails_exactly_def group_refused_def)
  next
    case False
    then have "bindP (poll_group_new os) (\<lambda>r. case r of None \<Rightarrow> returnP None | Some g \<Rightarrow> use_group g) w = Inr (r, v)"
      using assms
      by (auto simp: group_has_room_def poll_group_acquire_eq run_rules danglingP_def
          split: option.splits if_splits)
    from new [OF this False] False show ?thesis by simp
  qed
qed

lemma release_errno: "poll_group_release g w = Inr (x, v) \<Longrightarrow> errno v = errno w"
  by (auto simp: poll_group_release_def program_defs danglingP_def split: option.splits if_splits)

lemma give_back_errno:
  "bindP (poll_group_release g) (\<lambda>_. returnP None) w = Inr (r, v) \<Longrightarrow> r = None \<and> errno v = errno w"
  by (erule bind_InrE) (auto simp: returnP_def release_errno)

lemma with_group_outcome:
  assumes "sock_with_group os socket base g w = Inr (r, v)" "tree_ok (sock_tree (port w))"
  shows "fails_exactly (if \<not> malloc_ok os (calls w) then Some ''ENOMEM''
    else if registered w socket \<noteq> None then Some ''EEXIST'' else None) r v"
proof (cases "malloc_ok os (calls w)")
  case False
  then have "bindP (poll_group_release g) (\<lambda>_. returnP None)
      (err_set_win_error ''ERROR_NOT_ENOUGH_MEMORY'' (w\<lparr>calls := Suc (calls w)\<rparr>)) = Inr (r, v)"
    using assms(1) by (simp add: sock_with_group_def program_defs)
  from give_back_errno [OF this] False show ?thesis by (simp add: fails_exactly_def)
next
  case True
  show ?thesis
  proof (cases "registered w socket")
    case None
    then obtain t where "tree_add socket (next_address w) (sock_tree (port w)) = Inr (Some t)"
      using rb.add_new [OF assms(2), of socket "next_address w"] by auto
    then show ?thesis using True None assms(1)
      by (simp add: fails_exactly_def sock_with_group_def port_register_socket_def program_defs)
        (auto simp: bindR_def split: sum.splits)
  next
    case (Some b)
    then have "tree_add socket (next_address w) (sock_tree (port w)) = Inr None"
      using rb.add_taken [OF assms(2)] by blast
    then have "\<exists>x. errno x = ''EEXIST'' \<and> bindP (poll_group_release g) (\<lambda>_. returnP None) x = Inr (r, v)"
      using True assms(1)
      by (auto simp: sock_with_group_def port_register_socket_def sock_free_def run_rules intro!: exI)
    then show ?thesis using True Some give_back_errno by (auto simp: fails_exactly_def)
  qed
qed

lemma sock_new_outcome:
  assumes "sock_new os socket w = Inr (r, v)" "port_inv B w" "os_ok os" "\<not> add_without_port os socket w"
  shows "fails_exactly (if add_refused os socket w \<noteq> None then add_refused os socket w
    else if registered w socket \<noteq> None then Some ''EEXIST'' else None) r v"
proof (cases "socket = 0 \<or> socket = INVALID_SOCKET")
  case True
  then show ?thesis using assms(1)
    by (auto simp: sock_new_def add_refused_def fails_exactly_def return_set_error_def bind_run returnP_def)
next
  case valid: False
  obtain base u where u: "ws_get_base_socket (wsa_ioctl os) socket w = Some (base, u)"
    using assms(3) unfolding os_ok_def by (metis not_None_eq surj_pair)
  then have calm: "calm w u" by (rule base_socket_calm)
  have run: "(if base = INVALID_SOCKET then returnP None
        else bindP (poll_group_acquire os) (\<lambda>g.
          case g of None \<Rightarrow> returnP None | Some g \<Rightarrow> sock_with_group os socket base g)) u = Inr (r, v)"
    using assms(1) valid u by (simp add: sock_new_eq bindP_def [of "base_socket_program os socket"] base_socket_program_def)
  show ?thesis
  proof (cases "base = INVALID_SOCKET")
    case True
    then show ?thesis using run valid u by (auto simp: add_refused_def fails_exactly_def returnP_def)
  next
    case base: False
    then obtain g x where g: "poll_group_acquire os u = Inr (g, x)"
      "(case g of None \<Rightarrow> returnP None | Some g \<Rightarrow> sock_with_group os socket base g) x = Inr (r, v)"
      using run by (auto elim: bind_InrE)
    have calls: "calls u = calls w" using base_socket_errors [OF u] by (simp add: only_errors_def)
    then have same: "group_refused os u = group_refused os w" "group_has_room u = group_has_room w"
      using calm_room [OF calm] by (simp_all add: group_refused_def)
    have acq: "fails_exactly (group_refused os w) g x"
      "g \<noteq> None \<Longrightarrow> calls x = calls w + (if group_has_room w then 0 else 4)"
      using acquire_outcome [OF g(1)] same calls by simp_all
    show ?thesis
    proof (cases g)
      case None
      then show ?thesis using acq(1) g(2) valid base u
        by (auto simp: add_refused_def fails_exactly_def returnP_def split: option.splits)
    next
      case (Some h)
      have "port_inv B u" using port_inv_calm [OF calm assms(2)] .
      then have c: "core_ok B u" by (simp add: port_inv_def inv_but_def)
      then have sized: "groups_sized B (\<lambda>g. card (members_of u g)) u" by (simp add: core_ok_def groups_ok_def)
      have absent: "\<forall>g. g \<notin> dom (groups u) \<longrightarrow> card (members_of u g) = 0" using members_absent [OF c] by blast
      have "iocp_handle (port u) \<noteq> 0 \<or> group_has_room u"
        using assms(4) valid u base calm_room [OF calm] calm_fields [OF calm] by (auto simp: add_without_port_def)
      from poll_group_acquire_wp [OF sized this absent, of os] g(1) have "group_frame u x" by (auto simp: wp_returns)
      then have tree: "sock_tree (port x) = sock_tree (port w)"
        using group_frame_fields(3) [of u x] calm_fields [OF calm] by simp
      have ok: "tree_ok (sock_tree (port w))"
        using assms(2) by (simp add: port_inv_def inv_but_def core_ok_def structure_ok_def)
      have "sock_with_group os socket base h x = Inr (r, v)" using g(2) Some by simp
      from with_group_outcome [OF this] ok tree have "fails_exactly (if \<not> malloc_ok os (calls x) then Some ''ENOMEM''
        else if registered w socket \<noteq> None then Some ''EEXIST'' else None) r v" by (simp only: tree)
      then show ?thesis using acq Some valid base u
        by (auto simp: add_refused_def fails_exactly_def split: option.splits if_splits)
    qed
  qed
qed

lemma add_outcome:
  assumes "port_ctl_add os sock ev w = Inr (r, v)" "port_inv B w" "os_ok os" "\<not> add_without_port os sock w"
  shows "case (if add_refused os sock w \<noteq> None then add_refused os sock w
    else if registered w sock \<noteq> None then Some ''EEXIST'' else None) of
      None \<Rightarrow> r = 0 | Some e \<Rightarrow> r = - 1 \<and> errno v = e"
proof -
  obtain q u where q: "sock_new os sock w = Inr (q, u)"
    "(case q of
       None \<Rightarrow> returnP (- 1)
     | Some a \<Rightarrow>
         bindP (sock_set_event a ev) (\<lambda>r.
         if r < 0 then bindP (sock_delete os a) (\<lambda>_. returnP (- 1))
         else bindP (port_update_events_if_polling os) (\<lambda>_. returnP 0))) u = Inr (r, v)"
    using assms(1) unfolding port_ctl_add_def by (rule bind_InrE)
  have zero: "x = 0" if "sock_set_event a ev y = Inr (x, z)" for a x y z
    using that by (auto simp: sock_set_event_def Let_def returnP_def elim!: bind_InrE)
  have "q \<noteq> None \<longrightarrow> r = 0" "q = None \<longrightarrow> r = - 1 \<and> v = u"
    using q(2) by (auto simp: returnP_def dest!: zero elim!: bind_InrE split: option.splits)
  then show ?thesis using sock_new_outcome [OF q(1) assms(2-4)] unfolding fails_exactly_def
    by (auto split: option.splits if_splits)
qed

subsection \<open>The map\<close>

lemma wanted_dom: "port_inv B w \<Longrightarrow> sock \<in> dom (wanted w) \<longleftrightarrow> registered w sock \<noteq> None"
  by (auto simp: wanted_def dom_def elim: registered_sock split: option.splits)

lemma wanted_same: "registered w' = registered w \<Longrightarrow> socks w' = socks w \<Longrightarrow> wanted w' = wanted w"
  by (rule ext) (simp add: wanted_def cong: option.case_cong)

lemma wanted_update:
  assumes "registered w' = (registered w)(k \<mapsto> a)" "\<forall>b. b \<noteq> a \<longrightarrow> socks w' b = socks w b"
    "socks w' a = Some u" "\<forall>l. l \<noteq> k \<longrightarrow> registered w l \<noteq> Some a"
  shows "wanted w' = (wanted w)(k \<mapsto> (user_events u, user_data u))"
proof (rule ext)
  fix l
  show "wanted w' l = ((wanted w)(k \<mapsto> (user_events u, user_data u))) l"
    using assms(2-4) by (cases "l = k"; cases "registered w l") (auto simp: wanted_def assms(1))
qed

lemma wanted_remove:
  assumes "registered w' = (registered w)(k := None)" "\<forall>b. b \<noteq> a \<longrightarrow> socks w' b = socks w b"
    "\<forall>l. l \<noteq> k \<longrightarrow> registered w l \<noteq> Some a"
  shows "wanted w' = (wanted w)(k := None)"
proof (rule ext)
  fix l
  show "wanted w' l = ((wanted w)(k := None)) l"
    using assms(2,3) by (cases "l = k"; cases "registered w l") (auto simp: wanted_def assms(1))
qed

lemma registered_once:
  "port_inv B w \<Longrightarrow> registered w k = Some a \<Longrightarrow> l \<noteq> k \<Longrightarrow> registered w l \<noteq> Some a"
  by (metis option.inject registered_sock)

lemmas ctl_ops = EPOLL_CTL_ADD_def EPOLL_CTL_MOD_def EPOLL_CTL_DEL_def

text \<open>C36: With nobody waiting, control of an open port is a map from sockets to events and data, with
  the error numbers of epoll: adding a registered socket gives \<open>EEXIST\<close>, changing or removing an unknown
  one \<open>ENOENT\<close>, another operation \<open>EINVAL\<close>, and all of these leave every entry alone. Adding fails
  otherwise exactly when Windows refuses, with the error that says why (\<open>add_refused\<close>), and a successful
  call changes the entry of its socket and no other.\<close>

theorem ctl_refines_map:
  assumes "reachable os iocp s" "os_ok os" "iocp_handle (port (sys_world s)) \<noteq> 0" "waiters s = []"
  shows "\<exists>r w'. port_ctl os op sock ev (sys_world s) = Inr (r, w') \<and>
    (case map_ctl op sock ev (add_refused os sock (sys_world s)) (wanted (sys_world s)) of (e, m) \<Rightarrow>
       wanted w' = m \<and> (case e of None \<Rightarrow> r = 0 | Some n \<Rightarrow> r = - 1 \<and> errno w' = n))"
proof -
  let ?w = "sys_world s" and ?entry = "(fst ev OR EPOLLERR OR EPOLLHUP, snd ev)"
  obtain B where at: "sys_at os iocp B s" by (rule reachable_at [OF assms(1,2)])
  note inv = sys_atD(1) [OF at]
  have no: "active_poll_count (port ?w) = 0" using sys_atD(3) [OF at] assms(4) by (simp add: unat_eq_0)
  have ok: "\<not> add_without_port os sock ?w" using assms(3) by simp
  note dom = wanted_dom [OF inv, of sock]
  consider "op = EPOLL_CTL_ADD" | "op = EPOLL_CTL_MOD" | "op = EPOLL_CTL_DEL"
    | "op \<notin> {EPOLL_CTL_ADD, EPOLL_CTL_MOD, EPOLL_CTL_DEL}" by blast
  then show ?thesis
  proof cases
    case 1
    from port_ctl_add_wp [OF inv assms(2) ok, of ev] obtain r w' where
      r: "port_ctl_add os sock ev ?w = Inr (r, w')" "add_done B os sock ev ?w r w'" by (auto simp: wp_returns)
    have fresh: "registered ?w l \<noteq> Some a" if "socks ?w a = None" for l a
      using registered_sock [OF inv] that by (metis option.distinct(1))
    have "r = - 1 \<and> wanted w' = wanted ?w \<or> r = 0 \<and> wanted w' = (wanted ?w)(sock \<mapsto> ?entry)"
    proof (cases "r = - 1")
      case True
      then have "registered w' = registered ?w" "socks w' = socks ?w" using r(2) by (auto simp: add_done_def)
      then show ?thesis using True wanted_same by blast
    next
      case False
      then obtain a u where a: "r = 0" "socks ?w a = None" "registered w' = (registered ?w)(sock \<mapsto> a)"
        "\<forall>b. b \<noteq> a \<longrightarrow> socks w' b = socks ?w b" "socks w' a = Some u"
        "(user_events u, user_data u) = ?entry"
        using r(2) no by (auto simp: add_done_def set_done_def)
      have "wanted w' = (wanted ?w)(sock \<mapsto> (user_events u, user_data u))"
        by (rule wanted_update [OF a(3-5)]) (use fresh a(2) in blast)
      then show ?thesis using a(1,6) by simp
    qed
    then show ?thesis using add_outcome [OF r(1) inv assms(2) ok] r(1) 1 dom
      by (auto simp: port_ctl_def map_ctl_def Let_def split: option.splits if_splits)
  next
    case 2
    from port_ctl_mod_wp [OF inv assms(2), of sock ev] obtain r w' where
      r: "port_ctl_mod os sock ev ?w = Inr (r, w')" "mod_done B os sock ev ?w r w'" by (auto simp: wp_returns)
    show ?thesis
    proof (cases "registered ?w sock")
      case None
      then show ?thesis using r 2 dom wanted_same [of w' ?w]
        by (simp add: port_ctl_def map_ctl_def mod_done_def ctl_ops)
    next
      case (Some a)
      obtain u where u: "registered w' = (registered ?w)(sock \<mapsto> a)"
        "\<forall>b. b \<noteq> a \<longrightarrow> socks w' b = socks ?w b" "socks w' a = Some u"
        "(user_events u, user_data u) = ?entry"
        using r(2) no Some by (auto simp: mod_done_def set_done_def fun_upd_idem)
      have "wanted w' = (wanted ?w)(sock \<mapsto> (user_events u, user_data u))"
        by (rule wanted_update [OF u(1-3)]) (use registered_once [OF inv Some] in blast)
      then show ?thesis using r Some 2 dom u(4) by (simp add: port_ctl_def map_ctl_def mod_done_def ctl_ops)
    qed
  next
    case 3
    from port_ctl_del_wp [OF inv, of os sock] obtain r w' where
      r: "port_ctl_del os sock ?w = Inr (r, w')" "del_done sock ?w r w'" by (auto simp: wp_returns)
    show ?thesis
    proof (cases "registered ?w sock")
      case None
      then show ?thesis using r 3 dom wanted_same [of w' ?w]
        by (simp add: port_ctl_def map_ctl_def del_done_def ctl_ops)
    next
      case (Some a)
      have "wanted w' = (wanted ?w)(sock := None)"
        by (rule wanted_remove [of _ _ _ a])
          (use r(2) Some registered_once [OF inv Some] in \<open>simp_all add: del_done_def\<close>)
      then show ?thesis using r Some 3 dom by (simp add: port_ctl_def map_ctl_def del_done_def ctl_ops)
    qed
  next
    case 4
    then show ?thesis using wanted_same [of "err_set_win_error ''ERROR_INVALID_PARAMETER'' ?w" ?w]
      by (simp add: port_ctl_def map_ctl_def return_set_error_def bind_run returnP_def)
  qed
qed

lemma ctl_refines_map_witness:
  "\<exists>(s :: port_system) w'. wanted (sys_world s) 7 \<noteq> None \<and>
    port_ctl willing_os EPOLL_CTL_ADD 7 (EPOLLIN, 1) (sys_world s) = Inr (- 1, w') \<and> errno w' = ''EEXIST'' \<and>
    wanted w' = wanted (sys_world s)"
proof -
  obtain s where s: "reachable willing_os 9 s" "registered (sys_world s) 7 = Some 2" "waiters s = []"
    "iocp_handle (port (sys_world s)) = 9" by (rule one_socket_reachable)
  obtain B where "sys_at willing_os 9 B s" by (rule reachable_at [OF s(1) willing_os_ok(1)])
  then have w: "7 \<in> dom (wanted (sys_world s))" using wanted_dom sys_atD(1) s(2) by blast
  have "add_refused willing_os 7 (sys_world s) = None"
  proof -
    have "group_refused willing_os w = None" "malloc_ok willing_os n" for w n
      by (simp_all add: group_refused_def device_refused_def willing_os_def)
    then show ?thesis by (simp add: add_refused_def ready_base INVALID_SOCKET_def)
  qed
  moreover have "iocp_handle (port (sys_world s)) \<noteq> 0" using s(4) by simp
  ultimately show ?thesis using ctl_refines_map [OF s(1) willing_os_ok(1) _ s(3), of EPOLL_CTL_ADD 7 "(EPOLLIN, 1)"] w
    by (auto simp: map_ctl_def)
qed

text \<open>Translated to the driver's events and back, the events of the user are all covered, for every
  mask; the close of a socket is always watched and is itself no event of the user.\<close>

theorem event_masks_cover:
  "(ev AND NOT (afd_events_to_epoll_events (epoll_events_to_afd_events ev))) AND
     (EPOLLIN OR EPOLLPRI OR EPOLLOUT OR EPOLLERR OR EPOLLHUP OR EPOLLRDNORM OR EPOLLRDBAND OR
      EPOLLWRNORM OR EPOLLWRBAND OR EPOLLRDHUP) = 0 \<and>
   epoll_events_to_afd_events ev AND AFD_POLL_LOCAL_CLOSE \<noteq> 0 \<and>
   afd_events_to_epoll_events AFD_POLL_LOCAL_CLOSE = 0"
proof (intro conjI)
  show "(ev AND NOT (afd_events_to_epoll_events (epoll_events_to_afd_events ev))) AND
     (EPOLLIN OR EPOLLPRI OR EPOLLOUT OR EPOLLERR OR EPOLLHUP OR EPOLLRDNORM OR EPOLLRDBAND OR
      EPOLLWRNORM OR EPOLLWRBAND OR EPOLLRDHUP) = 0"
    unfolding and_or_zero unfolding event_defs
    by (simp only: mask_bits bit_and_iff bit_not_iff afd_event_bits epoll_event_bits) blast
  have "bit (epoll_events_to_afd_events ev AND AFD_POLL_LOCAL_CLOSE) 5"
    by (simp add: bit_and_iff afd_event_bits AFD_POLL_LOCAL_CLOSE_def)
  then show "epoll_events_to_afd_events ev AND AFD_POLL_LOCAL_CLOSE \<noteq> 0" by force
  show "afd_events_to_epoll_events AFD_POLL_LOCAL_CLOSE = 0"
    by (simp add: afd_events_to_epoll_events_def event_defs)
qed

end
