(* ===== verification/Wepoll_Handles.thy ===== *)
theory Wepoll_Handles
  imports Wepoll_System
begin

text \<open>
  The life of an epoll handle (\<open>reflock_\<close> and \<open>ts_tree_\<close> functions and the exported functions of
  \<open>src/src/lib/wepoll.c\<close>): threads find the port of the handle and take a reference, use the port
  and give the reference back, while one thread closes it, waits for the references and deletes it.
  The state of the lock is the 32-bit word of the code; every interlocked operation is one step, and so is
  what a thread does while it holds the lock of the port. \<open>port_delete\<close> is one step too: that the
  kernel writes the result of a cancelled request between the freeing of its socket and the closing of the
  device handle is not represented.
\<close>

section \<open>The reference lock\<close>

definition REFLOCK_REF :: u32 where "REFLOCK_REF = 0x00000001"
definition REFLOCK_REF_MASK :: u32 where "REFLOCK_REF_MASK = 0x0fffffff"
definition REFLOCK_DESTROY :: u32 where "REFLOCK_DESTROY = 0x10000000"
definition REFLOCK_DESTROY_MASK :: u32 where "REFLOCK_DESTROY_MASK = 0xf0000000"
definition REFLOCK_POISON :: u32 where "REFLOCK_POISON = 0x300dead0"

lemmas reflock_defs = REFLOCK_REF_def REFLOCK_REF_MASK_def REFLOCK_DESTROY_def REFLOCK_DESTROY_MASK_def
  REFLOCK_POISON_def

definition check :: "bool \<Rightarrow> 'a \<Rightarrow> 'a result" where
  "check b x = (if b then Inr x else Inl (Logic_error ''assertion failed''))"

definition reflock_init :: u32 where
  "reflock_init = 0"

definition reflock_ref :: "u32 \<Rightarrow> u32 result" where
  "reflock_ref state =
     (let state = state + REFLOCK_REF in check (state AND REFLOCK_DESTROY_MASK = 0) state)"

text \<open>Whether the thread goes on to signal the event, and the new state.\<close>

definition reflock_unref :: "u32 \<Rightarrow> (bool \<times> u32) result" where
  "reflock_unref state =
     (let state = state - REFLOCK_REF in
      check (state AND REFLOCK_DESTROY_MASK AND NOT REFLOCK_DESTROY = 0) (state = REFLOCK_DESTROY, state))"

text \<open>Up to the wait for the event (whether there is one), and behind it.\<close>

definition reflock_unref_and_destroy :: "u32 \<Rightarrow> (bool \<times> u32) result" where
  "reflock_unref_and_destroy state =
     (let state = state + (REFLOCK_DESTROY - REFLOCK_REF) in
      check (state AND REFLOCK_DESTROY_MASK = REFLOCK_DESTROY) (state AND REFLOCK_REF_MASK \<noteq> 0, state))"

definition reflock_destroyed :: "u32 \<Rightarrow> u32 result" where
  "reflock_destroyed state = check (state = REFLOCK_DESTROY) REFLOCK_POISON"

text \<open>The counter is the low 28 bits.\<close>

lemma masks:
  "REFLOCK_REF_MASK = mask 28" "REFLOCK_DESTROY_MASK = NOT (mask 28)"
  "REFLOCK_DESTROY AND NOT (mask 28) = REFLOCK_DESTROY" "REFLOCK_DESTROY AND mask 28 = 0"
  by (simp_all add: reflock_defs mask_eq_exp_minus_1)

lemma count_bits:
  assumes "n < 2 ^ 28"
  shows "(of_nat n :: u32) AND REFLOCK_DESTROY_MASK = 0"
    "(REFLOCK_DESTROY + of_nat n) AND REFLOCK_DESTROY_MASK = REFLOCK_DESTROY"
    "(REFLOCK_DESTROY + of_nat n) AND REFLOCK_REF_MASK = of_nat n"
    "(of_nat n :: u32) = 0 \<longleftrightarrow> n = 0"
proof -
  have t: "take_bit 28 (of_nat n :: u32) = of_nat n"
    using assms take_bit_nat_eq_self [of n 28] by (simp only: take_bit_of_nat)
  then have low: "(of_nat n :: u32) AND mask 28 = of_nat n" by (simp add: take_bit_eq_mask)
  have split: "REFLOCK_DESTROY + of_nat n = REFLOCK_DESTROY OR of_nat n"
  proof (rule disjunctive_add)
    fix i
    have e: "REFLOCK_DESTROY = 2 ^ 28" by (simp add: reflock_defs)
    have "i = 28" if "bit REFLOCK_DESTROY i" using that unfolding e bit_exp_iff by simp
    moreover have "i < 28" if "bit (of_nat n :: u32) i"
    proof -
      have "bit (take_bit 28 (of_nat n :: u32)) i" using that t by simp
      then show ?thesis unfolding bit_take_bit_iff by simp
    qed
    ultimately show "\<not> bit REFLOCK_DESTROY i \<or> \<not> bit (of_nat n :: u32) i" by blast
  qed
  show "(of_nat n :: u32) AND REFLOCK_DESTROY_MASK = 0"
    by (subst low [symmetric]) (simp add: masks and.assoc)
  show "(REFLOCK_DESTROY + of_nat n) AND REFLOCK_DESTROY_MASK = REFLOCK_DESTROY"
    unfolding split by (subst low [symmetric]) (simp add: masks and.assoc bit.conj_disj_distrib2)
  show "(REFLOCK_DESTROY + of_nat n) AND REFLOCK_REF_MASK = of_nat n"
    unfolding split using low by (simp add: masks bit.conj_disj_distrib2)
  show "(of_nat n :: u32) = 0 \<longleftrightarrow> n = 0"
    using assms by (simp add: word_of_nat_eq_0_iff) (auto dest: nat_dvd_not_less)
qed


lemma reflock_steps:
  assumes "n < 2 ^ 28 - 1"
  shows "reflock_ref (of_nat n) = Inr (of_nat (Suc n))"
    "reflock_unref (of_nat (Suc n)) = Inr (False, of_nat n)"
    "reflock_unref (REFLOCK_DESTROY + of_nat (Suc n)) = Inr (n = 0, REFLOCK_DESTROY + of_nat n)"
    "reflock_unref_and_destroy (of_nat (Suc n)) = Inr (n \<noteq> 0, REFLOCK_DESTROY + of_nat n)"
    "reflock_destroyed REFLOCK_DESTROY = Inr REFLOCK_POISON"
proof -
  have n: "n < 2 ^ 28" "Suc n < 2 ^ 28" using assms by simp_all
  note b = count_bits [OF n(1)] count_bits [OF n(2)]
  have s: "(of_nat n :: u32) + REFLOCK_REF = of_nat (Suc n)" "(of_nat (Suc n) :: u32) - REFLOCK_REF = of_nat n"
    "REFLOCK_DESTROY + of_nat (Suc n) - REFLOCK_REF = REFLOCK_DESTROY + of_nat n"
    "of_nat (Suc n) + (REFLOCK_DESTROY - REFLOCK_REF) = REFLOCK_DESTROY + of_nat n"
    by (simp_all add: REFLOCK_REF_def algebra_simps)
  have "(of_nat n :: u32) \<noteq> REFLOCK_DESTROY"
  proof
    assume "(of_nat n :: u32) = REFLOCK_DESTROY"
    then have "REFLOCK_DESTROY AND REFLOCK_DESTROY_MASK = 0" using b(1) by simp
    then show False by (simp add: reflock_defs)
  qed
  then show "reflock_ref (of_nat n) = Inr (of_nat (Suc n))"
    "reflock_unref (of_nat (Suc n)) = Inr (False, of_nat n)"
    "reflock_unref (REFLOCK_DESTROY + of_nat (Suc n)) = Inr (n = 0, REFLOCK_DESTROY + of_nat n)"
    "reflock_unref_and_destroy (of_nat (Suc n)) = Inr (n \<noteq> 0, REFLOCK_DESTROY + of_nat n)"
    "reflock_destroyed REFLOCK_DESTROY = Inr REFLOCK_POISON"
    unfolding reflock_ref_def reflock_unref_def reflock_unref_and_destroy_def reflock_destroyed_def Let_def s
    using b by (simp_all add: check_def and.assoc [symmetric] del: of_nat_Suc)
qed


section \<open>Threads and a handle\<close>

text \<open>
  A caller of \<open>epoll_ctl\<close> or \<open>epoll_wait\<close>: it has a reference from where it has found the port
  (\<open>Inside\<close>, \<open>Waiting\<close> for packets, \<open>Leaving\<close>) until it gives it back; then it may have to signal the event.
\<close>

datatype caller =
    Outside
  | Inside
  | Waiting
  | Leaving
  | Signalling

text \<open>
  How far \<open>epoll_close\<close> is: the handle is in the table, taken out, its port closed, waiting for the
  event, past it, alone with the port, and done.
\<close>

datatype closer =
    Linked
  | Closing
  | Closed
  | Awaiting
  | Woken
  | Owner
  | Gone

record handle_state =
  callers :: "caller list"
  closing :: closer
  reflock :: u32
  node_port :: port_system

text \<open>
  \<open>Find i\<close> is \<open>ts_tree_find_and_ref\<close> of caller \<open>i\<close>, \<open>Use i e\<close> what it does to the port, \<open>Leave i\<close> its
  \<open>ts_tree_node_unref\<close>; \<open>Meet i\<close> is where \<open>NtReleaseKeyedEvent\<close> and \<open>NtWaitForKeyedEvent\<close> meet. The
  closing thread runs \<open>Unlink\<close> (\<open>ts_tree_del_and_ref\<close>), \<open>Close_port\<close>, \<open>Destroy\<close> and \<open>Exchange\<close> (the
  halves of \<open>reflock_unref_and_destroy\<close>) and \<open>Delete\<close>.
\<close>

datatype handle_event =
    Find nat
  | Use nat port_event
  | Leave nat
  | Meet nat
  | Kernel nat u32 u32 u32
  | Unlink
  | Close_port "string option"
  | Destroy
  | Exchange
  | Delete

definition set_caller :: "nat \<Rightarrow> caller \<Rightarrow> handle_state \<Rightarrow> handle_state" where
  "set_caller i c h = h\<lparr>callers := (callers h)[i := c]\<rparr>"

definition find_and_ref :: "nat \<Rightarrow> handle_state \<Rightarrow> handle_state result" where
  "find_and_ref i h =
     (if closing h = Linked then
        bindR (reflock_ref (reflock h)) (\<lambda>r. Inr (set_caller i Inside (h\<lparr>reflock := r\<rparr>)))
      else Inr h)"

definition use_port :: "os_calls \<Rightarrow> nat \<Rightarrow> port_event \<Rightarrow> handle_state \<Rightarrow> handle_state result" where
  "use_port os i e h =
     bindR (run_event os e (node_port h)) (\<lambda>(a, p).
     Inr (set_caller i (if a = None then Waiting else Leaving) (h\<lparr>node_port := p\<rparr>)))"

definition node_unref :: "nat \<Rightarrow> handle_state \<Rightarrow> handle_state result" where
  "node_unref i h =
     bindR (reflock_unref (reflock h)) (\<lambda>(signal, r).
     Inr (set_caller i (if signal then Signalling else Outside) (h\<lparr>reflock := r\<rparr>)))"

definition del_and_ref :: "handle_state \<Rightarrow> handle_state result" where
  "del_and_ref h = bindR (reflock_ref (reflock h)) (\<lambda>r. Inr (h\<lparr>reflock := r, closing := Closing\<rparr>))"

definition close_port :: "os_calls \<Rightarrow> string option \<Rightarrow> handle_state \<Rightarrow> handle_state result" where
  "close_port os c h =
     bindR (run_event os (Close c) (node_port h)) (\<lambda>(_, p). Inr (h\<lparr>node_port := p, closing := Closed\<rparr>))"

definition node_destroy :: "handle_state \<Rightarrow> handle_state result" where
  "node_destroy h =
     bindR (reflock_unref_and_destroy (reflock h)) (\<lambda>(await, r).
     Inr (h\<lparr>reflock := r, closing := (if await then Awaiting else Woken)\<rparr>))"

definition node_exchange :: "handle_state \<Rightarrow> handle_state result" where
  "node_exchange h = bindR (reflock_destroyed (reflock h)) (\<lambda>r. Inr (h\<lparr>reflock := r, closing := Owner\<rparr>))"

definition delete_port :: "os_calls \<Rightarrow> handle_state \<Rightarrow> handle_state result" where
  "delete_port os h =
     bindR (port_delete os (sys_world (node_port h))) (\<lambda>(_, w).
     Inr (h\<lparr>node_port := (node_port h)\<lparr>sys_world := w\<rparr>, closing := Gone\<rparr>))"

fun handle_step :: "os_calls \<Rightarrow> handle_event \<Rightarrow> handle_state \<Rightarrow> handle_state result" where
  "handle_step os (Find i) h = find_and_ref i h"
| "handle_step os (Use i e) h = use_port os i e h"
| "handle_step os (Leave i) h = node_unref i h"
| "handle_step os (Meet i) h = Inr (set_caller i Outside (h\<lparr>closing := Woken\<rparr>))"
| "handle_step os (Kernel a status n events) h =
     bindR (run_event os (Complete a status n events) (node_port h)) (\<lambda>(_, p). Inr (h\<lparr>node_port := p\<rparr>))"
| "handle_step os Unlink h = del_and_ref h"
| "handle_step os (Close_port c) h = close_port os c h"
| "handle_step os Destroy h = node_destroy h"
| "handle_step os Exchange h = node_exchange h"
| "handle_step os Delete h = delete_port os h"

text \<open>
  A caller controls the port or waits once, on its own; the kernel answers requests until the port is gone.
\<close>

fun handle_may :: "os_calls \<Rightarrow> handle_event \<Rightarrow> handle_state \<Rightarrow> bool" where
  "handle_may os (Find i) h \<longleftrightarrow> i < length (callers h) \<and> callers h ! i = Outside"
| "handle_may os (Use i e) h \<longleftrightarrow> i < length (callers h) \<and>
     (case e of
        Ctl _ _ _ \<Rightarrow> callers h ! i = Inside
      | Enter _ _ _ _ \<Rightarrow> callers h ! i = Inside
      | Wake _ _ _ \<Rightarrow> callers h ! i = Waiting \<and> may_happen os e (node_port h)
      | _ \<Rightarrow> False)"
| "handle_may os (Leave i) h \<longleftrightarrow> i < length (callers h) \<and> callers h ! i = Leaving"
| "handle_may os (Meet i) h \<longleftrightarrow> i < length (callers h) \<and> callers h ! i = Signalling \<and> closing h = Awaiting"
| "handle_may os (Kernel a status n events) h \<longleftrightarrow> closing h \<noteq> Gone \<and> may_happen os (Complete a status n events) (node_port h)"
| "handle_may os Unlink h \<longleftrightarrow> closing h = Linked"
| "handle_may os (Close_port c) h \<longleftrightarrow> closing h = Closing"
| "handle_may os Destroy h \<longleftrightarrow> closing h = Closed"
| "handle_may os Exchange h \<longleftrightarrow> closing h = Woken"
| "handle_may os Delete h \<longleftrightarrow> closing h = Owner"

definition new_handle :: "nat \<Rightarrow> epoll_world \<Rightarrow> handle_state" where
  "new_handle n w = \<lparr>callers = replicate n Outside, closing = Linked, reflock = reflock_init,
     node_port = \<lparr>sys_world = w, waiters = []\<rparr>\<rparr>"

text \<open>
  The one thing that callers must not do: add a socket that needs the completion port to a port that
  has been closed under them.
\<close>

definition late_add :: "os_calls \<Rightarrow> handle_event \<Rightarrow> handle_state \<Rightarrow> bool" where
  "late_add os e h \<longleftrightarrow>
     (case e of
        Use i (Ctl op sock ev) \<Rightarrow> op = EPOLL_CTL_ADD \<and> add_without_port os sock (sys_world (node_port h))
      | _ \<Rightarrow> False)"

text \<open>Histories of a handle with \<open>n\<close> threads.\<close>

inductive history :: "os_calls \<Rightarrow> u64 \<Rightarrow> nat \<Rightarrow> handle_state \<Rightarrow> bool" for os iocp n where
  created: "port_new alloc create t = (Some (iocp, w), t') \<Longrightarrow> iocp \<noteq> 0 \<Longrightarrow> history os iocp n (new_handle n w)"
| step: "history os iocp n h \<Longrightarrow> handle_may os e h \<Longrightarrow> \<not> late_add os e h \<Longrightarrow> handle_step os e h = Inr h' \<Longrightarrow> history os iocp n h'"


section \<open>The invariant\<close>

definition callers_in :: "caller set \<Rightarrow> handle_state \<Rightarrow> nat" where
  "callers_in C h = length (filter (\<lambda>c. c \<in> C) (callers h))"

abbreviation referrers :: "handle_state \<Rightarrow> nat" where
  "referrers h \<equiv> callers_in {Inside, Waiting, Leaving} h"

text \<open>The word of the lock, for \<open>u\<close> references of callers and \<open>g\<close> callers that signal.\<close>

fun lock_fits :: "closer \<Rightarrow> u32 \<Rightarrow> nat \<Rightarrow> nat \<Rightarrow> bool" where
  "lock_fits Linked r u g \<longleftrightarrow> r = of_nat u \<and> g = 0"
| "lock_fits Closing r u g \<longleftrightarrow> r = of_nat (Suc u) \<and> g = 0"
| "lock_fits Closed r u g \<longleftrightarrow> r = of_nat (Suc u) \<and> g = 0"
| "lock_fits Awaiting r u g \<longleftrightarrow> r = REFLOCK_DESTROY + of_nat u \<and> g = (if u = 0 then 1 else 0)"
| "lock_fits Woken r u g \<longleftrightarrow> r = REFLOCK_DESTROY \<and> u = 0 \<and> g = 0"
| "lock_fits Owner r u g \<longleftrightarrow> u = 0 \<and> g = 0"
| "lock_fits Gone r u g \<longleftrightarrow> u = 0 \<and> g = 0"

definition lock_ok :: "handle_state \<Rightarrow> bool" where
  "lock_ok h \<longleftrightarrow> lock_fits (closing h) (reflock h) (referrers h) (callers_in {Signalling} h)"

definition handle_inv :: "os_calls \<Rightarrow> u64 \<Rightarrow> nat \<Rightarrow> handle_state \<Rightarrow> bool" where
  "handle_inv os iocp n h \<longleftrightarrow> length (callers h) = n \<and> lock_ok h \<and>
     callers_in {Waiting} h = length (waiters (node_port h)) \<and>
     (closing h \<noteq> Gone \<longrightarrow> sys_inv os iocp (node_port h) \<and>
        (iocp_handle (port (sys_world (node_port h))) \<noteq> 0 \<longleftrightarrow> closing h \<in> {Linked, Closing}))"

lemma filter_update:
  "i < length xs \<Longrightarrow> length (filter P (xs[i := y])) + (if P (xs ! i) then 1 else 0) =
   length (filter P xs) + (if P y then 1 else (0::nat))"
proof (induction xs arbitrary: i)
  case (Cons x xs)
  then show ?case by (cases i) auto
qed simp

lemma callers_in_set:
  assumes "i < length (callers h)"
  shows "callers_in C (set_caller i c h) + (if callers h ! i \<in> C then 1 else 0) =
    callers_in C h + (if c \<in> C then 1 else 0)"
  using filter_update [OF assms, of "\<lambda>c. c \<in> C" c] by (simp add: callers_in_def set_caller_def)

lemma callers_in_moved:
  "i < length (callers h) \<Longrightarrow> callers_in C (set_caller i c h) =
    callers_in C h + (if c \<in> C then 1 else 0) - (if callers h ! i \<in> C then 1 else 0)"
  using callers_in_set [of i h C c] by simp

lemma callers_in_fields [simp]:
  "callers_in C (h\<lparr>reflock := r\<rparr>) = callers_in C h" "callers_in C (h\<lparr>closing := k\<rparr>) = callers_in C h"
  "callers_in C (h\<lparr>node_port := p\<rparr>) = callers_in C h"
  by (simp_all add: callers_in_def)

lemma set_caller_fields [simp]:
  "closing (set_caller i c h) = closing h" "reflock (set_caller i c h) = reflock h"
  "node_port (set_caller i c h) = node_port h" "length (callers (set_caller i c h)) = length (callers h)"
  by (simp_all add: set_caller_def)

lemma callers_le: "callers_in C h \<le> length (callers h)"
  by (simp add: callers_in_def)

lemma run_waiters:
  "run_event os (Ctl op k ev) s = Inr (a, s') \<Longrightarrow> a \<noteq> None \<and> waiters s' = waiters s"
  "run_event os (Enter b c m t) s = Inr (a, s') \<Longrightarrow>
    length (waiters s') = length (waiters s) + (if a = None then 1 else 0)"
  "run_event os (Wake i r now) s = Inr (a, s') \<Longrightarrow> i < length (waiters s) \<Longrightarrow>
    length (waiters s') + (if a = None then 0 else 1) = length (waiters s)"
  "run_event os (Complete d st k' e) s = Inr (a, s') \<Longrightarrow> waiters s' = waiters s"
  "run_event os (Close x) s = Inr (a, s') \<Longrightarrow> waiters s' = waiters s"
  by (auto simp: bindR_def remove_nth_length split: sum.splits prod.splits option.splits)


definition step_safe :: "os_calls \<Rightarrow> u64 \<Rightarrow> nat \<Rightarrow> handle_event \<Rightarrow> handle_state \<Rightarrow> bool" where
  "step_safe os iocp n e h \<longleftrightarrow> (\<exists>h'. handle_step os e h = Inr h' \<and> handle_inv os iocp n h')"

lemma handle_invD:
  assumes "handle_inv os iocp n h"
  shows "length (callers h) = n" "lock_ok h" "callers_in {Waiting} h = length (waiters (node_port h))"
    "closing h \<noteq> Gone \<Longrightarrow> sys_inv os iocp (node_port h)"
    "closing h \<noteq> Gone \<Longrightarrow> iocp_handle (port (sys_world (node_port h))) \<noteq> 0 \<longleftrightarrow> closing h \<in> {Linked, Closing}"
  using assms by (simp_all add: handle_inv_def)

lemma find_safe:
  assumes "handle_inv os iocp n h" "handle_may os (Find i) h" "n < 2 ^ 28 - 2"
  shows "step_safe os iocp n (Find i) h"
proof (cases "closing h = Linked")
  case True
  note inv = handle_invD [OF assms(1)]
  have i: "i < length (callers h)" "callers h ! i = Outside" using assms(2) by simp_all
  have l: "reflock h = of_nat (referrers h)" "callers_in {Signalling} h = 0"
    using inv(2) True by (simp_all add: lock_ok_def)
  let ?h = "set_caller i Inside (h\<lparr>reflock := of_nat (Suc (referrers h))\<rparr>)"
  have "referrers h < 2 ^ 28 - 1" using callers_le [of _ h] inv(1) assms(3) by (meson le_less_trans less_trans lessI diff_less_mono2 less_imp_le order_less_le_trans diff_le_mono2 one_le_numeral)
  then have "reflock_ref (reflock h) = Inr (of_nat (Suc (referrers h)))" using l(1) reflock_steps(1) by simp
  moreover have "referrers ?h = Suc (referrers h)" "callers_in {Signalling} ?h = 0" "callers_in {Waiting} ?h = callers_in {Waiting} h"
    using i l(2) by (simp_all add: callers_in_moved)
  ultimately show ?thesis using inv True
    by (simp add: step_safe_def find_and_ref_def handle_inv_def lock_ok_def del: of_nat_Suc)
next
  case False
  then show ?thesis using assms(1) by (simp add: step_safe_def find_and_ref_def)
qed

text \<open>A caller that has a reference keeps it while it uses the port.\<close>

lemma lock_ok_moved:
  assumes "lock_ok h" "i < length (callers h)" "callers h ! i \<in> {Inside, Waiting}" "c \<in> {Waiting, Leaving}"
  shows "lock_ok (set_caller i c (h\<lparr>node_port := p\<rparr>))"
proof -
  have "referrers (set_caller i c (h\<lparr>node_port := p\<rparr>)) = referrers h"
    "callers_in {Signalling} (set_caller i c (h\<lparr>node_port := p\<rparr>)) = callers_in {Signalling} h"
    using assms(2-4) by (auto simp: callers_in_moved)
  then show ?thesis using assms(1) by (simp add: lock_ok_def)
qed

lemma referrer_counted: "i < length (callers h) \<Longrightarrow> callers h ! i \<in> C \<Longrightarrow> callers_in C h > 0"
  using callers_in_set [of i h C Outside] by (auto simp: callers_in_def length_greater_0_conv filter_empty_conv)

lemma use_safe:
  assumes "handle_inv os iocp n h" "handle_may os (Use i e) h" "os_ok os" "n < 2 ^ 28 - 2"
    and "\<not> late_add os (Use i e) h"
  shows "step_safe os iocp n (Use i e) h"
proof -
  note inv = handle_invD [OF assms(1)]
  have i: "i < length (callers h)" "callers h ! i \<in> {Inside, Waiting}"
    using assms(2) by (auto split: port_event.splits)
  have "referrers h > 0" by (rule referrer_counted [OF i(1)]) (use i(2) in auto)
  then have ng: "closing h \<noteq> Gone" using inv(2) by (auto simp: lock_ok_def)
  note s = inv(4) [OF ng] and io = inv(5) [OF ng]
  have w: "length (waiters (node_port h)) < 2 ^ 64 - 1"
    using callers_le [of "{Waiting}" h] inv(1,3) assms(4) by simp
  have "event_safe os iocp e (node_port h)"
  proof (cases e)
    case (Ctl op sock ev)
    have "\<not> add_without_port os sock (sys_world (node_port h))" if "op = EPOLL_CTL_ADD"
      using assms(5) Ctl that by (simp add: late_add_def)
    then show ?thesis using ctl_safe [OF s assms(3)] Ctl by blast
  next
    case (Enter b c m t)
    then show ?thesis using enter_safe [OF s assms(3), of b c m t] w by (simp only: may_happen.simps)
  next
    case (Wake j r now)
    then show ?thesis using wake_safe [OF s assms(3), of j r now] assms(2) by (simp del: may_happen.simps)
  qed (use assms(2) in auto)
  then obtain a p where p: "run_event os e (node_port h) = Inr (a, p)" "sys_inv os iocp p"
    "iocp_handle (port (sys_world p)) = (case e of Close c \<Rightarrow> 0 | _ \<Rightarrow> iocp_handle (port (sys_world (node_port h))))"
    unfolding event_safe_def by blast
  let ?c = "if a = None then Waiting else Leaving"
  let ?h = "set_caller i ?c (h\<lparr>node_port := p\<rparr>)"
  have "callers_in {Waiting} ?h + (if callers h ! i = Waiting then 1 else 0) =
    callers_in {Waiting} h + (if a = None then 1 else 0)"
    using callers_in_set [of i "h\<lparr>node_port := p\<rparr>" "{Waiting}" ?c] i(1) by simp
  moreover have "length (waiters p) + (if callers h ! i = Waiting then 1 else 0) =
    length (waiters (node_port h)) + (if a = None then 1 else 0)"
  proof (cases e)
    case (Ctl op sock ev)
    then show ?thesis using run_waiters(1) [of os op sock ev "node_port h" a p] p(1) assms(2) by simp
  next
    case (Enter b c m t)
    then show ?thesis using run_waiters(2) [of os b c m t "node_port h" a p] p(1) assms(2) by simp
  next
    case (Wake j r now)
    then show ?thesis using run_waiters(3) [of os j r now "node_port h" a p] p(1) assms(2)
      by (simp split: if_splits)
  qed (use assms(2) in auto)
  ultimately have "callers_in {Waiting} ?h = length (waiters p)" using inv(3) by linarith
  moreover have "lock_ok ?h" using lock_ok_moved [OF inv(2) i, of ?c p] by simp
  moreover have "iocp_handle (port (sys_world p)) = iocp_handle (port (sys_world (node_port h)))"
    using p(3) assms(2) by (auto split: port_event.splits)
  ultimately show ?thesis using inv(1) p(1,2) io
    by (simp add: step_safe_def use_port_def handle_inv_def del: run_event.simps)
qed


lemma leave_safe:
  assumes "handle_inv os iocp n h" "handle_may os (Leave i) h" "n < 2 ^ 28 - 2"
  shows "step_safe os iocp n (Leave i) h"
proof -
  note inv = handle_invD [OF assms(1)]
  have i: "i < length (callers h)" "callers h ! i = Leaving" using assms(2) by simp_all
  then obtain u where u: "referrers h = Suc u"
    using referrer_counted [of i h "{Inside, Waiting, Leaving}"] gr0_implies_Suc by force
  have b: "Suc u < 2 ^ 28 - 1" "u < 2 ^ 28 - 1"
    using callers_le [of "{Inside, Waiting, Leaving}" h] inv(1) assms(3) u by simp_all
  have fits: "lock_fits (closing h) (reflock h) (Suc u) (callers_in {Signalling} h)"
    using inv(2) u by (simp add: lock_ok_def)
  have "\<exists>signal r. reflock_unref (reflock h) = Inr (signal, r) \<and>
    lock_fits (closing h) r u (callers_in {Signalling} h + (if signal then 1 else 0))"
    using fits reflock_steps(2) [OF b(1)] reflock_steps(2,3) [OF b(2)] by (cases "closing h") auto
  then obtain signal r where r: "reflock_unref (reflock h) = Inr (signal, r)"
    "lock_fits (closing h) r u (callers_in {Signalling} h + (if signal then 1 else 0))" by blast
  let ?h = "set_caller i (if signal then Signalling else Outside) (h\<lparr>reflock := r\<rparr>)"
  have "referrers ?h = u" "callers_in {Signalling} ?h = callers_in {Signalling} h + (if signal then 1 else 0)"
    "callers_in {Waiting} ?h = callers_in {Waiting} h"
    using i u by (simp_all add: callers_in_moved)
  then have "handle_inv os iocp n ?h" using inv r(2) by (simp add: handle_inv_def lock_ok_def)
  then show ?thesis using r(1) by (simp add: step_safe_def node_unref_def)
qed

lemma meet_safe:
  assumes "handle_inv os iocp n h" "handle_may os (Meet i) h"
  shows "step_safe os iocp n (Meet i) h"
proof -
  note inv = handle_invD [OF assms(1)]
  have i: "i < length (callers h)" "callers h ! i = Signalling" "closing h = Awaiting" using assms(2) by simp_all
  have "callers_in {Signalling} h > 0" using referrer_counted [of i h "{Signalling}"] i by simp
  then have l: "referrers h = 0" "callers_in {Signalling} h = 1" "reflock h = REFLOCK_DESTROY"
    using inv(2) i(3) by (auto simp: lock_ok_def split: if_splits)
  let ?h = "set_caller i Outside (h\<lparr>closing := Woken\<rparr>)"
  have "referrers ?h = 0" "callers_in {Signalling} ?h = 0" "callers_in {Waiting} ?h = callers_in {Waiting} h"
    using i l by (simp_all add: callers_in_moved)
  then show ?thesis using inv i(3) l by (simp add: step_safe_def handle_inv_def lock_ok_def)
qed

lemma kernel_safe:
  assumes "handle_inv os iocp n h" "handle_may os (Kernel a st m e) h"
  shows "step_safe os iocp n (Kernel a st m e) h"
proof -
  note inv = handle_invD [OF assms(1)]
  have g: "closing h \<noteq> Gone" "may_happen os (Complete a st m e) (node_port h)" using assms(2) by simp_all
  obtain x p where p: "run_event os (Complete a st m e) (node_port h) = Inr (x, p)" "sys_inv os iocp p"
    "iocp_handle (port (sys_world p)) = iocp_handle (port (sys_world (node_port h)))"
    using complete_safe [OF inv(4) [OF g(1)] g(2)] unfolding event_safe_def by auto
  then show ?thesis using inv g(1) run_waiters(4) [OF p(1)]
    by (simp add: step_safe_def handle_inv_def lock_ok_def del: run_event.simps)
qed

lemma close_step_safe:
  assumes "handle_inv os iocp n h" "handle_may os (Close_port c) h"
  shows "step_safe os iocp n (Close_port c) h"
proof -
  note inv = handle_invD [OF assms(1)]
  have g: "closing h = Closing" using assms(2) by simp
  then have "closing h \<noteq> Gone" "may_happen os (Close c) (node_port h)" using inv(5) by simp_all
  then obtain x p where p: "run_event os (Close c) (node_port h) = Inr (x, p)" "sys_inv os iocp p"
    "iocp_handle (port (sys_world p)) = 0"
    using close_safe [OF inv(4)] unfolding event_safe_def by fastforce
  then show ?thesis using inv g run_waiters(5) [OF p(1)]
    by (simp add: step_safe_def close_port_def handle_inv_def lock_ok_def del: run_event.simps)
qed

lemma delete_safe:
  assumes "handle_inv os iocp n h" "closing h = Owner" "os_ok os"
  shows "\<exists>w. port_delete os (sys_world (node_port h)) = Inr (0, w) \<and> (\<exists>B. B \<subseteq># {#iocp#} \<and> port_gone B w)"
proof -
  note inv = handle_invD [OF assms(1)]
  have ng: "closing h \<noteq> Gone" using assms(2) by simp
  obtain B where "sys_at os iocp B (node_port h)" using inv(4) [OF ng] by (auto simp: sys_inv_def)
  note B = sys_atD [OF this]
  have z: "iocp_handle (port (sys_world (node_port h))) = 0" using inv(5) [OF ng] assms(2) by simp
  have "core_ok B (sys_world (node_port h))" using B(1) by (simp add: port_inv_def inv_but_def)
  from port_delete_wp [OF this z, of os] B(2) show ?thesis by (auto simp: wp_returns)
qed

lemma closer_safe:
  assumes "handle_inv os iocp n h" "handle_may os e h" "n < 2 ^ 28 - 2" "e \<in> {Unlink, Destroy, Exchange}"
  shows "step_safe os iocp n e h"
proof -
  note inv = handle_invD [OF assms(1)]
  have u: "referrers h < 2 ^ 28 - 1"
    using callers_le [of "{Inside, Waiting, Leaving}" h] inv(1) assms(3) by simp
  note steps = reflock_steps [OF u]
  from assms(4) consider "e = Unlink" | "e = Destroy" | "e = Exchange" by blast
  then show ?thesis
  proof cases
    case 1
    then show ?thesis using inv assms(2) steps(1)
      by (simp add: step_safe_def del_and_ref_def handle_inv_def lock_ok_def del: of_nat_Suc)
  next
    case 2
    then show ?thesis using inv assms(2) steps(4)
      by (simp add: step_safe_def node_destroy_def handle_inv_def lock_ok_def del: of_nat_Suc)
  next
    case 3
    then show ?thesis using inv assms(2) steps(5)
      by (simp add: step_safe_def node_exchange_def handle_inv_def lock_ok_def)
  qed
qed

lemma delete_step_safe:
  assumes "handle_inv os iocp n h" "handle_may os Delete h" "os_ok os"
  shows "step_safe os iocp n Delete h"
proof -
  note inv = handle_invD [OF assms(1)]
  have o: "closing h = Owner" using assms(2) by simp
  obtain w where "port_delete os (sys_world (node_port h)) = Inr (0, w)"
    using delete_safe [OF assms(1) o assms(3)] by blast
  then show ?thesis using inv o by (simp add: step_safe_def delete_port_def handle_inv_def lock_ok_def)
qed

lemma every_step_safe:
  assumes "handle_inv os iocp n h" "handle_may os e h" "os_ok os" "n < 2 ^ 28 - 2" "\<not> late_add os e h"
  shows "step_safe os iocp n e h"
proof (cases e)
  case (Use i x)
  have "handle_may os (Use i x) h" using assms(2) Use by blast
  then show ?thesis unfolding Use
    by (rule use_safe [OF assms(1) _ assms(3,4)]) (use assms(5) Use in \<open>auto simp: late_add_def\<close>)
qed (use assms find_safe leave_safe meet_safe kernel_safe close_step_safe closer_safe delete_step_safe in
    \<open>simp_all del: handle_may.simps\<close>)

lemma new_handle_inv:
  assumes "port_new alloc create t = (Some (iocp, w), t')" "iocp \<noteq> 0"
  shows "handle_inv os iocp n (new_handle n w)"
proof -
  have "w = new_world iocp t" using assms by (auto simp: port_new_def split: if_splits sum.splits)
  moreover have "callers_in C (new_handle n w) = (if Outside \<in> C then n else 0)" for C
    by (simp add: callers_in_def new_handle_def)
  ultimately show ?thesis using sys_inv_created [OF assms(1)] assms(2)
    by (simp add: handle_inv_def lock_ok_def new_handle_def reflock_init_def new_world_def empty_port_def)
qed


lemma history_inv:
  "history os iocp n h \<Longrightarrow> os_ok os \<Longrightarrow> n < 2 ^ 28 - 2 \<Longrightarrow> handle_inv os iocp n h"
proof (induction rule: history.induct)
  case (created alloc create t w t')
  then show ?case by (intro new_handle_inv)
next
  case (step h e h')
  then show ?case using every_step_safe [of os iocp n h e] by (auto simp: step_safe_def)
qed

text \<open>A sequence of steps, run from the start.\<close>

fun run_handle :: "os_calls \<Rightarrow> handle_event list \<Rightarrow> handle_state \<Rightarrow> handle_state option" where
  "run_handle os [] h = Some h"
| "run_handle os (e # es) h =
     (if handle_may os e h \<and> \<not> late_add os e h then
        case handle_step os e h of Inl _ \<Rightarrow> None | Inr h' \<Rightarrow> run_handle os es h'
      else None)"

lemma run_handle_history: "history os iocp n h \<Longrightarrow> run_handle os es h = Some h' \<Longrightarrow> history os iocp n h'"
  by (induction es arbitrary: h) (auto split: if_splits sum.splits intro: history.step)

definition start_handle :: handle_state where
  "start_handle = new_handle 2 (new_world 9 \<lparr>last_error = '''', errno = ''''\<rparr>)"

lemma start_history: "history os 9 2 start_handle"
  unfolding start_handle_def
  by (rule history.created [where alloc = True and create = "Inr 9" and t = "\<lparr>last_error = '''', errno = ''''\<rparr>"
        and t' = "\<lparr>last_error = '''', errno = ''''\<rparr>"]) (simp_all add: port_new_def)

lemmas handle_defs = start_handle_def new_handle_def find_and_ref_def use_port_def node_unref_def del_and_ref_def
  close_port_def node_destroy_def node_exchange_def delete_port_def set_caller_def late_add_def
  reflock_init_def reflock_ref_def reflock_unref_def reflock_unref_and_destroy_def reflock_destroyed_def
  check_def reflock_defs port_close_def CloseHandle_def EPOLL_CTL_MOD_def EPOLL_CTL_DEL_def

lemma closed_under_caller:
  "\<exists>h. run_handle os [Find 0, Unlink, Close_port None] start_handle = Some h \<and>
    callers h = [Inside, Outside] \<and> closing h = Closed \<and> iocp_handle (port (sys_world (node_port h))) = 0 \<and>
    sock_tree (port (sys_world (node_port h))) = Null \<and> poll_group_queue (port (sys_world (node_port h))) = []"
  by (simp add: handle_defs program_defs new_world_def empty_port_def numeral_2_eq_2 Let_def)


lemma acquire_closed:
  assumes "port_inv B w" "iocp_handle (port w) = 0" "\<not> group_has_room w"
  shows "poll_group_acquire os w = Inl (Logic_error ''assertion failed'')"
proof -
  have "poll_group_new os w = Inl (Logic_error ''assertion failed'')"
    using assms(2) by (simp add: poll_group_new_def port_get_iocp_handle_def program_defs)
  moreover have "poll_group_queue (port w) = [] \<or> (\<exists>p. groups w (last (poll_group_queue (port w))) = Some p \<and>
      group_size p \<ge> POLL_GROUP_MAX_GROUP_SIZE)"
  proof (cases "poll_group_queue (port w) = []")
    case False
    have "groups_sized B (\<lambda>g. card (members_of w g)) w"
      using assms(1) by (simp add: port_inv_def inv_but_def core_ok_def groups_ok_def)
    then have "last (poll_group_queue (port w)) \<in> dom (groups w)"
      using False last_in_set unfolding groups_sized_def by blast
    then show ?thesis using assms(3) False by (auto simp: group_has_room_def)
  qed simp
  ultimately show ?thesis by (auto simp: poll_group_acquire_def program_defs)
qed

section \<open>Properties\<close>

text \<open>C32: While fewer than \<open>2 ^ 28 - 2\<close> threads use a handle and one closes it, in every order of their
  interlocked operations, no assertion fails, no thread touches a port that is gone, and nothing on the
  port faults, with one exception: \<open>late_add\<close>, a socket that is added to the closed port when no poll
  group has room for it. Any other addition, change or removal after the close is safe.\<close>

theorem handle_steps_are_safe:
  assumes "history os iocp n h" "os_ok os" "n < 2 ^ 28 - 2" "handle_may os e h" "\<not> late_add os e h"
  shows "\<exists>h'. handle_step os e h = Inr h'"
  using every_step_safe [OF history_inv [OF assms(1-3)] assms(4,2,3,5)] by (auto simp: step_safe_def)

lemma handle_steps_are_safe_witness:
  "\<exists>(h :: handle_state) h'. callers h = [Inside, Outside] \<and> closing h = Closed \<and> handle_step willing_os Destroy h = Inr h'"
proof -
  obtain h where h: "run_handle willing_os [Find 0, Unlink, Close_port None] start_handle = Some h"
    "callers h = [Inside, Outside]" "closing h = Closed" using closed_under_caller by metis
  have "handle_may willing_os Destroy h" "\<not> late_add willing_os Destroy h" using h(3) by (simp_all add: late_add_def)
  from handle_steps_are_safe [OF run_handle_history [OF start_history h(1)] willing_os_ok(1) _ this]
  have "\<exists>h'. handle_step willing_os Destroy h = Inr h'" by simp
  then show ?thesis using h(2,3) by blast
qed

text \<open>C33: The closing thread deletes the port alone: no other thread has a reference or still has to
  signal, and the deletion returns with every socket and poll group freed.\<close>

theorem closing_waits_for_callers:
  assumes "history os iocp n h" "os_ok os" "n < 2 ^ 28 - 2" "closing h \<in> {Owner, Gone}"
  shows "set (callers h) \<subseteq> {Outside} \<and> (closing h = Owner \<longrightarrow>
    (\<exists>w. port_delete os (sys_world (node_port h)) = Inr (0, w) \<and> socks w = Map.empty \<and> groups w = Map.empty))"
proof -
  have inv: "handle_inv os iocp n h" by (rule history_inv [OF assms(1-3)])
  then have "referrers h = 0" "callers_in {Signalling} h = 0"
    using assms(4) by (auto simp: handle_inv_def lock_ok_def)
  then have none: "\<forall>c\<in>set (callers h). c \<notin> {Inside, Waiting, Leaving} \<and> c \<noteq> Signalling"
    by (auto simp: callers_in_def filter_empty_conv)
  have "c = Outside" if "c \<in> set (callers h)" for c
    using none that by (cases c) auto
  then have "set (callers h) \<subseteq> {Outside}" by blast
  moreover have "\<exists>w. port_delete os (sys_world (node_port h)) = Inr (0, w) \<and> socks w = Map.empty \<and> groups w = Map.empty"
    if "closing h = Owner" using delete_safe [OF inv that assms(2)] unfolding port_gone_def by blast
  ultimately show ?thesis by blast
qed

lemma closing_waits_for_callers_witness:
  "\<exists>(h :: handle_state). closing h = Owner \<and> length (callers h) = 2 \<and> set (callers h) \<subseteq> {Outside}"
proof -
  have "\<exists>h. run_handle willing_os [Unlink, Close_port None, Destroy, Exchange] start_handle = Some h \<and>
    closing h = Owner \<and> length (callers h) = 2"
    by (simp add: handle_defs program_defs new_world_def empty_port_def numeral_2_eq_2 Let_def)
  then obtain h where h: "run_handle willing_os [Unlink, Close_port None, Destroy, Exchange] start_handle = Some h"
    "closing h = Owner" "length (callers h) = 2" by blast
  from closing_waits_for_callers [OF run_handle_history [OF start_history h(1)] willing_os_ok(1)] h(2,3)
  have "set (callers h) \<subseteq> {Outside}" by simp
  then show ?thesis using h(2,3) by blast
qed

text \<open>C34: No wake-up of the closing thread is lost: while it waits, either a thread still has a reference
  and none signals, or the last one has left and signals.\<close>

theorem closing_is_woken:
  assumes "history os iocp n h" "os_ok os" "n < 2 ^ 28 - 2" "closing h = Awaiting"
  shows "(\<exists>i < n. callers h ! i = Signalling \<and> (\<forall>j < n. callers h ! j \<notin> {Inside, Waiting, Leaving})) \<or>
    (\<forall>i < n. callers h ! i \<noteq> Signalling) \<and> (\<exists>i < n. callers h ! i \<in> {Inside, Waiting, Leaving})"
proof -
  have inv: "length (callers h) = n" "callers_in {Signalling} h = (if referrers h = 0 then 1 else 0)"
    using history_inv [OF assms(1-3)] assms(4) by (auto simp: handle_inv_def lock_ok_def)
  have count: "callers_in C h > 0 \<longleftrightarrow> (\<exists>i < n. callers h ! i \<in> C)" for C
    using inv(1) by (auto simp: callers_in_def filter_empty_conv in_set_conv_nth Bex_def)
  show ?thesis
  proof (cases "referrers h = 0")
    case True
    then show ?thesis using inv(2) count [of "{Signalling}"] count [of "{Inside, Waiting, Leaving}"] by auto
  next
    case False
    then show ?thesis using inv(2) count [of "{Signalling}"] count [of "{Inside, Waiting, Leaving}"] by auto
  qed
qed

lemma closing_is_woken_witness:
  "\<exists>(h :: handle_state). callers h = [Inside, Outside] \<and> closing h = Awaiting \<and> (\<exists>i < 2. callers h ! i \<in> {Inside, Waiting, Leaving})"
proof -
  have "\<exists>h. run_handle willing_os [Find 0, Unlink, Close_port None, Destroy] start_handle = Some h \<and>
    callers h = [Inside, Outside] \<and> closing h = Awaiting"
    by (simp add: handle_defs program_defs new_world_def empty_port_def numeral_2_eq_2 Let_def)
  then obtain h where h: "run_handle willing_os [Find 0, Unlink, Close_port None, Destroy] start_handle = Some h"
    "callers h = [Inside, Outside]" "closing h = Awaiting" by blast
  have "\<forall>i < 2. callers h ! i \<noteq> Signalling" using h(2) by (auto simp: less_2_cases_iff)
  with closing_is_woken [OF run_handle_history [OF start_history h(1)] willing_os_ok(1) _ h(3)]
  have "\<exists>i < 2. callers h ! i \<in> {Inside, Waiting, Leaving}" by auto
  then show ?thesis using h(2,3) by blast
qed

text \<open>C35: What \<open>late_add\<close> excludes does end the program. A thread that has found a handle before another
  one closes its port, and then adds a valid socket while no poll group has room for it (as for the
  first socket, or the 33rd), fails the assertion of \<open>port_get_iocp_handle\<close>, in every history. Together
  with the safety of all other steps, these are exactly the steps that fail.\<close>

theorem late_add_ends_the_program:
  assumes "history os iocp n h" "os_ok os" "n < 2 ^ 28 - 2" "handle_may os e h" "late_add os e h"
  shows "handle_step os e h = Inl (Logic_error ''assertion failed'')"
proof -
  let ?w = "sys_world (node_port h)"
  obtain i sock ev where e: "e = Use i (Ctl EPOLL_CTL_ADD sock ev)" and late: "add_without_port os sock ?w"
    using assms(5) by (auto simp: late_add_def split: handle_event.splits port_event.splits)
  have inv: "handle_inv os iocp n h" by (rule history_inv [OF assms(1-3)])
  have "referrers h > 0" by (rule referrer_counted [of i]) (use assms(4) e in auto)
  then have ng: "closing h \<noteq> Gone" using inv by (auto simp: handle_inv_def lock_ok_def)
  obtain B where "sys_at os iocp B (node_port h)" using handle_invD(4) [OF inv ng] by (auto simp: sys_inv_def)
  from sys_atD(1) [OF this] have port: "port_inv B ?w" .
  obtain base u where u: "ws_get_base_socket (wsa_ioctl os) sock ?w = Some (base, u)" "base \<noteq> INVALID_SOCKET"
    and valid: "sock \<noteq> 0" "sock \<noteq> INVALID_SOCKET"
    and closed: "iocp_handle (port ?w) = 0" "\<not> group_has_room ?w"
    using late by (auto simp: add_without_port_def split: option.splits)
  have calm: "calm ?w u" by (rule base_socket_calm [OF u(1)])
  have "port_inv B u" by (rule port_inv_calm [OF calm port])
  moreover have "iocp_handle (port u) = 0" "\<not> group_has_room u"
    using closed calm_fields [OF calm] calm_room [OF calm] by simp_all
  ultimately have "poll_group_acquire os u = Inl (Logic_error ''assertion failed'')"
    by (rule acquire_closed)
  then have "sock_new os sock ?w = Inl (Logic_error ''assertion failed'')"
    using u valid by (simp add: sock_new_def base_socket_program_def bindP_def)
  then show ?thesis using e by (simp add: use_port_def port_ctl_def port_ctl_add_def bindP_def)
qed

lemma late_add_ends_the_program_witness:
  "\<exists>(h :: handle_state). callers h = [Inside, Outside] \<and>
    handle_step willing_os (Use 0 (Ctl EPOLL_CTL_ADD 7 (EPOLLIN, 0))) h = Inl (Logic_error ''assertion failed'')"
proof -
  obtain h where h: "run_handle willing_os [Find 0, Unlink, Close_port None] start_handle = Some h"
    "callers h = [Inside, Outside]" "iocp_handle (port (sys_world (node_port h))) = 0"
    "poll_group_queue (port (sys_world (node_port h))) = []" using closed_under_caller by metis
  have hist: "history willing_os 9 2 h" by (rule run_handle_history [OF start_history h(1)])
  have "late_add willing_os (Use 0 (Ctl EPOLL_CTL_ADD 7 (EPOLLIN, 0))) h"
    using h(3,4) by (simp add: late_add_def add_without_port_def group_has_room_def ready_base INVALID_SOCKET_def)
  moreover have "handle_may willing_os (Use 0 (Ctl EPOLL_CTL_ADD 7 (EPOLLIN, 0))) h" using h(2) by simp
  ultimately have "handle_step willing_os (Use 0 (Ctl EPOLL_CTL_ADD 7 (EPOLLIN, 0))) h =
      Inl (Logic_error ''assertion failed'')"
    by (intro late_add_ends_the_program [OF hist willing_os_ok(1)]) simp_all
  then show ?thesis using h(2) by blast
qed

end
