(* ===== verification/Wepoll_Api.thy ===== *)
theory Wepoll_Api
  imports Wepoll_Handles
begin

text \<open>
  The exported functions of \<open>src/src/lib/wepoll.c\<close> (\<open>epoll_create\<close>, \<open>epoll_create1\<close>, \<open>epoll_close\<close>,
  \<open>epoll_ctl\<close>, \<open>epoll_wait\<close>) as a thread sees them that uses its handles alone: the global
  initialisation, the table of handles, the operation on the port, and the error results. The
  reference lock, at 0 between such calls, is the subject of \<open>Wepoll_Handles\<close>.
\<close>

section \<open>Waiting to the end\<close>

text \<open>
  What the kernel brings to a wait, given the state of the port: an error, or completion packets with
  the results (status, number of handles, events) that it has written.
\<close>

type_synonym kernel_answer = "epoll_world \<Rightarrow> string + (nat \<times> u32 \<times> u32 \<times> u32) list"

fun write_results :: "(nat \<times> u32 \<times> u32 \<times> u32) list \<Rightarrow> unit program" where
  "write_results [] = returnP ()"
| "write_results ((a, status, n, events) # rs) =
     bindP (set_sock a (write_result status n events)) (\<lambda>_. write_results rs)"

definition take_answer :: "kernel_answer \<Rightarrow> (string + nat list) program" where
  "take_answer k =
     bindP (getP k) (\<lambda>r.
     case r of
       Inl e \<Rightarrow> returnP (Inl e)
     | Inr rs \<Rightarrow> bindP (write_results rs) (\<lambda>_. returnP (Inr (map fst rs))))"

text \<open>
  \<open>port_wait\<close> with the answers the kernel gives and the clock after each: \<open>None\<close> when it still waits
  after the last.
\<close>

fun port_wait_loop :: "os_calls \<Rightarrow> int \<Rightarrow> u64 \<Rightarrow> (kernel_answer \<times> u64) list \<Rightarrow> answer program" where
  "port_wait_loop os timeout due [] = returnP None"
| "port_wait_loop os timeout due ((k, now) # ks) =
     bindP (take_answer k) (\<lambda>r.
     bindP (port_wait_wake os timeout due now r) (\<lambda>x.
     case x of
       Some a \<Rightarrow> returnP (Some a)
     | None \<Rightarrow> port_wait_loop os timeout due ks))"

definition port_wait ::
    "os_calls \<Rightarrow> bool \<Rightarrow> u64 \<Rightarrow> int \<Rightarrow> int \<Rightarrow> (kernel_answer \<times> u64) list \<Rightarrow> answer program" where
  "port_wait os alloc clock maxevents timeout ks =
     (case port_wait_start alloc clock maxevents timeout of
        None \<Rightarrow> return_set_error (Some (- 1, [])) ''ERROR_INVALID_PARAMETER''
      | Some a \<Rightarrow>
          bindP (port_wait_poll os) (\<lambda>x.
          case x of
            Some r \<Rightarrow> returnP (Some (r, []))
          | None \<Rightarrow> port_wait_loop os timeout (wait_due a) ks))"

section \<open>The process\<close>

text \<open>The ports are called by the addresses of their nodes in the table of handles.\<close>

record epoll_process =
  process :: process_state
  nodes :: "nat \<Rightarrow> epoll_world option"
  next_node :: nat

text \<open>
  What Windows answers to the exported functions: while the library starts, to
  \<open>GetHandleInformation\<close>, to the calls on ports, to \<open>malloc\<close> and \<open>CreateIoCompletionPort\<close> for a new port,
  to \<open>CloseHandle\<close> on a completion port.
\<close>

record epoll_env =
  startup :: win_startup
  handle_info :: "u64 \<Rightarrow> string option"
  port_calls :: os_calls
  alloc_ok :: bool
  new_iocp :: "string + u64"
  close_iocp :: "string option"

definition set_error :: "string \<Rightarrow> epoll_process \<Rightarrow> epoll_process" where
  "set_error e p = p\<lparr>process := err_set_win_error e (process p)\<rparr>"

definition check_handle :: "epoll_env \<Rightarrow> u64 \<Rightarrow> epoll_process \<Rightarrow> epoll_process" where
  "check_handle env h p = p\<lparr>process := snd (err_check_handle (handle_info env) h (process p))\<rparr>"

definition init_library :: "epoll_env \<Rightarrow> epoll_process \<Rightarrow> int \<times> epoll_process" where
  "init_library env p =
     (let (r, q) = init (dos_error (port_calls env)) (startup env) (process p) in (r, p\<lparr>process := q\<rparr>))"

abbreviation handle_table :: "epoll_process \<Rightarrow> nat tree_node" where
  "handle_table p \<equiv> epoll_handle_tree (process p)"

definition set_table :: "nat tree_node \<Rightarrow> epoll_process \<Rightarrow> epoll_process" where
  "set_table t p = p\<lparr>process := (process p)\<lparr>epoll_handle_tree := t\<rparr>\<rparr>"

text \<open>The error state belongs to the thread.\<close>

definition set_thread :: "'a win_thread_scheme \<Rightarrow> epoll_process \<Rightarrow> epoll_process" where
  "set_thread t p = p\<lparr>process := (process p)\<lparr>last_error := last_error t, errno := errno t\<rparr>\<rparr>"

definition run_port :: "nat \<Rightarrow> 'a program \<Rightarrow> epoll_process \<Rightarrow> ('a \<times> epoll_process) result" where
  "run_port a f p =
     (case nodes p a of
        None \<Rightarrow> Inl (Undefined_behaviour ''dangling pointer'')
      | Some w \<Rightarrow>
          bindR (f (w\<lparr>last_error := last_error (process p), errno := errno (process p)\<rparr>)) (\<lambda>(x, w).
          Inr (x, set_thread w (p\<lparr>nodes := (nodes p)(a \<mapsto> w)\<rparr>))))"

section \<open>The exported functions\<close>

text \<open>A handle of 0 is \<open>NULL\<close>.\<close>

definition epoll_new :: "epoll_env \<Rightarrow> epoll_process \<Rightarrow> (u64 \<times> epoll_process) result" where
  "epoll_new env p =
     (let (r, p) = init_library env p in
      if r < 0 then Inr (0, p)
      else
        let (x, t) = port_new (alloc_ok env) (new_iocp env)
              \<lparr>last_error = last_error (process p), errno = errno (process p)\<rparr>;
            p = set_thread t p
        in case x of
          None \<Rightarrow> Inr (0, p)
        | Some (h, w) \<Rightarrow>
            bindR (tree_add h (next_node p) (handle_table p)) (\<lambda>t.
            case t of
              None \<Rightarrow>
                bindR (port_delete (port_calls env) w) (\<lambda>_. Inr (0, set_error ''ERROR_ALREADY_EXISTS'' p))
            | Some t \<Rightarrow>
                Inr (h, (set_table t p)\<lparr>nodes := (nodes p)(next_node p \<mapsto> w), next_node := Suc (next_node p)\<rparr>)))"

definition epoll_create :: "epoll_env \<Rightarrow> int \<Rightarrow> epoll_process \<Rightarrow> (u64 \<times> epoll_process) result" where
  "epoll_create env n p =
     (if n \<le> 0 then Inr (0, set_error ''ERROR_INVALID_PARAMETER'' p) else epoll_new env p)"

definition epoll_create1 :: "epoll_env \<Rightarrow> int \<Rightarrow> epoll_process \<Rightarrow> (u64 \<times> epoll_process) result" where
  "epoll_create1 env flags p =
     (if flags \<noteq> 0 then Inr (0, set_error ''ERROR_INVALID_PARAMETER'' p) else epoll_new env p)"

definition epoll_close :: "epoll_env \<Rightarrow> u64 \<Rightarrow> epoll_process \<Rightarrow> (int \<times> epoll_process) result" where
  "epoll_close env h p =
     (let (r, p) = init_library env p in
      if r < 0 then Inr (- 1, p)
      else case tree_find h (handle_table p) of
        None \<Rightarrow> Inr (- 1, check_handle env h (set_error ''ERROR_INVALID_PARAMETER'' p))
      | Some a \<Rightarrow>
          bindR (tree_del h (handle_table p)) (\<lambda>t.
          bindR (run_port a (port_close (close_iocp env)) (set_table t p)) (\<lambda>(_, p).
          bindR (run_port a (port_delete (port_calls env)) p) (\<lambda>(r, p).
          Inr (r, p\<lparr>nodes := (nodes p)(a := None)\<rparr>)))))"

definition epoll_ctl ::
    "epoll_env \<Rightarrow> u64 \<Rightarrow> int \<Rightarrow> u64 \<Rightarrow> epoll_event \<Rightarrow> epoll_process \<Rightarrow> (int \<times> epoll_process) result" where
  "epoll_ctl env h op sock ev p =
     (let (r, p) = init_library env p; err = (\<lambda>p. Inr (- 1, check_handle env sock (check_handle env h p)))
      in
      if r < 0 then Inr (- 1, p)
      else case tree_find h (handle_table p) of
        None \<Rightarrow> err (set_error ''ERROR_INVALID_PARAMETER'' p)
      | Some a \<Rightarrow>
          bindR (run_port a (port_ctl (port_calls env) op sock ev) p) (\<lambda>(r, p).
          if r < 0 then err p else Inr (0, p)))"

text \<open>\<open>None\<close> for a thread that still waits after the last answer.\<close>

definition epoll_wait ::
    "epoll_env \<Rightarrow> u64 \<Rightarrow> int \<Rightarrow> int \<Rightarrow> u64 \<Rightarrow> (kernel_answer \<times> u64) list \<Rightarrow> epoll_process \<Rightarrow>
     (answer \<times> epoll_process) result" where
  "epoll_wait env h maxevents timeout clock ks p =
     (if maxevents \<le> 0 then Inr (Some (- 1, []), set_error ''ERROR_INVALID_PARAMETER'' p)
      else
        let (r, p) = init_library env p in
        if r < 0 then Inr (Some (- 1, []), p)
        else case tree_find h (handle_table p) of
          None \<Rightarrow> Inr (Some (- 1, []), check_handle env h (set_error ''ERROR_INVALID_PARAMETER'' p))
        | Some a \<Rightarrow>
            bindR (run_port a (port_wait (port_calls env) (alloc_ok env) clock maxevents timeout ks) p) (\<lambda>(x, p).
            case x of
              Some (n, evs) \<Rightarrow>
                if n < 0 then Inr (Some (- 1, []), check_handle env h p) else Inr (Some (n, evs), p)
            | None \<Rightarrow> Inr (None, p)))"


section \<open>The table of handles\<close>

text \<open>
  The process between calls: every handle has a live port of its own, which is open, well formed and
  polled by nobody.
\<close>

definition node_ok :: "u64 \<Rightarrow> epoll_world \<Rightarrow> bool" where
  "node_ok h w \<longleftrightarrow> port_inv {#h#} w \<and> iocp_handle (port w) = h \<and> h \<noteq> 0 \<and> active_poll_count (port w) = 0"

definition process_ok :: "epoll_process \<Rightarrow> bool" where
  "process_ok p \<longleftrightarrow> (init_done (process p) \<longrightarrow>
     tree_ok (handle_table p) \<and> inj_on (tree_map (handle_table p)) (dom (tree_map (handle_table p))) \<and>
     (\<forall>h a. tree_map (handle_table p) h = Some a \<longrightarrow> a < next_node p \<and>
        (\<exists>w. nodes p a = Some w \<and> node_ok h w)))"

lemma node_ok_errors: "node_ok h (w\<lparr>last_error := e, errno := e'\<rparr>) = node_ok h w"
proof -
  have "calm w (w\<lparr>last_error := e, errno := e'\<rparr>)" "calm (w\<lparr>last_error := e, errno := e'\<rparr>) w"
    by (simp_all add: calm_def quiet_def)
  then have "port_inv {#h#} (w\<lparr>last_error := e, errno := e'\<rparr>) = port_inv {#h#} w"
    using port_inv_calm by blast
  then show ?thesis by (simp add: node_ok_def)
qed

definition table_of :: "epoll_process \<Rightarrow> u64 \<Rightarrow> nat option" where
  "table_of p = (if init_done (process p) then tree_map (handle_table p) else Map.empty)"

text \<open>What changes only the error state.\<close>

definition same_table :: "epoll_process \<Rightarrow> epoll_process \<Rightarrow> bool" where
  "same_table p q \<longleftrightarrow> handle_table q = handle_table p \<and> nodes q = nodes p \<and> next_node q = next_node p \<and>
     init_done (process q) = init_done (process p)"

lemma same_table_ok: "same_table p q \<Longrightarrow> process_ok p \<Longrightarrow> process_ok q" "same_table p q \<Longrightarrow> table_of q = table_of p"
  by (simp_all add: same_table_def process_ok_def table_of_def)

lemma same_table_trans: "same_table p q \<Longrightarrow> same_table q r \<Longrightarrow> same_table p r"
  by (simp add: same_table_def)

lemma same_table_errors [simp]:
  "same_table p (set_error e p)" "same_table p (check_handle env h p)" "same_table p (set_thread t p)" "same_table p p"
  by (simp_all add: same_table_def set_error_def check_handle_def set_thread_def err_set_win_error_def
      err_check_handle_def err_map_win_error_def split: option.split)

lemma nt_import_done: "nt_import ex ns w = (r, w') \<Longrightarrow> init_done w' = init_done w"
  by (induction ex ns w rule: nt_import.induct) (auto split: if_splits)

lemma errors_ok [simp]:
  "process_ok (set_error e p) = process_ok p" "table_of (set_error e p) = table_of p"
  "process_ok (check_handle env h p) = process_ok p" "table_of (check_handle env h p) = table_of p"
  using same_table_errors(1,2) by (simp_all add: same_table_def process_ok_def table_of_def)

lemma process_okI:
  assumes "tree_ok (handle_table p)" "inj_on (tree_map (handle_table p)) (dom (tree_map (handle_table p)))"
    and "\<And>k b. tree_map (handle_table p) k = Some b \<Longrightarrow> b < next_node p \<and> (\<exists>w. nodes p b = Some w \<and> node_ok k w)"
  shows "process_ok p"
  using assms by (simp add: process_ok_def)

lemma process_okD:
  assumes "process_ok p" "init_done (process p)"
  shows "tree_ok (handle_table p)" "inj_on (tree_map (handle_table p)) (dom (tree_map (handle_table p)))"
    "tree_map (handle_table p) k = Some b \<Longrightarrow> b < next_node p \<and> (\<exists>w. nodes p b = Some w \<and> node_ok k w)"
    "tree_map (handle_table p) k = Some b \<Longrightarrow> tree_map (handle_table p) h = Some b \<Longrightarrow> k = h"
  using assms inj_onD [of "tree_map (handle_table p)" _ k h] by (auto simp: process_ok_def)

text \<open>The first call of the process initialises the library, or fails and leaves it uninitialised.\<close>

lemma init_library_ok:
  assumes "process_ok p" "init_library env p = (r, q)"
  shows "process_ok q \<and> table_of q = table_of p \<and> (r \<ge> 0 \<longrightarrow> init_done (process q)) \<and>
    (r < 0 \<longrightarrow> table_of p = Map.empty)"
proof (cases "init_done (process p)")
  case True
  then have "q = p" "r = 0" using assms(2) by (auto simp: init_library_def init_def)
  then show ?thesis using assms(1) True by simp
next
  case False
  then have "(r \<ge> 0 \<and> init_done (process q) \<and> handle_table q = Null) \<or> (r < 0 \<and> \<not> init_done (process q))"
    using assms(2)
    by (auto simp: init_library_def init_def init_once_callback_def ws_global_init_def nt_global_init_def
        reflock_global_init_def epoll_global_init_def err_set_win_error_def Let_def
        dest!: nt_import_done split: prod.splits if_splits option.splits)
  then show ?thesis using False by (auto simp: process_ok_def table_of_def tree_map_def)
qed


section \<open>Operations on a port of the table\<close>

text \<open>What an operation does to a port that is well formed.\<close>

lemma run_port_ok:
  assumes "process_ok p" "init_done (process p)" "tree_map (handle_table p) h = Some a"
    and "\<And>w. node_ok h w \<Longrightarrow> wp f (\<lambda>x w'. Q x w' \<and> node_ok h w') w"
  shows "\<exists>x p'. run_port a f p = Inr (x, p') \<and> process_ok p' \<and> table_of p' = table_of p \<and>
    init_done (process p') \<and> (\<exists>w'. nodes p' a = Some w' \<and> Q x w' \<and> node_ok h w' \<and>
    last_error (process p') = last_error w' \<and> errno (process p') = errno w')"
proof -
  obtain w where w: "nodes p a = Some w" "node_ok h w"
    using assms(1-3) unfolding process_ok_def by blast
  have "node_ok h (w\<lparr>last_error := last_error (process p), errno := errno (process p)\<rparr>)"
    using w(2) node_ok_errors by blast
  from assms(4) [OF this] obtain x w' where
    f: "f (w\<lparr>last_error := last_error (process p), errno := errno (process p)\<rparr>) = Inr (x, w')" "Q x w'" "node_ok h w'"
    by (auto elim: wp_elim)
  let ?p = "set_thread w' (p\<lparr>nodes := (nodes p)(a \<mapsto> w')\<rparr>)"
  have "k = h" if "tree_map (handle_table p) k = Some a" for k
    using assms(1-3) that unfolding process_ok_def by (metis domI inj_onD)
  then have "process_ok ?p"
    using assms(1,2) f(3) by (auto simp: process_ok_def set_thread_def)
  then show ?thesis using w(1) f assms(2)
    by (intro exI [of _ x] exI [of _ ?p]) (simp add: run_port_def table_of_def set_thread_def)
qed

lemma ctl_node_ok:
  assumes "node_ok h w" "os_ok os"
  shows "wp (port_ctl os op sock ev) (\<lambda>r w'. (r = 0 \<or> r = - 1) \<and> node_ok h w') w"
proof -
  have "port_inv {#h#} w" "iocp_handle (port w) \<noteq> 0" using assms(1) by (auto simp: node_ok_def)
  from port_ctl_wp [OF this(1) assms(2), of op sock ev] open_port_adds [OF this(2)] show ?thesis
    by - (rule wp_mono, blast, use assms(1) in \<open>auto simp: node_ok_def port_kept_def\<close>)
qed

text \<open>The answers of the kernel are about requests in flight, each at most once.\<close>

definition answers_ok :: "(kernel_answer \<times> u64) list \<Rightarrow> bool" where
  "answers_ok ks \<longleftrightarrow> (\<forall>(k, now)\<in>set ks. \<forall>w rs. k w = Inr rs \<longrightarrow>
     distinct (map fst rs) \<and> fst ` set rs \<subseteq> set (requests w))"

lemma write_results_wp:
  "port_inv B w \<Longrightarrow> fst ` set rs \<subseteq> set (requests w) \<Longrightarrow>
   wp (write_results rs) (\<lambda>_ w'. port_inv B w' \<and> port_kept w w' \<and> requests w' = requests w) w"
proof (induction rs arbitrary: w)
  case Nil
  then show ?case by (simp add: wp_return)
next
  case (Cons r rs)
  obtain a st m e where r: "r = (a, st, m, e)" by (cases r) auto
  then have "a \<in> set (requests w)" using Cons.prems(2) by auto
  then obtain v where v: "set_sock a (write_result st m e) w = Inr ((), v)" "port_inv B v" "port_kept w v"
    using written_inv [OF Cons.prems(1)] by blast
  have "requests v = requests w" using v(1)
    by (auto simp: set_sock_def get_sock_def program_defs danglingP_def split: option.splits)
  then have "wp (write_results rs) (\<lambda>_ w'. port_inv B w' \<and> port_kept w w' \<and> requests w' = requests w) v"
    using Cons.IH [OF v(2)] Cons.prems(2) v(3) by (auto elim!: wp_mono simp: port_kept_def)
  then show ?case using v(1) r by (simp add: wp_def bindP_def)
qed

lemma take_answer_wp:
  assumes "port_inv B w" "\<And>rs. k w = Inr rs \<Longrightarrow> distinct (map fst rs) \<and> fst ` set rs \<subseteq> set (requests w)"
  shows "wp (take_answer k) (\<lambda>r w'. port_inv B w' \<and> port_kept w w' \<and>
    (\<forall>ps. r = Inr ps \<longrightarrow> distinct ps \<and> set ps \<subseteq> set (requests w'))) w"
proof (cases "k w")
  case (Inl e)
  then show ?thesis using assms(1) by (simp add: take_answer_def wp_rules)
next
  case (Inr rs)
  then have "wp (write_results rs) (\<lambda>_ w'. port_inv B w' \<and> port_kept w w' \<and> requests w' = requests w) w"
    using write_results_wp assms by blast
  then have "wp (bindP (write_results rs) (\<lambda>_. returnP (Inr (map fst rs)))) (\<lambda>r w'. port_inv B w' \<and> port_kept w w' \<and>
    (\<forall>ps. r = Inr ps \<longrightarrow> distinct ps \<and> set ps \<subseteq> set (requests w'))) w"
    by (rule wp_bind_mono) (use assms(2) [OF Inr] in \<open>auto simp: wp_return\<close>)
  then show ?thesis using Inr by (simp add: take_answer_def wp_bind [of "getP k"] wp_get)
qed


text \<open>A wait that returns has left the port polled by nobody, as it was.\<close>

definition waited :: "u64 multiset \<Rightarrow> u64 \<Rightarrow> answer \<Rightarrow> epoll_world \<Rightarrow> bool" where
  "waited B h x w \<longleftrightarrow> port_inv B w \<and> iocp_handle (port w) = h \<and>
     active_poll_count (port w) = (if x = None then 1 else 0)"

lemma wait_loop_wp:
  assumes "os_ok os"
  shows "answers_ok ks \<Longrightarrow> waited B h None w \<Longrightarrow> wp (port_wait_loop os timeout due ks) (waited B h) w"
proof (induction ks arbitrary: w)
  case Nil
  then show ?case by (simp add: wp_return)
next
  case (Cons kn ks)
  obtain k now where kn: "kn = (k, now)" by (cases kn)
  have k: "\<And>w rs. k w = Inr rs \<Longrightarrow> distinct (map fst rs) \<and> fst ` set rs \<subseteq> set (requests w)" "answers_ok ks"
    using Cons.prems(1) kn unfolding answers_ok_def by auto
  have inv: "port_inv B w" using Cons.prems(2) by (simp add: waited_def)
  have "wp (bindP (take_answer k) (\<lambda>r. bindP (port_wait_wake os timeout due now r) (\<lambda>x.
     case x of Some a \<Rightarrow> returnP (Some a) | None \<Rightarrow> port_wait_loop os timeout due ks))) (waited B h) w"
  proof (rule wp_bind_mono [OF take_answer_wp [OF inv k(1)]])
    fix r :: "string + nat list" and v
    assume v: "port_inv B v \<and> port_kept w v \<and> (\<forall>ps. r = Inr ps \<longrightarrow> distinct ps \<and> set ps \<subseteq> set (requests v))"
    show "wp (bindP (port_wait_wake os timeout due now r) (\<lambda>x.
     case x of Some a \<Rightarrow> returnP (Some a) | None \<Rightarrow> port_wait_loop os timeout due ks)) (waited B h) v"
    proof (rule wp_bind_mono [OF port_wait_wake_wp [OF _ assms]])
      fix x u assume u: "wake_done B os r v x u"
      show "wp (case x of Some a \<Rightarrow> returnP (Some a) | None \<Rightarrow> port_wait_loop os timeout due ks) (waited B h) u"
      proof (cases x)
        case None
        then have "waited B h None u"
          using u v Cons.prems(2) by (auto simp: wake_done_def waited_def polling_kept_def port_kept_def)
        then show ?thesis using Cons.IH [OF k(2)] None by simp
      next
        case (Some a)
        then show ?thesis using u v Cons.prems(2)
          by (auto simp: wp_return wake_done_def waited_def polling_kept_def port_kept_def split: prod.splits)
      qed
    qed (use v in auto)
  qed
  then show ?case using kn by simp
qed

lemma port_wait_wp:
  assumes "node_ok h w" "os_ok os" "answers_ok ks"
  shows "wp (port_wait os alloc clock maxevents timeout ks) (waited {#h#} h) w"
proof (cases "port_wait_start alloc clock maxevents timeout")
  case None
  then show ?thesis using assms(1) port_inv_calm [OF calm_call(2)]
    by (auto simp: port_wait_def wp_set_error waited_def node_ok_def)
next
  case (Some a)
  have inv: "port_inv {#h#} w" using assms(1) by (simp add: node_ok_def)
  have "wp (bindP (port_wait_poll os) (\<lambda>x. case x of Some r \<Rightarrow> returnP (Some (r, []))
          | None \<Rightarrow> port_wait_loop os timeout (wait_due a) ks)) (waited {#h#} h) w"
  proof (rule wp_bind_mono [OF wait_poll_wp [OF inv assms(2)]])
    fix x :: "int option" and v
    assume v: "port_inv {#h#} v \<and> (case x of None \<Rightarrow> polling_kept w v 1 \<and> upd_q v = []
      | Some r \<Rightarrow> polling_kept w v 0 \<and> \<not> os_accepts os \<and> (r = 0 \<or> r = - 1))"
    show "wp (case x of Some r \<Rightarrow> returnP (Some (r, []))
          | None \<Rightarrow> port_wait_loop os timeout (wait_due a) ks) (waited {#h#} h) v"
    proof (cases x)
      case None
      then have "waited {#h#} h None v" using v assms(1) by (auto simp: waited_def polling_kept_def node_ok_def)
      then show ?thesis using wait_loop_wp [OF assms(2,3)] None by simp
    next
      case (Some r)
      then show ?thesis using v assms(1) by (auto simp: wp_return waited_def polling_kept_def node_ok_def)
    qed
  qed
  then show ?thesis using Some by (simp add: port_wait_def)
qed

section \<open>The calls\<close>

lemma new_node_ok: "h \<noteq> 0 \<Longrightarrow> node_ok h (new_world h t)"
  using new_world_inv [of h t] by (simp add: node_ok_def new_world_def empty_port_def)

lemma epoll_new_ok:
  assumes "process_ok p" "\<And>h. new_iocp env = Inr h \<Longrightarrow> h \<noteq> 0 \<and> h \<notin> dom (table_of p)"
  shows "\<exists>r p'. epoll_new env p = Inr (r, p') \<and> process_ok p' \<and>
    (r = 0 \<and> table_of p' = table_of p \<or>
     new_iocp env = Inr r \<and> (\<exists>a. a \<notin> ran (table_of p) \<and> table_of p' = (table_of p)(r \<mapsto> a)))"
proof -
  obtain r q where q: "init_library env p = (r, q)" by fastforce
  note iq = init_library_ok [OF assms(1) q]
  show ?thesis
  proof (cases "r < 0")
    case True
    then show ?thesis using q iq by (simp add: epoll_new_def)
  next
    case False
    then have d: "init_done (process q)" using iq by simp
    let ?t = "\<lparr>last_error = last_error (process q), errno = errno (process q)\<rparr>"
    obtain x t where x: "port_new (alloc_ok env) (new_iocp env) ?t = (x, t)" by fastforce
    let ?q = "set_thread t q"
    have sq: "process_ok ?q" "table_of ?q = table_of p" "init_done (process ?q)"
      using same_table_ok [OF same_table_errors(3) [of q t]] iq d same_table_errors(3) [of q t]
      by (auto simp: same_table_def)
    show ?thesis
    proof (cases x)
      case None
      then show ?thesis using q x False sq by (simp add: epoll_new_def)
    next
      case (Some hw)
      then obtain h w where hw: "x = Some (h, w)" "new_iocp env = Inr h" "w = new_world h ?t"
        using x by (auto simp: port_new_def split: if_splits sum.splits)
      have h: "h \<noteq> 0" "h \<notin> dom (tree_map (handle_table ?q))"
        using assms(2) [OF hw(2)] sq(2,3) by (simp_all only: table_of_def if_True) auto
      have tok: "tree_ok (handle_table ?q)" using sq by (simp add: process_ok_def)
      let ?a = "next_node ?q"
      obtain tr where tr: "tree_add h ?a (handle_table ?q) = Inr (Some tr)" "tree_ok tr"
        "tree_map tr = (tree_map (handle_table ?q))(h \<mapsto> ?a)" using rb.add_new [OF tok h(2)] by blast
      have new: "?a \<notin> ran (tree_map (handle_table ?q))"
        using sq unfolding process_ok_def by (auto simp: ran_def)
      let ?p = "(set_table tr ?q)\<lparr>nodes := (nodes ?q)(?a \<mapsto> w), next_node := Suc ?a\<rparr>"
      have "inj_on ((tree_map (handle_table ?q))(h \<mapsto> ?a)) (dom ((tree_map (handle_table ?q))(h \<mapsto> ?a)))"
        using sq new unfolding process_ok_def by (auto simp: inj_on_def ran_def)
      moreover have "b < Suc ?a \<and> (\<exists>w'. ((nodes ?q)(?a \<mapsto> w)) b = Some w' \<and> node_ok k w')"
        if "((tree_map (handle_table ?q))(h \<mapsto> ?a)) k = Some b" for k b
      proof (cases "k = h")
        case True
        then show ?thesis using that new_node_ok [OF h(1)] hw(3) by auto
      next
        case False
        then have "b < ?a" "\<exists>w'. nodes ?q b = Some w' \<and> node_ok k w'"
          using that sq unfolding process_ok_def by auto
        then show ?thesis by auto
      qed
      moreover have "handle_table ?p = tr" "nodes ?p = (nodes ?q)(?a \<mapsto> w)" "next_node ?p = Suc ?a"
        by (simp_all add: set_table_def)
      ultimately have "process_ok ?p" using tr(2,3) by (intro process_okI) (simp_all only:)
      moreover have "table_of ?p = (table_of p)(h \<mapsto> ?a)"
        using sq(2,3) tr(3) by (simp add: table_of_def set_table_def)
      moreover have "epoll_new env p = Inr (h, ?p)" using q x hw False tr(1) by (simp add: epoll_new_def Let_def)
      moreover have "?a \<notin> ran (table_of p)" using new sq(2,3) by (simp add: table_of_def)
      ultimately show ?thesis using hw(2) by blast
    qed
  qed
qed


lemma table_find: "process_ok p \<Longrightarrow> init_done (process p) \<Longrightarrow> tree_find h (handle_table p) = table_of p h"
  using rb.lookup_contents [of "handle_table p" h] by (simp add: process_ok_def table_of_def)

lemma epoll_ctl_ok:
  assumes "process_ok p" "os_ok (port_calls env)"
  shows "\<exists>r p'. epoll_ctl env h op sock ev p = Inr (r, p') \<and> process_ok p' \<and> table_of p' = table_of p \<and>
    (r = 0 \<and> h \<in> dom (table_of p) \<or> r = - 1)"
proof -
  obtain r q where q: "init_library env p = (r, q)" by fastforce
  note iq = init_library_ok [OF assms(1) q]
  have err: "process_ok (check_handle env sock (check_handle env h q')) \<and>
      table_of (check_handle env sock (check_handle env h q')) = table_of p"
    if "process_ok q'" "table_of q' = table_of p" for q'
    using same_table_ok same_table_errors(2) that by metis
  show ?thesis
  proof (cases "r < 0")
    case True
    then show ?thesis using q iq by (simp add: epoll_ctl_def)
  next
    case False
    then have d: "init_done (process q)" using iq by simp
    have find: "tree_find h (handle_table q) = table_of p h" using table_find iq d by metis
    show ?thesis
    proof (cases "table_of p h")
      case None
      have "process_ok (set_error ''ERROR_INVALID_PARAMETER'' q)"
        "table_of (set_error ''ERROR_INVALID_PARAMETER'' q) = table_of p"
        using same_table_ok [OF same_table_errors(1) [of q]] iq by auto
      from err [OF this] show ?thesis using q False find None by (simp add: epoll_ctl_def Let_def)
    next
      case (Some a)
      then have a: "tree_map (handle_table q) h = Some a" using iq d by (simp add: table_of_def)
      have "\<exists>x p'. run_port a (port_ctl (port_calls env) op sock ev) q = Inr (x, p') \<and> process_ok p' \<and>
        table_of p' = table_of q \<and> init_done (process p') \<and> (\<exists>w'. nodes p' a = Some w' \<and> (x = 0 \<or> x = - 1) \<and>
        node_ok h w' \<and> last_error (process p') = last_error w' \<and> errno (process p') = errno w')"
        using iq d a ctl_node_ok [OF _ assms(2)] by (intro run_port_ok) auto
      then obtain x p' where x: "run_port a (port_ctl (port_calls env) op sock ev) q = Inr (x, p')"
        "process_ok p'" "table_of p' = table_of p" "x = 0 \<or> x = - 1" using iq by auto
      then show ?thesis using q False find Some err [OF x(2,3)] by (auto simp: epoll_ctl_def Let_def)
    qed
  qed
qed

lemma epoll_wait_ok:
  assumes "process_ok p" "os_ok (port_calls env)" "answers_ok ks"
  shows "\<exists>x p'. epoll_wait env h maxevents timeout clock ks p = Inr (x, p') \<and>
    (x \<noteq> None \<longrightarrow> process_ok p' \<and> table_of p' = table_of p)"
proof (cases "maxevents \<le> 0")
  case True
  then show ?thesis using assms(1) by (simp add: epoll_wait_def)
next
  case pos: False
  obtain r q where q: "init_library env p = (r, q)" by fastforce
  note iq = init_library_ok [OF assms(1) q]
  show ?thesis
  proof (cases "r < 0")
    case True
    then show ?thesis using q iq pos by (simp add: epoll_wait_def)
  next
    case False
    then have d: "init_done (process q)" using iq by simp
    have find: "tree_find h (handle_table q) = table_of p h" using table_find iq d by metis
    show ?thesis
    proof (cases "table_of p h")
      case None
      then show ?thesis using q False pos find iq by (simp add: epoll_wait_def)
    next
      case (Some a)
      then have a: "tree_map (handle_table q) h = Some a" using iq d by (simp add: table_of_def)
      obtain w where w: "nodes q a = Some w" "node_ok h w" using process_okD(3) [OF _ d a] iq by blast
      let ?w = "w\<lparr>last_error := last_error (process q), errno := errno (process q)\<rparr>"
      have "node_ok h ?w" using w(2) node_ok_errors by blast
      from port_wait_wp [OF this assms(2,3), of "alloc_ok env" clock maxevents timeout] obtain x w' where
        x: "port_wait (port_calls env) (alloc_ok env) clock maxevents timeout ks ?w = Inr (x, w')" "waited {#h#} h x w'"
        by (auto elim: wp_elim)
      let ?p = "set_thread w' (q\<lparr>nodes := (nodes q)(a \<mapsto> w')\<rparr>)"
      have run: "run_port a (port_wait (port_calls env) (alloc_ok env) clock maxevents timeout ks) q = Inr (x, ?p)"
        using w(1) x(1) by (simp add: run_port_def)
      have uniq: "k = h" if "tree_map (handle_table q) k = Some a" for k
        using process_okD(4) [OF _ d that a] iq by blast
      have ok: "process_ok ?p \<and> table_of ?p = table_of p" if "x \<noteq> None"
      proof -
        have n: "node_ok h w'" using x(2) that w(2) by (simp add: waited_def node_ok_def)
        have t: "handle_table ?p = handle_table q" "nodes ?p = (nodes q)(a \<mapsto> w')" "next_node ?p = next_node q"
          by (simp_all add: set_thread_def)
        have "process_ok ?p"
        proof (rule process_okI)
          fix k b assume k: "tree_map (handle_table ?p) k = Some b"
          then have k': "tree_map (handle_table q) k = Some b" by (simp only: t)
          show "b < next_node ?p \<and> (\<exists>w. nodes ?p b = Some w \<and> node_ok k w)"
            using process_okD(3) [OF _ d k'] iq uniq k' n unfolding t by (cases "b = a") auto
        qed (use process_okD(1,2) [OF _ d] iq t in simp_all)
        moreover have "table_of ?p = table_of q" by (simp add: table_of_def set_thread_def)
        ultimately show ?thesis using iq by simp
      qed
      show ?thesis
      proof (cases x)
        case None
        then show ?thesis using q False pos find Some run by (simp add: epoll_wait_def)
      next
        case (Some ne)
        obtain n evs where ne: "ne = (n, evs)" by (cases ne)
        show ?thesis using q False pos find \<open>table_of p h = Some a\<close> run Some ne ok
          by (simp add: epoll_wait_def)
      qed
    qed
  qed
qed

lemma epoll_close_ok:
  assumes "process_ok p"
  shows "\<exists>r p'. epoll_close env h p = Inr (r, p') \<and> process_ok p' \<and>
    (r = 0 \<and> h \<in> dom (table_of p) \<and> table_of p' = (table_of p)(h := None) \<or>
     r = - 1 \<and> h \<notin> dom (table_of p) \<and> table_of p' = table_of p)"
proof -
  obtain r q where q: "init_library env p = (r, q)" by fastforce
  note iq = init_library_ok [OF assms(1) q]
  show ?thesis
  proof (cases "r < 0")
    case True
    then show ?thesis using q iq by (simp add: epoll_close_def)
  next
    case False
    then have d: "init_done (process q)" using iq by simp
    have find: "tree_find h (handle_table q) = table_of p h" using table_find iq d by metis
    show ?thesis
    proof (cases "table_of p h")
      case None
      then show ?thesis using q False find iq by (simp add: epoll_close_def domIff)
    next
      case (Some a)
      then have a: "tree_map (handle_table q) h = Some a" using iq d by (simp add: table_of_def)
      have tok: "tree_ok (handle_table q)" using iq d by (simp add: process_ok_def)
      obtain t where t: "tree_del h (handle_table q) = Inr t" "tree_ok t"
        "tree_map t = (tree_map (handle_table q))(h := None)" using rb.del_present [OF tok] a by blast
      obtain w where w: "nodes q a = Some w" "node_ok h w" using process_okD(3) [OF _ d a] iq by blast
      let ?w = "w\<lparr>last_error := last_error (process q), errno := errno (process q)\<rparr>"
      have "node_ok h ?w" using w(2) node_ok_errors by blast
      then have "port_inv {#h#} ?w" "iocp_handle (port ?w) = h" unfolding node_ok_def by blast+
      from port_close_wp [OF this, of "close_iocp env"] obtain x w1 B where w1:
        "port_close (close_iocp env) ?w = Inr (x, w1)" "port_inv B w1" "iocp_handle (port w1) = 0"
        by (auto elim: wp_elim)
      have "core_ok B (w1\<lparr>last_error := last_error w1, errno := errno w1\<rparr>)"
        using w1(2) by (simp add: port_inv_def inv_but_def)
      from port_delete_wp [OF this] w1(3) obtain w2 where w2: "port_delete (port_calls env) w1 = Inr (0, w2)"
        by (auto elim: wp_elim)
      let ?p = "(set_thread w2 ((set_thread w1 ((set_table t q)\<lparr>nodes := (nodes q)(a \<mapsto> w1)\<rparr>))
        \<lparr>nodes := (nodes q)(a \<mapsto> w1, a \<mapsto> w2)\<rparr>))\<lparr>nodes := ((nodes q)(a \<mapsto> w1, a \<mapsto> w2))(a := None)\<rparr>"
      have "epoll_close env h p = Inr (0, ?p)"
        using q False find Some t(1) w(1) w1(1) w2
        by (simp add: epoll_close_def run_port_def set_table_def set_thread_def del: fun_upd_upd)
      moreover have "process_ok ?p"
      proof -
        have f: "handle_table ?p = t" "nodes ?p = (nodes q)(a := None)" "next_node ?p = next_node q"
          by (simp_all add: set_table_def set_thread_def)
        show ?thesis
        proof (rule process_okI)
          show "inj_on (tree_map (handle_table ?p)) (dom (tree_map (handle_table ?p)))"
            using process_okD(2) [OF _ d] iq t(3) unfolding f by (auto simp: inj_on_def)
          fix k b assume "tree_map (handle_table ?p) k = Some b"
          then have k: "tree_map (handle_table q) k = Some b" "k \<noteq> h"
            using t(3) unfolding f by (auto split: if_splits)
          then have "b \<noteq> a" using process_okD(4) [OF _ d k(1)] a iq by blast
          then show "b < next_node ?p \<and> (\<exists>w. nodes ?p b = Some w \<and> node_ok k w)"
            using process_okD(3) [OF _ d k(1)] iq unfolding f by simp
        qed (use t(2) f in simp)
      qed
      moreover have "table_of ?p = (table_of p)(h := None)"
        using iq d t(3) by (auto simp: table_of_def set_table_def set_thread_def)
      ultimately show ?thesis using Some by blast
    qed
  qed
qed


lemma epoll_create_ok:
  assumes "process_ok p" "\<And>h. new_iocp env = Inr h \<Longrightarrow> h \<noteq> 0 \<and> h \<notin> dom (table_of p)"
  shows "\<exists>r p'. epoll_create env n p = Inr (r, p') \<and> process_ok p' \<and>
    (r = 0 \<and> table_of p' = table_of p \<or>
     new_iocp env = Inr r \<and> (\<exists>a. a \<notin> ran (table_of p) \<and> table_of p' = (table_of p)(r \<mapsto> a)))"
  using epoll_new_ok [OF assms] assms(1) by (simp add: epoll_create_def)

text \<open>
  The processes that a thread can bring about. Windows gives a new completion port a handle that is
  not in use.
\<close>

inductive usable :: "epoll_process \<Rightarrow> bool" where
  fresh: "\<not> init_done (process p) \<Longrightarrow> usable p"
| created: "usable p \<Longrightarrow> (\<And>h. new_iocp env = Inr h \<Longrightarrow> h \<noteq> 0 \<and> h \<notin> dom (table_of p)) \<Longrightarrow>
    epoll_create env n p = Inr (h, p') \<Longrightarrow> usable p'"
| closed: "usable p \<Longrightarrow> epoll_close env h p = Inr (r, p') \<Longrightarrow> usable p'"
| controlled: "usable p \<Longrightarrow> os_ok (port_calls env) \<Longrightarrow> epoll_ctl env h op sock ev p = Inr (r, p') \<Longrightarrow> usable p'"
| waited_for: "usable p \<Longrightarrow> os_ok (port_calls env) \<Longrightarrow> answers_ok ks \<Longrightarrow>
    epoll_wait env h maxevents timeout clock ks p = Inr (Some a, p') \<Longrightarrow> usable p'"

lemma usable_ok: "usable p \<Longrightarrow> process_ok p"
proof (induction rule: usable.induct)
  case (fresh p)
  then show ?case by (simp add: process_ok_def)
next
  case (created p env n h p')
  then show ?case using epoll_create_ok [of p env n] by auto
next
  case (closed p env h r p')
  then show ?case using epoll_close_ok [of p env h] by auto
next
  case (controlled p env h op sock ev r p')
  then show ?case using epoll_ctl_ok [of p env h op sock ev] by auto
next
  case (waited_for p env ks h maxevents timeout clock a p')
  then show ?case using epoll_wait_ok [of p env ks h maxevents timeout clock] by auto
qed

section \<open>Properties\<close>

definition ready_env :: epoll_env where
  "ready_env = \<lparr>startup = \<lparr>wsa_startup = None, ntdll_exports = Some nt_import_list, keyed_event_status = STATUS_SUCCESS\<rparr>,
     handle_info = (\<lambda>h. if h \<le> 9 then None else Some ''ERROR_INVALID_HANDLE''), port_calls = willing_os, alloc_ok = True,
     new_iocp = Inr 9, close_iocp = None\<rparr>"

definition new_process :: epoll_process where
  "new_process = \<lparr>process = \<lparr>last_error = '''', errno = '''', init_done = False, nt_functions = [],
     reflock_keyed_event = False, epoll_handle_tree = Null\<rparr>, nodes = Map.empty, next_node = 1\<rparr>"

lemma one_handle:
  obtains p where "usable p" "table_of p = [9 \<mapsto> 1]" "init_done (process p)"
proof -
  have "\<exists>p. epoll_create ready_env 1 new_process = Inr (9, p) \<and> table_of p = [9 \<mapsto> 1] \<and> init_done (process p)"
    by (simp add: epoll_create_def epoll_new_def init_library_def init_def init_once_callback_def ready_env_def
        new_process_def ws_global_init_def nt_global_init_def nt_import_list_def reflock_global_init_def
        epoll_global_init_def port_new_def set_thread_def set_table_def tree_add_first table_of_def tree_map_def)
  then obtain p where p: "epoll_create ready_env 1 new_process = Inr (9, p)" "table_of p = [9 \<mapsto> 1]"
    "init_done (process p)" by blast
  have "usable new_process" by (rule usable.fresh) (simp add: new_process_def)
  then have "usable p"
    by (rule usable.created [OF _ _ p(1)]) (auto simp: ready_env_def new_process_def table_of_def)
  then show thesis using that p by blast
qed

text \<open>C31: The exported functions keep a table of handles. For a process made by any calls of one thread, none
  of the calls faults: a created handle gets a port of its own, unless the call fails and changes
  nothing; closing succeeds exactly for the handles of the table and takes the handle out; control
  and waits leave the table as it is, and control succeeds for its handles only.\<close>

theorem exported_calls_keep_table:
  assumes "usable p" "os_ok (port_calls env)" "answers_ok ks"
    and "\<And>h. new_iocp env = Inr h \<Longrightarrow> h \<noteq> 0 \<and> h \<notin> dom (table_of p)"
  shows "(\<exists>r p'. epoll_create env n p = Inr (r, p') \<and>
      (if r = 0 then table_of p' = table_of p else \<exists>a. a \<notin> ran (table_of p) \<and> table_of p' = (table_of p)(r \<mapsto> a))) \<and>
    (\<exists>r p'. epoll_close env h p = Inr (r, p') \<and>
      r = (if h \<in> dom (table_of p) then 0 else - 1) \<and> table_of p' = (table_of p)(h := None)) \<and>
    (\<exists>r p'. epoll_ctl env h op sock ev p = Inr (r, p') \<and> table_of p' = table_of p \<and>
      (r = 0 \<and> h \<in> dom (table_of p) \<or> r = - 1)) \<and>
    (\<exists>x p'. epoll_wait env h maxevents timeout clock ks p = Inr (x, p') \<and> (x \<noteq> None \<longrightarrow> table_of p' = table_of p))"
proof (intro conjI)
  note ok = usable_ok [OF assms(1)]
  obtain r p' where c: "epoll_create env n p = Inr (r, p')" "r = 0 \<and> table_of p' = table_of p \<or>
     new_iocp env = Inr r \<and> (\<exists>a. a \<notin> ran (table_of p) \<and> table_of p' = (table_of p)(r \<mapsto> a))"
    using epoll_create_ok [OF ok assms(4)] by blast
  have "if r = 0 then table_of p' = table_of p else \<exists>a. a \<notin> ran (table_of p) \<and> table_of p' = (table_of p)(r \<mapsto> a)"
    using c(2) assms(4) [of r] by auto
  then show "\<exists>r p'. epoll_create env n p = Inr (r, p') \<and>
      (if r = 0 then table_of p' = table_of p else \<exists>a. a \<notin> ran (table_of p) \<and> table_of p' = (table_of p)(r \<mapsto> a))"
    using c(1) by blast
  have "r = (if h \<in> dom (table_of p) then 0 else - 1) \<and> table_of p' = (table_of p)(h := None)"
    if "r = 0 \<and> h \<in> dom (table_of p) \<and> table_of p' = (table_of p)(h := None) \<or>
     r = - 1 \<and> h \<notin> dom (table_of p) \<and> table_of p' = table_of p" for r :: int and p'
    using that by (auto simp: fun_eq_iff domIff)
  then show "\<exists>r p'. epoll_close env h p = Inr (r, p') \<and>
      r = (if h \<in> dom (table_of p) then 0 else - 1) \<and> table_of p' = (table_of p)(h := None)"
    using epoll_close_ok [OF ok, of env h] by blast
  show "\<exists>r p'. epoll_ctl env h op sock ev p = Inr (r, p') \<and> table_of p' = table_of p \<and>
      (r = 0 \<and> h \<in> dom (table_of p) \<or> r = - 1)"
    using epoll_ctl_ok [OF ok assms(2)] by blast
  show "\<exists>x p'. epoll_wait env h maxevents timeout clock ks p = Inr (x, p') \<and> (x \<noteq> None \<longrightarrow> table_of p' = table_of p)"
    using epoll_wait_ok [OF ok assms(2,3)] by blast
qed

lemma exported_calls_keep_table_witness:
  "\<exists>p p'. table_of p = [9 \<mapsto> 1] \<and>
    epoll_close (ready_env\<lparr>new_iocp := Inl ''ERROR_NO_SYSTEM_RESOURCES''\<rparr>) 9 p = Inr (0, p') \<and>
    table_of p' = Map.empty"
proof -
  obtain p where p: "usable p" "table_of p = [9 \<mapsto> 1]" by (rule one_handle)
  let ?env = "ready_env\<lparr>new_iocp := Inl ''ERROR_NO_SYSTEM_RESOURCES''\<rparr>"
  have env: "os_ok (port_calls ?env)" "answers_ok []"
    using willing_os_ok(1) by (simp_all add: ready_env_def answers_ok_def)
  have "\<exists>r p'. epoll_close ?env 9 p = Inr (r, p') \<and>
      r = (if 9 \<in> dom (table_of p) then 0 else - 1) \<and> table_of p' = (table_of p)(9 := None)"
    using exported_calls_keep_table [OF p(1) env, of 1 9] by simp
  then show ?thesis using p(2) by auto
qed

text \<open>\<open>EBADF\<close> takes priority: when \<open>epoll_ctl\<close> fails for an initialised process, an invalid socket
  makes it \<open>EBADF\<close>, whatever failed first, and so does an invalid handle with a valid socket; a valid
  handle that is none of epoll, with a valid socket, is \<open>EINVAL\<close>.\<close>

definition bad_handle :: "epoll_env \<Rightarrow> u64 \<Rightarrow> bool" where
  "bad_handle env h \<longleftrightarrow> h = INVALID_SOCKET \<or> handle_info env h = Some ''ERROR_INVALID_HANDLE''"

definition good_handle :: "epoll_env \<Rightarrow> u64 \<Rightarrow> bool" where
  "good_handle env h \<longleftrightarrow> h \<noteq> INVALID_SOCKET \<and> handle_info env h = None"

lemma check_handle_errno:
  "bad_handle env h \<Longrightarrow> errno (process (check_handle env h p)) = ''EBADF''"
  "good_handle env h \<Longrightarrow> check_handle env h p = p"
  by (auto simp: bad_handle_def good_handle_def check_handle_def err_check_handle_def err_set_win_error_def
      err_map_win_error_def err_map_win_error_to_errno_def err_errno_mappings_def)

theorem ebadf_takes_priority:
  assumes "usable p" "init_done (process p)" "epoll_ctl env h op sock ev p = Inr (- 1, p')"
  shows "(bad_handle env sock \<longrightarrow> errno (process p') = ''EBADF'') \<and>
    (good_handle env sock \<longrightarrow> bad_handle env h \<longrightarrow> errno (process p') = ''EBADF'') \<and>
    (good_handle env sock \<longrightarrow> good_handle env h \<longrightarrow> h \<notin> dom (table_of p) \<longrightarrow> errno (process p') = ''EINVAL'')"
proof -
  have i: "init_library env p = (0, p)" using assms(2) by (simp add: init_library_def init_def)
  have find: "tree_find h (handle_table p) = table_of p h" using table_find [OF usable_ok [OF assms(1)] assms(2)] .
  have "\<exists>q. p' = check_handle env sock (check_handle env h q) \<and>
    (h \<notin> dom (table_of p) \<longrightarrow> q = set_error ''ERROR_INVALID_PARAMETER'' p)"
    using assms(3) i find
    by (auto simp: epoll_ctl_def Let_def bindR_def domIff split: option.splits sum.splits if_splits)
  then obtain q where q: "p' = check_handle env sock (check_handle env h q)"
    "h \<notin> dom (table_of p) \<Longrightarrow> q = set_error ''ERROR_INVALID_PARAMETER'' p" by blast
  have e: "errno (process (set_error ''ERROR_INVALID_PARAMETER'' p)) = ''EINVAL''"
    by (simp add: set_error_def err_set_win_error_def err_map_win_error_to_errno_def err_errno_mappings_def)
  show ?thesis using q e check_handle_errno by simp
qed

lemma ebadf_takes_priority_witness:
  "\<exists>p p'. epoll_ctl ready_env 5 EPOLL_CTL_ADD 77 (EPOLLIN, 0) p = Inr (- 1, p') \<and> errno (process p') = ''EBADF''"
proof -
  obtain p where p: "usable p" "table_of p = [9 \<mapsto> 1]" "init_done (process p)" by (rule one_handle)
  have "tree_find 5 (handle_table p) = None" using table_find [OF usable_ok [OF p(1)] p(3)] p(2) by simp
  then have "\<exists>p'. epoll_ctl ready_env 5 EPOLL_CTL_ADD 77 (EPOLLIN, 0) p = Inr (- 1, p')"
    using p(3) by (simp add: epoll_ctl_def init_library_def init_def Let_def)
  then obtain p' where p': "epoll_ctl ready_env 5 EPOLL_CTL_ADD 77 (EPOLLIN, 0) p = Inr (- 1, p')" by blast
  have "bad_handle ready_env 77" by (simp add: bad_handle_def ready_env_def)
  with ebadf_takes_priority [OF p(1,3) p'] p' show ?thesis by auto
qed

text \<open>When Windows gives a new completion port the handle of one that is still in the table, because it
  was closed behind the back of the library, \<open>epoll_create\<close> does not report the error it means to: it
  ends the program by the assertion of \<open>port_delete\<close>, the completion port being open.\<close>

theorem stale_handle_ends_the_program:
  assumes "usable p" "init_done (process p)" "alloc_ok env" "new_iocp env = Inr h" "h \<in> dom (table_of p)" "n > 0"
  shows "epoll_create env n p = Inl (Logic_error ''assertion failed'')"
proof -
  have i: "init_library env p = (0, p)" using assms(2) by (simp add: init_library_def init_def)
  obtain a where a: "tree_map (handle_table p) h = Some a" using assms(2,5) by (auto simp: table_of_def)
  have ok: "tree_ok (handle_table p)" "h \<noteq> 0"
    using process_okD(1,3) [OF usable_ok [OF assms(1)] assms(2)] a by (auto simp: node_ok_def)
  have "tree_add h (next_node p) (handle_table p) = Inr None" using rb.add_taken [OF ok(1)] a by blast
  then show ?thesis using assms(3,4,6) i ok(2)
    by (simp add: epoll_create_def epoll_new_def port_new_def Let_def set_thread_def port_delete_def
        new_world_def empty_port_def program_defs)
qed

lemma stale_handle_ends_the_program_witness:
  "\<exists>p. table_of p = [9 \<mapsto> 1] \<and> epoll_create ready_env 1 p = Inl (Logic_error ''assertion failed'')"
proof -
  obtain p where p: "usable p" "table_of p = [9 \<mapsto> 1]" "init_done (process p)" by (rule one_handle)
  have "alloc_ok ready_env" "new_iocp ready_env = Inr 9" "9 \<in> dom (table_of p)" "(1::int) > 0"
    using p(2) by (simp_all add: ready_env_def)
  from stale_handle_ends_the_program [OF p(1,3) this] p(2) show ?thesis by blast
qed

end
