(* ===== verification/Sys_Helpers.thy ===== *)
theory Sys_Helpers
  imports Sock_Io Utils
begin

text \<open>
  Direct uses of the operating system: the connected pair of sockets of \<open>src/src/utils.hpp\<close>, the
  name of a peer and the non-blocking mode of \<open>src/src/lib/rlib/sys/sio.hpp\<close>, the argument
  vector of \<open>src/src/lib/rlib/sys/unix_handy.hpp\<close>, and the time of
  \<open>src/src/lib/rlib/sys/time.hpp\<close>. What the system answers is an argument.
\<close>

section \<open>A connected pair of sockets\<close>

text \<open>
  The connections on the temporary port are in a queue, in the order in which they were made:
  \<open>Some fd\<close> is the one of the program's own socket \<open>fd\<close>, \<open>None\<close> one of another process.
  \<open>accept\<close> takes the first one and waits while there is none. An exception in the accepting
  thread ends the program, and so does one of \<open>quick_connect\<close>, since it destroys the thread
  object without joining it.
\<close>

record tcp_pipe =
  cli_side :: nat
  srv_side :: nat
  srv_peer :: "nat option"

definition mk_tcp_pipe ::
  "u16 \<Rightarrow> net_env \<Rightarrow> nat option list \<Rightarrow> nat option \<Rightarrow> bool \<Rightarrow> tcp_pipe result option" where
  "mk_tcp_pipe tmp_port env callers accepted close_ok =
     (case fst (quick_listen_posix env ''::1'' tmp_port False) of
        Inl e \<Rightarrow> Some (Inl e)
      | Inr listenfd \<Rightarrow>
          (case fst (quick_connect_posix env ''::1'' tmp_port False) of
             Inl e \<Rightarrow> Some (Inl Terminated)
           | Inr connfd_cli_side \<Rightarrow>
               (case callers of
                  [] \<Rightarrow> None
                | caller # _ \<Rightarrow>
                    (case quick_accept accepted of
                       Inl e \<Rightarrow> Some (Inl Terminated)
                     | Inr connfd_srv_side \<Rightarrow>
                         Some (bindR (fst (close_ex close_ok listenfd)) (\<lambda>_.
                           Inr \<lparr>cli_side = connfd_cli_side, srv_side = connfd_srv_side,
                                srv_peer = caller\<rparr>))))))"

section \<open>The name of a peer\<close>

text \<open>
  \<open>getpeername\<close> answers with the address family and the port in network byte order,
  \<open>inet_ntop\<close> with the text of the address.
\<close>

datatype address_family = AF_INET | AF_INET6 | AF_other

definition ntohs :: "u16 \<Rightarrow> u16" where
  "ntohs w = push_bit 8 w OR drop_bit 8 w"

definition get_peer_name ::
  "(address_family \<times> u16) option \<Rightarrow> (address_family \<Rightarrow> string option) \<Rightarrow> (string \<times> u16) result" where
  "get_peer_name peername inet_ntop =
     (case peername of
        None \<Rightarrow> Inl (Runtime_error ''getpeername failed. errno = '')
      | Some (family, port) \<Rightarrow>
          if family = AF_INET
          then (case inet_ntop AF_INET of
                  None \<Rightarrow> Inl (Runtime_error ''inet_ntop failed. errno = '')
                | Some str \<Rightarrow> Inr (str, ntohs port))
          else (case inet_ntop AF_INET6 of
                  None \<Rightarrow> Inl (Runtime_error ''inet_ntop failed. errno = '')
                | Some str \<Rightarrow> Inr (''['' @ str @ '']'', ntohs port)))"

section \<open>Non-blocking descriptors\<close>

definition O_NONBLOCK :: u32 where
  "O_NONBLOCK = 2048"

text \<open>The flags that are set; a failing \<open>fcntl\<close> ends the process with status -1.\<close>

datatype process_end = Exit int

definition MakeNonBlocking :: "u32 option \<Rightarrow> bool \<Rightarrow> process_end + u32" where
  "MakeNonBlocking getfl setfl_ok =
     (case getfl of
        None \<Rightarrow> Inl (Exit (-1))
      | Some flags \<Rightarrow>
          let flags = flags OR O_NONBLOCK
          in if \<not> setfl_ok then Inl (Exit (-1)) else Inr flags)"

section \<open>The argument vector of a new program\<close>

text \<open>
  An array of 1024 pointers on the stack, uninitialised (\<open>None\<close>); a pointer is null or points to
  a string. The result is what \<open>execv\<close> gets.
\<close>

datatype pointer = Null | Points_to string

definition store_pointer :: "nat \<Rightarrow> pointer \<Rightarrow> pointer option list \<Rightarrow> pointer option list result" where
  "store_pointer i p arr =
     (if i < length arr then Inr (arr[i := Some p])
      else Inl (Undefined_behaviour ''write outside the array''))"

definition execs :: "string \<Rightarrow> string list \<Rightarrow> (string \<times> pointer option list) result" where
  "execs path args =
     (let max_args = 1022 in
      if length args > max_args then Inl (Out_of_range ''too many arguments'')
      else bindR (store_pointer 0 (Points_to path) (replicate (max_args + 2) None)) (\<lambda>arr.
           bindR (loopR (\<lambda>cter arr. store_pointer (cter + 1) (Points_to (args ! cter)) arr)
             [0..<length args] arr) (\<lambda>arr.
           bindR (store_pointer (length args + 1) Null arr) (\<lambda>arr.
           Inr (path, arr)))))"

section \<open>The time in the log\<close>

text \<open>
  The clock in seconds; \<open>strftime\<close> formats a time or fails. The function is \<open>noexcept\<close>, so the
  exception for a buffer that is too small ends the program.
\<close>

definition get_current_time_str :: "int \<Rightarrow> (int \<Rightarrow> string option) \<Rightarrow> string result" where
  "get_current_time_str now strftime =
     (let now_c = now - 24 * 3600
      in case strftime now_c of Some mbstr \<Rightarrow> Inr mbstr | None \<Rightarrow> Inl Terminated)"

section \<open>What the helpers return\<close>

text \<open>
  The two sockets are the ends of one connection exactly if the first caller on the port is the
  program itself: the code does not check who called.
\<close>

lemma mk_tcp_pipe_ends:
  assumes "mk_tcp_pipe port env callers accepted close_ok = Some (Inr p)"
  shows "\<exists>rest. callers = srv_peer p # rest \<and> accepted = Some (srv_side p) \<and>
    (srv_peer p = Some (cli_side p) \<longleftrightarrow> hd callers = Some (cli_side p))"
  using assms
  by (auto simp: mk_tcp_pipe_def quick_accept_def bindR_eq_Inr_iff split: sum.splits list.splits option.splits)

lemma mk_tcp_pipe_connected:
  assumes "fst (quick_listen_posix env ''::1'' port False) = Inr l"
    and "fst (quick_connect_posix env ''::1'' port False) = Inr c"
  shows "mk_tcp_pipe port env (Some c # rest) (Some s) True =
    Some (Inr \<lparr>cli_side = c, srv_side = s, srv_peer = Some c\<rparr>)"
  using assms by (simp add: mk_tcp_pipe_def quick_accept_def close_ex_def)

lemma ntohs_swaps: "ntohs (ntohs w) = w"
  by (rule bit_word_eqI) (auto simp: ntohs_def bit_simps)

lemma execs_argv:
  "execs path args =
     (if length args > 1022 then Inl (Out_of_range ''too many arguments'')
      else Inr (path, map (Some \<circ> Points_to) (path # args) @ Some Null # replicate (1022 - length args) None))"
proof (cases "length args > 1022")
  case False
  let ?g = "\<lambda>i. map (Some \<circ> Points_to) (path # take i args) @ replicate (1023 - i) None"
  have "loopR (\<lambda>cter arr. store_pointer (cter + 1) (Points_to (args ! cter)) arr) [0..<length args] (?g 0) =
      Inr (?g (length args))"
  proof (rule loopR_upt_exact)
    fix i
    assume i: "0 \<le> i" "i < length args"
    then have "1023 - i = Suc (1023 - Suc i)" using False by simp
    then have "?g i = map (Some \<circ> Points_to) (path # take i args) @ None # replicate (1023 - Suc i) None"
      by (simp only: replicate_Suc)
    then show "store_pointer (i + 1) (Points_to (args ! i)) (?g i) = Inr (?g (Suc i))"
      using i False by (simp add: store_pointer_def list_update_append take_Suc_conv_app_nth)
  qed simp
  moreover have "replicate 1024 None = None # replicate 1023 (None :: pointer option)"
    using replicate_Suc [of 1023 "None :: pointer option"] by simp
  then have "store_pointer 0 (Points_to path) (replicate 1024 None) = Inr (?g 0)"
    by (simp add: store_pointer_def)
  moreover have "1023 - length args = Suc (1022 - length args)" using False by simp
  then have "replicate (1023 - length args) None = None # replicate (1022 - length args) (None :: pointer option)"
    by (simp only: replicate_Suc)
  then have "store_pointer (length args + 1) Null (?g (length args)) =
      Inr (map (Some \<circ> Points_to) (path # args) @ Some Null # replicate (1022 - length args) None)"
    using False by (simp add: store_pointer_def list_update_append)
  ultimately show ?thesis using False by (simp add: execs_def Let_def)
qed (simp add: execs_def)

end
