(* ===== verification/Main_Loops.thy ===== *)
theory Main_Loops
  imports Plain_Protocol
begin

text \<open>
  The main loops of the two listeners of \<open>src/src/protocols/plain.hpp\<close>. Each thread waits for ready
  descriptors, at most \<open>EPOLL_MAX_EVENTS\<close> of them, and handles them one after the other, while the
  other thread goes on: a descriptor may be handled long after it was reported. The executions
  of \<open>Plain_Protocol\<close>, where a handler may run at any time, are exactly the runs of these loops.
\<close>

section \<open>The state of the loops\<close>

record listeners =
  ls_inbound :: inbound_fds
  ls_out_ipc :: nat
  ls_cfg :: plain_config
  ls_filter :: "filter"

record loops =
  in_batch :: "nat list"
  out_batch :: "nat list"
  lp_world :: world

text \<open>The listeners after their setup: \<open>ipc\<close> are the two ends of the pipe.\<close>

definition start_listeners ::
  "plain_config \<Rightarrow> plain_config \<Rightarrow> filter \<Rightarrow> net_env \<Rightarrow> nat \<times> nat \<Rightarrow> (listeners \<times> loops) result" where
  "start_listeners in_cfg out_cfg flt env ipc =
     bindR (inbound_setup in_cfg env ipc True) (\<lambda>(fds, regs, nextHop_ipcPipe).
     bindR (outbound_setup nextHop_ipcPipe True) (\<lambda>out_regs.
     Inr (\<lparr>ls_inbound = fds, ls_out_ipc = nextHop_ipcPipe, ls_cfg = out_cfg, ls_filter = flt\<rparr>,
          \<lparr>in_batch = [], out_batch = [], lp_world = initial_world out_regs\<rparr>)))"

text \<open>The events of the executions that a handled descriptor stands for.\<close>

definition inbound_event :: "listeners \<Rightarrow> nat \<Rightarrow> bytes \<Rightarrow> (bytes \<times> bytes) option \<Rightarrow> bool \<Rightarrow> event list" where
  "inbound_event ls fd stack received sendto_ok =
     (if fd = in_ipcPipe (ls_inbound ls) then [Inbound_pipe sendto_ok]
      else case received of Some (datagram, peer) \<Rightarrow> [Client_datagram stack peer datagram] | None \<Rightarrow> [])"

definition outbound_event ::
  "listeners \<Rightarrow> net_env \<Rightarrow> nat \<Rightarrow> bytes option \<Rightarrow> send_answer list \<Rightarrow> bool \<Rightarrow> event list" where
  "outbound_event ls env fd received answers close_ok =
     (if fd = ls_out_ipc ls then [Outbound_pipe env answers]
      else case received of Some datagram \<Rightarrow> [Server_datagram fd datagram close_ok] | None \<Rightarrow> [])"

inductive loops_run :: "listeners \<Rightarrow> loops \<Rightarrow> event list \<Rightarrow> loops \<Rightarrow> bool" for ls l0 where
  start: "loops_run ls l0 [] l0"
| in_wait: "loops_run ls l0 evs l \<Longrightarrow> in_batch l = [] \<Longrightarrow>
     set ready \<subseteq> {in_ipcPipe (ls_inbound ls), in_listenFd (ls_inbound ls)} \<Longrightarrow>
     loops_run ls l0 evs (l\<lparr>in_batch := take EPOLL_MAX_EVENTS ready\<rparr>)"
| in_handle: "loops_run ls l0 evs l \<Longrightarrow> in_batch l = fd # rest \<Longrightarrow>
     length stack = 136 \<Longrightarrow> (\<forall>datagram peer. received = Some (datagram, peer) \<longrightarrow> length peer \<le> 128) \<Longrightarrow>
     inbound_onEvent (ls_inbound ls) (ls_filter ls) fd stack received sendto_ok (lp_world l) = Some (Inr w) \<Longrightarrow>
     loops_run ls l0 (evs @ inbound_event ls fd stack received sendto_ok) (l\<lparr>in_batch := rest, lp_world := w\<rparr>)"
| out_wait: "loops_run ls l0 evs l \<Longrightarrow> out_batch l = [] \<Longrightarrow> set ready \<subseteq> set (out_epoll (lp_world l)) \<Longrightarrow>
     loops_run ls l0 evs (l\<lparr>out_batch := take EPOLL_MAX_EVENTS ready\<rparr>)"
| out_handle: "loops_run ls l0 evs l \<Longrightarrow> out_batch l = fd # rest \<Longrightarrow>
     outbound_onEvent (ls_out_ipc ls) (ls_cfg ls) (ls_filter ls) env fd received answers close_ok (lp_world l) =
       Some (Inr w) \<Longrightarrow>
     loops_run ls l0 (evs @ outbound_event ls env fd received answers close_ok) (l\<lparr>out_batch := rest, lp_world := w\<rparr>)"

section \<open>Runs of the loops are executions\<close>

lemma start_listeners_parts:
  assumes "start_listeners in_cfg out_cfg flt env ipc = Inr (ls, l0)"
  shows "in_ipcPipe (ls_inbound ls) \<noteq> in_listenFd (ls_inbound ls)" "ls_cfg ls = out_cfg" "ls_filter ls = flt"
    "in_batch l0 = []" "out_batch l0 = []" "lp_world l0 = initial_world [ls_out_ipc ls]"
    "outbound_setup (ls_out_ipc ls) True = Inr [ls_out_ipc ls]"
  using assms
  by (auto simp: start_listeners_def inbound_setup_def outbound_setup_def bindR_eq_Inr_iff epoll_add_fd_def
      dynamic_assert_def split: prod.splits if_splits)

lemma handler_keeps_registered:
  assumes "exec_inv ipcPipe rd rp sd sp w" "admissible ipcPipe ev w" "handle cfg flt ev w = Some (Inr w')"
  shows "set (out_epoll w) \<subseteq> set (out_epoll w')"
proof (cases ev)
  case (Server_datagram fd datagram close_ok)
  then have "server2client (connectionMap w) fd \<noteq> None"
    using assms(1,2) by (auto simp: exec_inv_def registered_def)
  then show ?thesis using assms(3) Server_datagram
    by (auto simp: outbound_on_server_def Let_def bindR_eq_Inr_iff dynamic_assert_def del_server_known
        forwardMessageToInbound_def split: if_splits option.splits)
next
  case (Outbound_pipe env answers)
  then show ?thesis using assms(3)
    by (auto simp: outbound_on_ipc_def Let_def epoll_add_fd_def split: option.splits sum.splits if_splits
        dest!: udp_send_effect)
qed (use assms(3) in \<open>auto simp: inbound_on_client_def inbound_on_ipc_def Let_def bindR_eq_Inr_iff
  forwardMessageToOutbound_def split: option.splits\<close>)

lemma inbound_event_handled:
  assumes "inbound_onEvent (ls_inbound ls) (ls_filter ls) fd stack received ok w = Some (Inr w')"
    and "fd \<in> {in_ipcPipe (ls_inbound ls), in_listenFd (ls_inbound ls)}" "length stack = 136"
    and "\<forall>datagram peer. received = Some (datagram, peer) \<longrightarrow> length peer \<le> 128"
  shows "\<exists>ev. inbound_event ls fd stack received ok = [ev] \<and> admissible ipcPipe ev w \<and>
    handle cfg (ls_filter ls) ev w = Some (Inr w')"
proof (cases "fd = in_ipcPipe (ls_inbound ls)")
  case True
  then show ?thesis using assms(1) by (simp add: inbound_onEvent_def inbound_event_def)
next
  case False
  then have "inbound_on_client (ls_filter ls) stack received w = Some (Inr w')"
    using assms(1,2) by (simp add: inbound_onEvent_def)
  moreover from this obtain datagram peer where "received = Some (datagram, peer)"
    by (cases received) (auto simp: inbound_on_client_def dynamic_assert_def)
  ultimately show ?thesis using False assms(3,4) by (simp add: inbound_event_def)
qed

lemma outbound_event_handled:
  assumes "outbound_onEvent (ls_out_ipc ls) (ls_cfg ls) (ls_filter ls) env fd received answers ok w = Some (Inr w')"
    and "fd \<in> set (out_epoll w)"
  shows "\<exists>ev. outbound_event ls env fd received answers ok = [ev] \<and> admissible (ls_out_ipc ls) ev w \<and>
    handle (ls_cfg ls) (ls_filter ls) ev w = Some (Inr w')"
proof (cases "fd = ls_out_ipc ls")
  case True
  then show ?thesis using assms(1) by (simp add: outbound_onEvent_def outbound_event_def)
next
  case False
  then have "outbound_on_server (ls_filter ls) fd received ok w = Some (Inr w')"
    using assms(1) by (simp add: outbound_onEvent_def)
  moreover from this obtain datagram where "received = Some datagram"
    by (cases received) (auto simp: outbound_on_server_def dynamic_assert_def)
  ultimately show ?thesis using False assms(2) by (simp add: outbound_event_def)
qed

definition batches_ok :: "listeners \<Rightarrow> loops \<Rightarrow> bool" where
  "batches_ok ls l \<longleftrightarrow>
     length (in_batch l) \<le> EPOLL_MAX_EVENTS \<and> length (out_batch l) \<le> EPOLL_MAX_EVENTS \<and>
     set (in_batch l) \<subseteq> {in_ipcPipe (ls_inbound ls), in_listenFd (ls_inbound ls)} \<and>
     set (out_batch l) \<subseteq> set (out_epoll (lp_world l))"

lemma loops_are_executions:
  assumes start: "start_listeners in_cfg out_cfg flt env ipc = Inr (ls, l0)"
  shows "loops_run ls l0 evs l \<Longrightarrow>
    execution (ls_out_ipc ls) (ls_cfg ls) (ls_filter ls) evs (lp_world l) \<and> batches_ok ls l"
proof (induction rule: loops_run.induct)
  case start
  then show ?case using execution.start start_listeners_parts [OF assms]
    by (simp add: batches_ok_def)
next
  case (in_wait evs l ready)
  then show ?case by (auto simp: batches_ok_def dest: in_set_takeD)
next
  case (in_handle evs l fd rest stack received ok w)
  have fd: "fd \<in> {in_ipcPipe (ls_inbound ls), in_listenFd (ls_inbound ls)}"
    using in_handle by (simp add: batches_ok_def)
  obtain ev where ev: "inbound_event ls fd stack received ok = [ev]" "admissible (ls_out_ipc ls) ev (lp_world l)"
      "handle (ls_cfg ls) (ls_filter ls) ev (lp_world l) = Some (Inr w)"
    using inbound_event_handled [OF in_handle(5) fd in_handle(3,4)] by blast
  obtain rd rp sd sp where "exec_inv (ls_out_ipc ls) rd rp sd sp (lp_world l)"
    using execution_inv in_handle.IH by blast
  from handler_keeps_registered [OF this ev(2,3)] show ?case
    using execution.step [OF _ ev(2,3)] in_handle.IH in_handle(2) ev(1) by (auto simp: batches_ok_def)
next
  case (out_wait evs l ready)
  then show ?case by (auto simp: batches_ok_def dest: in_set_takeD)
next
  case (out_handle evs l fd rest env received answers ok w)
  have fd: "fd \<in> set (out_epoll (lp_world l))"
    using out_handle by (simp add: batches_ok_def)
  obtain ev where ev: "outbound_event ls env fd received answers ok = [ev]" "admissible (ls_out_ipc ls) ev (lp_world l)"
      "handle (ls_cfg ls) (ls_filter ls) ev (lp_world l) = Some (Inr w)"
    using outbound_event_handled [OF out_handle(3) fd] by blast
  obtain rd rp sd sp where "exec_inv (ls_out_ipc ls) rd rp sd sp (lp_world l)"
    using execution_inv out_handle.IH by blast
  from handler_keeps_registered [OF this ev(2,3)] show ?case
    using execution.step [OF _ ev(2,3)] out_handle.IH out_handle(2) ev(1) by (auto simp: batches_ok_def)
qed

section \<open>Executions are runs of the loops\<close>

lemma one_ready [simp]: "take EPOLL_MAX_EVENTS [fd] = [fd]"
  by (simp add: EPOLL_MAX_EVENTS_def)

lemma inbound_turn:
  assumes run: "loops_run ls l0 evs l" "in_batch l = []"
    and fd: "fd \<in> {in_ipcPipe (ls_inbound ls), in_listenFd (ls_inbound ls)}" "length stack = 136"
      "\<forall>datagram peer. received = Some (datagram, peer) \<longrightarrow> length peer \<le> 128"
    and handled: "inbound_onEvent (ls_inbound ls) (ls_filter ls) fd stack received ok (lp_world l) = Some (Inr w)"
    and ev: "inbound_event ls fd stack received ok = [ev]"
  shows "loops_run ls l0 (evs @ [ev]) (l\<lparr>in_batch := [], lp_world := w\<rparr>)"
proof -
  have "loops_run ls l0 evs (l\<lparr>in_batch := [fd]\<rparr>)"
    using loops_run.in_wait [OF run, of "[fd]"] fd(1) by simp
  from loops_run.in_handle [OF this _ fd(2,3), of fd "[]" ok w] handled ev show ?thesis by simp
qed

lemma outbound_turn:
  assumes run: "loops_run ls l0 evs l" "out_batch l = []" and fd: "fd \<in> set (out_epoll (lp_world l))"
    and handled: "outbound_onEvent (ls_out_ipc ls) (ls_cfg ls) (ls_filter ls) env fd received answers ok (lp_world l) =
      Some (Inr w)"
    and ev: "outbound_event ls env fd received answers ok = [ev]"
  shows "loops_run ls l0 (evs @ [ev]) (l\<lparr>out_batch := [], lp_world := w\<rparr>)"
proof -
  have "loops_run ls l0 evs (l\<lparr>out_batch := [fd]\<rparr>)"
    using loops_run.out_wait [OF run, of "[fd]"] fd by simp
  from loops_run.out_handle [OF this, of fd "[]" env received answers ok w] handled ev show ?thesis by simp
qed

lemma executions_are_loops:
  assumes start: "start_listeners in_cfg out_cfg flt env ipc = Inr (ls, l0)"
  shows "execution (ls_out_ipc ls) (ls_cfg ls) (ls_filter ls) evs w \<Longrightarrow>
    \<exists>l. loops_run ls l0 evs l \<and> lp_world l = w \<and> in_batch l = [] \<and> out_batch l = []"
proof (induction rule: execution.induct)
  case (start fds)
  then show ?case using loops_run.start start_listeners_parts [OF assms] by (metis Inr_inject)
next
  case (step evs w ev w')
  then obtain l where l: "loops_run ls l0 evs l" "lp_world l = w" "in_batch l = []" "out_batch l = []" by blast
  note ipc = start_listeners_parts(1) [OF assms]
  obtain rd rp sd sp where inv: "exec_inv (ls_out_ipc ls) rd rp sd sp w"
    using execution_inv [OF step.hyps(1)] by blast
  then have out_ipc: "ls_out_ipc ls \<in> set (out_epoll w)" by (simp add: exec_inv_def registered_def)
  show ?case
  proof (cases ev)
    case (Client_datagram stack peer datagram)
    then have "loops_run ls l0 (evs @ [ev]) (l\<lparr>in_batch := [], lp_world := w'\<rparr>)"
      using step.hyps ipc l(2)
      by (intro inbound_turn [OF l(1,3), of "in_listenFd (ls_inbound ls)" stack "Some (datagram, peer)" True])
        (simp_all add: inbound_onEvent_def inbound_event_def)
    then show ?thesis using l(4) by (intro exI [of _ "l\<lparr>in_batch := [], lp_world := w'\<rparr>"]) simp
  next
    case (Outbound_pipe env answers)
    then have "loops_run ls l0 (evs @ [ev]) (l\<lparr>out_batch := [], lp_world := w'\<rparr>)"
      using step.hyps out_ipc l(2)
      by (intro outbound_turn [OF l(1,4), of "ls_out_ipc ls" env None answers True])
        (simp_all add: outbound_onEvent_def outbound_event_def)
    then show ?thesis using l(3) by (intro exI [of _ "l\<lparr>out_batch := [], lp_world := w'\<rparr>"]) simp
  next
    case (Server_datagram fd datagram close_ok)
    then have "loops_run ls l0 (evs @ [ev]) (l\<lparr>out_batch := [], lp_world := w'\<rparr>)"
      using step.hyps l(2)
      by (intro outbound_turn [OF l(1,4), of fd env "Some datagram" "[]" close_ok])
        (simp_all add: outbound_onEvent_def outbound_event_def)
    then show ?thesis using l(3) by (intro exI [of _ "l\<lparr>out_batch := [], lp_world := w'\<rparr>"]) simp
  next
    case (Inbound_pipe ok)
    then have "loops_run ls l0 (evs @ [ev]) (l\<lparr>in_batch := [], lp_world := w'\<rparr>)"
      using step.hyps l(2)
      by (intro inbound_turn [OF l(1,3), of "in_ipcPipe (ls_inbound ls)" "replicate 136 0" None ok])
        (simp_all add: inbound_onEvent_def inbound_event_def)
    then show ?thesis using l(4) by (intro exI [of _ "l\<lparr>in_batch := [], lp_world := w'\<rparr>"]) simp
  qed
qed

section \<open>One turn without the other thread\<close>

text \<open>\<open>loop_body\<close> is the turn of a thread that is not interrupted: the handlers of the batch in a row.\<close>

lemma handle_batch_append:
  "handle_batch f (es @ es') w =
     (case handle_batch f es w of
        None \<Rightarrow> None | Some (Inl e) \<Rightarrow> Some (Inl e) | Some (Inr v) \<Rightarrow> handle_batch f es' v)"
  by (induction es arbitrary: w) (auto split: option.splits sum.splits)

lemma inbound_body_is_run:
  assumes "loops_run ls l0 evs l" "in_batch l = map fst es"
    and "\<forall>(fd, stack, received, ok) \<in> set es. length stack = 136 \<and>
      (\<forall>datagram peer. received = Some (datagram, peer) \<longrightarrow> length peer \<le> 128)"
    and "handle_batch (\<lambda>(fd, stack, received, ok). inbound_onEvent (ls_inbound ls) (ls_filter ls) fd stack received ok)
      es (lp_world l) = Some (Inr w)"
  shows "\<exists>evs'. loops_run ls l0 (evs @ evs') (l\<lparr>in_batch := [], lp_world := w\<rparr>)"
  using assms
proof (induction es arbitrary: evs l)
  case Nil
  then show ?case by (cases l) (auto intro: exI [of _ "[]"])
next
  case (Cons e es)
  obtain fd stack received ok where e: "e = (fd, stack, received, ok)" by (cases e)
  obtain v where v: "inbound_onEvent (ls_inbound ls) (ls_filter ls) fd stack received ok (lp_world l) = Some (Inr v)"
      "handle_batch (\<lambda>(fd, stack, received, ok). inbound_onEvent (ls_inbound ls) (ls_filter ls) fd stack received ok)
        es v = Some (Inr w)"
    using Cons.prems(4) e by (auto split: option.splits sum.splits)
  have "loops_run ls l0 (evs @ inbound_event ls fd stack received ok)
      (l\<lparr>in_batch := map fst es, lp_world := v\<rparr>)"
    using Cons.prems(2,3) e by (intro loops_run.in_handle [OF Cons.prems(1) _ _ _ v(1)]) auto
  from Cons.IH [OF this] Cons.prems(3) v(2) show ?case by (auto simp: e)
qed

section \<open>Properties\<close>

text \<open>C4: The main loops of the two threads, with their batches of at most 32 descriptors and every
  interleaving of the handlers, produce exactly the executions in which a handler may run at any
  time: whatever the order in which \<open>epoll_wait\<close> reports the descriptors and however late they are
  handled, no other behaviour appears and none is lost.\<close>

theorem loops_equal_executions:
  assumes "start_listeners in_cfg out_cfg flt env ipc = Inr (ls, l0)"
  shows "(\<exists>l. loops_run ls l0 evs l \<and> lp_world l = w) \<longleftrightarrow>
    execution (ls_out_ipc ls) out_cfg flt evs w"
  using loops_are_executions [OF assms, of evs] executions_are_loops [OF assms, of evs w]
    start_listeners_parts(2,3) [OF assms] by auto

definition sample_listeners :: "listeners" where
  "sample_listeners = \<lparr>ls_inbound = \<lparr>in_ipcPipe = 4, in_listenFd = 7\<rparr>, ls_out_ipc = 5,
     ls_cfg = \<lparr>plain_addr = ''::1'', plain_port = 80\<rparr>, ls_filter = ChainedFilters []\<rparr>"

lemma loops_equal_executions_witness:
  "\<exists>l. loops_run sample_listeners \<lparr>in_batch = [], out_batch = [], lp_world = initial_world [5]\<rparr> sample_events l \<and>
     lp_world l = sample_world"
proof -
  let ?cfg = "\<lparr>plain_addr = ''::1'', plain_port = 80\<rparr>"
  have start: "start_listeners ?cfg ?cfg (ChainedFilters []) sample_env (4, 5) =
      Inr (sample_listeners, \<lparr>in_batch = [], out_batch = [], lp_world = initial_world [5]\<rparr>)"
    by (simp add: start_listeners_def inbound_setup_def outbound_setup_def epoll_add_fd_def dynamic_assert_def
        quick_listen_posix_def sample_env_def mk_hints_def sample_listeners_def)
  have "execution (ls_out_ipc sample_listeners) ?cfg (ChainedFilters []) sample_events sample_world"
    using sample_execution by (simp add: sample_listeners_def)
  then show ?thesis using loops_equal_executions [OF start] by blast
qed

end
