(* ===== verification/Tunnel.thy ===== *)
theory Tunnel
  imports Plain_Pipe
begin

text \<open>
  Two forwarders in a row, as in the picture of \<open>src/src/protocols/base.hpp\<close>: the users talk to the
  first one, the client, which talks to the second one, the server, which talks to the
  application. Both run the executions of \<open>Plain_Protocol\<close> with the filters of the client and
  their mirror image (\<open>src/src/filters/base.hpp\<close>).

  The network between them is UDP: it may lose, delay, reorder and duplicate datagrams, so what
  arrives is any datagram that was sent at any time. Others may send to the server as well, from
  addresses that are not those of the client's sockets. A connected socket of the client gets
  datagrams of the server only.
\<close>

section \<open>The two forwarders and the network\<close>

record tunnel_setup =
  client_cfg :: plain_config
  server_cfg :: plain_config
  client_ipc :: nat
  server_ipc :: nat
  client_filters :: "filter list"
  socket_addr :: "nat \<Rightarrow> bytes"

definition client_filter :: "tunnel_setup \<Rightarrow> filter" where
  "client_filter t = ChainedFilters (client_filters t)"

definition server_filter :: "tunnel_setup \<Rightarrow> filter" where
  "server_filter t = ChainedFilters (mirror (client_filters t))"

text \<open>
  What may arrive at the server, given what the client has sent, and at the client, given what
  the server has sent: a datagram from the address of one of the client's sockets is one that was
  sent on it; a datagram on a socket of the client is one that was sent to its address.
\<close>

fun network_to_server :: "tunnel_setup \<Rightarrow> world \<Rightarrow> event \<Rightarrow> bool" where
  "network_to_server t client (Client_datagram stack peer datagram) \<longleftrightarrow>
     (peer \<in> range (socket_addr t) \<longrightarrow>
       (\<exists>fd. peer = socket_addr t fd \<and> (fd, datagram) \<in> set (sent_to_server client)))"
| "network_to_server t client _ \<longleftrightarrow> True"

fun network_to_client :: "tunnel_setup \<Rightarrow> world \<Rightarrow> event \<Rightarrow> bool" where
  "network_to_client t server (Server_datagram fd datagram close_ok) \<longleftrightarrow>
     (socket_addr t fd, datagram) \<in> set (sent_to_clients server)"
| "network_to_client t server _ \<longleftrightarrow> True"

inductive tunnel_run ::
  "tunnel_setup \<Rightarrow> event list \<Rightarrow> event list \<Rightarrow> world \<Rightarrow> world \<Rightarrow> bool" for t where
  start: "outbound_setup (client_ipc t) True = Inr cfds \<Longrightarrow> outbound_setup (server_ipc t) True = Inr sfds \<Longrightarrow>
     tunnel_run t [] [] (initial_world cfds) (initial_world sfds)"
| at_client: "tunnel_run t cevs sevs client server \<Longrightarrow> admissible (client_ipc t) ev client \<Longrightarrow>
     network_to_client t server ev \<Longrightarrow>
     handle (client_cfg t) (client_filter t) ev client = Some (Inr client') \<Longrightarrow>
     tunnel_run t (cevs @ [ev]) sevs client' server"
| at_server: "tunnel_run t cevs sevs client server \<Longrightarrow> admissible (server_ipc t) ev server \<Longrightarrow>
     network_to_server t client ev \<Longrightarrow>
     handle (server_cfg t) (server_filter t) ev server = Some (Inr server') \<Longrightarrow>
     tunnel_run t cevs (sevs @ [ev]) client server'"

text \<open>The datagrams that pass both buffers and that the filters decode.\<close>

definition fits :: "tunnel_setup \<Rightarrow> bytes \<Rightarrow> bool" where
  "fits t d \<longleftrightarrow> accepts (client_filter t) d \<and> length d + 16 * stages (client_filter t) \<le> DGRAM_BUFFER_SIZE"

definition from_user :: "event list \<Rightarrow> bytes \<Rightarrow> bytes \<Rightarrow> bool" where
  "from_user evs peer d \<longleftrightarrow> (\<exists>stack. Client_datagram stack peer d \<in> set evs)"

definition from_application :: "event list \<Rightarrow> nat \<Rightarrow> bytes \<Rightarrow> bool" where
  "from_application evs fd d \<longleftrightarrow> (\<exists>close_ok. Server_datagram fd d close_ok \<in> set evs)"

section \<open>Where the datagrams of one forwarder come from\<close>

lemma execution_lengths:
  "execution ipcPipe cfg flt evs w \<Longrightarrow> Client_datagram stack peer d \<in> set evs \<Longrightarrow>
     length stack = 136 \<and> length peer \<le> 128"
  by (induction rule: execution.induct) auto

definition client_id :: "bytes \<Rightarrow> bytes \<Rightarrow> bytes" where
  "client_id stack peer = makeClientId (recvfrom_addr peer (fresh_sock_addr stack))"

lemma client_addr_id: "length stack = 136 \<Longrightarrow> length peer \<le> 128 \<Longrightarrow> client_addr (client_id stack peer) = peer"
  using parse_make_client_id [OF recvfrom_is_sock_addr] peer_of_recvfrom
  by (simp add: client_addr_def client_id_def)

lemma request_origin:
  assumes "execution ipcPipe cfg flt evs w" "(fd, x) \<in> set (sent_to_server w)"
  shows "\<exists>peer d c. from_user evs peer d \<and> convertForward flt (take DGRAM_BUFFER_SIZE d) = Inr x \<and>
    server2client (connectionMap w) fd = Some c \<and> client_addr c = peer"
proof -
  obtain rd rp sd sp where inv: "requests flt evs = rd @ rp" "exec_inv ipcPipe rd rp sd sp w"
    using execution_inv [OF assms(1)] by blast
  then obtain c where c: "(c, x) \<in> set rd" "fd = the (client2server (connectionMap w) c)"
    using assms(2) by (auto simp: exec_inv_def on_connections_def)
  then obtain s where "client2server (connectionMap w) c = Some s"
    using inv(2) by (auto simp: exec_inv_def known_clients_def list_all_iff)
  then have s: "server2client (connectionMap w) fd = Some c"
    using inv(2) c(2) by (simp add: exec_inv_def mutual_inverse_def)
  have "(c, x) \<in> set (requests flt evs)" using c(1) inv(1) by simp
  then obtain ev where ev: "ev \<in> set evs" "(c, x) \<in> set (request_of flt ev)" by (auto simp: requests_def)
  have "\<exists>stack peer d. ev = Client_datagram stack peer d \<and> c = client_id stack peer \<and>
      convertForward flt (take DGRAM_BUFFER_SIZE d) = Inr x"
    using ev(2) by (cases ev) (auto simp: client_id_def split: sum.splits)
  then obtain stack peer d where d: "ev = Client_datagram stack peer d" "c = client_id stack peer"
      "convertForward flt (take DGRAM_BUFFER_SIZE d) = Inr x"
    by blast
  have "client_addr c = peer"
    using execution_lengths [OF assms(1)] ev(1) client_addr_id d(1,2) by blast
  then show ?thesis using d ev(1) s by (auto simp: from_user_def)
qed

lemma reply_origin:
  assumes "execution ipcPipe cfg flt evs w" "(peer, y) \<in> set (sent_to_clients w)"
  shows "\<exists>fd d c. from_application evs fd d \<and> convertBackward flt (take DGRAM_BUFFER_SIZE d) = Inr y \<and>
    server2client (connectionMap w) fd = Some c \<and> client_addr c = peer"
proof -
  obtain rd rp sd sp where inv: "replies flt evs = sd @ sp" "exec_inv ipcPipe rd rp sd sp w"
    using execution_inv [OF assms(1)] by blast
  then obtain fd where fd: "(fd, y) \<in> set sd" "peer = client_addr (the (server2client (connectionMap w) fd))"
    using assms(2) by (auto simp: exec_inv_def to_clients_def)
  then obtain c where c: "server2client (connectionMap w) fd = Some c"
    using inv(2) by (auto simp: exec_inv_def known_servers_def list_all_iff)
  have "(fd, y) \<in> set (replies flt evs)" using fd(1) inv(1) by simp
  then obtain ev where ev: "ev \<in> set evs" "(fd, y) \<in> set (reply_of flt ev)" by (auto simp: replies_def)
  have "\<exists>d ok. ev = Server_datagram fd d ok \<and> convertBackward flt (take DGRAM_BUFFER_SIZE d) = Inr y"
    using ev(2) by (cases ev) (auto split: sum.splits)
  then show ?thesis using ev(1) fd(2) c by (auto simp: from_application_def)
qed

lemma handle_sends_more:
  assumes "handle cfg flt ev w = Some (Inr w')"
  shows "set (sent_to_server w) \<subseteq> set (sent_to_server w')" "set (sent_to_clients w) \<subseteq> set (sent_to_clients w')"
  using assms
  by (cases ev; auto simp: inbound_on_client_def inbound_on_ipc_def outbound_on_server_def outbound_on_ipc_def
      Let_def bindR_eq_Inr_iff forwardMessageToOutbound_def forwardMessageToInbound_def
      split: option.splits sum.splits if_splits dest!: udp_send_effect)+

section \<open>The composition\<close>

lemma tunnel_executions:
  "tunnel_run t cevs sevs client server \<Longrightarrow>
     execution (client_ipc t) (client_cfg t) (client_filter t) cevs client \<and>
     execution (server_ipc t) (server_cfg t) (server_filter t) sevs server"
  by (induction rule: tunnel_run.induct) (auto intro: execution.start execution.step)

lemma tunnel_network:
  "tunnel_run t cevs sevs client server \<Longrightarrow>
     (from_user sevs (socket_addr t fd) d \<longrightarrow>
       (\<exists>fd'. socket_addr t fd = socket_addr t fd' \<and> (fd', d) \<in> set (sent_to_server client))) \<and>
     (from_application cevs fd d \<longrightarrow> (socket_addr t fd, d) \<in> set (sent_to_clients server))"
proof (induction rule: tunnel_run.induct)
  case (at_client cevs sevs client server ev client')
  then show ?case using handle_sends_more(1) [OF at_client.hyps(4)]
    by (cases ev) (fastforce simp: from_user_def from_application_def)+
next
  case (at_server cevs sevs client server ev server')
  then show ?case using handle_sends_more(2) [OF at_server.hyps(4)]
    by (cases ev) (auto simp: from_user_def from_application_def)
qed (auto simp: from_user_def from_application_def)


text \<open>Converting and converting back, through the buffers of both forwarders.\<close>

lemma server_filter_converts:
  "convertForward (server_filter t) d = convertBackward (client_filter t) d"
  "convertBackward (server_filter t) d = convertForward (client_filter t) d"
  by (simp_all only: client_filter_def server_filter_def mirror_converts)

lemma fits_round_trip:
  assumes "fits t d"
  shows "\<exists>c. convertForward (client_filter t) (take DGRAM_BUFFER_SIZE d) = Inr c \<and>
      convertBackward (server_filter t) (take DGRAM_BUFFER_SIZE d) = Inr c \<and>
      convertForward (server_filter t) (take DGRAM_BUFFER_SIZE c) = Inr d \<and>
      convertBackward (client_filter t) (take DGRAM_BUFFER_SIZE c) = Inr d"
proof -
  have d: "take DGRAM_BUFFER_SIZE d = d" "length d + 16 * stages (client_filter t) < 2 ^ 64"
    using assms by (auto simp: fits_def DGRAM_BUFFER_SIZE_def)
  obtain c where c: "convertForward (client_filter t) d = Inr c" "convertBackward (client_filter t) c = Inr d"
    using filter_codec.dec_enc assms by (auto simp: fits_def)
  have "length c \<le> DGRAM_BUFFER_SIZE"
    using conversion_length(1) [OF c(1) d(2)] assms by (simp add: fits_def)
  then show ?thesis using c d(1)
    by (simp add: server_filter_converts)
qed

text \<open>A datagram that the server sends to its application, on a connection that belongs to one of
  the client's sockets, is a datagram of the user to whom that socket belongs.\<close>

lemma request_of_user:
  assumes run: "tunnel_run t cevs sevs client server" and inj: "inj_on (socket_addr t) (set (out_epoll client))"
    and users: "\<forall>peer d. from_user cevs peer d \<longrightarrow> fits t d"
    and sent: "(fd2, x) \<in> set (sent_to_server server)"
    and conn: "server2client (connectionMap server) fd2 = Some c2" "client_addr c2 = socket_addr t fd1"
    and fd1: "server2client (connectionMap client) fd1 = Some c1"
  shows "from_user cevs (client_addr c1) x"
proof -
  note ex = tunnel_executions [OF run]
  obtain d where d: "from_user sevs (socket_addr t fd1) d" "convertForward (server_filter t) (take DGRAM_BUFFER_SIZE d) = Inr x"
    using request_origin [OF conjunct2 [OF ex] sent] conn by auto
  then obtain fd where fd: "socket_addr t fd1 = socket_addr t fd" "(fd, d) \<in> set (sent_to_server client)"
    using tunnel_network [OF run] by blast
  from request_origin [OF conjunct1 [OF ex] fd(2)] obtain peer e c where
    e: "from_user cevs peer e" "convertForward (client_filter t) (take DGRAM_BUFFER_SIZE e) = Inr d"
      "server2client (connectionMap client) fd = Some c" "client_addr c = peer"
    by blast
  have "fd1 \<in> set (out_epoll client)" "fd \<in> set (out_epoll client)"
    using execution_inv [OF conjunct1 [OF ex]] fd1 e(3) by (auto simp: exec_inv_def registered_def)
  then have "fd = fd1" using inj fd(1) by (auto dest: inj_onD)
  moreover have "x = e" using fits_round_trip [OF users [rule_format, OF e(1)]] d(2) e(2) by auto
  ultimately show ?thesis using e fd1 by simp
qed

text \<open>A reply that the client delivers to a user is one that the application gave on a connection
  of the server that belongs to a socket of the client that belongs to the user.\<close>

lemma reply_to_user:
  assumes run: "tunnel_run t cevs sevs client server"
    and apps: "\<forall>fd d. from_application sevs fd d \<longrightarrow> fits t d"
    and sent: "(user, y) \<in> set (sent_to_clients client)"
  shows "\<exists>fd1 c1 fd2 c2. server2client (connectionMap client) fd1 = Some c1 \<and> client_addr c1 = user \<and>
    server2client (connectionMap server) fd2 = Some c2 \<and> client_addr c2 = socket_addr t fd1 \<and>
    from_application sevs fd2 y"
proof -
  note ex = tunnel_executions [OF run]
  obtain fd1 d c1 where d: "from_application cevs fd1 d" "server2client (connectionMap client) fd1 = Some c1"
      "convertBackward (client_filter t) (take DGRAM_BUFFER_SIZE d) = Inr y" "client_addr c1 = user"
    using reply_origin [OF conjunct1 [OF ex] sent] by blast
  then have "(socket_addr t fd1, d) \<in> set (sent_to_clients server)" using tunnel_network [OF run] by blast
  from reply_origin [OF conjunct2 [OF ex] this] obtain fd2 e c2 where
    e: "from_application sevs fd2 e" "convertBackward (server_filter t) (take DGRAM_BUFFER_SIZE e) = Inr d"
      "server2client (connectionMap server) fd2 = Some c2" "client_addr c2 = socket_addr t fd1"
    by blast
  then have "y = e" using fits_round_trip [OF apps [rule_format, OF e(1)]] d(3) by auto
  then show ?thesis using d e by blast
qed


section \<open>A round trip is possible\<close>

text \<open>The four steps of one forwarder, on states whose pipe is empty.\<close>

lemma request_steps:
  assumes "convertForward flt (take DGRAM_BUFFER_SIZE d) = Inr x" "x \<noteq> []" "to_outbound w = []"
    and "client2server (connectionMap w) (client_id stack peer) = None" "fd \<notin> set (out_epoll w)"
  shows "\<exists>v. handle cfg flt (Client_datagram stack peer d) w = Some (Inr v) \<and>
    handle cfg flt (Outbound_pipe (willing_env fd) [Sent (length x)]) v = Some (Inr (w\<lparr>out_epoll := out_epoll w @ [fd],
      connectionMap := add (client_id stack peer) fd (connectionMap w),
      sent_to_server := sent_to_server w @ [(fd, x)]\<rparr>))"
proof (intro exI conjI)
  show "handle cfg flt (Client_datagram stack peer d) w =
      Some (Inr (forwardMessageToOutbound x (client_id stack peer) w))"
    using assms(1) by (simp add: inbound_on_client_def client_id_def)
  show "handle cfg flt (Outbound_pipe (willing_env fd) [Sent (length x)])
      (forwardMessageToOutbound x (client_id stack peer) w) = Some (Inr (w\<lparr>out_epoll := out_epoll w @ [fd],
      connectionMap := add (client_id stack peer) fd (connectionMap w),
      sent_to_server := sent_to_server w @ [(fd, x)]\<rparr>))"
    using assms(2-5)
    by (cases x; cases w) (simp_all add: outbound_on_ipc_def forwardMessageToOutbound_def willing_connect epoll_add_fd_def
        udp_send_def quick_send_def sendn_ex_def sendn_def)
qed

lemma reply_steps:
  assumes "convertBackward flt (take DGRAM_BUFFER_SIZE d) = Inr y" "d \<noteq> []" "to_inbound w = []"
    and "server2client (connectionMap w) fd = Some (client_id stack peer)" "length stack = 136" "length peer \<le> 128"
  shows "\<exists>v. handle cfg flt (Server_datagram fd d True) w = Some (Inr v) \<and>
    handle cfg flt (Inbound_pipe True) v = Some (Inr (w\<lparr>sent_to_clients := sent_to_clients w @ [(peer, y)]\<rparr>))"
proof (intro exI conjI)
  show "handle cfg flt (Server_datagram fd d True) w =
      Some (Inr (forwardMessageToInbound y (client_id stack peer) w))"
    using assms by (simp add: outbound_on_server_def dynamic_assert_def DGRAM_BUFFER_SIZE_def)
  have "parseClientId (client_id stack peer) = Inr (recvfrom_addr peer (fresh_sock_addr stack))"
    using parse_make_client_id [OF recvfrom_is_sock_addr [OF assms(5)]] by (simp add: client_id_def)
  then show "handle cfg flt (Inbound_pipe True) (forwardMessageToInbound y (client_id stack peer) w) =
      Some (Inr (w\<lparr>sent_to_clients := sent_to_clients w @ [(peer, y)]\<rparr>))"
    using assms(3) peer_of_recvfrom [OF assms(5,6)]
    by (cases w) (simp add: inbound_on_ipc_def forwardMessageToInbound_def dynamic_assert_def)
qed

lemma tunnel_client_steps:
  assumes "tunnel_run t cevs sevs client server"
    and "admissible (client_ipc t) ev1 client" "network_to_client t server ev1"
    and "\<exists>v. handle (client_cfg t) (client_filter t) ev1 client = Some (Inr v) \<and>
      handle (client_cfg t) (client_filter t) ev2 v = Some (Inr client')"
    and "\<And>v. admissible (client_ipc t) ev2 v" "\<And>v. network_to_client t v ev2"
  shows "tunnel_run t (cevs @ [ev1, ev2]) sevs client' server"
proof -
  obtain v where v: "handle (client_cfg t) (client_filter t) ev1 client = Some (Inr v)"
      "handle (client_cfg t) (client_filter t) ev2 v = Some (Inr client')"
    using assms(4) by blast
  from tunnel_run.at_client [OF tunnel_run.at_client [OF assms(1-3) v(1)] assms(5,6) v(2)] show ?thesis by simp
qed

lemma tunnel_server_steps:
  assumes "tunnel_run t cevs sevs client server"
    and "admissible (server_ipc t) ev1 server" "network_to_server t client ev1"
    and "\<exists>v. handle (server_cfg t) (server_filter t) ev1 server = Some (Inr v) \<and>
      handle (server_cfg t) (server_filter t) ev2 v = Some (Inr server')"
    and "\<And>v. admissible (server_ipc t) ev2 v" "\<And>v. network_to_server t v ev2"
  shows "tunnel_run t cevs (sevs @ [ev1, ev2]) client server'"
proof -
  obtain v where v: "handle (server_cfg t) (server_filter t) ev1 server = Some (Inr v)"
      "handle (server_cfg t) (server_filter t) ev2 v = Some (Inr server')"
    using assms(4) by blast
  from tunnel_run.at_server [OF tunnel_run.at_server [OF assms(1-3) v(1)] assms(5,6) v(2)] show ?thesis by simp
qed

lemma tunnel_round_trip:
  assumes addr: "\<And>fd. length (socket_addr t fd) \<le> 128"
    and user: "length user \<le> 128"
    and d: "fits t d" "d \<noteq> []" "convertForward (client_filter t) d = Inr x" "x \<noteq> []"
    and r: "fits t r" "r \<noteq> []" "convertForward (client_filter t) r = Inr y" "y \<noteq> []"
  shows "\<exists>cevs sevs client server fd2. tunnel_run t cevs sevs client server \<and>
    (fd2, d) \<in> set (sent_to_server server) \<and> (user, r) \<in> set (sent_to_clients client) \<and>
    from_user cevs user d \<and> (\<forall>peer e. from_user cevs peer e \<longrightarrow> peer = user \<and> e = d) \<and>
    (\<forall>fd e. from_application sevs fd e \<longrightarrow> fd = fd2 \<and> e = r) \<and>
    set (out_epoll client) = {client_ipc t, Suc (client_ipc t)}"
proof -
  let ?st = "replicate 136 (0 :: byte)" and ?f1 = "Suc (client_ipc t)" and ?f2 = "Suc (server_ipc t)"
  let ?a = "socket_addr t ?f1" and ?m1 = "add (client_id ?st user) ?f1 empty_map"
  let ?m2 = "add (client_id ?st ?a) ?f2 empty_map"
  have cut: "take DGRAM_BUFFER_SIZE d = d" "take DGRAM_BUFFER_SIZE r = r"
    using d(1) r(1) by (auto simp: fits_def)
  note dd = fits_round_trip [OF d(1)] and rr = fits_round_trip [OF r(1)]
  let ?c1 = "(initial_world [client_ipc t])\<lparr>out_epoll := [client_ipc t, ?f1], connectionMap := ?m1,
    sent_to_server := [(?f1, x)]\<rparr>"
  let ?s1 = "(initial_world [server_ipc t])\<lparr>out_epoll := [server_ipc t, ?f2], connectionMap := ?m2,
    sent_to_server := [(?f2, d)]\<rparr>"
  let ?s2 = "?s1\<lparr>sent_to_clients := [(?a, y)]\<rparr>" and ?c2 = "?c1\<lparr>sent_to_clients := [(user, r)]\<rparr>"
  have run0: "tunnel_run t [] [] (initial_world [client_ipc t]) (initial_world [server_ipc t])"
    by (rule tunnel_run.start) (simp_all add: outbound_setup_def dynamic_assert_def epoll_add_fd_def)
  have run1: "tunnel_run t ([] @ [Client_datagram ?st user d, Outbound_pipe (willing_env ?f1) [Sent (length x)]]) []
      ?c1 (initial_world [server_ipc t])"
    using request_steps [of "client_filter t" d x "initial_world [client_ipc t]" ?st user ?f1 "client_cfg t"] d cut user
    by (intro tunnel_client_steps [OF run0]) (simp_all add: initial_world_def empty_map_def)
  have run2: "tunnel_run t ([] @ [Client_datagram ?st user d, Outbound_pipe (willing_env ?f1) [Sent (length x)]])
      ([] @ [Client_datagram ?st ?a x, Outbound_pipe (willing_env ?f2) [Sent (length d)]]) ?c1 ?s1"
    using request_steps [of "server_filter t" x d "initial_world [server_ipc t]" ?st ?a ?f2 "server_cfg t"] d cut dd addr
    by (intro tunnel_server_steps [OF run1]) (auto simp: initial_world_def empty_map_def)
  have run3: "tunnel_run t ([] @ [Client_datagram ?st user d, Outbound_pipe (willing_env ?f1) [Sent (length x)]])
      (([] @ [Client_datagram ?st ?a x, Outbound_pipe (willing_env ?f2) [Sent (length d)]]) @
        [Server_datagram ?f2 r True, Inbound_pipe True]) ?c1 ?s2"
    using reply_steps [of "server_filter t" r y ?s1 ?f2 ?st ?a "server_cfg t"] r cut rr addr
    by (intro tunnel_server_steps [OF run2]) (simp_all add: initial_world_def add_def)
  have run4: "tunnel_run t (([] @ [Client_datagram ?st user d, Outbound_pipe (willing_env ?f1) [Sent (length x)]]) @
        [Server_datagram ?f1 y True, Inbound_pipe True])
      (([] @ [Client_datagram ?st ?a x, Outbound_pipe (willing_env ?f2) [Sent (length d)]]) @
        [Server_datagram ?f2 r True, Inbound_pipe True]) ?c2 ?s2"
    using reply_steps [of "client_filter t" y r ?c1 ?f1 ?st user "client_cfg t"] r cut rr user
    by (intro tunnel_client_steps [OF run3]) (simp_all add: initial_world_def add_def)
  show ?thesis
    using run4 by (intro exI conjI, assumption) (auto simp: from_user_def from_application_def)
qed


text \<open>An example for the witnesses: AES with a fixed key, and addresses of one byte.\<close>

definition sample_tunnel :: tunnel_setup where
  "sample_tunnel = \<lparr>client_cfg = \<lparr>plain_addr = ''::1'', plain_port = 80\<rparr>,
     server_cfg = \<lparr>plain_addr = ''::1'', plain_port = 81\<rparr>, client_ipc = 5, server_ipc = 6,
     client_filters = [AESFilter (replicate 16 1)], socket_addr = (\<lambda>fd. [of_nat fd])\<rparr>"

lemma sample_fits: "length d < 1000 \<Longrightarrow> fits sample_tunnel d"
  using aes_codec.enc_total [of "replicate 16 1" d]
  by (auto simp: fits_def sample_tunnel_def client_filter_def DGRAM_BUFFER_SIZE_def split: sum.splits)

lemma sample_parts:
  "length (socket_addr sample_tunnel fd) \<le> 128" "client_ipc sample_tunnel = 5"
  by (simp_all add: sample_tunnel_def)

lemma sample_encodes:
  assumes "length d < 1000"
  shows "\<exists>c. convertForward (client_filter sample_tunnel) d = Inr c \<and> c \<noteq> []"
proof -
  obtain c where c: "convertForward (client_filter sample_tunnel) d = Inr c"
    using sample_fits [OF assms] filter_codec.dec_enc by (auto simp: fits_def)
  then have "length c = 16 * (length d div 16 + 1)"
    using assms aes_filter_round_trip [of "replicate 16 1" d] by (auto simp: client_filter_def sample_tunnel_def)
  then show ?thesis using c by auto
qed

lemma sample_round_trip:
  "\<exists>cevs sevs client server fd2. tunnel_run sample_tunnel cevs sevs client server \<and>
    (fd2, [1, 2, 3]) \<in> set (sent_to_server server) \<and> ([2, 0, 80], [4, 5]) \<in> set (sent_to_clients client) \<and>
    from_user cevs [2, 0, 80] [1, 2, 3] \<and>
    (\<forall>peer e. from_user cevs peer e \<longrightarrow> peer = [2, 0, 80] \<and> e = [1, 2, 3]) \<and>
    (\<forall>fd e. from_application sevs fd e \<longrightarrow> fd = fd2 \<and> e = [4, 5]) \<and> set (out_epoll client) = {5, 6}"
proof -
  obtain x y where "convertForward (client_filter sample_tunnel) [1, 2, 3] = Inr x" "x \<noteq> []"
      "convertForward (client_filter sample_tunnel) [4, 5] = Inr y" "y \<noteq> []"
    using sample_encodes [of "[1, 2, 3]"] sample_encodes [of "[4, 5]"] by auto
  then show ?thesis
    using tunnel_round_trip [of sample_tunnel "[2, 0, 80]" "[1, 2, 3]" x "[4, 5]" y]
      sample_fits [of "[1, 2, 3]"] sample_fits [of "[4, 5]"]
    by (simp add: sample_parts)
qed

section \<open>Properties\<close>

text \<open>C2: The tunnel keeps its users apart, as long as every datagram of the users and of the application
  is one that the filters accept and that passes the buffers of both forwarders (\<open>fits\<close>), and the
  sockets of the client have different addresses. A reply that the client forwarder delivers to a user
  is then, byte for byte, one that the application gave to the server forwarder, and on the connection
  it came from the server forwarder has sent nothing but datagrams of this user, unchanged. This holds
  for every interleaving of the four threads, for a network that loses, repeats and reorders
  datagrams, and while others send to the server forwarder. Longer datagrams are cut by the buffers.\<close>

theorem tunnel_isolates_users:
  assumes "tunnel_run t cevs sevs client server" "inj_on (socket_addr t) (set (out_epoll client))"
    and "\<forall>peer d. from_user cevs peer d \<longrightarrow> fits t d"
    and "\<forall>fd d. from_application sevs fd d \<longrightarrow> fits t d"
    and "(user, y) \<in> set (sent_to_clients client)"
  shows "\<exists>fd. from_application sevs fd y \<and>
    (\<forall>x. (fd, x) \<in> set (sent_to_server server) \<longrightarrow> from_user cevs user x)"
  using reply_to_user [OF assms(1,4,5)] request_of_user [OF assms(1-3)] by blast

lemma tunnel_isolates_users_witness:
  "\<exists>cevs sevs client server fd. tunnel_run sample_tunnel cevs sevs client server \<and>
     from_application sevs fd [4, 5] \<and> (fd, [1, 2, 3]) \<in> set (sent_to_server server) \<and>
     from_user cevs [2, 0, 80] [1, 2, 3]"
proof -
  obtain cevs sevs client server fd2 where run: "tunnel_run sample_tunnel cevs sevs client server"
      "(fd2, [1, 2, 3]) \<in> set (sent_to_server server)" "([2, 0, 80], [4, 5]) \<in> set (sent_to_clients client)"
      "\<forall>peer e. from_user cevs peer e \<longrightarrow> peer = [2, 0, 80] \<and> e = [1, 2, 3]"
      "\<forall>fd e. from_application sevs fd e \<longrightarrow> fd = fd2 \<and> e = [4, 5]" "set (out_epoll client) = {5, 6}"
    using sample_round_trip by blast
  have "inj_on (socket_addr sample_tunnel) (set (out_epoll client))"
    unfolding run(6) by (simp add: sample_tunnel_def)
  moreover have "\<forall>peer d. from_user cevs peer d \<longrightarrow> fits sample_tunnel d"
      "\<forall>fd d. from_application sevs fd d \<longrightarrow> fits sample_tunnel d"
    using run(4,5) sample_fits [of "[1, 2, 3]"] sample_fits [of "[4, 5]"] by auto
  ultimately obtain fd where
    "from_application sevs fd [4, 5]" "\<forall>x. (fd, x) \<in> set (sent_to_server server) \<longrightarrow> from_user cevs [2, 0, 80] x"
    using tunnel_isolates_users [OF run(1) _ _ _ run(3)] by blast
  then show ?thesis using run by blast
qed

text \<open>C3: The tunnel can answer: for every user, every datagram and every reply that fit, are not
  empty and are not encoded as empty datagrams there is a run in which the datagram reaches the
  application and the reply comes back to the user.\<close>

theorem users_get_answers:
  assumes "\<And>fd. length (socket_addr t fd) \<le> 128" "length user \<le> 128"
    and "fits t d" "d \<noteq> []" "convertForward (client_filter t) d = Inr x" "x \<noteq> []"
    and "fits t r" "r \<noteq> []" "convertForward (client_filter t) r = Inr y" "y \<noteq> []"
  shows "\<exists>cevs sevs client server fd. tunnel_run t cevs sevs client server \<and>
    from_user cevs user d \<and> (fd, d) \<in> set (sent_to_server server) \<and>
    from_application sevs fd r \<and> (user, r) \<in> set (sent_to_clients client)"
proof -
  obtain cevs sevs client server fd where run: "tunnel_run t cevs sevs client server"
      "(fd, d) \<in> set (sent_to_server server)" "(user, r) \<in> set (sent_to_clients client)"
      "\<forall>fd' e. from_application sevs fd' e \<longrightarrow> fd' = fd \<and> e = r"
      "from_user cevs user d"
    using tunnel_round_trip [OF assms] by blast
  have "\<exists>fd' e. from_application sevs fd' e"
    using run(3) reply_origin [OF conjunct1 [OF tunnel_executions [OF run(1)]]] tunnel_network [OF run(1)]
      reply_origin [OF conjunct2 [OF tunnel_executions [OF run(1)]]] by blast
  then show ?thesis using run by blast
qed

lemma users_get_answers_witness:
  "\<exists>cevs sevs client server fd. tunnel_run sample_tunnel cevs sevs client server \<and>
     from_user cevs [2, 0, 81] [1] \<and> (fd, [1]) \<in> set (sent_to_server server) \<and>
     from_application sevs fd [9] \<and> ([2, 0, 81], [9]) \<in> set (sent_to_clients client)"
proof -
  obtain x y where "convertForward (client_filter sample_tunnel) [1] = Inr x" "x \<noteq> []"
      "convertForward (client_filter sample_tunnel) [9] = Inr y" "y \<noteq> []"
    using sample_encodes [of "[1]"] sample_encodes [of "[9]"] by auto
  then show ?thesis
    using users_get_answers [of sample_tunnel "[2, 0, 81]" "[1]" x "[9]" y]
      sample_fits [of "[1]"] sample_fits [of "[9]"]
    by (simp add: sample_parts)
qed

end
