(* ===== verification/Spec2Isabelle.thy ===== *)
theory Spec2Isabelle
  imports Prelude Rstring Scope_Guard Opt_Parser Logger Sock_Io Fd_Io Aes_Core Aes_Modes
    Aes_Modes_Correct Aes_Standard Utils Filters Conn_Map Plain_Protocol Plain_Pipe Forwarder Sha256_Correct Object_Pool
    Wepoll_Queue Wepoll_Tree Wepoll_Win Wepoll_Api Printing Sys_Helpers
    Build_Config Main_Loops Tunnel
begin

text \<open>
  Verification of the UDP forwarder. The program relays UDP datagrams between clients and a
  next hop and converts them on the way by a chain of filters, for instance AES encryption, so
  that two forwarders with mirrored filters form a tunnel. An inbound thread owns the socket
  the clients talk to, an outbound thread owns one connected socket per client towards the next
  hop, and the two exchange framed messages over a local TCP connection, the pipe.

  The theories, each opening with a description of its own, follow the source:

  \<^item> Prelude: bytes, machine words, outcomes (\<open>error\<close> and \<open>result\<close>), the loop combinator with
    its invariant rule, checked buffer access, little-endian images of words.
  \<^item> Rstring: the string class of \<open>src/src/lib/rlib/string.hpp\<close> (split, join, strip, replace,
    prefix tests, numeric conversions, the placeholder formatter).
  \<^item> Scope_Guard: \<open>src/src/lib/rlib/scope_guard.hpp\<close>, with \<open>defer_in\<close> for \<open>rlib_defer\<close>.
  \<^item> Opt_Parser: \<open>src/src/lib/rlib/opt.hpp\<close>, state \<open>opt_parser\<close> (the arguments not yet read).
  \<^item> Logger: \<open>src/src/lib/rlib/log.hpp\<close>, state \<open>logger\<close>, levels as a linear order.
  \<^item> Sock_Io: \<open>src/src/lib/rlib/sys/sio.hpp\<close>: exact-count reading and writing, frames, opening
    sockets. The operating system is an argument: arrivals on a socket, answers to \<open>send\<close>,
    outcomes per address.
  \<^item> Fd_Io: the rest of that file: \<open>fdIO\<close>, the Windows variants and reading everything.
  \<^item> Aes_Core, Aes_Modes, Aes_Modes_Correct: \<open>src/src/lib/plusaes.hpp\<close>: the block cipher and
    key schedule on the column words of the code, the buffer-based modes, and their proofs.
    Aes_Field, Aes_Standard: the field with 256 elements and AES as published (FIPS 197) on byte
    lists, stated without the tables of the code, and that the code computes it.
  \<^item> Utils: \<open>src/src/utils.hpp\<close> and \<open>src/src/common.hpp\<close>: addresses, client identifiers, keys.
  \<^item> Filters: \<open>src/src/filters/\<close> and \<open>CreateFilterFromConfig\<close>; the class hierarchy is the
    datatype \<open>filter\<close>, its virtual calls are \<open>convertForward\<close> and \<open>convertBackward\<close>.
  \<^item> Conn_Map: \<open>InjectiveConnectionMapping\<close> of \<open>src/src/protocols/plain.hpp\<close>.
  \<^item> Plain_Protocol: the two listeners of \<open>src/src/protocols/plain.hpp\<close>. The state \<open>world\<close> has
    the frames in the pipe, the registered sockets, the mapping and what was sent; one function
    per event handler; \<open>execution\<close> is the set of interleavings of the two threads.
  \<^item> Plain_Pipe: the same threads over a pipe of bounded size, interrupted in the middle of a
    message: \<open>task\<close> is where a thread is, \<open>pipe_step\<close> and \<open>datagram_step\<close> what may happen.
  \<^item> Main_Loops: the two main loops with their batches of ready descriptors, whose runs are exactly
    the executions.
  \<^item> Tunnel: two forwarders with mirrored filters in a row, \<open>tunnel_run\<close> their executions joined by
    a network that loses, repeats and reorders datagrams.
  \<^item> Sha256, Sha256_Correct: \<open>src/src/lib/picosha2.h\<close>, its 64-bit words and its streaming
    state, and the agreement with SHA-256 over 32-bit words; Sha256_Constants: its published constants,
    the fractional parts of the roots of the first primes, against the tables of the code.
  \<^item> Traceable_List, Object_Pool: \<open>src/src/lib/rlib/impl/traceable_list.hpp\<close> on an explicit heap
    of nodes, and \<open>src/src/lib/rlib/pool.hpp\<close> above it, with a step relation for its threads.
  \<^item> Wepoll_Queue, Wepoll_Tree, Wepoll_Win: the parts of \<open>src/src/lib/wepoll.c\<close>, the emulation of
    epoll on Windows: its intrusive queues on a heap, its red-black tree with the parent pointers
    as a list of frames, its error codes, initialisation and search for base sockets.
  \<^item> Wepoll_Port: its events, poll groups, sockets and ports, each operation a program on the state
    \<open>epoll_world\<close>; Wepoll_Port_Inv, Wepoll_Port_Safe, Wepoll_Port_Ops: the invariant of a port and
    that every operation keeps it, by weakest preconditions; Wepoll_System: the threads that use a
    port and the kernel, as a state machine; Wepoll_Handles: the reference lock on its 32-bit word
    and the threads that use a handle while one closes it; Wepoll_Api: the exported functions with
    their error results, for a thread that uses its handles alone.
  \<^item> Printing: \<open>src/src/lib/rlib/stdio.hpp\<close>, \<open>terminal.hpp\<close> and \<open>functional.hpp\<close> beside it;
    Sys_Helpers: \<open>mk_tcp_pipe\<close>, \<open>get_peer_name\<close>, \<open>MakeNonBlocking\<close>, \<open>execs\<close> and the
    time of the log; Build_Config: what \<open>src/src/lib/rlib/sys/os.hpp\<close> and \<open>meta.hpp\<close> decide at compile time.
  \<^item> Forwarder: \<open>src/src/forwarder.hpp\<close> and \<open>src/src/main.cc\<close>.

  The interfaces between the parts are locales: \<open>block_cipher\<close> (what the modes need of AES),
  \<open>datagram_codec\<close> (what the protocol needs of a filter) and \<open>connection_table\<close> (what the
  outbound needs of the mapping), \<open>object_store\<close> (what the pool needs of its list) and
  \<open>object_table\<close> (what the ports need of the search tree). Each is interpreted on the model of the code that provides it.

  What is proved: the block cipher is a permutation, and key expansion and encryption are those of
  published AES, as the digest is that of published SHA-256; ECB and CBC with padding decrypt what they encrypt and CTR is an
  involution, all without leaving a buffer; every filter undoes its conversion on the datagrams
  it accepts and mirrored configurations form a transparent tunnel; frames survive every
  segmentation of the stream and implement a queue; under every interleaving of the threads the
  datagrams are delivered in order, each on the connection of its client, and replies go back to
  the peer that asked. This also holds over a pipe of bounded size, where the two threads come to
  rest with everything delivered or with each waiting for the other to read. Two forwarders in a row
  give a user only replies from a connection that carries only this user's datagrams, as long as the
  datagrams pass the filters and buffers. The command line
  builds the configured forwarder; an error in it ends the program with exit code 2 on Windows and by
  an uncaught exception elsewhere. The containers of the
  libraries implement sequences, maps and pools; a port of the epoll emulation never uses a freed
  socket and loses no interest in events, under every interleaving of its threads with the kernel, its control is a map from
  sockets to events with the error numbers of epoll, and a handle
  is deleted only by the one thread that is left. Using a handle that another thread closes meanwhile is
  safe but for one step, which is characterised exactly: adding a socket that needs a new poll group. Where the code fails,
  the theorems state the failure: the fatal empty reply, the deadlock of the two threads, the key overrun of the XOR filter, the
  ignored cipher errors, the undefined erase of the option parser, the identifiers made of
  uninitialised memory, the truncating \<open>recvall\<close>.

  Bounds: byte counts are below \<open>2 ^ 64\<close> (below \<open>2 ^ 64 - 16\<close> where padding is added), messages
  on the pipe at most 2 GiB as the code requires, datagrams cut to the buffer of 20480 bytes.
  Each filter adds at most 16 bytes to a datagram, so chains of over a hundred million filters stay
  within that limit (\<open>short_output\<close>). The capacity of the pipe is any positive number of bytes.
  Loops that need not end (splitting at an empty string) are partial functions whose value
  \<open>None\<close> is divergence; loops over the answers of the operating system end with the answers, and
  \<open>None\<close> is an operation that still waits. The loops of the ports have fuel, as many turns as the
  queue or tree they empty has entries; running out is a fault, and no fault occurs.

  Parameters: \<open>std::hash\<close> is a function \<open>hash\<close>; the resolver and the socket calls are the record
  \<open>net_env\<close>, the answers of Windows to the epoll emulation the record \<open>os_calls\<close> (relied on:
  \<open>os_ok\<close>; \<open>os_accepts\<close> when the driver takes every request). The platform is 64-bit little-endian Linux, with the Windows variants of the socket
  openers beside the POSIX ones.

  Not modelled, since there is nothing left to translate faithfully: the stub of a port range
  protocol, which does not compile; the floating-point conversions of strings, which are those of
  the C++ library; type traits, deleted members and token pasting, which compute nothing; a
  deprecated wrapper of a lock that no file includes; the table of compilers, which is generated;
  the code that the preprocessor disables; the vendored pretty printers, which only print. Of \<open>wepoll.c\<close>
  the declarations and the conversions between a structure and its members remain, for which the
  model has one object. Each operation on a port under its lock is one step, also the deletion of a
  closed port: a result that the kernel writes between the freeing of a socket and the closing of its
  device handle is not represented.
\<close>

end
